(* ===== verification/Net_Prelude.thy ===== *)
theory Net_Prelude
  imports Main "HOL-Library.Word" "HOL-Library.Code_Target_Nat"
begin

text \<open>
  Shared vocabulary of the development.

  \<^item> Faulting computations: every place where the C code would dereference a null
    pointer, leave a buffer or fail an \<^verbatim>\<open>assert\<close> is a value of type \<open>fault\<close>, and a
    computation that may fault has type \<open>fault + 'a\<close>; \<open>andthen\<close> sequences two of them.
  \<^item> Memory: a buffer is a list of bytes; \<open>rd\<close> reads and \<open>upd\<close> overwrites a range,
    as \<^verbatim>\<open>memcpy\<close> and the packed-struct overlays of the code do.
  \<^item> Machine integers: 16- and 32-bit fields are read from and written to memory in
    the order of a little-endian host (the \<^verbatim>\<open>_LINUX_\<close> configuration of the makefiles);
    \<open>htons\<close>, \<open>ntohs\<close>, \<open>htonl\<close> and \<open>ntohl\<close> reverse the bytes.
  \<^item> C strings: a \<^verbatim>\<open>char *\<close> is the list of bytes from the pointer on; a string ends at
    its first zero byte (or at the end of the list).
  \<^item> The locale \<open>step_system\<close>: invariants of a transition system, interpreted by the
    components that are state machines.
\<close>

unbundle bit_operations_syntax

named_theorems buffer_simps \<open>reads and writes of byte buffers\<close>
named_theorems header_defs \<open>layout of the packet headers\<close>

type_synonym byte = "8 word"
type_synonym uint16 = "16 word"
type_synonym uint32 = "32 word"
type_synonym time_t = int

section \<open>Faults\<close>

datatype fault =
    Null_deref        \<comment> \<open>a field of a null pointer is read or written\<close>
  | Out_of_bounds     \<comment> \<open>a buffer is accessed past its end\<close>
  | Use_after_free    \<comment> \<open>a freed heap block is accessed\<close>
  | Assert_failed     \<comment> \<open>an assert of the source fails\<close>
  | Diverges          \<comment> \<open>the recursion bound is exhausted\<close>

text \<open>A program exits with a status or goes on with a value.\<close>

datatype 'a program = Exits int | Goes_on 'a

definition andthen :: "fault + 'a \<Rightarrow> ('a \<Rightarrow> fault + 'b) \<Rightarrow> fault + 'b" where
  "andthen m k = (case m of Inl e \<Rightarrow> Inl e | Inr x \<Rightarrow> k x)"

lemma andthen_Inl [simp]: "andthen (Inl e) k = Inl e"
  by (simp add: andthen_def)

lemma andthen_Inr [simp]: "andthen (Inr x) k = k x"
  by (simp add: andthen_def)

lemma andthen_eq_Inr:
  "andthen m k = Inr y \<longleftrightarrow> (\<exists>x. m = Inr x \<and> k x = Inr y)"
  by (cases m) auto

lemma andthen_InrE:
  assumes "andthen m k = Inr y"
  obtains x where "m = Inr x" and "k x = Inr y"
  using assms by (auto simp: andthen_eq_Inr)

text \<open>\<open>need c f k\<close>: continue with \<open>k\<close> where the condition holds, fault with \<open>f\<close> otherwise.\<close>

definition need :: "bool \<Rightarrow> fault \<Rightarrow> (fault + 'a) \<Rightarrow> fault + 'a" where
  "need c f k = (if c then k else Inl f)"

lemma need_True [simp]: "need True f k = k"
  by (simp add: need_def)

lemma need_False [simp]: "need False f k = Inl f"
  by (simp add: need_def)

lemma need_eq_Inr: "need c f k = Inr y \<longleftrightarrow> c \<and> k = Inr y"
  by (simp add: need_def)

text \<open>Dereferencing a pointer that may be null.\<close>

definition deref :: "'a option \<Rightarrow> ('a \<Rightarrow> fault + 'b) \<Rightarrow> fault + 'b" where
  "deref p k = (case p of None \<Rightarrow> Inl Null_deref | Some x \<Rightarrow> k x)"

lemma deref_simps [simp]: "deref None k = Inl Null_deref" "deref (Some x) k = k x"
  by (simp_all add: deref_def)

lemma deref_eq_Inr: "deref p k = Inr y \<longleftrightarrow> (\<exists>x. p = Some x \<and> k x = Inr y)"
  by (cases p) auto

section \<open>Byte buffers\<close>

definition rd :: "nat \<Rightarrow> nat \<Rightarrow> byte list \<Rightarrow> byte list" where
  "rd off n p = take n (drop off p)"

definition upd :: "nat \<Rightarrow> byte list \<Rightarrow> byte list \<Rightarrow> byte list" where
  "upd off bs p = take off p @ take (length p - off) bs @ drop (off + length bs) p"

lemma length_rd [simp]: "length (rd off n p) = min n (length p - off)"
  by (simp add: rd_def)

lemma length_upd [simp]: "length (upd off bs p) = length p"
  by (simp add: upd_def)

lemma rd_upd_same [buffer_simps]:
  "n = length bs \<Longrightarrow> off + n \<le> length p \<Longrightarrow> rd off n (upd off bs p) = bs"
  by (simp add: rd_def upd_def)

lemma rd_upd_other [buffer_simps]:
  assumes "off' + n \<le> off \<or> off + length bs \<le> off'"
  shows "rd off' n (upd off bs p) = rd off' n p"
proof (rule nth_equalityI)
  show "length (rd off' n (upd off bs p)) = length (rd off' n p)"
    by simp
  fix i
  assume "i < length (rd off' n (upd off bs p))"
  then have i: "i < n" "off' + i < length p"
    by auto
  with assms show "rd off' n (upd off bs p) ! i = rd off' n p ! i"
    by (auto simp: rd_def upd_def nth_append)
qed

lemma rd_whole: "length p = n \<Longrightarrow> rd 0 n p = p"
  by (simp add: rd_def)

lemma rd_append_left [buffer_simps]: "off + n \<le> length p \<Longrightarrow> rd off n (p @ q) = rd off n p"
  by (simp add: rd_def)

lemma rd_append_right [buffer_simps]:
  "length p \<le> off \<Longrightarrow> rd off n (p @ q) = rd (off - length p) n q"
  by (simp add: rd_def)

lemma rd_take [buffer_simps]: "off + n \<le> m \<Longrightarrow> rd off n (take m p) = rd off n p"
  by (simp add: rd_def drop_take take_take min_def)

lemma rd_drop [buffer_simps]: "rd off n (drop m p) = rd (m + off) n p"
  by (simp add: rd_def add.commute)

section \<open>Machine integers in memory\<close>

lemma unat_lt_256: "unat (b :: byte) < 256"
  using unsigned_less [of b] by simp

lemma unat_lt_65536: "unat (w :: uint16) < 65536"
  using unsigned_less [of w] by simp

lemma unat_lt_4294967296: "unat (w :: uint32) < 4294967296"
  using unsigned_less [of w] by simp

definition le16 :: "byte list \<Rightarrow> uint16" where
  "le16 bs = (case bs of [a, b] \<Rightarrow> word_of_nat (unat a + 256 * unat b) | _ \<Rightarrow> 0)"

definition bytes16 :: "uint16 \<Rightarrow> byte list" where
  "bytes16 w = [word_of_nat (unat w mod 256), word_of_nat (unat w div 256)]"

definition le32 :: "byte list \<Rightarrow> uint32" where
  "le32 bs = (case bs of
     [a, b, c, d] \<Rightarrow> word_of_nat (unat a + 256 * (unat b + 256 * (unat c + 256 * unat d)))
   | _ \<Rightarrow> 0)"

definition bytes32 :: "uint32 \<Rightarrow> byte list" where
  "bytes32 w = [word_of_nat (unat w mod 256), word_of_nat (unat w div 256 mod 256),
     word_of_nat (unat w div 256 div 256 mod 256), word_of_nat (unat w div 256 div 256 div 256)]"

lemma length_bytes16 [simp]: "length (bytes16 w) = 2"
  by (simp add: bytes16_def)

lemma length_bytes32 [simp]: "length (bytes32 w) = 4"
  by (simp add: bytes32_def)

lemma unat_word_of_nat16: "n < 65536 \<Longrightarrow> unat (word_of_nat n :: uint16) = n"
  by (simp only: unat_of_nat) simp

lemma unat_word_of_nat32: "n < 4294967296 \<Longrightarrow> unat (word_of_nat n :: uint32) = n"
  by (simp only: unat_of_nat) simp

lemma unat_word_of_nat8: "n < 256 \<Longrightarrow> unat (word_of_nat n :: byte) = n"
  by (simp only: unat_of_nat) simp

lemma horner_256_less: "(x :: nat) < 256 \<Longrightarrow> y < n \<Longrightarrow> x + 256 * y < 256 * n"
proof -
  assume "x < 256" and "y < n"
  then have "256 * Suc y \<le> 256 * n" by (intro mult_le_mono) simp_all
  with \<open>x < 256\<close> show ?thesis by simp
qed

lemma unat_le16: "unat (le16 [a, b]) = unat a + 256 * unat b"
proof -
  have "unat a + 256 * unat b < 65536"
    using unat_lt_256 [of a] unat_lt_256 [of b] by linarith
  then show ?thesis
    unfolding le16_def list.case by (rule unat_word_of_nat16)
qed

lemma unat_le32:
  "unat (le32 [a, b, c, d]) = unat a + 256 * (unat b + 256 * (unat c + 256 * unat d))"
proof -
  have "unat a + 256 * (unat b + 256 * (unat c + 256 * unat d)) < 256 * (256 * (256 * 256))"
    by (intro horner_256_less unat_lt_256)
  then have "unat a + 256 * (unat b + 256 * (unat c + 256 * unat d)) < 4294967296"
    by simp
  then show ?thesis
    unfolding le32_def list.case by (rule unat_word_of_nat32)
qed

lemma le16_bytes16 [simp]: "le16 (bytes16 w) = w"
proof (rule unsigned_word_eqI)
  have "unat w div 256 < 256"
    using unat_lt_65536 [of w] by (simp add: less_mult_imp_div_less)
  then show "unat (le16 (bytes16 w)) = unat w"
    unfolding bytes16_def unat_le16 by (simp add: unat_word_of_nat8)
qed

lemma digits_256: "(n :: nat) mod 256 + 256 * (n div 256 mod 256 +
    256 * (n div 256 div 256 mod 256 + 256 * (n div 256 div 256 div 256))) = n"
  by (metis mod_mult_div_eq)

lemma le32_bytes32 [simp]: "le32 (bytes32 w) = w"
proof (rule unsigned_word_eqI)
  have "unat w div 16777216 < 256"
    using unat_lt_4294967296 [of w] by (simp add: less_mult_imp_div_less)
  then have "unat w div 256 div 256 div 256 < 256"
    by (simp add: div_mult2_eq [symmetric])
  then show "unat (le32 (bytes32 w)) = unat w"
    unfolding bytes32_def unat_le32 by (simp only: unat_word_of_nat8 mod_less_divisor digits_256
        zero_less_numeral)
qed

lemma bytes16_le16: "length bs = 2 \<Longrightarrow> bytes16 (le16 bs) = bs"
proof (goal_cases)
  case 1
  then obtain a b where bs: "bs = [a, b]"
    by (auto simp: length_Suc_conv eval_nat_numeral)
  have "(unat a + 256 * unat b) mod 256 = unat a" "(unat a + 256 * unat b) div 256 = unat b"
    using unat_lt_256 [of a] by simp_all
  then show ?case by (simp add: bs bytes16_def unat_le16)
qed

lemma div_mod_256:
  "(x :: nat) < 256 \<Longrightarrow> (x + 256 * m) mod 256 = x" "x < 256 \<Longrightarrow> (x + 256 * m) div 256 = m"
  by simp_all

lemma bytes32_le32: "length bs = 4 \<Longrightarrow> bytes32 (le32 bs) = bs"
proof (goal_cases)
  case 1
  then obtain a b c d where bs: "bs = [a, b, c, d]"
    by (auto simp: length_Suc_conv eval_nat_numeral)
  show ?case
    unfolding bs bytes32_def unat_le32
    by (simp only: div_mod_256 unat_lt_256) simp
qed

text \<open>Host order to network order, and back: the bytes in memory are reversed.\<close>

definition htons :: "uint16 \<Rightarrow> uint16" where
  "htons w = le16 (rev (bytes16 w))"

definition ntohs :: "uint16 \<Rightarrow> uint16" where
  "ntohs w = htons w"

definition htonl :: "uint32 \<Rightarrow> uint32" where
  "htonl w = le32 (rev (bytes32 w))"

definition ntohl :: "uint32 \<Rightarrow> uint32" where
  "ntohl w = htonl w"

lemma htons_htons [simp]: "htons (htons w) = w"
  by (simp add: htons_def bytes16_le16)

lemma ntohs_htons [simp]: "ntohs (htons w) = w" "htons (ntohs w) = w"
  by (simp_all add: ntohs_def)

lemma htonl_htonl [simp]: "htonl (htonl w) = w"
  by (simp add: htonl_def bytes32_le32)

lemma ntohl_htonl [simp]: "ntohl (htonl w) = w" "htonl (ntohl w) = w"
  by (simp_all add: ntohl_def)

lemma htons_eq_iff [simp]: "htons a = htons b \<longleftrightarrow> a = b"
  by (metis htons_htons)

lemma ntohs_eq_iff [simp]: "ntohs a = ntohs b \<longleftrightarrow> a = b"
  by (simp add: ntohs_def)

text \<open>The 16-bit value of two bytes in network order.\<close>

lemma unat_ntohs_le16: "unat (ntohs (le16 [a, b])) = 256 * unat a + unat b"
  by (simp add: ntohs_def htons_def bytes16_le16 unat_le16)

text \<open>Fields of a buffer.\<close>

abbreviation ld8 :: "nat \<Rightarrow> byte list \<Rightarrow> byte" where
  "ld8 off p \<equiv> hd (rd off 1 p)"

abbreviation ld16 :: "nat \<Rightarrow> byte list \<Rightarrow> uint16" where
  "ld16 off p \<equiv> le16 (rd off 2 p)"

abbreviation ld32 :: "nat \<Rightarrow> byte list \<Rightarrow> uint32" where
  "ld32 off p \<equiv> le32 (rd off 4 p)"

abbreviation st8 :: "nat \<Rightarrow> byte \<Rightarrow> byte list \<Rightarrow> byte list" where
  "st8 off b p \<equiv> upd off [b] p"

abbreviation st16 :: "nat \<Rightarrow> uint16 \<Rightarrow> byte list \<Rightarrow> byte list" where
  "st16 off w p \<equiv> upd off (bytes16 w) p"

abbreviation st32 :: "nat \<Rightarrow> uint32 \<Rightarrow> byte list \<Rightarrow> byte list" where
  "st32 off w p \<equiv> upd off (bytes32 w) p"

section \<open>C strings\<close>

definition cstr :: "byte list \<Rightarrow> byte list" where
  "cstr s = takeWhile (\<lambda>c. c \<noteq> 0) s"

definition strncpy :: "nat \<Rightarrow> byte list \<Rightarrow> byte list" where
  "strncpy n s = (let c = take n (cstr s) in c @ replicate (n - length c) 0)"

fun strncmp_eq :: "nat \<Rightarrow> byte list \<Rightarrow> byte list \<Rightarrow> bool" where
  "strncmp_eq 0 s t = True"
| "strncmp_eq (Suc n) s t =
     (let a = (case s of [] \<Rightarrow> 0 | c # _ \<Rightarrow> c); b = (case t of [] \<Rightarrow> 0 | c # _ \<Rightarrow> c)
      in if a \<noteq> b then False else if a = 0 then True else strncmp_eq n (tl s) (tl t))"

lemma strncmp_eq_iff: "strncmp_eq n s t \<longleftrightarrow> take n (cstr s) = take n (cstr t)"
proof (induction n arbitrary: s t)
  case 0
  show ?case by simp
next
  case (Suc n)
  show ?case
    by (cases s; cases t) (auto simp: Let_def cstr_def Suc)
qed

lemma length_strncpy [simp]: "length (strncpy n s) = n"
  by (auto simp: strncpy_def Let_def)

lemma takeWhile_nonzero_id: "\<forall>x \<in> set xs. x \<noteq> 0 \<Longrightarrow> takeWhile (\<lambda>c. c \<noteq> (0::byte)) (xs @ replicate k 0) = xs"
  by (simp add: takeWhile_append2 takeWhile_replicate)

lemma cstr_strncpy: "cstr (strncpy n s) = take n (cstr s)"
proof -
  have "\<forall>x \<in> set (take n (cstr s)). x \<noteq> 0"
    by (auto simp: cstr_def dest: in_set_takeD set_takeWhileD)
  then show ?thesis
    by (simp add: strncpy_def Let_def cstr_def [of "_ @ _"] takeWhile_nonzero_id)
qed

lemma strncmp_eq_strncpy: "strncmp_eq n (strncpy n s) t \<longleftrightarrow> strncmp_eq n s t"
  by (simp add: strncmp_eq_iff cstr_strncpy)

lemma strncmp_eq_refl [simp]: "strncmp_eq n s s"
  by (simp add: strncmp_eq_iff)

section \<open>Association by first match\<close>

text \<open>
  The code walks its linked lists from the head and stops at the first node that
  satisfies a test: \<open>find\<close>. Appending at the tail cannot shadow an older node.
\<close>

lemma find_append: "find P (xs @ ys) = (case find P xs of Some x \<Rightarrow> Some x | None \<Rightarrow> find P ys)"
  by (induction xs) auto

lemma find_eq_None: "find P xs = None \<longleftrightarrow> (\<forall>x \<in> set xs. \<not> P x)"
  by (auto simp: find_None_iff)

lemma find_SomeD: "find P xs = Some x \<Longrightarrow> x \<in> set xs \<and> P x"
  by (induction xs) (auto split: if_splits)

section \<open>Transition systems\<close>

text \<open>
  A component whose state changes by steps: what holds initially and is kept by every
  step holds in every state that can be reached.
\<close>

inductive reachable_from :: "('s \<Rightarrow> 's \<Rightarrow> bool) \<Rightarrow> 's \<Rightarrow> 's \<Rightarrow> bool"
  for step :: "'s \<Rightarrow> 's \<Rightarrow> bool" and s0 :: 's where
  start: "reachable_from step s0 s0"
| next_state: "reachable_from step s0 s \<Longrightarrow> step s t \<Longrightarrow> reachable_from step s0 t"

locale step_system =
  fixes step :: "'s \<Rightarrow> 's \<Rightarrow> bool"
    and init :: "'s \<Rightarrow> bool"
    and inv :: "'s \<Rightarrow> bool"
  assumes init_inv: "init s \<Longrightarrow> inv s"
    and step_inv: "inv s \<Longrightarrow> step s t \<Longrightarrow> inv t"
begin

lemma reachable_inv:
  assumes "reachable_from step s0 s" and "init s0"
  shows "inv s"
  using assms by (induction rule: reachable_from.induct) (auto intro: init_inv step_inv)

lemma inv_preserved:
  assumes "reachable_from step s t" and "inv s"
  shows "inv t"
  using assms by (induction rule: reachable_from.induct) (auto intro: step_inv)

end

end
