(* ===== verification/Inet_Cksum.thy ===== *)
theory Inet_Cksum
  imports Net_Prelude
begin

text \<open>
  The Internet checksum of the router (\<^verbatim>\<open>sr_utils.c\<close>, function \<^verbatim>\<open>cksum\<close>): the 32-bit
  accumulation loop, the folding loop with its termination, and the final complement.
  The reference is arithmetic modulo 65535 on the sum of the big-endian 16-bit words
  (\<open>be_sum\<close>); \<open>cksum_closed_form\<close> says that the code computes it for every buffer
  of at most 131070 bytes, which covers every Ethernet frame.
\<close>

section \<open>The code\<close>

fun cksum_loop :: "uint32 \<Rightarrow> byte list \<Rightarrow> uint32" where
  "cksum_loop acc (d0 # d1 # data) =
     cksum_loop (acc + (push_bit 8 (ucast d0) OR ucast d1)) data"
| "cksum_loop acc [d0] = acc + push_bit 8 (ucast d0)"
| "cksum_loop acc [] = acc"

lemma unat_fold_step:
  "unat (drop_bit 16 s + (s AND 0xFFFF) :: uint32) = unat s div 65536 + unat s mod 65536"
proof -
  have hi: "unat (drop_bit 16 s) = unat s div 65536"
    by (simp only: unat_drop_bit_eq) (simp add: drop_bit_eq_div)
  have mask: "(0xFFFF :: uint32) = mask 16"
    by (simp add: mask_eq_exp_minus_1)
  have lo: "unat (s AND 0xFFFF) = unat s mod 65536"
    unfolding mask
    by (simp only: take_bit_eq_mask [symmetric] unsigned_take_bit_eq) (simp add: take_bit_eq_mod)
  have "unat s div 65536 < 65536"
    using unat_lt_4294967296 [of s] by (simp add: less_mult_imp_div_less)
  then have "unat s div 65536 + unat s mod 65536 < 4294967296"
    using mod_less_divisor [of 65536 "unat s"] by linarith
  then show ?thesis
    by (simp add: unat_word_ariths hi lo)
qed

lemma less_word_unat: "(s :: uint32) > 0xFFFF \<longleftrightarrow> unat s > 65535"
  by (simp add: word_less_nat_alt)

function fold16 :: "uint32 \<Rightarrow> uint32" where
  "fold16 acc = (if acc > 0xFFFF then fold16 (drop_bit 16 acc + (acc AND 0xFFFF)) else acc)"
  by pat_completeness auto
termination
proof (relation "measure unat", goal_cases)
  case 1
  show ?case by simp
next
  case (2 acc)
  then have "unat acc \<ge> 65536" by (simp add: less_word_unat)
  then have "unat acc div 65536 \<ge> 1" by simp
  then have "unat acc div 65536 + unat acc mod 65536 < unat acc"
    using div_mult_mod_eq [of "unat acc" 65536] by linarith
  then show ?case by (simp only: in_measure unat_fold_step)
qed

declare fold16.simps [simp del]

definition cksum :: "byte list \<Rightarrow> uint16" where
  "cksum data =
     (let acc = fold16 (cksum_loop 0 data);
          acc = htons (ucast (NOT acc))
      in if acc \<noteq> 0 then acc else 0xFFFF)"

section \<open>The reference\<close>

fun be_sum :: "byte list \<Rightarrow> nat" where
  "be_sum (a # b # data) = 256 * unat a + unat b + be_sum data"
| "be_sum [a] = 256 * unat a"
| "be_sum [] = 0"

lemma be_sum_bound: "be_sum data \<le> 65535 * ((length data + 1) div 2)"
proof (induction data rule: be_sum.induct)
  case (1 a b data)
  then show ?case using unat_lt_256 [of a] unat_lt_256 [of b] by simp
next
  case (2 a)
  then show ?case using unat_lt_256 [of a] by simp
qed simp

lemma be_sum_append: "even (length p) \<Longrightarrow> be_sum (p @ q) = be_sum p + be_sum q"
  by (induction p rule: be_sum.induct) auto

section \<open>The accumulation loop\<close>

lemma word16_bytes:
  fixes a b :: byte
  shows "(push_bit 8 (ucast a) OR ucast b :: uint32) = word_of_nat (256 * unat a + unat b)"
proof -
  have "(push_bit 8 (ucast a) AND ucast b :: uint32) = 0"
    by (rule bit_word_eqI) (auto simp: bit_simps dest: bit_imp_le_length)
  then have "(push_bit 8 (ucast a) OR ucast b :: uint32) = push_bit 8 (ucast a) + ucast b"
    by (metis add.left_neutral word_plus_and_or)
  then show ?thesis by (simp add: push_bit_eq_mult)
qed

lemma unat_word16_bytes:
  fixes a b :: byte
  shows "unat (push_bit 8 (ucast a) OR ucast b :: uint32) = 256 * unat a + unat b"
proof -
  have "256 * unat a + unat b < 4294967296"
    using unat_lt_256 [of a] unat_lt_256 [of b] by linarith
  then show ?thesis unfolding word16_bytes by (rule unat_word_of_nat32)
qed

lemma unat_byte_shift:
  fixes a :: byte
  shows "unat (push_bit 8 (ucast a) :: uint32) = 256 * unat a"
  using unat_word16_bytes [of a 0] by simp

lemma unat_add_no_wrap:
  "unat (x :: uint32) + unat y < 4294967296 \<Longrightarrow> unat (x + y) = unat x + unat y"
  by (simp add: unat_word_ariths)

lemma unat_cksum_loop:
  "unat acc + be_sum data < 4294967296 \<Longrightarrow> unat (cksum_loop acc data) = unat acc + be_sum data"
proof (induction acc data rule: cksum_loop.induct)
  case (1 acc d0 d1 data)
  let ?s = "acc + (push_bit 8 (ucast d0) OR ucast d1)"
  have "unat ?s = unat acc + (256 * unat d0 + unat d1)"
    using "1.prems" by (simp add: unat_add_no_wrap unat_word16_bytes)
  then show ?case using "1.IH" "1.prems" by simp
next
  case (2 acc d0)
  then show ?case by (simp add: unat_add_no_wrap unat_byte_shift)
qed simp

section \<open>The folding loop\<close>

text \<open>Folding keeps the value modulo 65535 and maps only zero to zero.\<close>

definition oc_fold :: "nat \<Rightarrow> nat" where
  "oc_fold n = (if n = 0 then 0 else (n - 1) mod 65535 + 1)"

lemma oc_fold_small: "n \<le> 65535 \<Longrightarrow> oc_fold n = n"
  by (cases n) (auto simp: oc_fold_def)

lemma oc_fold_le: "oc_fold n \<le> 65535"
  using mod_less_divisor [of 65535 "n - 1"] by (auto simp: oc_fold_def)

lemma oc_fold_step:
  assumes "n > 65535"
  shows "oc_fold (n div 65536 + n mod 65536) = oc_fold n"
proof -
  define q r where "q = n div 65536" and "r = n mod 65536"
  have n: "n = q * 65536 + r" and q: "1 \<le> q"
    using assms by (simp_all add: q_def r_def)
  then have "n - 1 = (q + r - 1) + 65535 * q" and "q + r \<noteq> 0" and "n \<noteq> 0"
    by simp_all
  then have "(n - 1) mod 65535 = (q + r - 1) mod 65535"
    by (metis mod_mult_self2)
  then show ?thesis
    using \<open>q + r \<noteq> 0\<close> \<open>n \<noteq> 0\<close> by (simp add: oc_fold_def q_def [symmetric] r_def [symmetric])
qed

lemma oc_fold_eq_iff:
  "oc_fold m = oc_fold n \<longleftrightarrow> m mod 65535 = n mod 65535 \<and> (m = 0 \<longleftrightarrow> n = 0)"
proof (cases "m = 0 \<or> n = 0")
  case True
  then show ?thesis by (auto simp: oc_fold_def)
next
  case False
  then obtain m' n' where "m = Suc m'" "n = Suc n'"
    by (metis not0_implies_Suc)
  then show ?thesis
    by (auto simp: oc_fold_def) (metis mod_Suc_eq, metis mod_Suc old.nat.inject nat.distinct(1))
qed

lemma oc_fold_mod: "65535 - oc_fold n mod 65535 = 65535 - n mod 65535"
proof (cases n)
  case (Suc m)
  then show ?thesis by (simp add: oc_fold_def mod_Suc_eq)
qed (simp add: oc_fold_def)

lemma unat_fold16: "unat (fold16 s) = oc_fold (unat s)"
proof (induction s rule: fold16.induct)
  case (1 s)
  show ?case
  proof (cases "s > 0xFFFF")
    case True
    then have "unat (fold16 s) = oc_fold (unat s div 65536 + unat s mod 65536)"
      using 1 by (subst fold16.simps) (simp only: if_True unat_fold_step)
    with True show ?thesis by (simp add: oc_fold_step less_word_unat)
  next
    case False
    then show ?thesis
      by (subst fold16.simps) (simp add: oc_fold_small less_word_unat not_less)
  qed
qed

section \<open>The checksum\<close>

lemma unat_not_trunc:
  assumes "unat (s :: uint32) \<le> 65535"
  shows "unat (ucast (NOT s) :: uint16) = 65535 - unat s"
proof -
  have "ucast (NOT s) = (NOT (ucast s) :: uint16)"
    by (rule bit_word_eqI) (auto simp: bit_simps)
  moreover have "unat (ucast s :: uint16) = unat s"
    using assms by (simp add: unsigned_ucast_eq take_bit_eq_mod)
  ultimately show ?thesis
    by (simp add: unat_sub not_eq_complement minus_diff_commute word_order.extremum
        unsigned_minus_1_eq_mask mask_eq_exp_minus_1)
qed

text \<open>The length bound below keeps the 32-bit accumulator from wrapping.\<close>

lemma be_sum_less: "length data \<le> 131070 \<Longrightarrow> be_sum data < 4294967296"
proof -
  assume "length data \<le> 131070"
  then have "(length data + 1) div 2 \<le> 65535" by linarith
  then have "65535 * ((length data + 1) div 2) \<le> 65535 * 65535" by (intro mult_le_mono) simp_all
  then show ?thesis using be_sum_bound [of data] by simp
qed

lemma cksum_value:
  assumes "length data \<le> 131070"
  shows "unat (ntohs (cksum data)) = 65535 - be_sum data mod 65535"
proof -
  define s where "s = fold16 (cksum_loop 0 data)"
  have "unat (cksum_loop 0 data) = be_sum data"
    using be_sum_less [OF assms] by (simp add: unat_cksum_loop)
  then have s: "unat s = oc_fold (be_sum data)"
    by (simp add: s_def unat_fold16)
  have n: "unat (ucast (NOT s) :: uint16) = 65535 - oc_fold (be_sum data)"
    using oc_fold_le [of "be_sum data"] by (simp add: unat_not_trunc s)
  have zero: "htons (ucast (NOT s)) = 0 \<longleftrightarrow> oc_fold (be_sum data) = 65535"
  proof -
    have "htons (ucast (NOT s)) = 0 \<longleftrightarrow> (ucast (NOT s) :: uint16) = 0"
      using htons_eq_iff [of "ucast (NOT s)" 0] by (simp add: htons_def bytes16_def le16_def)
    also have "\<dots> \<longleftrightarrow> unat (ucast (NOT s) :: uint16) = 0"
      by (simp add: unat_eq_0)
    finally show ?thesis
      using n oc_fold_le [of "be_sum data"] by auto
  qed
  show ?thesis
  proof (cases "oc_fold (be_sum data) = 65535")
    case True
    then have "be_sum data mod 65535 = 0"
      using oc_fold_mod [of "be_sum data"] mod_less_divisor [of 65535 "be_sum data"] by simp
    moreover have "cksum data = 0xFFFF"
      using zero True by (simp add: cksum_def s_def [symmetric])
    moreover have "unat (ntohs 0xFFFF) = 65535"
      by (simp add: ntohs_def htons_def bytes16_def le16_def)
    ultimately show ?thesis by simp
  next
    case False
    then have "cksum data = htons (ucast (NOT s))"
      using zero by (simp add: cksum_def s_def [symmetric])
    then show ?thesis
      using n False oc_fold_mod [of "be_sum data"] oc_fold_le [of "be_sum data"] by simp
  qed
qed

text \<open>Two checksums are equal exactly when the sums agree modulo 65535.\<close>

lemma cksum_eq_iff:
  assumes "length p \<le> 131070" and "length q \<le> 131070"
  shows "cksum p = cksum q \<longleftrightarrow> be_sum p mod 65535 = be_sum q mod 65535"
proof -
  have "cksum p = cksum q \<longleftrightarrow> unat (ntohs (cksum p)) = unat (ntohs (cksum q))"
    by (metis ntohs_eq_iff unsigned_word_eqI)
  also have "\<dots> \<longleftrightarrow> be_sum p mod 65535 = be_sum q mod 65535"
    using mod_less_divisor [of 65535 "be_sum p"] mod_less_divisor [of 65535 "be_sum q"]
    by (simp add: cksum_value assms) linarith
  finally show ?thesis .
qed

section \<open>Error detection\<close>

text \<open>One byte of a buffer weighs 1 or 256 in the sum.\<close>

lemma be_sum_byte:
  "i < length p \<Longrightarrow>
    be_sum (p[i := b]) + (if even i then 256 else 1) * unat (p ! i) =
    be_sum p + (if even i then 256 else 1) * unat b"
proof (induction p arbitrary: i rule: be_sum.induct)
  case (1 x y data)
  consider "i = 0" | "i = 1" | j where "i = Suc (Suc j)"
    by (metis One_nat_def not0_implies_Suc)
  then show ?case
  proof cases
    case 3
    then show ?thesis using "1.IH" [of j] "1.prems" by simp
  qed (simp_all)
qed simp_all

lemma mod_65535_cancel:
  fixes m n x y :: nat
  assumes "m + w * x = n + w * y" and "x \<noteq> y" and "x < 256" and "y < 256"
    and "w = 1 \<or> w = 256"
  shows "m mod 65535 \<noteq> n mod 65535"
proof
  assume eq: "m mod 65535 = n mod 65535"
  have w: "w * x < 65535" "w * y < 65535" "w * x \<noteq> w * y"
    using assms(2-5) by auto
  from eq have "(65535 :: int) dvd int m - int n"
    by (metis mod_eq_dvd_iff of_nat_mod of_nat_numeral)
  moreover have "int m - int n = int (w * y) - int (w * x)"
    using assms(1) by linarith
  ultimately have "(65535 :: int) dvd int (w * y) - int (w * x)" by simp
  moreover have "int (w * y) - int (w * x) \<noteq> 0"
    using w(3) by linarith
  ultimately have "\<bar>65535 :: int\<bar> \<le> \<bar>int (w * y) - int (w * x)\<bar>"
    by (intro dvd_imp_le_int)
  with w(1,2) show False by linarith
qed

lemma cksum_byte_change:
  assumes "i < length p" and "b \<noteq> p ! i" and "length p \<le> 131070"
  shows "cksum (p[i := b]) \<noteq> cksum p"
proof -
  have "unat (p ! i) \<noteq> unat b"
    using assms(2) by (metis unsigned_word_eqI)
  then have "be_sum (p[i := b]) mod 65535 \<noteq> be_sum p mod 65535"
    using mod_65535_cancel [OF be_sum_byte [OF assms(1), of b]] unat_lt_256 by auto
  then show ?thesis using assms by (simp add: cksum_eq_iff)
qed

section \<open>Headers that carry their checksum\<close>

text \<open>Writing a 16-bit field of a header changes the sum by the field's value.\<close>

lemma be_sum_bytes16: "be_sum (bytes16 w) = unat (ntohs w)"
  by (simp add: bytes16_def ntohs_def htons_def unat_le16)

lemma be_sum_field:
  assumes "off + 2 \<le> length p" and "even off"
  shows "be_sum (upd off (bytes16 w) p) + unat (ntohs (ld16 off p)) = be_sum p + unat (ntohs w)"
proof -
  have split: "p = take off p @ rd off 2 p @ drop (off + 2) p"
    by (metis append_take_drop_id drop_drop add.commute rd_def)
  have b: "rd off 2 p = bytes16 (ld16 off p)"
    using assms by (intro bytes16_le16 [symmetric]) simp
  have "be_sum p = be_sum (take off p) + (unat (ntohs (ld16 off p)) + be_sum (drop (off + 2) p))"
    using assms by (subst split, subst b) (simp add: be_sum_append be_sum_bytes16 del: append_assoc)
  moreover have "be_sum (upd off (bytes16 w) p) =
      be_sum (take off p) + (unat (ntohs w) + be_sum (drop (off + 2) p))"
    using assms by (simp add: upd_def be_sum_append be_sum_bytes16)
  ultimately show ?thesis by simp
qed

lemma ld16_zero_field:
  "off + 2 \<le> length p \<Longrightarrow> even off \<Longrightarrow>
    be_sum (upd off (bytes16 w) (upd off (bytes16 0) p)) = be_sum (upd off (bytes16 0) p) + unat (ntohs w)"
  using be_sum_field [of off "upd off (bytes16 0) p" w]
  by (simp add: buffer_simps ntohs_def htons_def bytes16_def [of 0] le16_def)

text \<open>
  Clearing the field, computing the checksum and storing it (the pattern of every sender
  in the router) makes the sum of the whole header a multiple of 65535.
\<close>

definition fill_cksum :: "nat \<Rightarrow> byte list \<Rightarrow> byte list" where
  "fill_cksum off h = upd off (bytes16 (cksum (upd off (bytes16 0) h))) (upd off (bytes16 0) h)"

lemma length_fill_cksum [simp]: "length (fill_cksum off h) = length h"
  by (simp add: fill_cksum_def)

lemma be_sum_fill_cksum:
  assumes "off + 2 \<le> length h" and "even off" and "length h \<le> 131070"
  shows "be_sum (fill_cksum off h) mod 65535 = 0"
proof -
  let ?h0 = "upd off (bytes16 0) h"
  have "be_sum (fill_cksum off h) = be_sum ?h0 + (65535 - be_sum ?h0 mod 65535)"
    using assms by (simp add: fill_cksum_def ld16_zero_field cksum_value)
  moreover have "(n + (65535 - n mod 65535)) mod 65535 = 0" for n :: nat
  proof -
    define r q where "r = n mod 65535" and "q = n div 65535"
    then have "n = q * 65535 + r" and "r < 65535" by simp_all
    then have "n + (65535 - r) = 65535 * (q + 1)" by simp
    then show ?thesis unfolding r_def [symmetric] by (metis mod_mult_self1_is_0)
  qed
  ultimately show ?thesis by simp
qed

section \<open>Properties\<close>

text \<open>
  C22: for every buffer of at most 131070 bytes the checksum, read in network order, is the
  complement of the one's-complement sum of its big-endian 16-bit words (an odd last byte
  counts as the high half of a word); it is never zero.
\<close>

theorem cksum_closed_form:
  assumes "length data \<le> 131070"
  shows "unat (ntohs (cksum data)) = 65535 - be_sum data mod 65535 \<and> cksum data \<noteq> 0"
  using cksum_value [OF assms] by (auto simp: cksum_def Let_def)

theorem cksum_closed_form_witness:
  "unat (ntohs (cksum [0x45, 0, 0xFF])) = 65535 - be_sum [0x45, 0, 0xFF] mod 65535 \<and>
   be_sum [0x45, 0, 0xFF] = 0x4500 + 0xFF00"
  using cksum_closed_form [of "[0x45, 0, 0xFF]"] by simp

text \<open>
  Corruption of any single byte of a checksummed buffer changes its checksum.
\<close>

theorem cksum_detects_byte_change:
  assumes "i < length p" and "b \<noteq> p ! i" and "length p \<le> 131070"
  shows "cksum (p[i := b]) \<noteq> cksum p"
  using assms by (rule cksum_byte_change)

theorem cksum_detects_byte_change_witness:
  "cksum [1, 2, 3] \<noteq> cksum [1, 7, 3]"
  using cksum_detects_byte_change [of 1 "[1, 7, 3]" 2] by simp

end
