(* ===== verification/C_Text.thy ===== *)
theory C_Text
  imports Net_Prelude
begin

text \<open>
  The text conversions of the C library that the programs share: decimal and hexadecimal output, the number
  conversions of \<^verbatim>\<open>sscanf\<close> and \<^verbatim>\<open>atoi\<close>, dotted Internet addresses, and the scan of a command line by \<^verbatim>\<open>getopt\<close>. Text is a list of
  bytes.
\<close>

section \<open>Numbers\<close>

definition ascii :: "string \<Rightarrow> byte list" where "ascii s = map of_char s"

text \<open>The conversion \<^verbatim>\<open>%lu\<close> of a number, and \<^verbatim>\<open>%d\<close> of \<^verbatim>\<open>sscanf\<close>.\<close>

fun decimal :: "nat \<Rightarrow> byte list" where
  "decimal n = (if n < 10 then [word_of_nat (48 + n)] else decimal (n div 10) @ [word_of_nat (48 + n mod 10)])"

declare decimal.simps [simp del]

definition is_dec :: "byte \<Rightarrow> bool" where
  "is_dec b \<longleftrightarrow> 48 \<le> b \<and> b \<le> 57"

definition dec_val :: "byte list \<Rightarrow> nat" where
  "dec_val bs = foldl (\<lambda>n b. 10 * n + (unat b - 48)) 0 bs"

definition scan_int :: "byte list \<Rightarrow> int option" where
  "scan_int bs =
     (let bs = dropWhile (\<lambda>b. b \<in> {9, 10, 11, 12, 13, 32}) bs;
          neg = (bs \<noteq> [] \<and> hd bs = 45);
          ds = takeWhile is_dec (if bs \<noteq> [] \<and> (hd bs = 45 \<or> hd bs = 43) then tl bs else bs)
      in if ds = [] then None
         else Some (sint (word_of_int (if neg then - int (dec_val ds) else int (dec_val ds)) :: uint32)))"

lemma unat_digit: "k < 10 \<Longrightarrow> unat (word_of_nat (48 + k) :: byte) = 48 + k"
  by (rule unat_word_of_nat8) simp

lemma decimal_digits: "decimal n \<noteq> [] \<and> list_all is_dec (decimal n)"
proof (induction n rule: decimal.induct)
  case (1 n)
  have "is_dec (word_of_nat (48 + k))" if "k < 10" for k
    unfolding is_dec_def word_le_nat_alt unat_digit [OF that] using that by simp
  with 1 show ?case by (subst (1 2) decimal.simps) (auto simp: list_all_iff)
qed

lemma dec_val_decimal: "dec_val (decimal n) = n"
proof (induction n rule: decimal.induct)
  case (1 n)
  show ?case
  proof (cases "n < 10")
    case True
    then show ?thesis using unat_digit [OF True] by (subst decimal.simps) (simp add: dec_val_def del: of_nat_add)
  next
    case False
    have "n mod 10 < 10" by simp
    from unat_digit [OF this] 1 False show ?thesis by (subst decimal.simps) (simp add: dec_val_def del: of_nat_add)
  qed
qed

lemma scan_int_decimal:
  assumes "n < 2 ^ 31"
  shows "scan_int (decimal n) = Some (int n)"
proof -
  obtain d ds where d: "decimal n = d # ds" "is_dec d" using decimal_digits [of n] by (cases "decimal n") auto
  have t: "takeWhile is_dec (d # ds) = d # ds" unfolding d(1) [symmetric] using decimal_digits [of n] by (simp add: takeWhile_eq_all_conv list_all_iff)
  have "d \<notin> {9, 10, 11, 12, 13, 32}" "d \<noteq> 45" "d \<noteq> 43" using d(2) by (auto simp: is_dec_def)
  then have "scan_int (decimal n) = Some (sint (word_of_int (int n) :: uint32))"
    using dec_val_decimal [of n] unfolding d(1) by (simp add: scan_int_def Let_def t del: takeWhile.simps)
  also have "uint (word_of_nat n :: uint32) = int n"
    using assms unat_word_of_nat32 [of n] by (simp add: uint_nat del: unat_of_nat)
  then have "sint (word_of_int (int n) :: uint32) = int n"
    using assms by (simp add: sint_uint signed_take_bit_int_eq_self)
  finally show ?thesis .
qed

lemma decimal_length: "n < 10 ^ Suc k \<Longrightarrow> length (decimal n) \<le> Suc k"
proof (induction k arbitrary: n)
  case 0
  then show ?case by (subst decimal.simps) simp
next
  case (Suc k)
  have "n div 10 < 10 ^ Suc k" using Suc.prems by (simp add: less_mult_imp_div_less)
  from Suc.IH [OF this] show ?case by (subst decimal.simps) simp
qed

text \<open>The conversion \<^verbatim>\<open>%02X\<close> of a byte.\<close>

definition hex_digit :: "nat \<Rightarrow> byte" where
  "hex_digit n = word_of_nat (if n < 10 then 48 + n else 55 + n)"

definition hex2 :: "byte \<Rightarrow> byte list" where
  "hex2 b = [hex_digit (unat b div 16), hex_digit (unat b mod 16)]"

text \<open>
  The value of a signed decimal prefix, as \<^verbatim>\<open>strtol\<close> reads it, held within the bounds of \<^verbatim>\<open>long\<close>;
  \<^verbatim>\<open>atoi\<close> cuts it to 32 bits.
\<close>

definition white :: "byte \<Rightarrow> bool" where
  "white b \<longleftrightarrow> b = 32 \<or> 9 \<le> b \<and> b \<le> 13"

definition strtol10 :: "byte list \<Rightarrow> int" where
  "strtol10 s =
     (let s = dropWhile white (cstr s);
          neg = (s \<noteq> [] \<and> hd s = 45);
          ds = takeWhile is_dec (if s \<noteq> [] \<and> (hd s = 45 \<or> hd s = 43) then tl s else s);
          n = int (dec_val ds)
      in max (- (2 ^ 63)) (min (2 ^ 63 - 1) (if neg then - n else n)))"

definition atoi :: "byte list \<Rightarrow> uint32" where
  "atoi s = word_of_int (strtol10 s)"

text \<open>\<^verbatim>\<open>sscanf(s, "%u", ...)\<close>: the conversion fails on a text that does not start with a number.\<close>

definition scan_unsigned :: "byte list \<Rightarrow> uint32 option" where
  "scan_unsigned s =
     (let s = dropWhile white (cstr s);
          neg = (s \<noteq> [] \<and> hd s = 45);
          ds = takeWhile is_dec (if s \<noteq> [] \<and> (hd s = 45 \<or> hd s = 43) then tl s else s);
          n = int (dec_val ds)
      in if ds = [] then None
         else Some (word_of_int (if n \<ge> 2 ^ 64 then 2 ^ 64 - 1 else if neg then - n else n)))"

lemma decimal_prefix:
  assumes "rest = [] \<or> \<not> is_dec (hd rest)"
  shows "takeWhile is_dec (decimal n @ rest) = decimal n"
proof -
  have "takeWhile is_dec (decimal n @ rest) = decimal n @ takeWhile is_dec rest"
    using decimal_digits [of n] by (simp add: list_all_iff takeWhile_append2)
  also have "takeWhile is_dec rest = []"
    using assms by (cases rest) auto
  finally show ?thesis by simp
qed

lemma decimal_hd:
  obtains d ds where "decimal n = d # ds" "is_dec d" "\<not> white d" "d \<noteq> 45" "d \<noteq> 43" "d \<noteq> 0"
proof -
  obtain d ds where d: "decimal n = d # ds" "is_dec d"
    using decimal_digits [of n] by (cases "decimal n") auto
  moreover have "\<not> white d"
    using d(2) unat_lt_256 [of d] by (auto simp: is_dec_def white_def word_le_nat_alt)
  moreover have "d \<noteq> 45" "d \<noteq> 43" "d \<noteq> 0"
    using d(2) by (auto simp: is_dec_def word_le_nat_alt)
  ultimately show thesis by (rule that)
qed

lemma decimal_cstr: "cstr (decimal n) = decimal n"
  using decimal_digits [of n] by (auto simp: cstr_def takeWhile_eq_all_conv list_all_iff is_dec_def)

lemma atoi_decimal:
  assumes "n < 2 ^ 32"
  shows "atoi (decimal n) = word_of_nat n"
proof -
  obtain d ds where d: "decimal n = d # ds" "\<not> white d" "d \<noteq> 45" "d \<noteq> 43"
    by (rule decimal_hd)
  have t: "takeWhile is_dec (d # ds) = d # ds"
    using decimal_prefix [of "[]" n] by (simp only: d(1) append_Nil2) simp
  have "strtol10 (decimal n) = int n"
    using assms d(2-) dec_val_decimal [of n] unfolding strtol10_def decimal_cstr Let_def
    by (simp add: d(1) t del: takeWhile.simps)
  then show ?thesis by (simp add: atoi_def)
qed

lemma scan_unsigned_decimal:
  assumes "n < 2 ^ 32"
  shows "scan_unsigned (decimal n) = Some (word_of_nat n)"
proof -
  obtain d ds where d: "decimal n = d # ds" "\<not> white d" "d \<noteq> 45" "d \<noteq> 43"
    by (rule decimal_hd)
  have t: "takeWhile is_dec (d # ds) = d # ds"
    using decimal_prefix [of "[]" n] by (simp only: d(1) append_Nil2) simp
  show ?thesis
    using assms d(2-) dec_val_decimal [of n] unfolding scan_unsigned_def decimal_cstr Let_def
    by (simp add: d(1) t del: takeWhile.simps)
qed

section \<open>Internet addresses\<close>

definition is_digit :: "byte \<Rightarrow> bool" where
  "is_digit c \<longleftrightarrow> 48 \<le> c \<and> c \<le> 57"

definition is_space :: "byte \<Rightarrow> bool" where
  "is_space c \<longleftrightarrow> c = 32 \<or> (9 \<le> c \<and> c \<le> 13)"

definition digit_value :: "byte \<Rightarrow> nat" where
  "digit_value c = (if is_digit c then unat c - 48
     else if 97 \<le> c \<and> c \<le> 102 then unat c - 87
     else if 65 \<le> c \<and> c \<le> 70 then unat c - 55 else 99)"

fun strtoul_digits :: "nat \<Rightarrow> nat \<Rightarrow> byte list \<Rightarrow> nat \<times> byte list" where
  "strtoul_digits base acc [] = (acc, [])"
| "strtoul_digits base acc (c # s) =
     (if digit_value c < base then strtoul_digits base (acc * base + digit_value c) s
      else (acc, c # s))"

definition strtoul0 :: "byte list \<Rightarrow> nat \<times> byte list" where
  "strtoul0 s =
     (if length s \<ge> 3 \<and> s ! 0 = 48 \<and> (s ! 1 = 120 \<or> s ! 1 = 88) \<and> digit_value (s ! 2) < 16
      then strtoul_digits 16 0 (drop 2 s)
      else if s \<noteq> [] \<and> s ! 0 = 48 then strtoul_digits 8 0 s
      else strtoul_digits 10 0 s)"

text \<open>
  One part of the dotted address per recursion: \<open>n\<close> parts have been read, \<open>acc\<close>
  holds them as the high bytes of the address in host order.
\<close>

fun inet_aton_parts :: "nat \<Rightarrow> nat \<Rightarrow> nat \<Rightarrow> byte list \<Rightarrow> nat option" where
  "inet_aton_parts 0 n acc s = None"
| "inet_aton_parts (Suc left) n acc s =
     (if s = [] \<or> \<not> is_digit (hd s) then None
      else let (val, rest) = strtoul0 s in
        if val > 0xFFFFFFFF then None
        else if rest \<noteq> [] \<and> hd rest = 46
          then if n > 2 \<or> val > 255 then None
               else inet_aton_parts left (Suc n) (acc + val * 256 ^ (3 - n)) (tl rest)
        else if rest \<noteq> [] \<and> hd rest \<noteq> 0 \<and> \<not> is_space (hd rest) then None
        else if val \<ge> 256 ^ (4 - n) then None
        else Some (acc + val))"

definition inet_aton :: "byte list \<Rightarrow> uint32 option" where
  "inet_aton s = map_option (\<lambda>v. htonl (word_of_nat v)) (inet_aton_parts 4 0 0 (cstr s))"

text \<open>\<^verbatim>\<open>inet_ntoa\<close> and \<^verbatim>\<open>inet_ntop\<close>: the four bytes of the address as they lie in memory.\<close>

definition inet_ntoa :: "uint32 \<Rightarrow> byte list" where
  "inet_ntoa addr =
     (let b = bytes32 addr
      in decimal (unat (b ! 0)) @ [46] @ decimal (unat (b ! 1)) @ [46] @ decimal (unat (b ! 2)) @ [46] @
         decimal (unat (b ! 3)))"

lemma cstr_id: "0 \<notin> set s \<Longrightarrow> cstr s = s"
  by (auto simp: cstr_def takeWhile_eq_all_conv)

lemma is_digit_dec: "is_digit c = is_dec c"
  by (simp add: is_digit_def is_dec_def)

lemma strtoul_digits_dec:
  "list_all is_dec ds \<Longrightarrow> rest = [] \<or> 10 \<le> digit_value (hd rest) \<Longrightarrow>
   strtoul_digits 10 acc (ds @ rest) = (foldl (\<lambda>n b. 10 * n + (unat b - 48)) acc ds, rest)"
proof (induction ds arbitrary: acc)
  case Nil
  then show ?case by (cases rest) auto
next
  case (Cons d ds)
  have "unat d - 48 < 10"
    using Cons.prems(1) by (auto simp: is_dec_def word_le_nat_alt)
  with Cons show ?case
    by (simp add: digit_value_def is_digit_dec mult.commute)
qed

lemma decimal_hd_nonzero: "0 < n \<Longrightarrow> hd (decimal n) \<noteq> 48"
proof (induction n rule: decimal.induct)
  case (1 n)
  show ?case
  proof (cases "n < 10")
    case True
    then have "unat (word_of_nat (48 + n) :: byte) \<noteq> 48"
      using unat_digit [OF True] "1.prems" by simp
    with True show ?thesis by (subst decimal.simps) (auto simp del: of_nat_add)
  next
    case False
    with 1 decimal_digits [of "n div 10"] show ?thesis
      by (subst decimal.simps) (simp add: hd_append)
  qed
qed

text \<open>What may follow a number in a dotted address.\<close>

definition number_end :: "byte list \<Rightarrow> bool" where
  "number_end rest \<longleftrightarrow> rest = [] \<or> hd rest = 46"

lemma strtoul0_decimal:
  assumes "number_end rest"
  shows "strtoul0 (decimal n @ rest) = (n, rest)"
proof -
  have e: "rest = [] \<or> 10 \<le> digit_value (hd rest)"
    using assms by (auto simp: number_end_def digit_value_def is_digit_def)
  show ?thesis
  proof (cases "n = 0")
    case True
    have "decimal 0 = [48]" by (simp add: decimal.simps)
    moreover have "rest \<noteq> [] \<Longrightarrow> rest ! 0 = 46"
      using assms by (cases rest) (auto simp: number_end_def)
    ultimately show ?thesis
      using True e by (cases rest) (auto simp: strtoul0_def digit_value_def is_digit_def)
  next
    case False
    have "decimal n \<noteq> []" using decimal_digits [of n] by simp
    with False have "(decimal n @ rest) ! 0 \<noteq> 48"
      using decimal_hd_nonzero [of n] by (simp add: nth_append hd_conv_nth)
    then show ?thesis
      using strtoul_digits_dec [OF _ e, of "decimal n" 0] decimal_digits [of n] dec_val_decimal [of n]
      by (simp add: strtoul0_def dec_val_def)
  qed
qed

lemma inet_aton_last:
  assumes "v < 256 ^ (4 - n)" and "n \<le> 3"
  shows "inet_aton_parts (Suc left) n acc (decimal v) = Some (acc + v)"
proof -
  have "(256 :: nat) ^ (4 - n) \<le> 256 ^ 4"
    by (rule power_increasing) auto
  then have "v \<le> 0xFFFFFFFF" using assms(1) by simp
  moreover obtain d ds where "decimal v = d # ds" "is_dec d" by (rule decimal_hd)
  ultimately show ?thesis
    using assms strtoul0_decimal [of "[]" v] by (simp add: number_end_def is_digit_dec)
qed

lemma inet_aton_part:
  assumes "v < 256" and "n \<le> 2"
  shows "inet_aton_parts (Suc left) n acc (decimal v @ 46 # s) = inet_aton_parts left (Suc n) (acc + v * 256 ^ (3 - n)) s"
proof -
  obtain d ds where "decimal v = d # ds" "is_dec d" by (rule decimal_hd)
  then show ?thesis
    using assms strtoul0_decimal [of "46 # s" v] by (simp add: number_end_def is_digit_dec)
qed

lemma inet_ntoa_dotted:
  "inet_ntoa addr = decimal (unat (bytes32 addr ! 0)) @ 46 # decimal (unat (bytes32 addr ! 1)) @ 46 #
     decimal (unat (bytes32 addr ! 2)) @ 46 # decimal (unat (bytes32 addr ! 3))"
  by (simp add: inet_ntoa_def Let_def)

lemma inet_ntoa_chars: "list_all (\<lambda>c. is_dec c \<or> c = 46) (inet_ntoa addr)"
  using decimal_digits by (auto simp: inet_ntoa_dotted list_all_iff)

lemma bytes32_four: "bytes32 w = [bytes32 w ! 0, bytes32 w ! 1, bytes32 w ! 2, bytes32 w ! 3]"
  by (simp add: bytes32_def)

lemma inet_aton_ntoa: "inet_aton (inet_ntoa addr) = Some addr"
proof -
  let ?b = "\<lambda>k. unat (bytes32 addr ! k)"
  have "cstr (inet_ntoa addr) = inet_ntoa addr"
    using inet_ntoa_chars [of addr] by (auto simp: cstr_def takeWhile_eq_all_conv list_all_iff is_dec_def)
  moreover have "inet_aton_parts 4 0 0 (inet_ntoa addr) = Some (?b 0 * 256 ^ 3 + ?b 1 * 256 ^ 2 + ?b 2 * 256 + ?b 3)"
  proof -
    note [simp del] = inet_aton_parts.simps
    have part: "inet_aton_parts (Suc left) n acc (decimal (?b k) @ 46 # s) =
        inet_aton_parts left (Suc n) (acc + ?b k * 256 ^ (3 - n)) s" if "n \<le> 2" for left n acc k s
      using inet_aton_part [OF unat_lt_256 that] .
    have "?b 3 < 256 ^ (4 - Suc (Suc (Suc 0)))"
      using unat_lt_256 [of "bytes32 addr ! 3"] by simp
    then have last: "inet_aton_parts (Suc left) (Suc (Suc (Suc 0))) acc (decimal (?b 3)) = Some (acc + ?b 3)" for left acc
      by (rule inet_aton_last) simp
    have "inet_aton_parts (Suc (Suc (Suc (Suc 0)))) 0 0 (inet_ntoa addr) =
        Some (?b 0 * 256 ^ 3 + ?b 1 * 256 ^ 2 + ?b 2 * 256 + ?b 3)"
      unfolding inet_ntoa_dotted by (simp add: part last)
    moreover have "(4 :: nat) = Suc (Suc (Suc (Suc 0)))" by simp
    ultimately show ?thesis by (simp only:)
  qed
  moreover have "word_of_nat (?b 0 * 256 ^ 3 + ?b 1 * 256 ^ 2 + ?b 2 * 256 + ?b 3) =
      le32 [bytes32 addr ! 3, bytes32 addr ! 2, bytes32 addr ! 1, bytes32 addr ! 0]"
    unfolding le32_def list.case by (rule arg_cong [of _ _ word_of_nat]) (simp add: algebra_simps)
  moreover have "\<dots> = htonl addr"
    unfolding htonl_def by (subst (5) bytes32_four) simp
  ultimately show ?thesis by (simp add: inet_aton_def)
qed

section \<open>Command lines\<close>

text \<open>
  \<^verbatim>\<open>getopt\<close> as the GNU library has it: the options in order (\<open>Bad_option\<close> for \<^verbatim>\<open>'?'\<close>) and the
  arguments that are no options, which it moves to the end. \<open>flags\<close> are the letters without, \<open>args\<close> those with an
  argument.
\<close>

datatype getopt_result = Flag byte | Arg byte "byte list" | Bad_option

fun getopt_cluster ::
  "byte list \<Rightarrow> byte list \<Rightarrow> byte list \<Rightarrow> byte list list \<Rightarrow> getopt_result list \<times> byte list list" where
  "getopt_cluster flags args [] rest = ([], rest)"
| "getopt_cluster flags args (c # cs) rest =
     (if c \<in> set args then
        if cs \<noteq> [] then ([Arg c cs], rest)
        else (case rest of [] \<Rightarrow> ([Bad_option], []) | a # rest \<Rightarrow> ([Arg c a], rest))
      else
        let (os, rest) = getopt_cluster flags args cs rest
        in ((if c \<in> set flags then Flag c else Bad_option) # os, rest))"

lemma getopt_cluster_length:
  "length (snd (getopt_cluster flags args cs rest)) \<le> length rest"
  by (induction flags args cs rest rule: getopt_cluster.induct) (auto simp: split_def Let_def split: list.split)

function getopt ::
  "byte list \<Rightarrow> byte list \<Rightarrow> byte list list \<Rightarrow> getopt_result list \<times> byte list list" where
  "getopt flags args [] = ([], [])"
| "getopt flags args (a # rest) =
     (if a = [45, 45] then ([], rest)
      else if length a \<ge> 2 \<and> hd a = 45 then
        (let (os, rest) = getopt_cluster flags args (tl a) rest; (os', operands) = getopt flags args rest
         in (os @ os', operands))
      else (let (os, operands) = getopt flags args rest in (os, a # operands)))"
  by pat_completeness auto
termination
proof (relation "measure (\<lambda>(_, _, as). length as)", goal_cases)
  case (2 flags args a rest p os rest')
  then show ?case
    using getopt_cluster_length [of flags args "tl a" rest] by (auto dest: sym)
qed auto

end
