(* ===== verification/Sr_If_Rt.thy ===== *)
theory Sr_If_Rt
  imports C_Text
begin

text \<open>
  The router's interface list (\<^verbatim>\<open>sr_if.c\<close>) and routing table (\<^verbatim>\<open>sr_rt.c\<close>,
  \<^verbatim>\<open>sr_verify_routing_table\<close> of \<^verbatim>\<open>sr_main.c\<close>, and the prefix-match loop that
  \<^verbatim>\<open>sr_router.c\<close> runs over it). A linked list is a list in the order of its \<^verbatim>\<open>next\<close>
  pointers. Addresses are \<^verbatim>\<open>s_addr\<close> values: four bytes in network order, read by a
  little-endian host. Memory that \<^verbatim>\<open>malloc\<close> returns uninitialised is an argument
  (\<open>fresh\<close>) of the operations that allocate.
\<close>

section \<open>Interfaces\<close>

record sr_if =
  if_name :: "byte list"
  if_addr :: "byte list"
  if_ip :: uint32
  if_speed :: uint32

definition sr_IFACE_NAMELEN :: nat where
  "sr_IFACE_NAMELEN = 32"

definition sr_get_interface :: "sr_if list \<Rightarrow> byte list \<Rightarrow> sr_if option" where
  "sr_get_interface if_list nm = find (\<lambda>i. strncmp_eq sr_IFACE_NAMELEN (if_name i) nm) if_list"

definition get_interface_from_ip :: "sr_if list \<Rightarrow> uint32 \<Rightarrow> sr_if option" where
  "get_interface_from_ip if_list ip_address = find (\<lambda>i. ip_address = if_ip i) if_list"

definition get_interface_from_eth :: "sr_if list \<Rightarrow> byte list \<Rightarrow> sr_if option" where
  "get_interface_from_eth if_list eth_address =
     find (\<lambda>i. \<forall>k < 6. if_addr i ! k = eth_address ! k) if_list"

definition sr_add_interface :: "sr_if \<Rightarrow> sr_if list \<Rightarrow> byte list \<Rightarrow> sr_if list" where
  "sr_add_interface fresh if_list nm =
     if_list @ [fresh\<lparr>if_name := strncpy sr_IFACE_NAMELEN nm\<rparr>]"

definition sr_set_ether_addr :: "sr_if list \<Rightarrow> byte list \<Rightarrow> fault + sr_if list" where
  "sr_set_ether_addr if_list a =
     need (if_list \<noteq> []) Assert_failed
       (Inr (butlast if_list @ [(last if_list)\<lparr>if_addr := take 6 a\<rparr>]))"

definition sr_set_ether_ip :: "sr_if list \<Rightarrow> uint32 \<Rightarrow> fault + sr_if list" where
  "sr_set_ether_ip if_list ip_nbo =
     need (if_list \<noteq> []) Assert_failed
       (Inr (butlast if_list @ [(last if_list)\<lparr>if_ip := ip_nbo\<rparr>]))"

lemma sr_get_interface_add:
  "sr_get_interface (sr_add_interface fresh ifs nm) nm' =
     (case sr_get_interface ifs nm' of
        Some i \<Rightarrow> Some i
      | None \<Rightarrow> if strncmp_eq 32 nm nm' then Some (fresh\<lparr>if_name := strncpy 32 nm\<rparr>) else None)"
  by (simp add: sr_get_interface_def sr_add_interface_def find_append sr_IFACE_NAMELEN_def
      strncmp_eq_strncpy split: option.split)

lemma get_interface_from_ip_SomeD:
  "get_interface_from_ip ifs a = Some i \<Longrightarrow> i \<in> set ifs \<and> if_ip i = a"
  by (auto simp: get_interface_from_ip_def dest: find_SomeD)

lemma sr_get_interface_SomeD:
  "sr_get_interface ifs nm = Some i \<Longrightarrow> i \<in> set ifs \<and> strncmp_eq 32 (if_name i) nm"
  by (auto simp: sr_get_interface_def sr_IFACE_NAMELEN_def dest: find_SomeD)

section \<open>Routing table\<close>

record sr_rt =
  rt_dest :: uint32
  rt_gw :: uint32
  rt_mask :: uint32
  rt_interface :: "byte list"

definition sr_add_rt_entry ::
  "sr_rt list \<Rightarrow> uint32 \<Rightarrow> uint32 \<Rightarrow> uint32 \<Rightarrow> byte list \<Rightarrow> sr_rt list" where
  "sr_add_rt_entry routing_table d g m nm =
     routing_table @ [\<lparr>rt_dest = d, rt_gw = g, rt_mask = m, rt_interface = strncpy sr_IFACE_NAMELEN nm\<rparr>]"

text \<open>The scan of one line by \<^verbatim>\<open>sscanf\<close>.\<close>

fun tokens :: "nat \<Rightarrow> byte list \<Rightarrow> byte list list" where
  "tokens 0 s = []"
| "tokens (Suc n) s =
     (let s' = dropWhile is_space s; t = takeWhile (\<lambda>c. \<not> is_space c) s'
      in if t = [] then [] else t # tokens n (drop (length t) s'))"

text \<open>
  \<^verbatim>\<open>sscanf(line,"%s %s %s %s",dest,gw,mask,iface)\<close>: the four 32-byte buffers keep
  their old contents where the line has fewer fields, and a field of 32 or more bytes
  leaves its buffer.
\<close>

definition scan_line :: "byte list list \<Rightarrow> byte list \<Rightarrow> fault + byte list list" where
  "scan_line bufs line =
     (let ts = tokens 4 (cstr line)
      in need (\<forall>t \<in> set ts. length t < 32) Out_of_bounds (Inr (ts @ drop (length ts) bufs)))"

fun load_lines ::
  "bool \<Rightarrow> byte list list \<Rightarrow> sr_rt list \<Rightarrow> byte list list \<Rightarrow> fault + int \<times> sr_rt list" where
  "load_lines cleared bufs rt [] = Inr (0, rt)"
| "load_lines cleared bufs rt (line # lines) =
     andthen (scan_line bufs line) (\<lambda>bufs.
       case (inet_aton (bufs ! 0), inet_aton (bufs ! 1), inet_aton (bufs ! 2)) of
         (Some dest_addr, Some gw_addr, Some mask_addr) \<Rightarrow>
           load_lines True bufs
             (sr_add_rt_entry (if cleared then rt else []) dest_addr gw_addr mask_addr (bufs ! 3))
             lines
       | _ \<Rightarrow> Inr (-1, rt))"

definition sr_load_rt ::
  "byte list list option \<Rightarrow> byte list list \<Rightarrow> sr_rt list \<Rightarrow> fault + int \<times> sr_rt list" where
  "sr_load_rt file stack_bufs rt =
     (case file of None \<Rightarrow> Inr (-1, rt) | Some lines \<Rightarrow> load_lines False stack_bufs rt lines)"

section \<open>Consistency with the hardware\<close>

fun count_missing :: "sr_if list \<Rightarrow> sr_rt list \<Rightarrow> int" where
  "count_missing ifs [] = 0"
| "count_missing ifs (r # rt) =
     (if find (\<lambda>i. strncmp_eq sr_IFACE_NAMELEN (if_name i) (rt_interface r)) ifs = None then 1 else 0)
     + count_missing ifs rt"

definition sr_verify_routing_table :: "sr_if list \<Rightarrow> sr_rt list \<Rightarrow> int" where
  "sr_verify_routing_table ifs rt =
     (if ifs = [] \<or> rt = [] then 999 else count_missing ifs rt)"

lemma count_missing_nonneg: "0 \<le> count_missing ifs rt"
  by (induction rt) auto

lemma count_missing_zero:
  "count_missing ifs rt = 0 \<longleftrightarrow> (\<forall>r \<in> set rt. sr_get_interface ifs (rt_interface r) \<noteq> None)"
proof (induction rt)
  case (Cons r rt)
  then show ?case
    using count_missing_nonneg [of ifs rt] by (auto simp: sr_get_interface_def)
qed simp

section \<open>Longest prefix match\<close>

text \<open>
  The loop of \<^verbatim>\<open>sr_send_icmp_packet\<close> and \<^verbatim>\<open>sr_handle_ip_packet\<close>. The operands are
  widened to \<^verbatim>\<open>unsigned long\<close> there, which changes neither the conjunction nor the
  comparisons of 32-bit values.
\<close>

fun lpm_loop :: "uint32 \<Rightarrow> uint32 \<Rightarrow> sr_rt option \<Rightarrow> sr_rt list \<Rightarrow> sr_rt option" where
  "lpm_loop ip l_match route_match [] = route_match"
| "lpm_loop ip l_match route_match (r # rt) =
     (if rt_mask r AND ip = rt_dest r \<and> rt_mask r > l_match
      then lpm_loop ip (rt_mask r) (Some r) rt
      else lpm_loop ip l_match route_match rt)"

definition longest_match :: "sr_rt list \<Rightarrow> uint32 \<Rightarrow> sr_rt option" where
  "longest_match rt ip = lpm_loop ip 0 None rt"

definition route_applies :: "uint32 \<Rightarrow> sr_rt \<Rightarrow> bool" where
  "route_applies ip r \<longleftrightarrow> rt_mask r AND ip = rt_dest r"

lemma lpm_loop_char:
  assumes "lpm_loop ip l m rt = res"
  shows "(res = m \<and> (\<forall>r \<in> set rt. route_applies ip r \<longrightarrow> rt_mask r \<le> l)) \<or>
    (\<exists>pre r post. rt = pre @ r # post \<and> res = Some r \<and> route_applies ip r \<and> l < rt_mask r \<and>
       (\<forall>x \<in> set pre. route_applies ip x \<longrightarrow> rt_mask x < rt_mask r) \<and>
       (\<forall>x \<in> set post. route_applies ip x \<longrightarrow> rt_mask x \<le> rt_mask r))"
  using assms
proof (induction rt arbitrary: l m)
  case Nil
  then show ?case by simp
next
  case (Cons r rt)
  show ?case
  proof (cases "route_applies ip r \<and> l < rt_mask r")
    case True
    with Cons.prems have "lpm_loop ip (rt_mask r) (Some r) rt = res"
      by (simp add: route_applies_def)
    from Cons.IH [OF this] show ?thesis
    proof (elim disjE exE conjE)
      assume "res = Some r" and "\<forall>x \<in> set rt. route_applies ip x \<longrightarrow> rt_mask x \<le> rt_mask r"
      with True show ?thesis
        by (intro disjI2 exI [of _ "[]"] exI [of _ r] exI [of _ rt]) simp
    next
      fix pre y post
      assume "rt = pre @ y # post" "res = Some y" "route_applies ip y" "rt_mask r < rt_mask y"
        "\<forall>x \<in> set pre. route_applies ip x \<longrightarrow> rt_mask x < rt_mask y"
        "\<forall>x \<in> set post. route_applies ip x \<longrightarrow> rt_mask x \<le> rt_mask y"
      with True show ?thesis
        by (intro disjI2 exI [of _ "r # pre"] exI [of _ y] exI [of _ post]) auto
    qed
  next
    case False
    with Cons.prems have "lpm_loop ip l m rt = res"
      by (auto simp: route_applies_def split: if_splits)
    from Cons.IH [OF this] show ?thesis
    proof (elim disjE exE conjE)
      assume "res = m" and "\<forall>x \<in> set rt. route_applies ip x \<longrightarrow> rt_mask x \<le> l"
      with False show ?thesis by auto
    next
      fix pre y post
      assume "rt = pre @ y # post" "res = Some y" "route_applies ip y" "l < rt_mask y"
        "\<forall>x \<in> set pre. route_applies ip x \<longrightarrow> rt_mask x < rt_mask y"
        "\<forall>x \<in> set post. route_applies ip x \<longrightarrow> rt_mask x \<le> rt_mask y"
      with False show ?thesis
        by (intro disjI2 exI [of _ "r # pre"] exI [of _ y] exI [of _ post]) auto
    qed
  qed
qed

lemma longest_match_None_iff:
  "longest_match rt ip = None \<longleftrightarrow> (\<forall>r \<in> set rt. route_applies ip r \<longrightarrow> rt_mask r = 0)"
  using lpm_loop_char [of ip 0 None rt "longest_match rt ip"]
  by (auto simp: longest_match_def)

lemma longest_match_SomeD:
  assumes "longest_match rt ip = Some r"
  shows "r \<in> set rt" and "route_applies ip r" and "rt_mask r \<noteq> 0"
    and "\<forall>x \<in> set rt. route_applies ip x \<longrightarrow> rt_mask x \<le> rt_mask r"
  using lpm_loop_char [of ip 0 None rt "Some r"] assms
  by (fastforce simp: longest_match_def order.strict_iff_order)+

text \<open>
  A netmask of \<open>n\<close> bits as the host reads it: the bytes of the mask in network order.
  On contiguous masks the host's comparison of these values is the comparison of the
  prefix lengths, although the bytes are swapped.
\<close>

definition netmask :: "nat \<Rightarrow> uint32" where
  "netmask n = htonl (word_of_nat (2 ^ 32 - 2 ^ (32 - n)))"

lemma netmasks_sorted: "sorted_wrt (<) (map netmask [0..<33])"
  by (simp add: upt_rec netmask_def htonl_def bytes32_def le32_def)

lemma netmask_less: "m < n \<Longrightarrow> n \<le> 32 \<Longrightarrow> netmask m < netmask n"
  using sorted_wrt_nth_less [OF netmasks_sorted, of m n] by simp

lemma netmask_le_iff: "m \<le> 32 \<Longrightarrow> n \<le> 32 \<Longrightarrow> netmask m \<le> netmask n \<longleftrightarrow> m \<le> n"
  by (metis linorder_not_le netmask_less order_less_imp_le order_refl nat_neq_iff)

section \<open>Properties\<close>

text \<open>
  C28: on a table of contiguous masks the loop returns a route that applies to the address, of
  non-zero length, and no applicable route has a longer prefix; it returns nothing exactly
  when only routes of length zero apply. In particular a default route is never used.
\<close>

theorem longest_match_longest_prefix:
  assumes "\<forall>r \<in> set rt. rt_mask r = netmask (plen r) \<and> plen r \<le> 32"
  shows "case longest_match rt ip of
      None \<Rightarrow> \<forall>r \<in> set rt. route_applies ip r \<longrightarrow> plen r = 0
    | Some r \<Rightarrow> r \<in> set rt \<and> route_applies ip r \<and> 0 < plen r \<and>
        (\<forall>x \<in> set rt. route_applies ip x \<longrightarrow> plen x \<le> plen r)"
proof (cases "longest_match rt ip")
  case None
  have "plen r = 0" if "r \<in> set rt" "route_applies ip r" for r
  proof -
    have "netmask (plen r) = netmask 0"
      using None that assms by (simp add: longest_match_None_iff)
        (simp add: netmask_def htonl_def bytes32_def le32_def)
    then show ?thesis
      using netmask_less [of 0 "plen r"] assms that(1) by (cases "plen r") auto
  qed
  with None show ?thesis by simp
next
  case (Some r)
  have "netmask 0 = 0"
    by (simp add: netmask_def htonl_def bytes32_def le32_def)
  then have "0 < plen r"
    using longest_match_SomeD(1,3) [OF Some] assms by (cases "plen r") auto
  moreover have "plen x \<le> plen r" if "x \<in> set rt" "route_applies ip x" for x
    using longest_match_SomeD(1,4) [OF Some] assms that by (auto simp: netmask_le_iff)
  ultimately show ?thesis
    using longest_match_SomeD(1,2) [OF Some] Some by simp
qed

definition demo_prefixes :: "sr_rt list" where
  "demo_prefixes =
     [\<lparr>rt_dest = le32 [10, 0, 0, 0], rt_gw = 1, rt_mask = netmask 8, rt_interface = []\<rparr>,
      \<lparr>rt_dest = le32 [10, 0, 2, 0], rt_gw = 2, rt_mask = netmask 24, rt_interface = []\<rparr>]"

theorem longest_match_longest_prefix_witness:
  "map_option rt_gw (longest_match demo_prefixes (le32 [10, 0, 2, 9])) = Some 2"
proof -
  have applies: "\<forall>r \<in> set demo_prefixes. route_applies (le32 [10, 0, 2, 9]) r"
    by (simp add: demo_prefixes_def route_applies_def netmask_def htonl_def bytes32_def le32_def)
  have "\<forall>r \<in> set demo_prefixes. rt_mask r = netmask (if rt_gw r = 1 then 8 else 24) \<and>
      (if rt_gw r = 1 then 8 else 24 :: nat) \<le> 32"
    by (simp add: demo_prefixes_def)
  from longest_match_longest_prefix [OF this, of "le32 [10, 0, 2, 9]"] applies show ?thesis
    by (cases "longest_match demo_prefixes (le32 [10, 0, 2, 9])") (auto simp: demo_prefixes_def)
qed

end
