(* ===== verification/Sr_Arpcache.thy ===== *)
theory Sr_Arpcache
  imports Net_Prelude
begin

text \<open>
  The ARP cache of the router (\<^verbatim>\<open>sr_arpcache.c\<close>): the table of 100 IP-to-MAC entries
  and the queue of outstanding requests with the packets that wait on them. Every
  operation here takes the cache's recursive mutex, so it is one atomic function on the
  cache. A request is identified by its heap address (\<open>req_ptr\<close>), because
  \<^verbatim>\<open>sr_arpreq_destroy\<close> compares pointers; \<open>next_ptr\<close> is the next address \<^verbatim>\<open>calloc\<close>
  returns. \<^verbatim>\<open>time(NULL)\<close> is an argument.

  The functions of the file that send packets (\<^verbatim>\<open>handle_arpreq\<close>,
  \<^verbatim>\<open>sr_arpcache_sweepreqs\<close> and the body of the timeout thread) are in \<open>Sr_Router\<close>,
  with the functions they call.
\<close>

section \<open>State\<close>

record sr_packet =
  pkt_buf :: "byte list"
  pkt_iface :: "byte list"

record sr_arpentry =
  ent_mac :: "byte list"
  ent_ip :: uint32
  ent_added :: time_t
  ent_valid :: bool

record sr_arpreq =
  req_ptr :: nat
  req_ip :: uint32
  req_sent :: time_t
  req_times_sent :: uint32
  req_packets :: "sr_packet list"

record sr_arpcache =
  entries :: "sr_arpentry list"
  requests :: "sr_arpreq list"
  next_ptr :: nat

definition SR_ARPCACHE_SZ :: nat where
  "SR_ARPCACHE_SZ = 100"

definition SR_ARPCACHE_TO :: int where
  "SR_ARPCACHE_TO = 15"

section \<open>Operations\<close>

definition sr_arpcache_init :: sr_arpcache where
  "sr_arpcache_init =
     \<lparr>entries = replicate SR_ARPCACHE_SZ
        \<lparr>ent_mac = replicate 6 0, ent_ip = 0, ent_added = 0, ent_valid = False\<rparr>,
      requests = [], next_ptr = 1\<rparr>"

fun lookup_loop :: "uint32 \<Rightarrow> sr_arpentry option \<Rightarrow> sr_arpentry list \<Rightarrow> sr_arpentry option" where
  "lookup_loop ip entry [] = entry"
| "lookup_loop ip entry (e # es) =
     lookup_loop ip (if ent_valid e \<and> ent_ip e = ip then Some e else entry) es"

definition sr_arpcache_lookup :: "sr_arpcache \<Rightarrow> uint32 \<Rightarrow> sr_arpentry option" where
  "sr_arpcache_lookup cache ip = lookup_loop ip None (entries cache)"

text \<open>
  \<^verbatim>\<open>sr_arpcache_queuereq\<close>: the request of this address (a new one at the head of the
  queue where there is none), and the packet at the head of its list unless the packet is
  empty or the interface pointer is null. The result holds the request's pointer.
\<close>

definition add_packet :: "byte list \<Rightarrow> byte list option \<Rightarrow> sr_arpreq \<Rightarrow> sr_arpreq" where
  "add_packet packet iface r =
     (case iface of
        None \<Rightarrow> r
      | Some nm \<Rightarrow>
          if packet = [] then r
          else r\<lparr>req_packets := \<lparr>pkt_buf = packet, pkt_iface = strncpy 32 nm\<rparr> # req_packets r\<rparr>)"

fun update_first :: "('a \<Rightarrow> bool) \<Rightarrow> ('a \<Rightarrow> 'a) \<Rightarrow> 'a list \<Rightarrow> 'a list" where
  "update_first P f [] = []"
| "update_first P f (x # xs) = (if P x then f x # xs else x # update_first P f xs)"

fun remove_first :: "('a \<Rightarrow> bool) \<Rightarrow> 'a list \<Rightarrow> 'a list" where
  "remove_first P [] = []"
| "remove_first P (x # xs) = (if P x then xs else x # remove_first P xs)"

definition sr_arpcache_queuereq ::
  "sr_arpcache \<Rightarrow> uint32 \<Rightarrow> byte list \<Rightarrow> byte list option \<Rightarrow> sr_arpcache \<times> nat" where
  "sr_arpcache_queuereq cache ip packet iface =
     (let cache =
        (case find (\<lambda>r. req_ip r = ip) (requests cache) of
           Some _ \<Rightarrow> cache
         | None \<Rightarrow> cache\<lparr>requests := \<lparr>req_ptr = next_ptr cache, req_ip = ip, req_sent = 0,
                                   req_times_sent = 0, req_packets = []\<rparr> # requests cache,
                        next_ptr := next_ptr cache + 1\<rparr>);
        ptr = (case find (\<lambda>r. req_ip r = ip) (requests cache) of Some r \<Rightarrow> req_ptr r | None \<Rightarrow> 0)
      in (cache\<lparr>requests := update_first (\<lambda>r. req_ip r = ip) (add_packet packet iface) (requests cache)\<rparr>,
          ptr))"

definition sr_arpcache_insert ::
  "time_t \<Rightarrow> sr_arpcache \<Rightarrow> byte list \<Rightarrow> uint32 \<Rightarrow> sr_arpcache \<times> sr_arpreq option" where
  "sr_arpcache_insert now cache mac ip =
     (cache\<lparr>requests := remove_first (\<lambda>r. req_ip r = ip) (requests cache),
            entries := update_first (\<lambda>e. \<not> ent_valid e)
              (\<lambda>e. e\<lparr>ent_mac := take 6 mac, ent_ip := ip, ent_added := now, ent_valid := True\<rparr>)
              (entries cache)\<rparr>,
      find (\<lambda>r. req_ip r = ip) (requests cache))"

definition sr_arpreq_destroy :: "sr_arpcache \<Rightarrow> nat \<Rightarrow> sr_arpcache" where
  "sr_arpreq_destroy cache entry =
     cache\<lparr>requests := remove_first (\<lambda>r. req_ptr r = entry) (requests cache)\<rparr>"

text \<open>The first loop of the timeout thread's body.\<close>

definition expire_entries :: "time_t \<Rightarrow> sr_arpcache \<Rightarrow> sr_arpcache" where
  "expire_entries curtime cache =
     cache\<lparr>entries := map (\<lambda>e. if ent_valid e \<and> curtime - ent_added e > SR_ARPCACHE_TO
                               then e\<lparr>ent_valid := False\<rparr> else e) (entries cache)\<rparr>"

section \<open>Lists\<close>

lemma length_update_first [simp]: "length (update_first P f xs) = length xs"
  by (induction xs) auto

lemma map_update_first: "(\<And>x. g (f x) = g x) \<Longrightarrow> map g (update_first P f xs) = map g xs"
  by (induction xs) auto

lemma update_first_none: "find P xs = None \<Longrightarrow> update_first P f xs = xs"
  by (induction xs) (auto split: if_splits)

lemma update_first_split:
  "find P xs = Some x \<Longrightarrow>
    \<exists>pre post. xs = pre @ x # post \<and> (\<forall>y \<in> set pre. \<not> P y) \<and> update_first P f xs = pre @ f x # post"
proof (induction xs)
  case (Cons y ys)
  show ?case
  proof (cases "P y")
    case True
    with Cons.prems show ?thesis by (intro exI [of _ "[]"] exI [of _ ys]) simp
  next
    case False
    with Cons obtain pre post where "ys = pre @ x # post" "\<forall>z \<in> set pre. \<not> P z"
      "update_first P f ys = pre @ f x # post"
      by auto
    with False show ?thesis by (intro exI [of _ "y # pre"] exI [of _ post]) simp
  qed
qed simp

lemma set_remove_first: "set (remove_first P xs) \<subseteq> set xs"
  by (induction xs) auto

lemma map_remove_first_distinct: "distinct (map g xs) \<Longrightarrow> distinct (map g (remove_first P xs))"
proof (induction xs)
  case (Cons x xs)
  then show ?case using set_remove_first [of P xs] by auto
qed simp

lemma find_remove_first_distinct:
  "distinct (map g xs) \<Longrightarrow> find (\<lambda>x. g x = k) (remove_first (\<lambda>x. g x = k) xs) = None"
proof (induction xs)
  case (Cons x xs)
  then have "\<And>y. y \<in> set xs \<Longrightarrow> g y \<noteq> g x" by (auto simp: image_iff)
  with Cons show ?case by (auto simp: find_eq_None)
qed simp

lemma find_remove_first_other:
  "k' \<noteq> k \<Longrightarrow> find (\<lambda>x. g x = k') (remove_first (\<lambda>x. g x = k) xs) = find (\<lambda>x. g x = k') xs"
  by (induction xs) auto

lemma find_update_first_key:
  assumes "\<And>x. g (f x) = g x"
  shows "find (\<lambda>x. g x = k') (update_first (\<lambda>x. g x = k) f xs) =
    (if k' = k then map_option f (find (\<lambda>x. g x = k') xs) else find (\<lambda>x. g x = k') xs)"
  using assms by (induction xs) auto

section \<open>Invariant\<close>

text \<open>
  The table has its 100 entries, no two queued requests are for the same address or at
  the same heap address, and fresh heap addresses are not in use.
\<close>

definition arp_inv :: "sr_arpcache \<Rightarrow> bool" where
  "arp_inv c \<longleftrightarrow> length (entries c) = SR_ARPCACHE_SZ \<and> distinct (map req_ip (requests c)) \<and>
     distinct (map req_ptr (requests c)) \<and> (\<forall>r \<in> set (requests c). req_ptr r < next_ptr c)"

lemma add_packet_keeps [simp]:
  "req_ip (add_packet p i r) = req_ip r" "req_ptr (add_packet p i r) = req_ptr r"
  "req_sent (add_packet p i r) = req_sent r" "req_times_sent (add_packet p i r) = req_times_sent r"
  by (auto simp: add_packet_def split: option.split)

lemma arp_inv_init: "arp_inv sr_arpcache_init"
  by (simp add: arp_inv_def sr_arpcache_init_def)

lemma update_first_mem: "y \<in> set (update_first P f xs) \<Longrightarrow> y \<in> set xs \<or> (\<exists>x \<in> set xs. y = f x)"
  by (induction xs) (auto split: if_splits)

lemma arp_inv_queuereq:
  "arp_inv c \<Longrightarrow> arp_inv (fst (sr_arpcache_queuereq c ip p i))"
  by (auto simp: arp_inv_def sr_arpcache_queuereq_def Let_def map_update_first find_eq_None
      split: option.split dest!: update_first_mem)

lemma arp_inv_insert: "arp_inv c \<Longrightarrow> arp_inv (fst (sr_arpcache_insert now c mac ip))"
  using set_remove_first [of "\<lambda>r. req_ip r = ip" "requests c"]
  by (auto simp: arp_inv_def sr_arpcache_insert_def map_remove_first_distinct)

lemma arp_inv_destroy: "arp_inv c \<Longrightarrow> arp_inv (sr_arpreq_destroy c ptr)"
  using set_remove_first [of "\<lambda>r. req_ptr r = ptr" "requests c"]
  by (auto simp: arp_inv_def sr_arpreq_destroy_def map_remove_first_distinct)

lemma arp_inv_expire: "arp_inv c \<Longrightarrow> arp_inv (expire_entries now c)"
  by (simp add: arp_inv_def expire_entries_def)

lemmas arp_inv_ops = arp_inv_queuereq arp_inv_insert arp_inv_destroy arp_inv_expire

section \<open>The table as a map\<close>

lemma lookup_loop_append:
  "lookup_loop ip a (xs @ ys) = lookup_loop ip (lookup_loop ip a xs) ys"
  by (induction xs arbitrary: a) auto

lemma lookup_loop_None_iff:
  "lookup_loop ip a es = None \<longleftrightarrow> a = None \<and> (\<forall>e \<in> set es. \<not> (ent_valid e \<and> ent_ip e = ip))"
  by (induction es arbitrary: a) auto

lemma lookup_loop_SomeD:
  "lookup_loop ip a es = Some e \<Longrightarrow> a = Some e \<or> (e \<in> set es \<and> ent_valid e \<and> ent_ip e = ip)"
  by (induction es arbitrary: a) (fastforce split: if_splits)+

lemma lookup_loop_acc:
  "lookup_loop ip a es = (case lookup_loop ip None es of None \<Rightarrow> a | Some e \<Rightarrow> Some e)"
proof (induction es arbitrary: a)
  case (Cons e es)
  show ?case
    by (cases "ent_valid e \<and> ent_ip e = ip")
      (auto simp: Cons [of "Some e"] Cons [of a] split: option.split)
qed simp

definition cache_room :: "sr_arpcache \<Rightarrow> bool" where
  "cache_room c \<longleftrightarrow> (\<exists>e \<in> set (entries c). \<not> ent_valid e)"

definition cache_mac :: "sr_arpcache \<Rightarrow> uint32 \<Rightarrow> byte list option" where
  "cache_mac c ip = map_option ent_mac (sr_arpcache_lookup c ip)"

definition cache_learn :: "time_t \<Rightarrow> uint32 \<Rightarrow> byte list \<Rightarrow> sr_arpcache \<Rightarrow> sr_arpcache" where
  "cache_learn now ip mac c = fst (sr_arpcache_insert now c (take 6 mac) ip)"

lemma lookup_insert_split:
  assumes "cache_room c"
  obtains pre e post where "entries c = pre @ e # post" and "\<not> ent_valid e"
    and "entries (fst (sr_arpcache_insert now c mac ip)) =
      pre @ e\<lparr>ent_mac := take 6 mac, ent_ip := ip, ent_added := now, ent_valid := True\<rparr> # post"
proof -
  obtain e where "find (\<lambda>e. \<not> ent_valid e) (entries c) = Some e"
    using assms by (cases "find (\<lambda>e. \<not> ent_valid e) (entries c)") (auto simp: cache_room_def find_eq_None)
  with update_first_split [OF this] find_SomeD [OF this] that show ?thesis
    by (fastforce simp: sr_arpcache_insert_def)
qed

lemma insert_full:
  "\<not> cache_room c \<Longrightarrow> entries (fst (sr_arpcache_insert now c mac ip)) = entries c"
  by (simp add: sr_arpcache_insert_def cache_room_def update_first_none find_eq_None)

lemma cache_mac_learn_other:
  assumes "ip' \<noteq> ip"
  shows "cache_mac (cache_learn now ip mac c) ip' = cache_mac c ip'"
proof (cases "cache_room c")
  case True
  then obtain pre e post where "entries c = pre @ e # post" "\<not> ent_valid e"
    "entries (fst (sr_arpcache_insert now c (take 6 mac) ip)) =
      pre @ e\<lparr>ent_mac := take 6 (take 6 mac), ent_ip := ip, ent_added := now, ent_valid := True\<rparr> # post"
    by (rule lookup_insert_split)
  with assms show ?thesis
    by (simp add: cache_mac_def cache_learn_def sr_arpcache_lookup_def lookup_loop_append)
qed (simp add: cache_mac_def cache_learn_def sr_arpcache_lookup_def insert_full)

lemma cache_mac_learn_same:
  assumes "cache_room c" and "cache_mac c ip = None"
  shows "cache_mac (cache_learn now ip mac c) ip = Some (take 6 mac)"
proof -
  obtain pre e post where c: "entries c = pre @ e # post" "\<not> ent_valid e"
    "entries (fst (sr_arpcache_insert now c (take 6 mac) ip)) =
      pre @ e\<lparr>ent_mac := take 6 (take 6 mac), ent_ip := ip, ent_added := now, ent_valid := True\<rparr> # post"
    using assms(1) by (rule lookup_insert_split)
  have "lookup_loop ip None post = None"
    using assms(2) c by (auto simp: cache_mac_def sr_arpcache_lookup_def lookup_loop_None_iff)
  with c show ?thesis
    by (simp add: cache_mac_def cache_learn_def sr_arpcache_lookup_def lookup_loop_append
        lookup_loop_acc [of ip "Some _"])
qed

lemma cache_mac_learn_again:
  assumes "cache_mac c ip = Some m"
  shows "cache_mac (cache_learn now ip mac c) ip \<in> {Some m, Some (take 6 mac)}"
proof (cases "cache_room c")
  case True
  then obtain pre e post where c: "entries c = pre @ e # post" "\<not> ent_valid e"
    "entries (fst (sr_arpcache_insert now c (take 6 mac) ip)) =
      pre @ e\<lparr>ent_mac := take 6 (take 6 mac), ent_ip := ip, ent_added := now, ent_valid := True\<rparr> # post"
    by (rule lookup_insert_split)
  with assms show ?thesis
    by (cases "lookup_loop ip None post")
      (auto simp: cache_mac_def cache_learn_def sr_arpcache_lookup_def lookup_loop_append
        lookup_loop_acc [of ip "Some _" post] lookup_loop_acc [of ip "lookup_loop ip None pre" post])
qed (use assms in \<open>simp add: cache_mac_def cache_learn_def sr_arpcache_lookup_def insert_full\<close>)

text \<open>
  What the router relies on: a table that learns bindings, where room permits. The client
  lemma says that after any number of insertions every answer of a lookup is a binding
  that was there before or has been learnt.
\<close>

locale address_table =
  fixes lookup :: "'c \<Rightarrow> 'k \<Rightarrow> 'v option"
    and learn :: "'k \<Rightarrow> 'v \<Rightarrow> 'c \<Rightarrow> 'c"
    and room :: "'c \<Rightarrow> bool"
    and norm :: "'v \<Rightarrow> 'v"
  assumes lookup_other: "k' \<noteq> k \<Longrightarrow> lookup (learn k v c) k' = lookup c k'"
    and lookup_new: "room c \<Longrightarrow> lookup c k = None \<Longrightarrow> lookup (learn k v c) k = Some (norm v)"
    and lookup_again: "lookup c k = Some w \<Longrightarrow> lookup (learn k v c) k \<in> {Some w, Some (norm v)}"
    and lookup_full: "\<not> room c \<Longrightarrow> lookup (learn k v c) k' = lookup c k'"
begin

lemma lookup_learn_sound:
  "lookup (learn k v c) k' = Some w \<Longrightarrow> lookup c k' = Some w \<or> (k' = k \<and> w = norm v)"
  using lookup_other [of k' k v c] lookup_new [of c k v] lookup_full [of c k v k']
    lookup_again [of c k _ v]
  by (cases "k' = k"; cases "room c"; cases "lookup c k") auto

lemma lookup_learnt_sound:
  "lookup (fold (\<lambda>(k, v). learn k v) kvs c) k' = Some w \<Longrightarrow>
    lookup c k' = Some w \<or> (\<exists>v. (k', v) \<in> set kvs \<and> w = norm v)"
proof (induction kvs arbitrary: c)
  case (Cons kv kvs)
  obtain k v where kv: "kv = (k, v)" by fastforce
  from Cons kv have "lookup (learn k v c) k' = Some w \<or> (\<exists>v. (k', v) \<in> set kvs \<and> w = norm v)"
    by simp
  then show ?case using lookup_learn_sound [of k v c k' w] kv by auto
qed simp

end

interpretation arp_table: address_table cache_mac "cache_learn now" cache_room "take 6" for now
proof (unfold_locales, goal_cases)
  case (1 k' k v c)
  then show ?case by (rule cache_mac_learn_other)
next
  case (2 c k v)
  then show ?case by (rule cache_mac_learn_same)
next
  case (3 c k w v)
  then show ?case by (rule cache_mac_learn_again)
next
  case (4 c k v k')
  then show ?case
    by (simp add: cache_mac_def cache_learn_def sr_arpcache_lookup_def insert_full)
qed

section \<open>The queue as a map\<close>

text \<open>What the queue promises: the packets that wait for an address.\<close>

definition waiting :: "sr_arpcache \<Rightarrow> uint32 \<Rightarrow> sr_packet list option" where
  "waiting c ip = map_option req_packets (find (\<lambda>r. req_ip r = ip) (requests c))"

lemma waiting_queuereq:
  assumes "p \<noteq> []"
  shows "waiting (fst (sr_arpcache_queuereq c ip p (Some nm))) =
    (waiting c)(ip \<mapsto> \<lparr>pkt_buf = p, pkt_iface = strncpy 32 nm\<rparr> #
       (case waiting c ip of None \<Rightarrow> [] | Some ps \<Rightarrow> ps))"
proof
  fix a
  show "waiting (fst (sr_arpcache_queuereq c ip p (Some nm))) a =
    ((waiting c)(ip \<mapsto> \<lparr>pkt_buf = p, pkt_iface = strncpy 32 nm\<rparr> #
       (case waiting c ip of None \<Rightarrow> [] | Some ps \<Rightarrow> ps))) a"
    using assms
    by (cases "find (\<lambda>r. req_ip r = ip) (requests c)")
      (auto simp: waiting_def sr_arpcache_queuereq_def Let_def find_update_first_key add_packet_def)
qed

lemma waiting_insert:
  assumes "arp_inv c"
  shows "waiting (fst (sr_arpcache_insert t c mac ip)) = (waiting c)(ip := None)"
proof
  fix a
  have "distinct (map req_ip (requests c))" using assms by (simp add: arp_inv_def)
  then show "waiting (fst (sr_arpcache_insert t c mac ip)) a = ((waiting c)(ip := None)) a"
    by (cases "a = ip") (simp_all add: waiting_def sr_arpcache_insert_def find_remove_first_distinct
        find_remove_first_other)
qed

section \<open>Properties\<close>

text \<open>
  C36: the request queue refines a map from addresses to lists of waiting packets: queueing puts
  the packet in front of the list of its address and changes no other, an insertion takes
  the list of its address out of the map and returns it.
\<close>

theorem request_queue_refines_map:
  assumes "arp_inv c" and "p \<noteq> []"
  shows "waiting (fst (sr_arpcache_queuereq c ip p (Some nm))) =
      (waiting c)(ip \<mapsto> \<lparr>pkt_buf = p, pkt_iface = strncpy 32 nm\<rparr> #
         (case waiting c ip of None \<Rightarrow> [] | Some ps \<Rightarrow> ps)) \<and>
    waiting (fst (sr_arpcache_insert t c mac ip)) = (waiting c)(ip := None) \<and>
    map_option req_packets (snd (sr_arpcache_insert t c mac ip)) = waiting c ip"
  using waiting_queuereq [OF assms(2)] waiting_insert [OF assms(1)]
  by (simp add: waiting_def sr_arpcache_insert_def)

theorem request_queue_refines_map_witness:
  "waiting (fst (sr_arpcache_queuereq sr_arpcache_init 7 [1, 2] (Some [101]))) 7 =
     Some [\<lparr>pkt_buf = [1, 2], pkt_iface = strncpy 32 [101]\<rparr>]"
proof -
  have "waiting sr_arpcache_init = Map.empty"
    by (simp add: waiting_def sr_arpcache_init_def fun_eq_iff)
  then show ?thesis
    using request_queue_refines_map [OF arp_inv_init, of "[1, 2]" 7 "[101]" 0 "[]"] by simp
qed

text \<open>
  After any sequence of insertions every MAC address a lookup returns is the first six
  bytes of an address that was inserted for that IP address, or was there before; and an
  address inserted for an unknown IP address into a table with a free entry is found.
\<close>

theorem cache_answers_are_learnt:
  assumes "cache_mac (fold (\<lambda>(ip, mac). cache_learn t ip mac) kvs c) ip = Some m"
  shows "cache_mac c ip = Some m \<or> (\<exists>mac. (ip, mac) \<in> set kvs \<and> m = take 6 mac)"
  using assms by (rule arp_table.lookup_learnt_sound)

theorem cache_answers_are_learnt_witness:
  "cache_mac (fold (\<lambda>(ip, mac). cache_learn 5 ip mac) [(7, [1, 2, 3, 4, 5, 6])] sr_arpcache_init) 7 =
     Some [1, 2, 3, 4, 5, 6]"
proof -
  have "cache_mac sr_arpcache_init 7 = None" "cache_room sr_arpcache_init"
    by (simp_all add: cache_mac_def sr_arpcache_lookup_def sr_arpcache_init_def lookup_loop_None_iff
        cache_room_def SR_ARPCACHE_SZ_def)
  moreover from this obtain m where
    m: "cache_mac (fold (\<lambda>(ip, mac). cache_learn 5 ip mac) [(7, [1, 2, 3, 4, 5, 6])] sr_arpcache_init) 7 = Some m"
    using arp_table.lookup_new [of sr_arpcache_init 7 5 "[1, 2, 3, 4, 5, 6]"] by simp
  ultimately show ?thesis
    using cache_answers_are_learnt [OF m] by auto
qed

text \<open>
  A timer tick removes exactly the bindings older than 15 seconds: afterwards a lookup
  succeeds if and only if a valid entry of at most that age existed, and what it returns
  is such an entry.
\<close>

theorem expiry_exact:
  "(sr_arpcache_lookup (expire_entries t c) ip \<noteq> None \<longleftrightarrow>
      (\<exists>e \<in> set (entries c). ent_valid e \<and> ent_ip e = ip \<and> t - ent_added e \<le> 15)) \<and>
   (\<forall>e. sr_arpcache_lookup (expire_entries t c) ip = Some e \<longrightarrow>
      e \<in> set (entries c) \<and> t - ent_added e \<le> 15)"
proof -
  have "sr_arpcache_lookup (expire_entries t c) ip \<noteq> None \<longleftrightarrow>
      (\<exists>e \<in> set (entries c). ent_valid e \<and> ent_ip e = ip \<and> t - ent_added e \<le> 15)"
    by (auto simp: sr_arpcache_lookup_def expire_entries_def SR_ARPCACHE_TO_def lookup_loop_None_iff
        simp del: not_None_eq)
  moreover have "e \<in> set (entries c) \<and> t - ent_added e \<le> 15"
    if "sr_arpcache_lookup (expire_entries t c) ip = Some e" for e
    using that lookup_loop_SomeD [of ip None "entries (expire_entries t c)" e]
    by (auto simp: sr_arpcache_lookup_def expire_entries_def SR_ARPCACHE_TO_def split: if_splits)
  ultimately show ?thesis by blast
qed

definition demo_table :: sr_arpcache where
  "demo_table = \<lparr>entries = [\<lparr>ent_mac = [1], ent_ip = 7, ent_added = 10, ent_valid = True\<rparr>,
                            \<lparr>ent_mac = [2], ent_ip = 8, ent_added = 20, ent_valid = True\<rparr>],
                 requests = [], next_ptr = 1\<rparr>"

theorem expiry_exact_witness:
  "sr_arpcache_lookup (expire_entries 30 demo_table) 7 = None \<and>
   sr_arpcache_lookup (expire_entries 30 demo_table) 8 \<noteq> None"
proof -
  have "\<not> (\<exists>e \<in> set (entries demo_table). ent_valid e \<and> ent_ip e = 7 \<and> 30 - ent_added e \<le> 15)"
    "\<exists>e \<in> set (entries demo_table). ent_valid e \<and> ent_ip e = 8 \<and> 30 - ent_added e \<le> 15"
    by (simp_all add: demo_table_def)
  then show ?thesis
    using expiry_exact [of 30 demo_table 7] expiry_exact [of 30 demo_table 8] by metis
qed

end
