(* ===== verification/Sr_Dumper.thy ===== *)
theory Sr_Dumper
  imports Net_Prelude
begin

text \<open>
  The packet dump file of the router (\<^verbatim>\<open>sr_dumper.c\<close>, \<^verbatim>\<open>sr_dumper.h\<close>). A \<^verbatim>\<open>FILE\<close> open for writing is
  the list of the bytes written to it so far; \<^verbatim>\<open>fwrite\<close> appends. The structures are written as they lie in
  memory: without padding, in the byte order of the (little-endian) host. A reader of the pcap
  format is the specification the writer is checked against.
\<close>

section \<open>Headers\<close>

definition TCPDUMP_MAGIC :: uint32 where "TCPDUMP_MAGIC = 0xa1b2c3d4"
definition PCAP_VERSION_MAJOR :: uint16 where "PCAP_VERSION_MAJOR = 2"
definition PCAP_VERSION_MINOR :: uint16 where "PCAP_VERSION_MINOR = 4"
definition LINKTYPE_ETHERNET :: uint32 where "LINKTYPE_ETHERNET = 1"

record pcap_file_header =
  fh_magic :: uint32
  version_major :: uint16
  version_minor :: uint16
  thiszone :: uint32
  sigfigs :: uint32
  snaplen :: uint32
  linktype :: uint32

text \<open>The header a caller passes: its time stamp has the machine's 64-bit \<^verbatim>\<open>struct timeval\<close>.\<close>

record pcap_pkthdr =
  ts_sec :: int
  ts_usec :: int
  caplen :: uint32
  pkt_len :: uint32

record pcap_sf_pkthdr =
  sf_sec :: uint32
  sf_usec :: uint32
  sf_caplen :: uint32
  sf_len :: uint32

text \<open>The bytes of the structures.\<close>

definition file_header_bytes :: "pcap_file_header \<Rightarrow> byte list" where
  "file_header_bytes h = bytes32 (fh_magic h) @ bytes16 (version_major h) @ bytes16 (version_minor h) @
     bytes32 (thiszone h) @ bytes32 (sigfigs h) @ bytes32 (snaplen h) @ bytes32 (linktype h)"

definition sf_pkthdr_bytes :: "pcap_sf_pkthdr \<Rightarrow> byte list" where
  "sf_pkthdr_bytes h = bytes32 (sf_sec h) @ bytes32 (sf_usec h) @ bytes32 (sf_caplen h) @ bytes32 (sf_len h)"

section \<open>Operations\<close>

type_synonym dump_file = "byte list"

definition sf_write_header :: "dump_file \<Rightarrow> uint32 \<Rightarrow> uint32 \<Rightarrow> uint32 \<Rightarrow> dump_file" where
  "sf_write_header fp linktype_arg thiszone_arg snaplen_arg =
     fp @ file_header_bytes
       \<lparr>fh_magic = TCPDUMP_MAGIC, version_major = PCAP_VERSION_MAJOR, version_minor = PCAP_VERSION_MINOR,
        thiszone = thiszone_arg, sigfigs = 0, snaplen = snaplen_arg, linktype = linktype_arg\<rparr>"

text \<open>
  \<open>can_write\<close> tells for which names \<^verbatim>\<open>fopen(fname, "w")\<close> succeeds, which leaves the file empty;
  \<open>stdout\<close> is what has been written to the standard output.
\<close>

definition sr_dump_open ::
  "(byte list \<Rightarrow> bool) \<Rightarrow> byte list \<Rightarrow> byte list \<Rightarrow> uint32 \<Rightarrow> uint32 \<Rightarrow> dump_file option" where
  "sr_dump_open can_write stdout fname thiszone_arg snaplen_arg =
     (if cstr fname = [45] then Some (sf_write_header stdout LINKTYPE_ETHERNET thiszone_arg snaplen_arg)
      else if can_write (cstr fname)
        then Some (sf_write_header [] LINKTYPE_ETHERNET thiszone_arg snaplen_arg)
      else None)"

text \<open>
  The time stamp is cut to 32 bits. \<open>caplen\<close> bytes of the packet are written, so a caller has to pass
  at least that many; the only one, \<^verbatim>\<open>sr_log_packet\<close>, passes the smaller of the packet's length and the limit.
\<close>

definition sr_dump :: "dump_file \<Rightarrow> pcap_pkthdr \<Rightarrow> byte list \<Rightarrow> dump_file" where
  "sr_dump fp h sp =
     (let sf_hdr = \<lparr>sf_sec = word_of_int (ts_sec h), sf_usec = word_of_int (ts_usec h),
                    sf_caplen = caplen h, sf_len = pkt_len h\<rparr>;
          fp = fp @ sf_pkthdr_bytes sf_hdr
      in fp @ take (unat (caplen h)) sp)"

section \<open>Reading a dump file\<close>

type_synonym dump_record = "pcap_sf_pkthdr \<times> byte list"

definition read_file_header :: "byte list \<Rightarrow> (pcap_file_header \<times> byte list) option" where
  "read_file_header bs =
     (if length bs < 24 then None
      else Some (\<lparr>fh_magic = ld32 0 bs, version_major = ld16 4 bs, version_minor = ld16 6 bs,
                  thiszone = ld32 8 bs, sigfigs = ld32 12 bs, snaplen = ld32 16 bs, linktype = ld32 20 bs\<rparr>,
                 drop 24 bs))"

definition read_record :: "byte list \<Rightarrow> (dump_record \<times> byte list) option" where
  "read_record bs =
     (let h = \<lparr>sf_sec = ld32 0 bs, sf_usec = ld32 4 bs, sf_caplen = ld32 8 bs, sf_len = ld32 12 bs\<rparr>
      in if length bs < 16 + unat (sf_caplen h) then None
         else Some ((h, take (unat (sf_caplen h)) (drop 16 bs)), drop (16 + unat (sf_caplen h)) bs))"

lemma read_record_consumes:
  "read_record bs = Some (r, rest) \<Longrightarrow> length rest < length bs"
  by (auto simp: read_record_def Let_def split: if_splits)

function read_records :: "byte list \<Rightarrow> dump_record list option" where
  "read_records bs =
     (if bs = [] then Some []
      else case read_record bs of
             None \<Rightarrow> None
           | Some (r, rest) \<Rightarrow> map_option ((#) r) (read_records rest))"
  by pat_completeness auto
termination
  by (relation "measure length") (auto dest: read_record_consumes)

declare read_records.simps [simp del]

definition read_dump :: "byte list \<Rightarrow> (pcap_file_header \<times> dump_record list) option" where
  "read_dump bs =
     (case read_file_header bs of
        None \<Rightarrow> None
      | Some (h, rest) \<Rightarrow> map_option (Pair h) (read_records rest))"

text \<open>A record is well formed when its header counts its bytes.\<close>

definition record_ok :: "dump_record \<Rightarrow> bool" where
  "record_ok r \<longleftrightarrow> unat (sf_caplen (fst r)) = length (snd r)"

definition record_bytes :: "dump_record \<Rightarrow> byte list" where
  "record_bytes r = sf_pkthdr_bytes (fst r) @ snd r"

lemma length_header_bytes [simp]:
  "length (file_header_bytes h) = 24" "length (sf_pkthdr_bytes s) = 16"
  by (simp_all add: file_header_bytes_def sf_pkthdr_bytes_def)

lemma read_file_header_bytes: "read_file_header (file_header_bytes h @ bs) = Some (h, bs)"
  by (cases h) (simp add: read_file_header_def file_header_bytes_def buffer_simps rd_whole)

lemma read_record_bytes:
  assumes "record_ok r"
  shows "read_record (record_bytes r @ bs) = Some (r, bs)"
proof -
  obtain h d where r: "r = (h, d)" by (cases r)
  have f: "ld32 0 (record_bytes r @ bs) = sf_sec h" "ld32 4 (record_bytes r @ bs) = sf_usec h"
    "ld32 8 (record_bytes r @ bs) = sf_caplen h" "ld32 12 (record_bytes r @ bs) = sf_len h"
    by (simp_all add: r record_bytes_def sf_pkthdr_bytes_def buffer_simps rd_whole)
  have d: "drop 16 (record_bytes r @ bs) = d @ bs" "length (record_bytes r @ bs) = 16 + length d + length bs"
    by (simp_all add: r record_bytes_def)
  then have "drop (16 + length d) (record_bytes r @ bs) = bs"
    by (metis add.commute append_eq_conv_conj drop_drop)
  with d assms show ?thesis
    by (simp add: read_record_def Let_def f) (simp add: r record_ok_def)
qed

lemma read_records_bytes:
  "list_all record_ok rs \<Longrightarrow> read_records (concat (map record_bytes rs)) = Some rs"
proof (induction rs)
  case Nil
  then show ?case by (simp add: read_records.simps)
next
  case (Cons r rs)
  have "record_bytes r \<noteq> []"
    by (metis add_is_0 length_append length_header_bytes(2) list.size(3) record_bytes_def zero_neq_numeral)
  with Cons show ?case
    by (subst read_records.simps) (simp add: read_record_bytes)
qed

lemma read_dump_bytes:
  "list_all record_ok rs \<Longrightarrow>
   read_dump (file_header_bytes h @ concat (map record_bytes rs)) = Some (h, rs)"
  by (simp add: read_dump_def read_file_header_bytes read_records_bytes)

lemma sr_dump_record:
  "sr_dump fp h sp = fp @ record_bytes
     (\<lparr>sf_sec = word_of_int (ts_sec h), sf_usec = word_of_int (ts_usec h), sf_caplen = caplen h, sf_len = pkt_len h\<rparr>,
      take (unat (caplen h)) sp)"
  by (simp add: sr_dump_def record_bytes_def)

end
