(* ===== verification/Sr_Instance.thy ===== *)
theory Sr_Instance
  imports Inet_Cksum Sr_If_Rt Sr_Arpcache Sr_Dumper
begin

text \<open>
  The state of one router (\<^verbatim>\<open>struct sr_instance\<close> of \<^verbatim>\<open>sr_router.h\<close>), the packet layouts of
  \<^verbatim>\<open>sr_protocol.h\<close> as offsets into a frame, and the transmit path of
  \<^verbatim>\<open>sr_vns_comm.c\<close>. The bytes written to the server's socket are collected in \<open>wire\<close>,
  the bytes of the dump file in \<open>logfile\<close> (\<open>None\<close> when no dump file is
  open). What the operating system contributes to one handled event is the record \<open>os\<close>:
  the clock (seconds and microseconds), the contents of freshly allocated memory and the result of \<^verbatim>\<open>write\<close>.
\<close>

section \<open>State\<close>

record os =
  now :: time_t
  now_usec :: int
  uninit :: "nat \<Rightarrow> byte"
  write_ret :: "byte list \<Rightarrow> int"

record sr_instance =
  sr_user :: "byte list"
  sr_host :: "byte list"
  sr_template :: "byte list"
  topo_id :: uint16
  if_list :: "sr_if list"
  routing_table :: "sr_rt list"
  cache :: sr_arpcache
  logfile :: "dump_file option"
  wire :: "byte list list"

definition malloc :: "os \<Rightarrow> nat \<Rightarrow> byte list" where
  "malloc os n = map (uninit os) [0..<n]"

lemma length_malloc [simp]: "length (malloc os n) = n"
  by (simp add: malloc_def)

section \<open>Layout of the headers\<close>

text \<open>Sizes of the packed structures.\<close>

definition sizeof_ethernet_hdr :: nat where [header_defs]: "sizeof_ethernet_hdr = 14"
definition sizeof_ip_hdr :: nat where [header_defs]: "sizeof_ip_hdr = 20"
definition sizeof_icmp_hdr :: nat where [header_defs]: "sizeof_icmp_hdr = 36"
definition sizeof_icmp_t3_hdr :: nat where [header_defs]: "sizeof_icmp_t3_hdr = 36"
definition sizeof_arp_hdr :: nat where [header_defs]: "sizeof_arp_hdr = 28"
definition ICMP_DATA_SIZE :: nat where [header_defs]: "ICMP_DATA_SIZE = 28"
definition ETHER_ADDR_LEN :: nat where [header_defs]: "ETHER_ADDR_LEN = 6"

text \<open>Constants of the enumerations.\<close>

definition ethertype_arp :: uint16 where [header_defs]: "ethertype_arp = 0x0806"
definition ethertype_ip :: uint16 where [header_defs]: "ethertype_ip = 0x0800"
definition ip_protocol_icmp :: byte where [header_defs]: "ip_protocol_icmp = 1"
definition arp_op_request :: uint16 where [header_defs]: "arp_op_request = 1"
definition arp_op_reply :: uint16 where [header_defs]: "arp_op_reply = 2"
definition arp_hrd_ethernet :: uint16 where [header_defs]: "arp_hrd_ethernet = 1"
definition IP_DF :: uint16 where [header_defs]: "IP_DF = 0x4000"

text \<open>
  Offsets of the fields in a frame: \<open>sr_ethernet_hdr\<close> at 0, \<open>sr_ip_hdr\<close> and
  \<open>sr_arp_hdr\<close> at 14, \<open>sr_icmp_hdr\<close> and \<open>sr_icmp_t3_hdr\<close> at 34.
\<close>

definition ether_dhost :: nat where [header_defs]: "ether_dhost = 0"
definition ether_shost :: nat where [header_defs]: "ether_shost = 6"
definition ether_type :: nat where [header_defs]: "ether_type = 12"
definition ip_v_hl :: nat where [header_defs]: "ip_v_hl = 14"
definition ip_tos :: nat where [header_defs]: "ip_tos = 15"
definition ip_len :: nat where [header_defs]: "ip_len = 16"
definition ip_id :: nat where [header_defs]: "ip_id = 18"
definition ip_off :: nat where [header_defs]: "ip_off = 20"
definition ip_ttl :: nat where [header_defs]: "ip_ttl = 22"
definition ip_p :: nat where [header_defs]: "ip_p = 23"
definition ip_sum :: nat where [header_defs]: "ip_sum = 24"
definition ip_src :: nat where [header_defs]: "ip_src = 26"
definition ip_dst :: nat where [header_defs]: "ip_dst = 30"
definition icmp_type :: nat where [header_defs]: "icmp_type = 34"
definition icmp_code :: nat where [header_defs]: "icmp_code = 35"
definition icmp_sum :: nat where [header_defs]: "icmp_sum = 36"
definition icmp_data :: nat where [header_defs]: "icmp_data = 42"
definition ar_hrd :: nat where [header_defs]: "ar_hrd = 14"
definition ar_pro :: nat where [header_defs]: "ar_pro = 16"
definition ar_hln :: nat where [header_defs]: "ar_hln = 18"
definition ar_pln :: nat where [header_defs]: "ar_pln = 19"
definition ar_op :: nat where [header_defs]: "ar_op = 20"
definition ar_sha :: nat where [header_defs]: "ar_sha = 22"
definition ar_sip :: nat where [header_defs]: "ar_sip = 28"
definition ar_tha :: nat where [header_defs]: "ar_tha = 32"
definition ar_tip :: nat where [header_defs]: "ar_tip = 38"

text \<open>The IP and the ICMP header of a frame, as the checksum routine reads them.\<close>

definition ip_header :: "byte list \<Rightarrow> byte list" where
  "ip_header p = rd sizeof_ethernet_hdr sizeof_ip_hdr p"

definition icmp_header :: "byte list \<Rightarrow> byte list" where
  "icmp_header p = rd (sizeof_ethernet_hdr + sizeof_ip_hdr) sizeof_icmp_hdr p"

section \<open>Sending a frame\<close>

definition VNSPACKET :: uint32 where
  "VNSPACKET = 4"

definition PACKET_DUMP_SIZE :: nat where
  "PACKET_DUMP_SIZE = 1024"

definition log_pkthdr :: "os \<Rightarrow> nat \<Rightarrow> pcap_pkthdr" where
  "log_pkthdr os len =
     (let size = min PACKET_DUMP_SIZE len
      in \<lparr>ts_sec = now os, ts_usec = now_usec os, caplen = word_of_nat size,
          pkt_len = word_of_nat (if size < PACKET_DUMP_SIZE then size else PACKET_DUMP_SIZE)\<rparr>)"

definition sr_log_packet :: "os \<Rightarrow> sr_instance \<Rightarrow> byte list \<Rightarrow> sr_instance" where
  "sr_log_packet os sr buf =
     (case logfile sr of
        None \<Rightarrow> sr
      | Some fp \<Rightarrow> sr\<lparr>logfile := Some (sr_dump fp (log_pkthdr os (length buf)) buf)\<rparr>)"

definition sr_ether_addrs_match_interface :: "sr_instance \<Rightarrow> byte list \<Rightarrow> byte list \<Rightarrow> bool" where
  "sr_ether_addrs_match_interface sr buf nm =
     (case sr_get_interface (if_list sr) nm of
        None \<Rightarrow> False
      | Some iface \<Rightarrow> rd ether_shost ETHER_ADDR_LEN buf = take ETHER_ADDR_LEN (if_addr iface))"

definition vns_packet_msg :: "byte list \<Rightarrow> byte list \<Rightarrow> byte list" where
  "vns_packet_msg buf iface =
     bytes32 (htonl (word_of_nat (length buf + 24))) @ bytes32 (htonl VNSPACKET) @
     strncpy 16 iface @ buf"

definition sr_send_packet ::
  "os \<Rightarrow> sr_instance \<Rightarrow> byte list \<Rightarrow> byte list \<Rightarrow> int \<times> sr_instance" where
  "sr_send_packet os sr buf iface =
     (if length buf < sizeof_ethernet_hdr then (-1, sr)
      else
        let sr_pkt = vns_packet_msg buf iface;
            sr = sr_log_packet os sr buf
        in if \<not> sr_ether_addrs_match_interface sr buf iface then (-1, sr)
           else
             let n = write_ret os sr_pkt;
                 sr = sr\<lparr>wire := wire sr @ [take (nat n) sr_pkt]\<rparr>
             in if n < int (length sr_pkt) then (-1, sr) else (0, sr))"

text \<open>Every caller in the router discards the result code.\<close>

definition send_frame :: "os \<Rightarrow> byte list \<Rightarrow> byte list \<Rightarrow> sr_instance \<Rightarrow> sr_instance" where
  "send_frame os buf iface sr = snd (sr_send_packet os sr buf iface)"

definition write_all :: "os \<Rightarrow> bool" where
  "write_all os \<longleftrightarrow> (\<forall>m. write_ret os m = int (length m))"

lemma sr_log_packet_keeps [simp]:
  "if_list (sr_log_packet os sr buf) = if_list sr"
  "routing_table (sr_log_packet os sr buf) = routing_table sr"
  "cache (sr_log_packet os sr buf) = cache sr"
  "wire (sr_log_packet os sr buf) = wire sr"
  by (simp_all add: sr_log_packet_def Let_def split: option.split)

lemma send_frame_keeps [simp]:
  "if_list (send_frame os buf i sr) = if_list sr"
  "routing_table (send_frame os buf i sr) = routing_table sr"
  "cache (send_frame os buf i sr) = cache sr"
  by (simp_all add: send_frame_def sr_send_packet_def Let_def)

lemma match_interface_log [simp]:
  "sr_ether_addrs_match_interface (sr_log_packet os sr b) buf i =
   sr_ether_addrs_match_interface sr buf i"
  by (simp add: sr_ether_addrs_match_interface_def)

lemma send_frame_wire:
  assumes "write_all os"
  shows "wire (send_frame os buf i sr) =
    wire sr @ (if 14 \<le> length buf \<and> sr_ether_addrs_match_interface sr buf i
               then [vns_packet_msg buf i] else [])"
  using assms
  by (simp add: send_frame_def sr_send_packet_def Let_def write_all_def header_defs not_less)

lemma length_vns_packet_msg [simp]: "length (vns_packet_msg buf i) = length buf + 24"
  by (simp add: vns_packet_msg_def)

lemma vns_packet_msg_fields:
  "ntohl (ld32 0 (vns_packet_msg buf i)) = word_of_nat (length buf + 24)"
  "ntohl (ld32 4 (vns_packet_msg buf i)) = VNSPACKET"
  "rd 8 16 (vns_packet_msg buf i) = strncpy 16 i"
  "drop 24 (vns_packet_msg buf i) = buf"
  by (simp_all add: vns_packet_msg_def buffer_simps rd_whole)

end
