(* ===== verification/Sr_Router.thy ===== *)
theory Sr_Router
  imports Sr_Instance
begin

text \<open>
  The router proper: \<^verbatim>\<open>sr_router.c\<close> and the packet-sending half of
  \<^verbatim>\<open>sr_arpcache.c\<close>. A handler takes the operating-system record, the router and the
  frame, and returns the router afterwards or the fault the C code runs into; the frames
  it sends are appended to \<open>wire\<close>. A packet buffer and its length argument are one
  list. What the handlers print is left out, apart from the bytes the printers read; the
  printers themselves are in \<open>Sr_Utils\<close>.

  \<^verbatim>\<open>handle_arpreq\<close> and \<^verbatim>\<open>sr_send_icmp_packet\<close> call each other. The first argument of
  \<open>handle_arpreq\<close> bounds the depth of that recursion: \<open>Inl Diverges\<close> is the result
  when the bound is exhausted. One reading of the clock serves a whole handled event.
\<close>

section \<open>ARP requests\<close>

definition arp_request_frame :: "sr_if \<Rightarrow> uint32 \<Rightarrow> byte list \<Rightarrow> byte list" where
  "arp_request_frame i ip p =
     (let p = upd ether_shost (take ETHER_ADDR_LEN (if_addr i)) p;
          p = st16 ether_type (htons ethertype_arp) p;
          p = st16 ar_hrd (htons arp_hrd_ethernet) p;
          p = st16 ar_pro (htons 0x0800) p;
          p = st8 ar_hln 6 p;
          p = st8 ar_pln 4 p;
          p = st16 ar_op (htons arp_op_request) p;
          p = upd ar_sha (take ETHER_ADDR_LEN (if_addr i)) p;
          p = upd ar_tha (replicate 6 0) p;
          p = st32 ar_sip (if_ip i) p
      in st32 ar_tip ip p)"

fun arp_request_loop ::
  "os \<Rightarrow> uint32 \<Rightarrow> byte list \<Rightarrow> sr_if list \<Rightarrow> sr_instance \<Rightarrow> sr_instance" where
  "arp_request_loop os ip packet [] sr = sr"
| "arp_request_loop os ip packet (i # is) sr =
     (let packet = arp_request_frame i ip packet
      in arp_request_loop os ip packet is (send_frame os packet (if_name i) sr))"

definition sr_send_arp_request :: "os \<Rightarrow> sr_instance \<Rightarrow> uint32 \<Rightarrow> sr_instance" where
  "sr_send_arp_request os sr ip =
     (let packet = upd ether_dhost (replicate 6 0xFF)
                     (malloc os (sizeof_ethernet_hdr + sizeof_arp_hdr))
      in arp_request_loop os ip packet (if_list sr) sr)"

section \<open>ICMP errors and outstanding ARP requests\<close>

text \<open>The parts of \<^verbatim>\<open>sr_send_icmp_packet\<close> that fill in the new packet.\<close>

definition icmp_error_frame ::
  "os \<Rightarrow> uint32 \<Rightarrow> byte list \<Rightarrow> byte \<Rightarrow> byte \<Rightarrow> byte list" where
  "icmp_error_frame os destination_ip ip_packet type code =
     (let icmp_packet_len = sizeof_ethernet_hdr + sizeof_ip_hdr + sizeof_icmp_t3_hdr;
          p = malloc os icmp_packet_len;
          p = st16 ether_type (htons ethertype_ip) p;
          p = st8 ip_tos 0 p;
          p = st16 ip_len (htons (word_of_nat (icmp_packet_len - sizeof_ethernet_hdr))) p;
          p = st16 ip_id (htons 0) p;
          p = st16 ip_off (htons IP_DF) p;
          p = st8 ip_ttl 64 p;
          p = st8 ip_p ip_protocol_icmp p;
          p = st32 ip_dst destination_ip p;
          p = st8 ip_v_hl 0x45 p;
          p = st8 icmp_type type p;
          p = st8 icmp_code code p;
          p = upd icmp_data (take ICMP_DATA_SIZE ip_packet) p;
          p = st16 icmp_sum 0 p
      in st16 icmp_sum (cksum (icmp_header p)) p)"

definition icmp_source_frame :: "sr_if \<Rightarrow> byte list \<Rightarrow> byte list" where
  "icmp_source_frame i p =
     (let p = st32 ip_src (if_ip i) p;
          p = st16 ip_sum 0 p;
          p = st16 ip_sum (cksum (ip_header p)) p
      in upd ether_shost (take ETHER_ADDR_LEN (if_addr i)) p)"

definition send_icmp_with ::
  "(sr_instance \<Rightarrow> nat \<Rightarrow> fault + sr_instance) \<Rightarrow>
   os \<Rightarrow> sr_instance \<Rightarrow> uint32 \<Rightarrow> byte list \<Rightarrow> byte \<Rightarrow> byte \<Rightarrow> fault + sr_instance" where
  "send_icmp_with handle os sr destination_ip ip_packet type code =
     need (ICMP_DATA_SIZE \<le> length ip_packet) Out_of_bounds
       (let packet = icmp_error_frame os destination_ip ip_packet type code
        in case longest_match (routing_table sr) destination_ip of
          None \<Rightarrow> Inr sr
        | Some route_match \<Rightarrow>
            let ip_nexthop = rt_gw route_match
            in deref (get_interface_from_ip (if_list sr) ip_nexthop) (\<lambda>interface.
              let packet = icmp_source_frame interface packet
              in case sr_arpcache_lookup (cache sr) ip_nexthop of
                Some arp_entry \<Rightarrow>
                  Inr (send_frame os (upd ether_dhost (ent_mac arp_entry) packet)
                         (if_name interface) sr)
              | None \<Rightarrow>
                  let (c, arp_req) = sr_arpcache_queuereq (cache sr) ip_nexthop packet
                                       (Some (if_name interface))
                  in handle (sr\<lparr>cache := c\<rparr>) arp_req))"

text \<open>The loop of \<^verbatim>\<open>handle_arpreq\<close> over the packets that wait on a request.\<close>

fun unreachable_loop ::
  "(sr_instance \<Rightarrow> uint32 \<Rightarrow> byte list \<Rightarrow> fault + sr_instance) \<Rightarrow> nat \<Rightarrow>
   sr_packet list \<Rightarrow> sr_instance \<Rightarrow> fault + sr_instance" where
  "unreachable_loop send ptr [] sr = Inr sr"
| "unreachable_loop send ptr (p # ps) sr =
     need (sizeof_ethernet_hdr + sizeof_ip_hdr - 4 \<le> length (pkt_buf p)) Out_of_bounds
       (andthen (send sr (ld32 ip_src (pkt_buf p)) (drop sizeof_ethernet_hdr (pkt_buf p))) (\<lambda>sr.
          need (ptr \<in> set (map req_ptr (requests (cache sr)))) Use_after_free
            (unreachable_loop send ptr ps sr)))"

primrec handle_arpreq :: "nat \<Rightarrow> os \<Rightarrow> sr_instance \<Rightarrow> nat \<Rightarrow> fault + sr_instance" where
  "handle_arpreq 0 os sr request = Inl Diverges"
| "handle_arpreq (Suc depth) os sr request =
     (case find (\<lambda>r. req_ptr r = request) (requests (cache sr)) of
        None \<Rightarrow> Inl Use_after_free
      | Some r \<Rightarrow>
          if now os - req_sent r > 1 then
            if req_times_sent r \<ge> 5 then
              andthen
                (unreachable_loop
                   (\<lambda>sr dst pkt. send_icmp_with (handle_arpreq depth os) os sr dst pkt 3 1)
                   request (req_packets r) sr)
                (\<lambda>sr. Inr (sr\<lparr>cache := sr_arpreq_destroy (cache sr) request\<rparr>))
            else
              let sr = sr_send_arp_request os sr (req_ip r)
              in Inr (sr\<lparr>cache := (cache sr)\<lparr>requests :=
                   update_first (\<lambda>r. req_ptr r = request)
                     (\<lambda>r. r\<lparr>req_sent := now os, req_times_sent := req_times_sent r + 1\<rparr>)
                     (requests (cache sr))\<rparr>\<rparr>)
          else Inr sr)"

definition sr_send_icmp_packet ::
  "nat \<Rightarrow> os \<Rightarrow> sr_instance \<Rightarrow> uint32 \<Rightarrow> byte list \<Rightarrow> byte \<Rightarrow> byte \<Rightarrow> fault + sr_instance" where
  "sr_send_icmp_packet depth os = send_icmp_with (handle_arpreq depth os) os"

text \<open>
  The sweep follows the \<^verbatim>\<open>next\<close> pointers from the request that is first when it starts;
  the next pointer is read before the request is handled. Requests are only ever added in
  front, so the pointers visited are those of the queue at the start.
\<close>

fun sweep_loop :: "nat \<Rightarrow> os \<Rightarrow> nat list \<Rightarrow> sr_instance \<Rightarrow> fault + sr_instance" where
  "sweep_loop depth os [] sr = Inr sr"
| "sweep_loop depth os (req # reqs) sr =
     andthen (handle_arpreq depth os sr req) (sweep_loop depth os reqs)"

definition sr_arpcache_sweepreqs :: "nat \<Rightarrow> os \<Rightarrow> sr_instance \<Rightarrow> fault + sr_instance" where
  "sr_arpcache_sweepreqs depth os sr =
     sweep_loop depth os (map req_ptr (requests (cache sr))) sr"

text \<open>One turn of the timeout thread.\<close>

definition sr_arpcache_timeout :: "nat \<Rightarrow> os \<Rightarrow> sr_instance \<Rightarrow> fault + sr_instance" where
  "sr_arpcache_timeout depth os sr =
     sr_arpcache_sweepreqs depth os (sr\<lparr>cache := expire_entries (now os) (cache sr)\<rparr>)"

section \<open>Received frames\<close>

definition arp_reply_frame :: "sr_if \<Rightarrow> byte list \<Rightarrow> byte list" where
  "arp_reply_frame router_interface packet =
     (let send_MAC = rd ar_sha ETHER_ADDR_LEN packet;
          send_ip = ld32 ar_sip packet;
          tar_ip = ld32 ar_tip packet;
          mac = take ETHER_ADDR_LEN (if_addr router_interface);
          p = upd ether_shost mac packet;
          p = upd ether_dhost send_MAC p;
          p = upd ar_sha mac p;
          p = upd ar_tha send_MAC p;
          p = st32 ar_sip tar_ip p;
          p = st32 ar_tip send_ip p
      in st16 ar_op (htons arp_op_reply) p)"

definition sr_handle_arp_packet :: "os \<Rightarrow> sr_instance \<Rightarrow> byte list \<Rightarrow> fault + sr_instance" where
  "sr_handle_arp_packet os sr packet =
     need (sizeof_ethernet_hdr + sizeof_arp_hdr \<le> length packet) Out_of_bounds
       (let send_MAC = rd ar_sha ETHER_ADDR_LEN packet;
            send_ip = ld32 ar_sip packet;
            tar_ip = ld32 ar_tip packet;
            op = ntohs (ld16 ar_op packet);
            router_interface = get_interface_from_ip (if_list sr) tar_ip
        in if op = arp_op_request then
             (case router_interface of
                Some i \<Rightarrow>
                  let sr = sr\<lparr>cache := fst (sr_arpcache_insert (now os) (cache sr) send_MAC send_ip)\<rparr>
                  in Inr (send_frame os (arp_reply_frame i packet) (if_name i) sr)
              | None \<Rightarrow> Inr sr)
           else if op = arp_op_reply then
             (case router_interface of
                Some i \<Rightarrow>
                  Inr (sr\<lparr>cache := fst (sr_arpcache_insert (now os) (cache sr) send_MAC send_ip)\<rparr>)
              | None \<Rightarrow> Inr sr)
           else Inr sr)"

definition echo_reply_frame :: "sr_if \<Rightarrow> byte list \<Rightarrow> byte list" where
  "echo_reply_frame now_interface packet =
     (let source = rd ether_shost ETHER_ADDR_LEN packet;
          destination = rd ether_dhost ETHER_ADDR_LEN packet;
          icmp_start = sizeof_ethernet_hdr + sizeof_ip_hdr;
          p = st8 icmp_type 0 packet;
          p = st8 icmp_code 0 p;
          p = st16 icmp_sum 0 p;
          p = st16 icmp_sum (cksum (drop icmp_start p)) p;
          p = st32 ip_dst (ld32 ip_src p) p;
          p = st32 ip_src (if_ip now_interface) p;
          p = st16 ip_sum 0 p;
          p = st16 ip_sum (cksum (ip_header p)) p;
          p = upd ether_dhost source p
      in upd ether_shost destination p)"

definition sr_echo_icmp_packet ::
  "os \<Rightarrow> sr_instance \<Rightarrow> byte list \<Rightarrow> byte list \<Rightarrow> fault + sr_instance" where
  "sr_echo_icmp_packet os sr packet interface =
     deref (sr_get_interface (if_list sr) interface) (\<lambda>now_interface.
       Inr (send_frame os (echo_reply_frame now_interface packet) interface sr))"

definition ttl_frame :: "byte list \<Rightarrow> byte list" where
  "ttl_frame packet = st8 ip_ttl (ld8 ip_ttl packet - 1) packet"

definition forward_frame :: "byte list \<Rightarrow> byte list" where
  "forward_frame packet =
     (let p = st16 ip_sum 0 packet in st16 ip_sum (cksum (ip_header p)) p)"

text \<open>
  \<^verbatim>\<open>ip_forwarding\<close>. In its last branch \<^verbatim>\<open>now_interface\<close> is null and \<^verbatim>\<open>name\<close> is the first
  field of the structure, so \<^verbatim>\<open>now_interface->name\<close> is the null pointer that
  \<^verbatim>\<open>sr_arpcache_queuereq\<close> receives as the interface.
\<close>

definition ip_forwarding ::
  "nat \<Rightarrow> os \<Rightarrow> sr_instance \<Rightarrow> byte list \<Rightarrow> byte list \<Rightarrow> sr_rt option \<Rightarrow> fault + sr_instance" where
  "ip_forwarding depth os sr packet interface route_match =
     (case get_interface_from_ip (if_list sr) (ld32 ip_dst packet) of
        None \<Rightarrow>
          let ip_source = ld32 ip_src packet;
              packet = ttl_frame packet
          in if ld8 ip_ttl packet = 0
             then sr_send_icmp_packet depth os sr ip_source packet 11 0
             else
               let packet = forward_frame packet
               in deref route_match (\<lambda>route.
                 let ip_nexthop = rt_gw route
                 in case sr_arpcache_lookup (cache sr) ip_nexthop of
                   Some arp_entry \<Rightarrow>
                     deref (sr_get_interface (if_list sr) (rt_interface route)) (\<lambda>next_interface.
                       let p = upd ether_shost (take ETHER_ADDR_LEN (if_addr next_interface)) packet;
                           p = upd ether_dhost (ent_mac arp_entry) p
                       in Inr (send_frame os p (if_name next_interface) sr))
                 | None \<Rightarrow>
                     let (c, arp_req) = sr_arpcache_queuereq (cache sr) ip_nexthop packet None
                     in handle_arpreq depth os (sr\<lparr>cache := c\<rparr>) arp_req)
      | Some _ \<Rightarrow>
          if ld8 ip_p packet = ip_protocol_icmp then
            need (sizeof_ethernet_hdr + sizeof_ip_hdr + 4 \<le> length packet) Out_of_bounds
              (if ld8 icmp_type packet = 8 \<and> ld8 icmp_code packet = 0
               then sr_echo_icmp_packet os sr packet interface
               else Inr sr)
          else sr_send_icmp_packet depth os sr (ld32 ip_src packet) packet 3 3)"

definition sr_handle_ip_packet ::
  "nat \<Rightarrow> os \<Rightarrow> sr_instance \<Rightarrow> byte list \<Rightarrow> byte list \<Rightarrow> fault + sr_instance" where
  "sr_handle_ip_packet depth os sr packet interface =
     need (sizeof_ethernet_hdr + sizeof_ip_hdr \<le> length packet) Out_of_bounds
       (let router_interface = get_interface_from_ip (if_list sr) (ld32 ip_dst packet);
            route_match = longest_match (routing_table sr) (ld32 ip_dst packet)
        in if router_interface = None \<and> route_match = None
           then sr_send_icmp_packet depth os sr (ld32 ip_src packet) packet 3 0
           else ip_forwarding depth os sr packet interface route_match)"

definition ip_checksum_ok :: "byte list \<Rightarrow> bool" where
  "ip_checksum_ok packet \<longleftrightarrow> cksum (ip_header packet) = ld16 ip_sum packet"

definition icmp_checksum_ok :: "byte list \<Rightarrow> bool" where
  "icmp_checksum_ok packet \<longleftrightarrow> cksum (icmp_header packet) = ld16 icmp_sum packet"

definition sr_handlepacket ::
  "nat \<Rightarrow> os \<Rightarrow> sr_instance \<Rightarrow> byte list \<Rightarrow> byte list \<Rightarrow> fault + sr_instance" where
  "sr_handlepacket depth os sr packet interface =
     need (sizeof_ethernet_hdr \<le> length packet) Out_of_bounds
       (let type = ntohs (ld16 ether_type packet)
        in if type = ethertype_arp then sr_handle_arp_packet os sr packet
           else if type = ethertype_ip then
             if length packet < sizeof_ethernet_hdr + sizeof_ip_hdr then Inr sr
             else if \<not> ip_checksum_ok packet then Inr sr
             else if ld8 ip_p packet = ip_protocol_icmp \<and>
                     length packet < sizeof_ethernet_hdr + sizeof_ip_hdr + sizeof_icmp_hdr then Inr sr
             else if ld8 ip_p packet = ip_protocol_icmp \<and> \<not> icmp_checksum_ok packet then Inr sr
             else sr_handle_ip_packet depth os sr packet interface
           else Inr sr)"

definition sr_init :: "sr_instance \<Rightarrow> sr_instance" where
  "sr_init sr = sr\<lparr>cache := sr_arpcache_init\<rparr>"

end
