(* ===== verification/Sr_Router_Correct.thy ===== *)
theory Sr_Router_Correct
  imports Sr_Router
begin

text \<open>
  What the router does with a frame: the fields and checksums of the frames it builds, the
  frames each handler puts on the wire, the fate of a frame that cannot be forwarded, the
  retransmission of ARP requests, and the invariant of every state the router reaches by
  handling frames and timer ticks (an interpretation of \<open>step_system\<close>).
\<close>

section \<open>Interfaces as the router needs them\<close>

text \<open>
  Interface names differ in their first 32 bytes and every hardware address has its six
  bytes: what \<^verbatim>\<open>sr_handle_hwinfo\<close> sets up from a sensible hardware description.
\<close>

definition ifs_wf :: "sr_if list \<Rightarrow> bool" where
  "ifs_wf ifs \<longleftrightarrow> distinct (map (\<lambda>i. take 32 (cstr (if_name i))) ifs) \<and>
     (\<forall>i \<in> set ifs. length (if_addr i) = 6)"

lemma find_key_distinct:
  "distinct (map g xs) \<Longrightarrow> x \<in> set xs \<Longrightarrow> find (\<lambda>y. g y = g x) xs = Some x"
  by (induction xs) (auto simp: image_iff)

lemma sr_get_interface_self:
  "ifs_wf ifs \<Longrightarrow> i \<in> set ifs \<Longrightarrow> sr_get_interface ifs (if_name i) = Some i"
  using find_key_distinct [of "\<lambda>i. take 32 (cstr (if_name i))" ifs i]
  by (simp add: sr_get_interface_def sr_IFACE_NAMELEN_def strncmp_eq_iff ifs_wf_def)

lemma ifs_wf_addr: "ifs_wf ifs \<Longrightarrow> i \<in> set ifs \<Longrightarrow> length (if_addr i) = 6"
  by (simp add: ifs_wf_def)

lemma send_frame_own:
  assumes "write_all os" and "ifs_wf (if_list sr)" and "i \<in> set (if_list sr)"
    and "14 \<le> length buf" and "rd 6 6 buf = if_addr i"
  shows "wire (send_frame os buf (if_name i) sr) = wire sr @ [vns_packet_msg buf (if_name i)]"
  using assms by (simp add: send_frame_wire sr_ether_addrs_match_interface_def header_defs
      sr_get_interface_self ifs_wf_addr)

section \<open>Checksummed headers inside a frame\<close>

text \<open>A field of a header, written through the frame.\<close>

lemma nth_rd: "j < length (rd off n p) \<Longrightarrow> rd off n p ! j = p ! (off + j)"
  by (auto simp: rd_def nth_take)

lemma nth_upd:
  assumes "j < length p"
  shows "upd k bs p ! j = (if k \<le> j \<and> j < k + length bs then bs ! (j - k) else p ! j)"
proof -
  consider "j < k" | "k \<le> j" "j < k + length bs" | "k + length bs \<le> j" by linarith
  then show ?thesis
    by cases (use assms in \<open>auto simp: upd_def nth_append min_def\<close>)
qed

lemma rd_upd_inside:
  assumes "off \<le> k" and "k + length bs \<le> off + n" and "off + n \<le> length p"
  shows "rd off n (upd k bs p) = upd (k - off) bs (rd off n p)"
proof -
  obtain m where "k = off + m" using assms(1) le_Suc_ex by blast
  with assms show ?thesis
    by (intro nth_equalityI) (simp_all add: nth_rd nth_upd)
qed

lemma drop_upd_inside:
  "off \<le> k \<Longrightarrow> drop off (upd k bs p) = upd (k - off) bs (drop off p)"
proof -
  assume "off \<le> k"
  then obtain m where "k = off + m" using le_Suc_ex by blast
  then show ?thesis
    by (intro nth_equalityI) (simp_all add: nth_upd)
qed

lemma drop_upd_before: "k + length bs \<le> off \<Longrightarrow> drop off (upd k bs p) = drop off p"
  by (rule nth_equalityI) (simp_all add: nth_upd)

lemma take_upd_after: "n \<le> k \<Longrightarrow> take n (upd k bs p) = take n p"
  by (rule nth_equalityI) (simp_all add: nth_upd)

text \<open>A correct Internet checksum (RFC 1071): the 16-bit words sum to zero modulo 65535.\<close>

definition sums_to_zero :: "byte list \<Rightarrow> bool" where
  "sums_to_zero h \<longleftrightarrow> be_sum h mod 65535 = 0"

lemma sums_to_zero_fill:
  "off + 2 \<le> length h \<Longrightarrow> even off \<Longrightarrow> length h \<le> 131070 \<Longrightarrow>
    sums_to_zero (upd off (bytes16 (cksum (upd off (bytes16 0) h))) (upd off (bytes16 0) h))"
  using be_sum_fill_cksum [of off h] by (simp add: sums_to_zero_def fill_cksum_def)

lemma sums_to_zero_cksum:
  "sums_to_zero h \<Longrightarrow> length h \<le> 131070 \<Longrightarrow> cksum h = 0xFFFF"
proof -
  assume "sums_to_zero h" "length h \<le> 131070"
  then have "unat (ntohs (cksum h)) = unat (ntohs 0xFFFF)"
    by (simp add: cksum_value sums_to_zero_def) (simp add: ntohs_def htons_def bytes16_def le16_def)
  then show ?thesis by (metis ntohs_eq_iff unsigned_word_eqI)
qed

lemma ip_header_upd_other:
  "k + length bs \<le> 14 \<or> 34 \<le> k \<Longrightarrow> ip_header (upd k bs p) = ip_header p"
  by (auto simp: ip_header_def header_defs intro!: rd_upd_other)

lemma ip_header_fill:
  assumes "34 \<le> length p"
  shows "sums_to_zero (ip_header
    (upd 24 (bytes16 (cksum (ip_header (upd 24 (bytes16 0) p)))) (upd 24 (bytes16 0) p)))"
  using assms sums_to_zero_fill [of 10 "rd 14 20 p"]
  by (simp add: ip_header_def header_defs rd_upd_inside)

section \<open>A small network\<close>

text \<open>
  The topology of the concrete instances below: two interfaces, 10.0.1.1 and 10.0.2.1, a
  route for 10.0.2.0/24 through the gateway 10.0.2.2, an operating system that writes
  every message completely.
\<close>

definition demo_os :: os where
  "demo_os = \<lparr>now = 100, now_usec = 0, uninit = (\<lambda>_. 0), write_ret = (\<lambda>m. int (length m))\<rparr>"

definition eth1 :: sr_if where
  "eth1 = \<lparr>if_name = [101, 116, 104, 49], if_addr = [2, 0, 0, 0, 1, 1],
           if_ip = le32 [10, 0, 1, 1], if_speed = 0\<rparr>"

definition eth2 :: sr_if where
  "eth2 = \<lparr>if_name = [101, 116, 104, 50], if_addr = [2, 0, 0, 0, 2, 1],
           if_ip = le32 [10, 0, 2, 1], if_speed = 0\<rparr>"

definition demo_rt :: "sr_rt list" where
  "demo_rt = [\<lparr>rt_dest = le32 [10, 0, 2, 0], rt_gw = le32 [10, 0, 2, 2],
               rt_mask = le32 [255, 255, 255, 0], rt_interface = [101, 116, 104, 50]\<rparr>]"

definition demo_sr :: sr_instance where
  "demo_sr = \<lparr>sr_user = strncpy 32 [117], sr_host = strncpy 32 [118], sr_template = strncpy 30 [], topo_id = 0, if_list = [eth1, eth2],
              routing_table = demo_rt, cache = sr_arpcache_init, logfile = None, wire = []\<rparr>"

lemmas demo_defs = demo_os_def eth1_def eth2_def demo_rt_def demo_sr_def

lemma demo_write_all [simp]: "write_all demo_os"
  by (simp add: write_all_def demo_os_def)

lemma demo_ifs_wf [simp]: "ifs_wf (if_list demo_sr)"
  by (simp add: ifs_wf_def demo_defs cstr_def)

lemma demo_room [simp]: "cache_room (cache demo_sr)"
  by (simp add: demo_sr_def cache_room_def sr_arpcache_init_def SR_ARPCACHE_SZ_def)

lemma demo_lookup [simp]: "sr_arpcache_lookup (cache demo_sr) ip = None"
  by (simp add: demo_sr_def sr_arpcache_lookup_def sr_arpcache_init_def lookup_loop_None_iff)

section \<open>ARP requests that reach the router\<close>

lemma arp_reply_frame_fields:
  assumes "42 \<le> length p" and "length (if_addr i) = 6"
  shows "rd ether_dhost 6 (arp_reply_frame i p) = rd ar_sha 6 p"
    and "rd ether_shost 6 (arp_reply_frame i p) = if_addr i"
    and "ld16 ether_type (arp_reply_frame i p) = ld16 ether_type p"
    and "ld16 ar_op (arp_reply_frame i p) = htons arp_op_reply"
    and "rd ar_sha 6 (arp_reply_frame i p) = if_addr i"
    and "ld32 ar_sip (arp_reply_frame i p) = ld32 ar_tip p"
    and "rd ar_tha 6 (arp_reply_frame i p) = rd ar_sha 6 p"
    and "ld32 ar_tip (arp_reply_frame i p) = ld32 ar_sip p"
    and "length (arp_reply_frame i p) = length p"
  using assms by (simp_all add: arp_reply_frame_def header_defs buffer_simps Let_def)


lemma get_interface_from_ip_set:
  "get_interface_from_ip ifs a = Some i \<Longrightarrow> i \<in> set ifs"
  by (simp add: get_interface_from_ip_SomeD)

lemma handle_arp_request:
  assumes "42 \<le> length p" and "ntohs (ld16 ar_op p) = arp_op_request"
    and "get_interface_from_ip (if_list sr) (ld32 ar_tip p) = Some i"
  shows "sr_handle_arp_packet os sr p =
    Inr (send_frame os (arp_reply_frame i p) (if_name i)
           (sr\<lparr>cache := cache_learn (now os) (ld32 ar_sip p) (rd ar_sha 6 p) (cache sr)\<rparr>))"
  using assms
  by (simp add: sr_handle_arp_packet_def Let_def header_defs cache_learn_def rd_def)

text \<open>
  C1: an ARP request for an address of the router is answered: exactly one message is
  written, the reply on the interface that owns the address, with the sender as target,
  the interface's addresses as source and the opcode of a reply; and the sender's binding
  is in the cache afterwards where the table has a free entry and did not know the address.
\<close>

theorem arp_request_answered:
  assumes "write_all os" and "ifs_wf (if_list sr)" and "42 \<le> length p"
    and "ntohs (ld16 ether_type p) = ethertype_arp" and "ntohs (ld16 ar_op p) = arp_op_request"
    and "get_interface_from_ip (if_list sr) (ld32 ar_tip p) = Some i"
  shows "\<exists>sr' r. sr_handlepacket depth os sr p iface = Inr sr' \<and>
    wire sr' = wire sr @ [vns_packet_msg r (if_name i)] \<and> length r = length p \<and>
    rd ether_dhost 6 r = rd ar_sha 6 p \<and> rd ether_shost 6 r = if_addr i \<and>
    ntohs (ld16 ether_type r) = ethertype_arp \<and> ntohs (ld16 ar_op r) = arp_op_reply \<and>
    rd ar_sha 6 r = if_addr i \<and> ld32 ar_sip r = if_ip i \<and>
    rd ar_tha 6 r = rd ar_sha 6 p \<and> ld32 ar_tip r = ld32 ar_sip p \<and>
    (cache_room (cache sr) \<and> sr_arpcache_lookup (cache sr) (ld32 ar_sip p) = None \<longrightarrow>
       cache_mac (cache sr') (ld32 ar_sip p) = Some (rd ar_sha 6 p))"
proof -
  let ?r = "arp_reply_frame i p"
  let ?sr = "sr\<lparr>cache := cache_learn (now os) (ld32 ar_sip p) (rd ar_sha 6 p) (cache sr)\<rparr>"
  have i: "i \<in> set (if_list sr)" "if_ip i = ld32 ar_tip p" "length (if_addr i) = 6"
    using assms(2,6) by (auto dest!: get_interface_from_ip_SomeD intro: ifs_wf_addr)
  note fields = arp_reply_frame_fields [OF assms(3) i(3)]
  have step: "sr_handlepacket depth os sr p iface = Inr (send_frame os ?r (if_name i) ?sr)"
    using assms handle_arp_request [OF assms(3,5,6)]
    by (simp add: sr_handlepacket_def header_defs)
  have wire: "wire (send_frame os ?r (if_name i) ?sr) = wire sr @ [vns_packet_msg ?r (if_name i)]"
    using send_frame_own [of os ?sr i ?r] assms(1-3) i fields(2,9) by (simp add: header_defs)
  have learnt: "cache_mac (cache (send_frame os ?r (if_name i) ?sr)) (ld32 ar_sip p) = Some (rd ar_sha 6 p)"
    if "cache_room (cache sr)" "sr_arpcache_lookup (cache sr) (ld32 ar_sip p) = None"
    using arp_table.lookup_new [of "cache sr" "ld32 ar_sip p" "now os" "rd ar_sha 6 p"] that
    by (simp add: cache_mac_def rd_def)
  show ?thesis
    using assms(4) learnt
    by (intro exI [of _ "send_frame os ?r (if_name i) ?sr"] exI [of _ ?r])
      (simp add: step wire fields i(2))
qed

text \<open>The host 10.0.1.7 asks for 10.0.1.1.\<close>

definition demo_arp :: "byte list" where
  "demo_arp = replicate 6 0xFF @ [2, 0, 0, 0, 1, 7] @ [8, 6] @
     [0, 1, 8, 0, 6, 4, 0, 1] @ [2, 0, 0, 0, 1, 7] @ [10, 0, 1, 7] @ replicate 6 0 @ [10, 0, 1, 1]"

lemma demo_arp_fields:
  "length demo_arp = 42" "ntohs (ld16 ether_type demo_arp) = ethertype_arp"
  "ntohs (ld16 ar_op demo_arp) = arp_op_request" "rd ar_sha 6 demo_arp = [2, 0, 0, 0, 1, 7]"
  "ld32 ar_sip demo_arp = le32 [10, 0, 1, 7]" "ld32 ar_tip demo_arp = le32 [10, 0, 1, 1]"
  by (simp_all add: demo_arp_def header_defs rd_def ntohs_def htons_def le16_def bytes16_def)

theorem arp_request_answered_witness:
  "\<exists>sr' r. sr_handlepacket 1 demo_os demo_sr demo_arp [101, 116, 104, 49] = Inr sr' \<and>
     wire sr' = [vns_packet_msg r (if_name eth1)] \<and> ntohs (ld16 ar_op r) = arp_op_reply \<and>
     cache_mac (cache sr') (le32 [10, 0, 1, 7]) = Some [2, 0, 0, 0, 1, 7]"
proof -
  have "get_interface_from_ip (if_list demo_sr) (ld32 ar_tip demo_arp) = Some eth1"
    by (simp add: demo_arp_fields get_interface_from_ip_def demo_sr_def eth1_def)
  from arp_request_answered [OF demo_write_all demo_ifs_wf _ _ _ this,
      of 1 "[101, 116, 104, 49]"]
  obtain sr' r where "sr_handlepacket 1 demo_os demo_sr demo_arp [101, 116, 104, 49] = Inr sr'"
    "wire sr' = wire demo_sr @ [vns_packet_msg r (if_name eth1)]"
    "ntohs (ld16 ar_op r) = arp_op_reply"
    "cache_mac (cache sr') (le32 [10, 0, 1, 7]) = Some [2, 0, 0, 0, 1, 7]"
    by (auto simp: demo_arp_fields)
  then show ?thesis by (auto simp: demo_sr_def)
qed

section \<open>Echo requests\<close>

lemma echo_reply_frame_fields:
  assumes "42 \<le> length p"
  shows "rd ether_dhost 6 (echo_reply_frame i p) = rd ether_shost 6 p"
    and "rd ether_shost 6 (echo_reply_frame i p) = rd ether_dhost 6 p"
    and "ld8 icmp_type (echo_reply_frame i p) = 0"
    and "ld8 icmp_code (echo_reply_frame i p) = 0"
    and "ld32 ip_src (echo_reply_frame i p) = if_ip i"
    and "ld32 ip_dst (echo_reply_frame i p) = ld32 ip_src p"
    and "rd ether_type 12 (echo_reply_frame i p) = rd ether_type 12 p"
    and "drop 38 (echo_reply_frame i p) = drop 38 p"
    and "length (echo_reply_frame i p) = length p"
  using assms
  by (simp_all add: echo_reply_frame_def header_defs buffer_simps drop_upd_before Let_def)

lemma echo_reply_frame_cksums:
  assumes "42 \<le> length p" and "length p \<le> 131070"
  shows "sums_to_zero (ip_header (echo_reply_frame i p))"
    and "sums_to_zero (drop 34 (echo_reply_frame i p))"
proof -
  show "sums_to_zero (ip_header (echo_reply_frame i p))"
    using assms by (simp add: echo_reply_frame_def header_defs Let_def ip_header_upd_other
        ip_header_fill)
  let ?q = "upd 1 [0] (upd 0 [0] (drop 34 p))"
  have "drop 34 (echo_reply_frame i p) =
      upd 2 (bytes16 (cksum (upd 2 (bytes16 0) ?q))) (upd 2 (bytes16 0) ?q)"
    by (simp add: echo_reply_frame_def header_defs Let_def drop_upd_before drop_upd_inside)
  then show "sums_to_zero (drop 34 (echo_reply_frame i p))"
    using assms by (simp add: sums_to_zero_fill)
qed

lemma echo_request_handled:
  assumes "write_all os" and "ifs_wf (if_list sr)" and "42 \<le> length p" and "length p \<le> 131070"
    and "get_interface_from_ip (if_list sr) (ld32 ip_dst p) \<noteq> None"
    and "ld8 ip_p p = ip_protocol_icmp" and "ld8 icmp_type p = 8" and "ld8 icmp_code p = 0"
    and "sr_get_interface (if_list sr) iface = Some i" and "rd ether_dhost 6 p = if_addr i"
  shows "\<exists>sr' r. sr_handle_ip_packet depth os sr p iface = Inr sr' \<and>
    wire sr' = wire sr @ [vns_packet_msg r iface] \<and> cache sr' = cache sr \<and>
    rd ether_dhost 6 r = rd ether_shost 6 p \<and> rd ether_shost 6 r = if_addr i \<and>
    ld32 ip_src r = if_ip i \<and> ld32 ip_dst r = ld32 ip_src p \<and>
    ld8 icmp_type r = 0 \<and> ld8 icmp_code r = 0 \<and> drop 38 r = drop 38 p \<and> length r = length p \<and>
    sums_to_zero (ip_header r) \<and> sums_to_zero (drop 34 r)"
proof -
  let ?r = "echo_reply_frame i p"
  have i: "length (if_addr i) = 6"
    using assms(2,9) by (auto dest: sr_get_interface_SomeD intro: ifs_wf_addr)
  note fields = echo_reply_frame_fields [OF assms(3), of i]
  have step: "sr_handle_ip_packet depth os sr p iface = Inr (send_frame os ?r iface sr)"
    using assms by (auto simp: sr_handle_ip_packet_def ip_forwarding_def sr_echo_icmp_packet_def
        header_defs)
  have "sr_ether_addrs_match_interface sr ?r iface"
    using assms(9,10) i fields(2) by (simp add: sr_ether_addrs_match_interface_def header_defs)
  then have "wire (send_frame os ?r iface sr) = wire sr @ [vns_packet_msg ?r iface]"
    using assms(1,3) fields(9) by (simp add: send_frame_wire)
  then show ?thesis
    using step fields assms(10) echo_reply_frame_cksums [OF assms(3,4), of i]
    by (intro exI [of _ "send_frame os ?r iface sr"] exI [of _ ?r]) simp
qed

text \<open>The tests of \<^verbatim>\<open>sr_handlepacket\<close> on an IP packet; what they accept is the subject of a section below.\<close>

lemma ip_packet_passes:
  assumes "34 \<le> length p" and "ntohs (ld16 ether_type p) = ethertype_ip" and "ip_checksum_ok p"
    and "ld8 ip_p p = ip_protocol_icmp \<Longrightarrow> 70 \<le> length p \<and> icmp_checksum_ok p"
  shows "sr_handlepacket depth os sr p iface = sr_handle_ip_packet depth os sr p iface"
  using assms by (auto simp: sr_handlepacket_def header_defs)

text \<open>
  C18: an ICMP echo request for one of the router's addresses is answered on the interface it came in on, if it passes the
  tests of \<^verbatim>\<open>sr_handlepacket\<close>: it has at least 70 bytes, and the checksum of its IP header and that of its first 36 ICMP bytes, each
  taken with the checksum field in place, equal that field (a correct checksum passes when it is 0xFFFF). Exactly
  one message is written, an echo reply to the sender's IP and MAC address with correct IP and ICMP checksums, the same
  identifier, sequence number and payload (everything after the ICMP checksum).
\<close>

theorem echo_request_answered:
  assumes "write_all os" and "ifs_wf (if_list sr)" and "70 \<le> length p" and "length p \<le> 131070"
    and "ntohs (ld16 ether_type p) = ethertype_ip" and "ip_checksum_ok p" and "icmp_checksum_ok p"
    and "get_interface_from_ip (if_list sr) (ld32 ip_dst p) \<noteq> None"
    and "ld8 ip_p p = ip_protocol_icmp" and "ld8 icmp_type p = 8" and "ld8 icmp_code p = 0"
    and "sr_get_interface (if_list sr) iface = Some i" and "rd ether_dhost 6 p = if_addr i"
  shows "\<exists>sr' r. sr_handlepacket depth os sr p iface = Inr sr' \<and>
    wire sr' = wire sr @ [vns_packet_msg r iface] \<and> cache sr' = cache sr \<and>
    rd ether_dhost 6 r = rd ether_shost 6 p \<and> rd ether_shost 6 r = if_addr i \<and>
    ld32 ip_src r = if_ip i \<and> ld32 ip_dst r = ld32 ip_src p \<and>
    ld8 icmp_type r = 0 \<and> ld8 icmp_code r = 0 \<and> drop 38 r = drop 38 p \<and> length r = length p \<and>
    sums_to_zero (ip_header r) \<and> sums_to_zero (drop 34 r)"
  using echo_request_handled [OF assms(1,2) _ assms(4,8-13)] ip_packet_passes [of p depth os sr iface] assms(3,5-7) by simp

text \<open>The host 10.0.1.7 pings 10.0.1.1; both checksums are right.\<close>

definition demo_ping :: "byte list" where
  "demo_ping = [2, 0, 0, 0, 1, 1] @ [2, 0, 0, 0, 1, 7] @ [8, 0] @
     [0x45, 0, 0, 56, 0x64, 0xBE, 0, 0, 64, 1, 0xFF, 0xFF] @ [10, 0, 1, 7] @ [10, 0, 1, 1] @
     [8, 0, 0xFF, 0xFF, 0, 5, 0, 9, 0xF7, 0xF1] @ replicate 26 0"

lemma demo_ping_fields:
  "length demo_ping = 70" "ntohs (ld16 ether_type demo_ping) = ethertype_ip" "ip_checksum_ok demo_ping" "icmp_checksum_ok demo_ping"
  "ld8 ip_p demo_ping = ip_protocol_icmp" "ld8 icmp_type demo_ping = 8" "ld8 icmp_code demo_ping = 0"
  "take 6 (drop 38 demo_ping) = [0, 5, 0, 9, 0xF7, 0xF1]" "rd ether_dhost 6 demo_ping = if_addr eth1"
  by code_simp+

theorem echo_request_answered_witness:
  "\<exists>sr' r. sr_handlepacket 1 demo_os demo_sr demo_ping [101, 116, 104, 49] = Inr sr' \<and>
     wire sr' = [vns_packet_msg r [101, 116, 104, 49]] \<and> drop 38 r = drop 38 demo_ping \<and>
     ld8 icmp_type r = 0 \<and> sums_to_zero (ip_header r)"
proof -
  have "sr_get_interface (if_list demo_sr) [101, 116, 104, 49] = Some eth1"
    using sr_get_interface_self [OF demo_ifs_wf, of eth1] by (simp add: demo_defs)
  moreover have "get_interface_from_ip (if_list demo_sr) (ld32 ip_dst demo_ping) \<noteq> None" "wire demo_sr = []"
    by (simp_all add: demo_ping_def demo_defs get_interface_from_ip_def header_defs rd_def)
  ultimately show ?thesis
    using echo_request_answered [OF demo_write_all demo_ifs_wf, of demo_ping "[101, 116, 104, 49]" eth1 1] demo_ping_fields
    by fastforce
qed

section \<open>Forwarding\<close>

lemma forward_frame_fields:
  assumes "34 \<le> length p"
  shows "sums_to_zero (ip_header (forward_frame p))"
    and "take 24 (forward_frame p) = take 24 p" and "drop 26 (forward_frame p) = drop 26 p"
    and "length (forward_frame p) = length p"
  using assms
  by (simp_all add: forward_frame_def header_defs Let_def ip_header_fill drop_upd_before take_upd_after)

text \<open>The handler behind the tests sends a packet on unless the time to live is 1, also if it is 0.\<close>

lemma ip_packet_sent_on:
  assumes "write_all os" and "ifs_wf (if_list sr)" and "34 \<le> length p"
    and "get_interface_from_ip (if_list sr) (ld32 ip_dst p) = None"
    and "ld8 ip_ttl p \<noteq> 1" and "longest_match (routing_table sr) (ld32 ip_dst p) = Some route"
    and "sr_arpcache_lookup (cache sr) (rt_gw route) = Some e" and "length (ent_mac e) = 6"
    and "sr_get_interface (if_list sr) (rt_interface route) = Some i"
  shows "\<exists>sr' r. sr_handle_ip_packet depth os sr p iface = Inr sr' \<and>
    wire sr' = wire sr @ [vns_packet_msg r (if_name i)] \<and> cache sr' = cache sr \<and>
    length r = length p \<and> rd ether_dhost 6 r = ent_mac e \<and> rd ether_shost 6 r = if_addr i \<and>
    ld8 ip_ttl r = ld8 ip_ttl p - 1 \<and> sums_to_zero (ip_header r) \<and>
    rd 12 10 r = rd 12 10 p \<and> ld8 ip_p r = ld8 ip_p p \<and> drop 26 r = drop 26 p"
proof -
  let ?r = "upd 0 (ent_mac e) (upd 6 (if_addr i) (forward_frame (ttl_frame p)))"
  have i: "i \<in> set (if_list sr)" "length (if_addr i) = 6"
    using assms(2,9) by (auto dest: sr_get_interface_SomeD intro: ifs_wf_addr)
  have "ld8 22 (upd 22 [ld8 22 p - 1] p) = ld8 22 p - 1"
    using assms(3) by (simp add: buffer_simps)
  then have step: "sr_handle_ip_packet depth os sr p iface = Inr (send_frame os ?r (if_name i) sr)"
    using assms i by (simp add: sr_handle_ip_packet_def ip_forwarding_def Let_def header_defs ttl_frame_def)
  have wire: "wire (send_frame os ?r (if_name i) sr) = wire sr @ [vns_packet_msg ?r (if_name i)]"
    using assms i by (intro send_frame_own) (simp_all add: buffer_simps forward_frame_fields ttl_frame_def)
  have "ld8 22 ?r = ld8 22 p - 1" "rd 12 10 ?r = rd 12 10 p" "ld8 23 ?r = ld8 23 p"
    "drop 26 ?r = drop 26 p" "sums_to_zero (ip_header ?r)" "length ?r = length p"
    "rd 0 6 ?r = ent_mac e" "rd 6 6 ?r = if_addr i"
    using assms(3,8) i(2) ip_header_fill [of "ttl_frame p"]
    by (simp_all add: ttl_frame_def forward_frame_def header_defs Let_def buffer_simps
        drop_upd_before ip_header_upd_other)
  with step wire show ?thesis
    by (intro exI [of _ "send_frame os ?r (if_name i) sr"] exI [of _ ?r]) (simp add: header_defs)
qed

text \<open>
  C2: a packet for another host with a time to live of at least 2 and a next hop in the ARP cache, which passes the tests of
  \<^verbatim>\<open>sr_handlepacket\<close>, is sent out of the route's interface: exactly one message, with the next hop's MAC address as
  destination, the interface's as source, the time to live decremented, a correct header checksum, and every
  other byte of the packet as it came in. The tests compare the checksum of the header, taken with the checksum field in
  place, with that field, and likewise for the first 36 bytes of an ICMP message; a correct checksum passes when it is 0xFFFF.
\<close>

theorem ip_packet_forwarded:
  assumes "write_all os" and "ifs_wf (if_list sr)" and "34 \<le> length p"
    and "ntohs (ld16 ether_type p) = ethertype_ip" and "ip_checksum_ok p"
    and "ld8 ip_p p = ip_protocol_icmp \<Longrightarrow> 70 \<le> length p \<and> icmp_checksum_ok p"
    and "get_interface_from_ip (if_list sr) (ld32 ip_dst p) = None"
    and "1 < ld8 ip_ttl p" and "longest_match (routing_table sr) (ld32 ip_dst p) = Some route"
    and "sr_arpcache_lookup (cache sr) (rt_gw route) = Some e" and "length (ent_mac e) = 6"
    and "sr_get_interface (if_list sr) (rt_interface route) = Some i"
  shows "\<exists>sr' r. sr_handlepacket depth os sr p iface = Inr sr' \<and>
    wire sr' = wire sr @ [vns_packet_msg r (if_name i)] \<and> cache sr' = cache sr \<and>
    length r = length p \<and> rd ether_dhost 6 r = ent_mac e \<and> rd ether_shost 6 r = if_addr i \<and>
    ld8 ip_ttl r = ld8 ip_ttl p - 1 \<and> sums_to_zero (ip_header r) \<and>
    rd 12 10 r = rd 12 10 p \<and> ld8 ip_p r = ld8 ip_p p \<and> drop 26 r = drop 26 p"
proof -
  have "ld8 ip_ttl p \<noteq> 1" using assms(8) by auto
  then show ?thesis
    using ip_packet_sent_on [OF assms(1-3,7) _ assms(9-12), of depth iface] ip_packet_passes [OF assms(3-6), of depth os sr iface]
    by simp
qed

text \<open>A packet whose time to live is 0 is not discarded: it leaves with 255.\<close>

theorem expired_packet_forwarded:
  assumes "write_all os" and "ifs_wf (if_list sr)" and "34 \<le> length p"
    and "ntohs (ld16 ether_type p) = ethertype_ip" and "ip_checksum_ok p"
    and "ld8 ip_p p = ip_protocol_icmp \<Longrightarrow> 70 \<le> length p \<and> icmp_checksum_ok p"
    and "get_interface_from_ip (if_list sr) (ld32 ip_dst p) = None"
    and "ld8 ip_ttl p = 0" and "longest_match (routing_table sr) (ld32 ip_dst p) = Some route"
    and "sr_arpcache_lookup (cache sr) (rt_gw route) = Some e" and "length (ent_mac e) = 6"
    and "sr_get_interface (if_list sr) (rt_interface route) = Some i"
  shows "\<exists>sr' r. sr_handlepacket depth os sr p iface = Inr sr' \<and>
    wire sr' = wire sr @ [vns_packet_msg r (if_name i)] \<and> ld8 ip_ttl r = 255"
  using ip_packet_sent_on [OF assms(1-3,7) _ assms(9-12), of depth iface] ip_packet_passes [OF assms(3-6), of depth os sr iface] assms(8)
  by fastforce

text \<open>The host 10.0.1.7 sends a datagram to 10.0.2.9 through a router that knows the gateway.\<close>

definition demo_packet :: "byte list" where
  "demo_packet = [2, 0, 0, 0, 1, 1] @ [2, 0, 0, 0, 1, 7] @ [8, 0] @
     [0x45, 0, 0, 28, 0, 1, 0, 0, 64, 17, 0, 0] @ [10, 0, 1, 7] @ [10, 0, 2, 9] @
     [0, 7, 0, 7, 0, 8, 0, 0]"

definition demo_known :: sr_instance where
  "demo_known = demo_sr\<lparr>cache := cache_learn 90 (le32 [10, 0, 2, 2]) [2, 0, 0, 0, 2, 2] (cache demo_sr)\<rparr>"

lemma demo_packet_fields:
  "length demo_packet = 42" "ld32 ip_dst demo_packet = le32 [10, 0, 2, 9]" "ld8 ip_ttl demo_packet = 64"
  "ld32 ip_src demo_packet = le32 [10, 0, 1, 7]" "ld8 ip_p demo_packet = 17"
  by (simp_all add: demo_packet_def header_defs rd_def)

lemma demo_route:
  "longest_match demo_rt (le32 [10, 0, 2, 9]) = Some (hd demo_rt)"
  by (simp add: longest_match_def demo_rt_def le32_def)

lemma demo_known_simps:
  "if_list demo_known = if_list demo_sr" "routing_table demo_known = demo_rt"
  "wire demo_known = []"
  by (simp_all add: demo_known_def demo_sr_def)

lemma demo_not_ours: "get_interface_from_ip (if_list demo_sr) (le32 [10, 0, 2, 9]) = None"
  by (simp add: get_interface_from_ip_def demo_defs le32_def)

lemma demo_known_lookup:
  obtains e where "sr_arpcache_lookup (cache demo_known) (le32 [10, 0, 2, 2]) = Some e"
    and "ent_mac e = [2, 0, 0, 0, 2, 2]"
  using arp_table.lookup_new [of "cache demo_sr" "le32 [10, 0, 2, 2]" 90 "[2, 0, 0, 0, 2, 2]"]
  by (auto simp: demo_known_def cache_mac_def)

text \<open>The datagram with a correct checksum that passes the test.\<close>

definition demo_routed :: "byte list" where
  "demo_routed = [2, 0, 0, 0, 1, 1] @ [2, 0, 0, 0, 1, 7] @ [8, 0] @
     [0x45, 0, 0, 28, 0x63, 0xC2, 0, 0, 64, 17, 0xFF, 0xFF] @ [10, 0, 1, 7] @ [10, 0, 2, 9] @
     [0, 7, 0, 7, 0, 8, 0, 0]"

lemma demo_routed_fields:
  "length demo_routed = 42" "ntohs (ld16 ether_type demo_routed) = ethertype_ip" "ip_checksum_ok demo_routed"
  "ld8 ip_p demo_routed = 17" "ip_protocol_icmp = 1" "ld8 ip_ttl demo_routed = 64" "ld32 ip_dst demo_routed = le32 [10, 0, 2, 9]"
  by code_simp+

theorem ip_packet_forwarded_witness:
  "\<exists>sr' r. sr_handlepacket 1 demo_os demo_known demo_routed [101, 116, 104, 49] = Inr sr' \<and>
     wire sr' = [vns_packet_msg r (if_name eth2)] \<and> rd ether_dhost 6 r = [2, 0, 0, 0, 2, 2] \<and>
     ld8 ip_ttl r = 63 \<and> sums_to_zero (ip_header r)"
proof -
  obtain e where e: "sr_arpcache_lookup (cache demo_known) (le32 [10, 0, 2, 2]) = Some e"
    "ent_mac e = [2, 0, 0, 0, 2, 2]"
    by (rule demo_known_lookup)
  have "sr_get_interface (if_list demo_sr) (rt_interface (hd demo_rt)) = Some eth2"
    using sr_get_interface_self [OF demo_ifs_wf, of eth2] by (simp add: demo_defs)
  moreover have "rt_gw (hd demo_rt) = le32 [10, 0, 2, 2]"
    by (simp add: demo_rt_def)
  ultimately obtain sr' r where
    "sr_handlepacket 1 demo_os demo_known demo_routed [101, 116, 104, 49] = Inr sr'"
    "wire sr' = wire demo_known @ [vns_packet_msg r (if_name eth2)]"
    "rd ether_dhost 6 r = ent_mac e" "ld8 ip_ttl r = ld8 ip_ttl demo_routed - 1"
    "sums_to_zero (ip_header r)"
    using ip_packet_forwarded [of demo_os demo_known demo_routed "hd demo_rt" e eth2 1
        "[101, 116, 104, 49]"] e
    by (auto simp: demo_known_simps demo_routed_fields demo_route demo_not_ours simp del: One_nat_def)
  then show ?thesis
    using e by (intro exI [of _ sr'] exI [of _ r]) (simp add: demo_known_simps demo_routed_fields del: One_nat_def)
qed

section \<open>What the checksum test accepts\<close>

text \<open>
  C39: the header test of \<^verbatim>\<open>sr_handlepacket\<close> sums the header with its checksum field in place
  and compares the result with the field. A packet whose header checksum is correct is
  therefore dropped without any effect, unless its checksum field happens to hold 0xFFFF.
\<close>

theorem correct_header_dropped:
  assumes "34 \<le> length p" and "ntohs (ld16 ether_type p) = ethertype_ip"
    and "sums_to_zero (ip_header p)" and "ld16 ip_sum p \<noteq> 0xFFFF"
  shows "sr_handlepacket depth os sr p iface = Inr sr"
proof -
  have "cksum (ip_header p) = 0xFFFF"
    using assms(3) by (rule sums_to_zero_cksum) (simp add: ip_header_def header_defs)
  with assms have "\<not> ip_checksum_ok p"
    by (auto simp: ip_checksum_ok_def)
  with assms show ?thesis
    by (simp add: sr_handlepacket_def header_defs)
qed

theorem correct_header_dropped_witness:
  "sr_handlepacket 1 demo_os demo_sr (forward_frame demo_packet) [101, 116, 104, 49] = Inr demo_sr"
proof -
  have "ld16 24 (forward_frame demo_packet) = cksum (ip_header (upd 24 (bytes16 0) demo_packet))"
    by (simp add: forward_frame_def header_defs Let_def buffer_simps demo_packet_fields)
  also have "\<dots> \<noteq> 0xFFFF"
    by (simp add: demo_packet_def header_defs ip_header_def rd_def upd_def bytes16_def cksum_def
        htons_def le16_def fold16.simps)
  finally have sum_ne: "ld16 ip_sum (forward_frame demo_packet) \<noteq> 0xFFFF"
    by (simp add: header_defs)
  have "rd 12 2 (forward_frame demo_packet) = rd 12 2 demo_packet"
    by (simp add: forward_frame_def header_defs Let_def buffer_simps)
  then have "ntohs (ld16 ether_type (forward_frame demo_packet)) = ethertype_ip"
    by (simp add: header_defs demo_packet_def)
      (simp add: rd_def ntohs_def htons_def le16_def bytes16_def)
  with sum_ne show ?thesis
    using forward_frame_fields [of demo_packet]
    by (intro correct_header_dropped) (simp_all add: demo_packet_fields)
qed

section \<open>ICMP errors\<close>

lemma icmp_header_upd_other:
  "k + length bs \<le> 34 \<or> 70 \<le> k \<Longrightarrow> icmp_header (upd k bs p) = icmp_header p"
  by (auto simp: icmp_header_def header_defs intro!: rd_upd_other)

lemma icmp_header_fill:
  assumes "70 \<le> length p"
  shows "sums_to_zero (icmp_header
    (upd 36 (bytes16 (cksum (icmp_header (upd 36 (bytes16 0) p)))) (upd 36 (bytes16 0) p)))"
  using assms sums_to_zero_fill [of 2 "rd 34 36 p"]
  by (simp add: icmp_header_def header_defs rd_upd_inside)

lemma icmp_error_frame_fields:
  assumes "28 \<le> length q"
  shows "length (icmp_error_frame os dst q t c) = 70"
    and "ld16 ether_type (icmp_error_frame os dst q t c) = htons ethertype_ip"
    and "ld8 ip_v_hl (icmp_error_frame os dst q t c) = 0x45"
    and "ld16 ip_len (icmp_error_frame os dst q t c) = htons 56"
    and "ld8 ip_ttl (icmp_error_frame os dst q t c) = 64"
    and "ld8 ip_p (icmp_error_frame os dst q t c) = ip_protocol_icmp"
    and "ld32 ip_dst (icmp_error_frame os dst q t c) = dst"
    and "ld8 icmp_type (icmp_error_frame os dst q t c) = t"
    and "ld8 icmp_code (icmp_error_frame os dst q t c) = c"
    and "rd icmp_data 28 (icmp_error_frame os dst q t c) = take 28 q"
    and "sums_to_zero (icmp_header (icmp_error_frame os dst q t c))"
  using assms
  by (simp_all add: icmp_error_frame_def header_defs buffer_simps Let_def icmp_header_fill min_def)

text \<open>The frame as it leaves, with the source addresses and the next hop's MAC address.\<close>

lemma icmp_sent_frame_fields:
  assumes "length p = 70" and "length (if_addr i) = 6" and "length mac = 6"
  defines "r \<equiv> upd ether_dhost mac (icmp_source_frame i p)"
  shows "length r = 70" and "rd ether_dhost 6 r = mac" and "rd ether_shost 6 r = if_addr i"
    and "ld32 ip_src r = if_ip i" and "sums_to_zero (ip_header r)"
    and "icmp_header r = icmp_header p" and "rd 12 12 r = rd 12 12 p" and "rd 30 40 r = rd 30 40 p"
  using assms ip_header_fill [of "upd 26 (bytes32 (if_ip i)) p"]
  by (simp_all add: icmp_source_frame_def header_defs buffer_simps Let_def ip_header_upd_other
      icmp_header_upd_other)

lemma rd_sub:
  "rd a n p = rd a n q \<Longrightarrow> a \<le> b \<Longrightarrow> b + m \<le> a + n \<Longrightarrow> rd b m p = rd b m q"
proof -
  assume "rd a n p = rd a n q" "a \<le> b" "b + m \<le> a + n"
  then have "rd (b - a) m (rd a n p) = rd (b - a) m (rd a n q)" by simp
  with \<open>a \<le> b\<close> \<open>b + m \<le> a + n\<close> show ?thesis
    by (simp add: rd_def drop_take take_take min_def add.commute split: if_splits)
qed

text \<open>
  When the route back to the sender leads through an address of the router itself whose
  MAC address is cached, an ICMP error is one message with correct IP and ICMP checksums,
  the given type and code, the offender's source as its destination, and the first 28
  bytes at the given pointer as its data.
\<close>

theorem icmp_error_sent:
  assumes "write_all os" and "ifs_wf (if_list sr)" and "28 \<le> length q"
    and "longest_match (routing_table sr) dst = Some route"
    and "get_interface_from_ip (if_list sr) (rt_gw route) = Some i"
    and "sr_arpcache_lookup (cache sr) (rt_gw route) = Some e" and "length (ent_mac e) = 6"
  shows "\<exists>sr' r. sr_send_icmp_packet depth os sr dst q t c = Inr sr' \<and>
    wire sr' = wire sr @ [vns_packet_msg r (if_name i)] \<and> cache sr' = cache sr \<and> length r = 70 \<and>
    rd ether_dhost 6 r = ent_mac e \<and> rd ether_shost 6 r = if_addr i \<and>
    ntohs (ld16 ether_type r) = ethertype_ip \<and> ld8 ip_v_hl r = 0x45 \<and> ntohs (ld16 ip_len r) = 56 \<and>
    ld8 ip_ttl r = 64 \<and> ld8 ip_p r = ip_protocol_icmp \<and> ld32 ip_src r = if_ip i \<and> ld32 ip_dst r = dst \<and>
    ld8 icmp_type r = t \<and> ld8 icmp_code r = c \<and> rd icmp_data 28 r = take 28 q \<and>
    sums_to_zero (ip_header r) \<and> sums_to_zero (icmp_header r)"
proof -
  let ?p = "icmp_error_frame os dst q t c"
  let ?r = "upd ether_dhost (ent_mac e) (icmp_source_frame i ?p)"
  have i: "i \<in> set (if_list sr)" "length (if_addr i) = 6"
    using assms(2,5) by (auto dest: get_interface_from_ip_SomeD intro: ifs_wf_addr)
  note p = icmp_error_frame_fields [OF assms(3), of os dst t c]
  note r = icmp_sent_frame_fields [OF p(1) i(2) assms(7)]
  have step: "sr_send_icmp_packet depth os sr dst q t c = Inr (send_frame os ?r (if_name i) sr)"
    using assms by (simp add: sr_send_icmp_packet_def send_icmp_with_def Let_def header_defs)
  have "wire (send_frame os ?r (if_name i) sr) = wire sr @ [vns_packet_msg ?r (if_name i)]"
    using assms(1,2) i r by (intro send_frame_own) (simp_all add: header_defs)
  moreover have "rd 12 2 ?r = rd 12 2 ?p" "rd 14 1 ?r = rd 14 1 ?p" "rd 16 2 ?r = rd 16 2 ?p"
    "rd 22 1 ?r = rd 22 1 ?p" "rd 23 1 ?r = rd 23 1 ?p"
    by (rule rd_sub [OF r(7)]; simp)+
  moreover have "rd 30 4 ?r = rd 30 4 ?p" "rd 34 1 ?r = rd 34 1 ?p" "rd 35 1 ?r = rd 35 1 ?p"
    "rd 42 28 ?r = rd 42 28 ?p"
    by (rule rd_sub [OF r(8)]; simp)+
  ultimately show ?thesis
    using step p r by (intro exI [of _ "send_frame os ?r (if_name i) sr"] exI [of _ ?r])
      (simp add: header_defs)
qed

text \<open>A route back through the router's own address 10.0.2.1, whose MAC address is cached.\<close>

definition demo_self :: sr_instance where
  "demo_self = demo_sr\<lparr>routing_table := [(hd demo_rt)\<lparr>rt_gw := le32 [10, 0, 2, 1]\<rparr>],
     cache := cache_learn 90 (le32 [10, 0, 2, 1]) [2, 0, 0, 0, 2, 1] (cache demo_sr)\<rparr>"

theorem icmp_error_sent_witness:
  "\<exists>sr' r. sr_send_icmp_packet 1 demo_os demo_self (le32 [10, 0, 2, 9]) demo_packet 11 0 = Inr sr' \<and>
     wire sr' = [vns_packet_msg r (if_name eth2)] \<and> ld8 icmp_type r = 11 \<and>
     rd icmp_data 28 r = take 28 demo_packet"
proof -
  obtain e where e: "sr_arpcache_lookup (cache demo_self) (le32 [10, 0, 2, 1]) = Some e"
    "length (ent_mac e) = 6"
    using arp_table.lookup_new [of "cache demo_sr" "le32 [10, 0, 2, 1]" 90 "[2, 0, 0, 0, 2, 1]"]
    by (auto simp: demo_self_def cache_mac_def)
  have "longest_match (routing_table demo_self) (le32 [10, 0, 2, 9]) =
      Some ((hd demo_rt)\<lparr>rt_gw := le32 [10, 0, 2, 1]\<rparr>)"
    by (simp add: demo_self_def longest_match_def demo_rt_def le32_def)
  moreover have "get_interface_from_ip (if_list demo_self) (le32 [10, 0, 2, 1]) = Some eth2"
    by (simp add: demo_self_def get_interface_from_ip_def demo_defs le32_def)
  moreover have "if_list demo_self = if_list demo_sr" "wire demo_self = []"
    by (simp_all add: demo_self_def demo_sr_def)
  ultimately show ?thesis
    using icmp_error_sent [of demo_os demo_self demo_packet "le32 [10, 0, 2, 9]"
        "(hd demo_rt)\<lparr>rt_gw := le32 [10, 0, 2, 1]\<rparr>" eth2 e 1 11 0] e
    by (auto simp: demo_packet_fields)
qed

text \<open>
  Any other route makes the router fault: when the gateway of the route to the sender is
  not an address of the router (the usual case, a neighbouring router), the interface
  that \<^verbatim>\<open>sr_send_icmp_packet\<close> dereferences is null.
\<close>

theorem icmp_error_needs_own_gateway:
  assumes "28 \<le> length q" and "longest_match (routing_table sr) dst = Some route"
    and "get_interface_from_ip (if_list sr) (rt_gw route) = None"
  shows "sr_send_icmp_packet depth os sr dst q t c = Inl Null_deref"
  using assms by (simp add: sr_send_icmp_packet_def send_icmp_with_def Let_def header_defs)

theorem icmp_error_needs_own_gateway_witness:
  "sr_send_icmp_packet 5 demo_os demo_sr (le32 [10, 0, 2, 9]) demo_packet 3 0 = Inl Null_deref"
proof -
  have "get_interface_from_ip (if_list demo_sr) (rt_gw (hd demo_rt)) = None"
    by (simp add: get_interface_from_ip_def demo_defs le32_def)
  moreover have "routing_table demo_sr = demo_rt"
    by (simp add: demo_sr_def)
  ultimately show ?thesis
    by (intro icmp_error_needs_own_gateway [of _ _ _ "hd demo_rt"])
      (simp_all add: demo_route demo_packet_fields)
qed

section \<open>Retransmission of ARP requests\<close>

text \<open>The request as it is broadcast on one interface; the recycled buffer leaves no trace.\<close>

definition arp_request_bytes :: "sr_if \<Rightarrow> uint32 \<Rightarrow> byte list" where
  "arp_request_bytes i ip = replicate 6 0xFF @ if_addr i @ [8, 6, 0, 1, 8, 0, 6, 4, 0, 1] @
     if_addr i @ bytes32 (if_ip i) @ replicate 6 0 @ bytes32 ip"

lemma rd_concat: "rd a m p @ rd (a + m) n p = rd a (m + n) p"
  by (simp add: rd_def take_add add.commute)

lemma arp_request_frame_bytes:
  assumes "length p = 42" and "rd 0 6 p = replicate 6 0xFF" and "length (if_addr i) = 6"
  shows "arp_request_frame i ip p = arp_request_bytes i ip"
proof -
  let ?r = "arp_request_frame i ip p"
  have "bytes16 (htons 0x0806) = [8, 6]" "bytes16 (htons 1) = [0, 1]" "bytes16 (htons 0x0800) = [8, 0]"
    by (simp_all add: htons_def bytes16_def le16_def)
  then have "rd 0 6 ?r = replicate 6 0xFF" "rd 6 6 ?r = if_addr i" "rd 12 2 ?r = [8, 6]"
    "rd 14 2 ?r = [0, 1]" "rd 16 2 ?r = [8, 0]" "rd 18 1 ?r = [6]" "rd 19 1 ?r = [4]"
    "rd 20 2 ?r = [0, 1]" "rd 22 6 ?r = if_addr i" "rd 28 4 ?r = bytes32 (if_ip i)"
    "rd 32 6 ?r = replicate 6 0" "rd 38 4 ?r = bytes32 ip"
    using assms by (simp_all add: arp_request_frame_def header_defs buffer_simps Let_def)
  then have "rd 0 42 ?r = arp_request_bytes i ip"
    using rd_concat [of 0 6 ?r 36] rd_concat [of 6 6 ?r 30] rd_concat [of 12 2 ?r 28]
      rd_concat [of 14 2 ?r 26] rd_concat [of 16 2 ?r 24] rd_concat [of 18 1 ?r 23]
      rd_concat [of 19 1 ?r 22] rd_concat [of 20 2 ?r 20] rd_concat [of 22 6 ?r 14]
      rd_concat [of 28 4 ?r 10] rd_concat [of 32 6 ?r 4]
    by (simp add: arp_request_bytes_def)
  moreover have "length ?r = 42"
    using assms(1) by (simp add: arp_request_frame_def Let_def)
  ultimately show ?thesis by (simp add: rd_whole)
qed

lemma arp_request_bytes_fields:
  assumes "length (if_addr i) = 6"
  shows "length (arp_request_bytes i ip) = 42" and "rd 0 6 (arp_request_bytes i ip) = replicate 6 0xFF"
    and "rd 6 6 (arp_request_bytes i ip) = if_addr i"
  using assms by (simp_all add: arp_request_bytes_def rd_def)

lemma arp_request_loop_wire:
  assumes "write_all os" and "ifs_wf (if_list sr)" and "set is \<subseteq> set (if_list sr)"
    and "length p = 42" and "rd 0 6 p = replicate 6 0xFF"
  shows "wire (arp_request_loop os ip p is sr) =
    wire sr @ map (\<lambda>i. vns_packet_msg (arp_request_bytes i ip) (if_name i)) is"
  using assms
proof (induction "is" arbitrary: p sr)
  case (Cons i "is")
  have i: "i \<in> set (if_list sr)" "length (if_addr i) = 6"
    using Cons.prems ifs_wf_addr by auto
  then have "wire (send_frame os (arp_request_bytes i ip) (if_name i) sr) =
      wire sr @ [vns_packet_msg (arp_request_bytes i ip) (if_name i)]"
    using Cons.prems by (intro send_frame_own) (simp_all add: arp_request_bytes_fields)
  with Cons i show ?case
    by (simp add: arp_request_frame_bytes arp_request_bytes_fields Let_def)
qed simp

lemma arp_request_loop_keeps [simp]:
  "if_list (arp_request_loop os ip p is sr) = if_list sr"
  "routing_table (arp_request_loop os ip p is sr) = routing_table sr"
  "cache (arp_request_loop os ip p is sr) = cache sr"
  by (induction "is" arbitrary: p sr) (simp_all add: Let_def)

lemma sr_send_arp_request_keeps [simp]:
  "if_list (sr_send_arp_request os sr ip) = if_list sr"
  "routing_table (sr_send_arp_request os sr ip) = routing_table sr"
  "cache (sr_send_arp_request os sr ip) = cache sr"
  by (simp_all add: sr_send_arp_request_def Let_def)

lemma sr_send_arp_request_wire:
  assumes "write_all os" and "ifs_wf (if_list sr)"
  shows "wire (sr_send_arp_request os sr ip) =
    wire sr @ map (\<lambda>i. vns_packet_msg (arp_request_bytes i ip) (if_name i)) (if_list sr)"
  using assms
  by (simp add: sr_send_arp_request_def Let_def arp_request_loop_wire header_defs buffer_simps)

text \<open>
  An outstanding request that was last sent more than a second ago, and fewer than five
  times, is sent again: one ARP request for its address on every interface, in the order
  of the interface list, with the broadcast address as destination and no byte of
  uninitialised memory in it; the request's time and counter are updated and the packets
  that wait on it stay. A request sent within the last second is left alone.
\<close>

theorem arp_request_retransmitted:
  assumes "write_all os" and "ifs_wf (if_list sr)"
    and "find (\<lambda>r. req_ptr r = ptr) (requests (cache sr)) = Some r" and "req_times_sent r < 5"
  shows "\<exists>sr'. handle_arpreq (Suc depth) os sr ptr = Inr sr' \<and>
    wire sr' = wire sr @ (if now os - req_sent r > 1
      then map (\<lambda>i. vns_packet_msg (arp_request_bytes i (req_ip r)) (if_name i)) (if_list sr) else []) \<and>
    find (\<lambda>r. req_ptr r = ptr) (requests (cache sr')) =
      Some (if now os - req_sent r > 1
            then r\<lparr>req_sent := now os, req_times_sent := req_times_sent r + 1\<rparr> else r)"
  using assms
  by (auto simp: Let_def sr_send_arp_request_wire not_le [symmetric]
      find_update_first_key [of req_ptr])

theorem arp_request_retransmitted_witness:
  "\<exists>sr'. handle_arpreq 1 demo_os
       (demo_sr\<lparr>cache := fst (sr_arpcache_queuereq (cache demo_sr) (le32 [10, 0, 2, 2]) [1] None)\<rparr>) 1 =
       Inr sr' \<and>
     wire sr' = [vns_packet_msg (arp_request_bytes eth1 (le32 [10, 0, 2, 2])) (if_name eth1),
                 vns_packet_msg (arp_request_bytes eth2 (le32 [10, 0, 2, 2])) (if_name eth2)]"
proof -
  let ?sr = "demo_sr\<lparr>cache := fst (sr_arpcache_queuereq (cache demo_sr) (le32 [10, 0, 2, 2]) [1] None)\<rparr>"
  let ?r = "\<lparr>req_ptr = 1, req_ip = le32 [10, 0, 2, 2], req_sent = 0, req_times_sent = 0,
             req_packets = []\<rparr>"
  have "find (\<lambda>r. req_ptr r = 1) (requests (cache ?sr)) = Some ?r"
    by (simp add: sr_arpcache_queuereq_def demo_sr_def sr_arpcache_init_def add_packet_def)
  moreover have "ifs_wf (if_list ?sr)" "wire ?sr = []" "if_list ?sr = [eth1, eth2]"
    using demo_ifs_wf by (simp_all add: demo_sr_def)
  ultimately show ?thesis
    using arp_request_retransmitted [of demo_os ?sr 1 ?r 0]
    by (auto simp: demo_os_def [THEN arg_cong, of now])
qed

section \<open>The states of a running router\<close>

text \<open>
  The invariant: the ARP cache is well formed, no request has been sent more than five
  times, cached addresses have six bytes, every waiting packet is long enough for the
  error message that may quote it, and interfaces and routes are those of the start.
\<close>

definition router_inv :: "sr_if list \<Rightarrow> sr_rt list \<Rightarrow> sr_instance \<Rightarrow> bool" where
  "router_inv ifs rt sr \<longleftrightarrow> if_list sr = ifs \<and> routing_table sr = rt \<and> arp_inv (cache sr) \<and>
     (\<forall>r \<in> set (requests (cache sr)). req_times_sent r \<le> 5 \<and>
        (\<forall>p \<in> set (req_packets r). 42 \<le> length (pkt_buf p))) \<and>
     (\<forall>e \<in> set (entries (cache sr)). length (ent_mac e) = 6)"

lemma router_inv_send_frame [simp]:
  "router_inv ifs rt (send_frame os p i sr) = router_inv ifs rt sr"
  by (simp add: router_inv_def)

lemma router_inv_send_arp_request [simp]:
  "router_inv ifs rt (sr_send_arp_request os sr ip) = router_inv ifs rt sr"
  by (simp add: router_inv_def)

lemma router_inv_queuereq:
  assumes "router_inv ifs rt sr" and "42 \<le> length p \<or> iface = None"
  shows "router_inv ifs rt (sr\<lparr>cache := fst (sr_arpcache_queuereq (cache sr) ip p iface)\<rparr>)"
  using assms arp_inv_queuereq [of "cache sr" ip p iface]
  by (auto simp: router_inv_def sr_arpcache_queuereq_def Let_def add_packet_def
      split: option.split dest!: update_first_mem split: if_splits)

lemma router_inv_insert:
  assumes "router_inv ifs rt sr" and "length mac = 6"
  shows "router_inv ifs rt (sr\<lparr>cache := fst (sr_arpcache_insert t (cache sr) mac ip)\<rparr>)"
  using assms arp_inv_insert [of "cache sr" t mac ip]
    set_remove_first [of "\<lambda>r. req_ip r = ip" "requests (cache sr)"]
  by (auto simp: router_inv_def sr_arpcache_insert_def dest!: update_first_mem)

lemma router_inv_destroy:
  assumes "router_inv ifs rt sr"
  shows "router_inv ifs rt (sr\<lparr>cache := sr_arpreq_destroy (cache sr) ptr\<rparr>)"
  using assms arp_inv_destroy [of "cache sr" ptr]
    set_remove_first [of "\<lambda>r. req_ptr r = ptr" "requests (cache sr)"]
  by (auto simp: router_inv_def sr_arpreq_destroy_def)

lemma router_inv_expire:
  "router_inv ifs rt sr \<Longrightarrow> router_inv ifs rt (sr\<lparr>cache := expire_entries t (cache sr)\<rparr>)"
  using arp_inv_expire [of "cache sr" t]
  by (auto simp: router_inv_def expire_entries_def)

lemma router_inv_icmp:
  assumes "router_inv ifs rt sr" and "send_icmp_with handle os sr dst q t c = Inr sr'"
    and "\<And>sr ptr sr'. router_inv ifs rt sr \<Longrightarrow> handle sr ptr = Inr sr' \<Longrightarrow> router_inv ifs rt sr'"
  shows "router_inv ifs rt sr'"
proof -
  have "length (icmp_source_frame i (icmp_error_frame os dst q t c)) = 70" for i
    by (simp add: icmp_source_frame_def icmp_error_frame_def Let_def header_defs)
  then show ?thesis
    using assms router_inv_queuereq [OF assms(1), of "icmp_source_frame _ (icmp_error_frame os dst q t c)"]
    by (auto simp: send_icmp_with_def Let_def need_eq_Inr deref_eq_Inr
        split: option.splits prod.splits) (metis fst_conv numeral_le_iff semiring_norm)+
qed

lemma router_inv_unreachable:
  assumes "unreachable_loop send ptr ps sr = Inr sr'" and "router_inv ifs rt sr"
    and "\<And>sr dst q sr'. router_inv ifs rt sr \<Longrightarrow> send sr dst q = Inr sr' \<Longrightarrow> router_inv ifs rt sr'"
  shows "router_inv ifs rt sr'"
  using assms(1,2)
  by (induction ps arbitrary: sr) (auto simp: need_eq_Inr andthen_eq_Inr intro: assms(3))

lemma router_inv_touch:
  assumes "router_inv ifs rt sr" and "find (\<lambda>r. req_ptr r = ptr) (requests (cache sr)) = Some r"
    and "req_times_sent r < 5"
  shows "router_inv ifs rt (sr\<lparr>cache := (cache sr)\<lparr>requests := update_first (\<lambda>r. req_ptr r = ptr)
    (\<lambda>r. r\<lparr>req_sent := t, req_times_sent := req_times_sent r + 1\<rparr>) (requests (cache sr))\<rparr>\<rparr>)"
proof -
  obtain pre post where split: "requests (cache sr) = pre @ r # post"
    "update_first (\<lambda>r. req_ptr r = ptr) (\<lambda>r. r\<lparr>req_sent := t, req_times_sent := req_times_sent r + 1\<rparr>)
      (requests (cache sr)) = pre @ r\<lparr>req_sent := t, req_times_sent := req_times_sent r + 1\<rparr> # post"
    using update_first_split [OF assms(2)] by blast
  have "req_times_sent r + 1 \<le> 5"
    using assms(3) by (simp add: inc_le)
  moreover have "router_inv ifs rt (sr\<lparr>cache := (cache sr)\<lparr>requests := pre @ r # post\<rparr>\<rparr>)"
    using assms(1) split(1) by (simp add: router_inv_def arp_inv_def)
  ultimately show ?thesis
    unfolding split(2) by (simp add: router_inv_def arp_inv_def)
qed

lemma router_inv_handle_arpreq:
  "router_inv ifs rt sr \<Longrightarrow> handle_arpreq depth os sr ptr = Inr sr' \<Longrightarrow> router_inv ifs rt sr'"
proof (induction depth arbitrary: sr ptr sr')
  case (Suc depth)
  from Suc.prems(2) obtain r where r: "find (\<lambda>r. req_ptr r = ptr) (requests (cache sr)) = Some r"
    by (auto split: option.splits)
  note send = router_inv_icmp [OF _ _ Suc.IH]
  show ?case
  proof (cases "now os - req_sent r > 1 \<and> req_times_sent r \<ge> 5")
    case True
    with Suc.prems(2) r obtain sr1 where
      "unreachable_loop (\<lambda>sr dst pkt. send_icmp_with (handle_arpreq depth os) os sr dst pkt 3 1)
         ptr (req_packets r) sr = Inr sr1"
      "sr' = sr1\<lparr>cache := sr_arpreq_destroy (cache sr1) ptr\<rparr>"
      by (auto simp: andthen_eq_Inr)
    then show ?thesis
      using router_inv_unreachable [OF _ Suc.prems(1) send] by (simp add: router_inv_destroy)
  next
    case False
    with Suc.prems r show ?thesis
      using router_inv_touch [OF Suc.prems(1) r, of "now os"]
      by (auto simp: Let_def not_le router_inv_def split: if_splits)
  qed
qed simp

lemma router_inv_send_icmp:
  "router_inv ifs rt sr \<Longrightarrow> sr_send_icmp_packet depth os sr dst q t c = Inr sr' \<Longrightarrow> router_inv ifs rt sr'"
  unfolding sr_send_icmp_packet_def using router_inv_icmp router_inv_handle_arpreq by blast

lemma router_inv_timeout:
  assumes "router_inv ifs rt sr" and "sr_arpcache_timeout depth os sr = Inr sr'"
  shows "router_inv ifs rt sr'"
proof -
  have "router_inv ifs rt s \<Longrightarrow> sweep_loop depth os ptrs s = Inr t \<Longrightarrow> router_inv ifs rt t" for ptrs s t
    by (induction ptrs arbitrary: s) (auto simp: andthen_eq_Inr intro: router_inv_handle_arpreq)
  with assms show ?thesis
    using router_inv_expire [OF assms(1), of "now os"]
    by (auto simp: sr_arpcache_timeout_def sr_arpcache_sweepreqs_def)
qed

lemma router_inv_arp:
  assumes "router_inv ifs rt sr" and "sr_handle_arp_packet os sr p = Inr sr'"
  shows "router_inv ifs rt sr'"
proof -
  have "length p \<ge> 42 \<Longrightarrow> length (rd 22 6 p) = 6" by simp
  with assms show ?thesis
    by (auto simp: sr_handle_arp_packet_def Let_def need_eq_Inr header_defs
        intro!: router_inv_insert split: if_splits option.splits)
qed

lemma router_inv_forwarding:
  assumes "router_inv ifs rt sr" and "ip_forwarding depth os sr p iface route = Inr sr'"
  shows "router_inv ifs rt sr'"
proof -
  have miss: "router_inv ifs rt t"
    if "handle_arpreq depth os (sr\<lparr>cache := c\<rparr>) ptr = Inr t"
      "sr_arpcache_queuereq (cache sr) ip q None = (c, ptr)" for t c ptr ip q
    using router_inv_handle_arpreq [OF router_inv_queuereq [OF assms(1)]] that by (metis fst_conv)
  show ?thesis
  proof (cases "get_interface_from_ip (if_list sr) (ld32 ip_dst p)")
    case None
    with assms miss show ?thesis
      by (auto simp: ip_forwarding_def Let_def deref_eq_Inr intro: router_inv_send_icmp
          split: if_splits option.splits prod.splits)
  next
    case (Some i)
    with assms show ?thesis
      by (auto simp: ip_forwarding_def Let_def need_eq_Inr sr_echo_icmp_packet_def deref_eq_Inr
          intro: router_inv_send_icmp split: if_splits)
  qed
qed

lemma router_inv_handlepacket:
  assumes "router_inv ifs rt sr" and "sr_handlepacket depth os sr p iface = Inr sr'"
  shows "router_inv ifs rt sr'"
  using assms
  by (auto simp: sr_handlepacket_def sr_handle_ip_packet_def Let_def need_eq_Inr
      intro: router_inv_arp router_inv_send_icmp router_inv_forwarding split: if_splits)

text \<open>
  The events of a running router with fixed interfaces: a frame arrives, or the timeout thread wakes up. Each is one
  step, so that the events do not overlap; the code does not exclude that they do, because \<^verbatim>\<open>handle_arpreq\<close> is called
  without the lock when a frame is handled. \<open>Sr_Threads\<close> has the finer steps; hardware descriptions, which change
  the interfaces, are among the steps of \<open>Sr_Main\<close>.
\<close>

inductive router_step :: "sr_instance \<Rightarrow> sr_instance \<Rightarrow> bool" where
  frame: "sr_handlepacket depth os sr p iface = Inr sr' \<Longrightarrow> router_step sr sr'"
| tick: "sr_arpcache_timeout depth os sr = Inr sr' \<Longrightarrow> router_step sr sr'"

definition router_start :: "sr_if list \<Rightarrow> sr_rt list \<Rightarrow> sr_instance \<Rightarrow> bool" where
  "router_start ifs rt sr \<longleftrightarrow> (\<exists>sr0. sr = sr_init sr0 \<and> if_list sr0 = ifs \<and> routing_table sr0 = rt)"

interpretation router: step_system router_step "router_start ifs rt" "router_inv ifs rt" for ifs rt
proof (unfold_locales, goal_cases)
  case (1 s)
  then show ?case
    by (auto simp: router_start_def router_inv_def sr_init_def arp_inv_init)
      (simp_all add: sr_arpcache_init_def)
next
  case (2 s t)
  from this(2,1) show ?case
    by cases (auto intro: router_inv_handlepacket router_inv_timeout)
qed

text \<open>
  In every state the router reaches from \<^verbatim>\<open>sr_init\<close> by handling frames and timer ticks that do not overlap, the
  ARP cache has its 100 entries with six-byte addresses, there is at most one outstanding request per address and none has been
  sent more than five times, and the interfaces and routes are those it started with.
\<close>

theorem running_router_invariant:
  assumes "if_list sr0 = ifs" and "routing_table sr0 = rt"
    and "reachable_from router_step (sr_init sr0) sr"
  shows "length (entries (cache sr)) = 100 \<and> (\<forall>e \<in> set (entries (cache sr)). length (ent_mac e) = 6) \<and>
    distinct (map req_ip (requests (cache sr))) \<and>
    (\<forall>r \<in> set (requests (cache sr)). req_times_sent r \<le> 5) \<and>
    if_list sr = ifs \<and> routing_table sr = rt"
  using router.reachable_inv [OF assms(3), of ifs rt] assms(1,2)
  by (auto simp: router_start_def router_inv_def arp_inv_def SR_ARPCACHE_SZ_def)

text \<open>The state of the small network's router after the ARP request.\<close>

definition demo_after :: sr_instance where
  "demo_after = send_frame demo_os (arp_reply_frame eth1 demo_arp) (if_name eth1)
     (demo_sr\<lparr>cache := cache_learn 100 (ld32 ar_sip demo_arp) (rd ar_sha 6 demo_arp) (cache demo_sr)\<rparr>)"

lemma demo_after_handled: "sr_handlepacket 1 demo_os (sr_init demo_sr) demo_arp [] = Inr demo_after"
proof -
  have "get_interface_from_ip (if_list demo_sr) (ld32 ar_tip demo_arp) = Some eth1"
    by (simp add: demo_arp_fields get_interface_from_ip_def demo_sr_def eth1_def)
  moreover have "sr_init demo_sr = demo_sr" "now demo_os = 100"
    by (simp_all add: sr_init_def demo_sr_def demo_os_def)
  ultimately show ?thesis
    using handle_arp_request [of demo_arp demo_sr eth1 demo_os]
    by (simp add: sr_handlepacket_def demo_arp_fields ethertype_arp_def sizeof_ethernet_hdr_def demo_after_def)
qed

lemma demo_after_step: "router_step (sr_init demo_sr) demo_after"
  by (rule router_step.frame [OF demo_after_handled])

lemma demo_after_sent: "wire demo_after = [vns_packet_msg (arp_reply_frame eth1 demo_arp) (if_name eth1)]"
proof -
  let ?sr = "demo_sr\<lparr>cache := cache_learn 100 (ld32 ar_sip demo_arp) (rd ar_sha 6 demo_arp) (cache demo_sr)\<rparr>"
  have "eth1 \<in> set (if_list ?sr)" "length (if_addr eth1) = 6" "ifs_wf (if_list ?sr)" "wire ?sr = []"
    using demo_ifs_wf by (simp_all add: demo_sr_def) (simp add: eth1_def)
  then show ?thesis
    using send_frame_own [of demo_os ?sr eth1 "arp_reply_frame eth1 demo_arp"] arp_reply_frame_fields(2,9) [of demo_arp eth1]
    by (simp add: demo_after_def demo_arp_fields header_defs)
qed

lemma demo_after_reachable: "reachable_from router_step (sr_init demo_sr) demo_after"
  by (rule reachable_from.next_state [where step = router_step, OF reachable_from.start demo_after_step])

lemma demo_after_cache: "cache demo_after \<noteq> cache demo_sr"
proof -
  have "sr_arpcache_lookup (cache demo_after) (ld32 ar_sip demo_arp) \<noteq> None"
    using arp_table.lookup_new [of "cache demo_sr" "ld32 ar_sip demo_arp" 100]
    by (auto simp: cache_mac_def demo_after_def)
  then show ?thesis
    by (metis demo_lookup)
qed

theorem running_router_invariant_witness:
  "reachable_from router_step (sr_init demo_sr) demo_after \<and> cache demo_after \<noteq> cache demo_sr \<and>
     length (entries (cache demo_after)) = 100 \<and> distinct (map req_ip (requests (cache demo_after)))"
  using running_router_invariant [OF refl refl demo_after_reachable] demo_after_reachable
    demo_after_cache by simp

section \<open>Timer ticks\<close>

text \<open>
  A router none of whose gateways is one of its own addresses (every gateway is a
  neighbour) never has a packet waiting on an ARP request: forwarded packets that miss the
  cache are not queued (the interface name they are queued with is null), and ICMP errors
  fault before they are.
\<close>

definition neighbour_gateways :: "sr_if list \<Rightarrow> sr_rt list \<Rightarrow> bool" where
  "neighbour_gateways ifs rt \<longleftrightarrow> (\<forall>r \<in> set rt. get_interface_from_ip ifs (rt_gw r) = None)"

definition quiet_inv :: "sr_if list \<Rightarrow> sr_rt list \<Rightarrow> sr_instance \<Rightarrow> bool" where
  "quiet_inv ifs rt sr \<longleftrightarrow> router_inv ifs rt sr \<and> (\<forall>r \<in> set (requests (cache sr)). req_packets r = [])"

lemma icmp_neighbour:
  assumes "neighbour_gateways (if_list sr) (routing_table sr)"
    and "send_icmp_with handle os sr dst q t c = Inr sr'"
  shows "sr' = sr"
  using assms longest_match_SomeD(1) [of "routing_table sr" dst]
  by (auto simp: send_icmp_with_def neighbour_gateways_def need_eq_Inr Let_def deref_eq_Inr
      split: option.splits)

lemma quiet_queuereq:
  "\<forall>r \<in> set (requests c). req_packets r = [] \<Longrightarrow>
    \<forall>r \<in> set (requests (fst (sr_arpcache_queuereq c ip p None))). req_packets r = []"
  by (auto simp: sr_arpcache_queuereq_def Let_def add_packet_def split: option.split
      dest!: update_first_mem)

lemma quiet_handle_arpreq:
  assumes "\<forall>r \<in> set (requests (cache sr)). req_packets r = []"
    and "req_ptr ` set (requests (cache sr)) \<supseteq> insert ptr others" and "ptr \<notin> others"
  shows "\<exists>sr'. handle_arpreq (Suc depth) os sr ptr = Inr sr' \<and>
    (\<forall>r \<in> set (requests (cache sr')). req_packets r = []) \<and>
    others \<subseteq> req_ptr ` set (requests (cache sr'))"
proof -
  obtain r where r: "find (\<lambda>r. req_ptr r = ptr) (requests (cache sr)) = Some r"
    using assms(2) by (cases "find (\<lambda>r. req_ptr r = ptr) (requests (cache sr))")
      (auto simp: find_eq_None)
  then have "req_packets r = []"
    using assms(1) by (auto dest: find_SomeD)
  moreover have "req_ptr ` set (update_first P (\<lambda>r. r\<lparr>req_sent := t, req_times_sent := req_times_sent r + 1\<rparr>)
      (requests (cache sr))) = req_ptr ` set (requests (cache sr))" for P t
    by (subst (1 2) set_map [symmetric], subst map_update_first) simp_all
  moreover have "\<forall>r \<in> set (update_first P (\<lambda>r. r\<lparr>req_sent := t, req_times_sent := req_times_sent r + 1\<rparr>)
      (requests (cache sr))). req_packets r = []" for P t
    using assms(1) by (auto dest!: update_first_mem)
  moreover have "others \<subseteq> req_ptr ` set (remove_first (\<lambda>r. req_ptr r = ptr) (requests (cache sr)))"
  proof
    fix k assume "k \<in> others"
    then have "k \<noteq> ptr" "find (\<lambda>r. req_ptr r = k) (requests (cache sr)) \<noteq> None"
      using assms(2,3) by (auto simp: find_eq_None)
    then have "find (\<lambda>r. req_ptr r = k) (remove_first (\<lambda>r. req_ptr r = ptr) (requests (cache sr))) \<noteq> None"
      by (simp add: find_remove_first_other)
    then show "k \<in> req_ptr ` set (remove_first (\<lambda>r. req_ptr r = ptr) (requests (cache sr)))"
      by (auto simp: find_eq_None)
  qed
  ultimately show ?thesis
    using assms r set_remove_first [of "\<lambda>r. req_ptr r = ptr" "requests (cache sr)"]
    by (auto simp: Let_def sr_arpreq_destroy_def)
qed

lemma quiet_sweep:
  "\<forall>r \<in> set (requests (cache sr)). req_packets r = [] \<Longrightarrow> distinct ptrs \<Longrightarrow>
    set ptrs \<subseteq> req_ptr ` set (requests (cache sr)) \<Longrightarrow>
    \<exists>sr'. sweep_loop (Suc depth) os ptrs sr = Inr sr' \<and> (\<forall>r \<in> set (requests (cache sr')). req_packets r = [])"
proof (induction ptrs arbitrary: sr)
  case (Cons ptr ptrs)
  then obtain sr1 where "handle_arpreq (Suc depth) os sr ptr = Inr sr1"
    "\<forall>r \<in> set (requests (cache sr1)). req_packets r = []" "set ptrs \<subseteq> req_ptr ` set (requests (cache sr1))"
    using quiet_handle_arpreq [of sr ptr "set ptrs" depth os] by auto
  with Cons show ?case by (simp del: handle_arpreq.simps)
qed simp

lemma quiet_timeout:
  assumes "quiet_inv ifs rt sr"
  shows "\<exists>sr'. sr_arpcache_timeout (Suc depth) os sr = Inr sr' \<and>
    (\<forall>r \<in> set (requests (cache sr')). req_packets r = [])"
  using assms quiet_sweep [of "sr\<lparr>cache := expire_entries (now os) (cache sr)\<rparr>"
      "map req_ptr (requests (cache sr))" depth os]
  by (simp add: sr_arpcache_timeout_def sr_arpcache_sweepreqs_def quiet_inv_def router_inv_def
      arp_inv_def expire_entries_def)

lemma quiet_handle_Inr:
  assumes "handle_arpreq depth os sr ptr = Inr sr'" and "\<forall>r \<in> set (requests (cache sr)). req_packets r = []"
  shows "\<forall>r \<in> set (requests (cache sr')). req_packets r = []"
proof (cases depth)
  case (Suc d)
  obtain r where "find (\<lambda>r. req_ptr r = ptr) (requests (cache sr)) = Some r"
    using assms(1) Suc by (auto split: option.splits)
  then have "ptr \<in> req_ptr ` set (requests (cache sr))"
    by (auto dest: find_SomeD)
  then show ?thesis
    using quiet_handle_arpreq [of sr ptr "{}" d os] assms Suc by auto
qed (use assms in simp)

lemma quiet_timeout_Inr:
  assumes "sr_arpcache_timeout depth os sr = Inr sr'" and "\<forall>r \<in> set (requests (cache sr)). req_packets r = []"
  shows "\<forall>r \<in> set (requests (cache sr')). req_packets r = []"
proof -
  have "sweep_loop depth os ptrs s = Inr t \<Longrightarrow> \<forall>r \<in> set (requests (cache s)). req_packets r = [] \<Longrightarrow>
      \<forall>r \<in> set (requests (cache t)). req_packets r = []" for ptrs s t
    by (induction ptrs arbitrary: s) (auto simp: andthen_eq_Inr dest: quiet_handle_Inr)
  then show ?thesis
    using assms by (simp add: sr_arpcache_timeout_def sr_arpcache_sweepreqs_def expire_entries_def)
qed

lemma quiet_handlepacket:
  assumes "neighbour_gateways ifs rt" and "quiet_inv ifs rt sr"
    and "sr_handlepacket depth os sr p iface = Inr sr'"
  shows "\<forall>r \<in> set (requests (cache sr')). req_packets r = []"
proof -
  have nb: "neighbour_gateways (if_list sr) (routing_table sr)"
    and q: "\<forall>r \<in> set (requests (cache sr)). req_packets r = []"
    using assms by (auto simp: quiet_inv_def router_inv_def)
  have icmp: "\<forall>r \<in> set (requests (cache t)). req_packets r = []"
    if "sr_send_icmp_packet depth os sr dst q ty c = Inr t" for dst q ty c t
    using icmp_neighbour [OF nb] that q unfolding sr_send_icmp_packet_def by blast
  have arp: "\<forall>r \<in> set (requests (cache t)). req_packets r = []"
    if "sr_handle_arp_packet os sr p = Inr t" for t
    using that q set_remove_first [of "\<lambda>r. req_ip r = ld32 ar_sip p" "requests (cache sr)"]
    by (auto simp: sr_handle_arp_packet_def Let_def need_eq_Inr sr_arpcache_insert_def
        split: if_splits option.splits)
  have miss: "\<forall>r \<in> set (requests (cache t)). req_packets r = []"
    if "handle_arpreq depth os (sr\<lparr>cache := c\<rparr>) ptr = Inr t"
      "sr_arpcache_queuereq (cache sr) ip f None = (c, ptr)" for t c ptr ip f
    using quiet_handle_Inr [OF that(1)] quiet_queuereq [OF q, of ip f] that(2) by simp
  have fwd: "\<forall>r \<in> set (requests (cache t)). req_packets r = []"
    if "ip_forwarding depth os sr p iface route = Inr t" for t route
  proof (cases "get_interface_from_ip (if_list sr) (ld32 ip_dst p)")
    case None
    with that q icmp miss show ?thesis
      by (auto simp: ip_forwarding_def Let_def deref_eq_Inr split: if_splits option.splits prod.splits)
  next
    case (Some i)
    with that q icmp show ?thesis
      by (auto simp: ip_forwarding_def Let_def need_eq_Inr sr_echo_icmp_packet_def deref_eq_Inr
          split: if_splits)
  qed
  show ?thesis
    using assms(3) arp fwd icmp q
    by (auto simp: sr_handlepacket_def sr_handle_ip_packet_def Let_def need_eq_Inr split: if_splits)
qed

interpretation quiet_router: step_system router_step
  "\<lambda>sr. router_start ifs rt sr \<and> neighbour_gateways ifs rt"
  "\<lambda>sr. quiet_inv ifs rt sr \<and> neighbour_gateways ifs rt" for ifs rt
proof (unfold_locales, goal_cases)
  case (1 s)
  then show ?case
    using router.init_inv [of ifs rt s]
    by (auto simp: quiet_inv_def router_start_def sr_init_def sr_arpcache_init_def)
next
  case (2 s t)
  from this(2) have "\<forall>r \<in> set (requests (cache t)). req_packets r = []"
  proof cases
    case (frame depth os p iface)
    with 2 show ?thesis using quiet_handlepacket by blast
  next
    case (tick depth os)
    with 2 show ?thesis using quiet_timeout_Inr unfolding quiet_inv_def by blast
  qed
  with 2 show ?case
    using router.step_inv by (auto simp: quiet_inv_def)
qed

text \<open>
  C26: a running router whose gateways are all neighbours never faults on a timer tick, and the
  mutual recursion of \<^verbatim>\<open>handle_arpreq\<close> and \<^verbatim>\<open>sr_send_icmp_packet\<close> ends at the first level: one
  level of recursion is enough, from every reachable state and at every time.
\<close>

theorem timer_tick_safe:
  assumes "neighbour_gateways (if_list sr0) (routing_table sr0)"
    and "reachable_from router_step (sr_init sr0) sr"
  shows "\<exists>sr'. sr_arpcache_timeout (Suc depth) os sr = Inr sr' \<and>
    (\<forall>r \<in> set (requests (cache sr')). req_packets r = [])"
proof -
  have "quiet_inv (if_list sr0) (routing_table sr0) sr"
    using quiet_router.reachable_inv [OF assms(2), of "if_list sr0" "routing_table sr0"] assms(1)
    by (auto simp: router_start_def)
  then show ?thesis by (rule quiet_timeout)
qed

theorem timer_tick_safe_witness:
  "cache demo_after \<noteq> cache demo_sr \<and> (\<exists>sr'. sr_arpcache_timeout 1 demo_os demo_after = Inr sr')"
proof -
  have "neighbour_gateways (if_list demo_sr) (routing_table demo_sr)"
    by (simp add: neighbour_gateways_def demo_defs get_interface_from_ip_def le32_def)
  then show ?thesis
    using timer_tick_safe [OF _ demo_after_reachable, of 0 demo_os] demo_after_cache by auto
qed

text \<open>
  An exhausted request for an own address that serves as a gateway re-enters itself: the
  error message for the first waiting packet is queued on the same request, in front.
\<close>

lemma own_gateway_recursion:
  assumes "longest_match rt ip = Some route" and "rt_gw route = ip"
    and "get_interface_from_ip ifs ip = Some i" and "if_ip i = ip"
  shows "\<lbrakk>if_list sr = ifs; routing_table sr = rt; sr_arpcache_lookup (cache sr) ip = None;
      requests (cache sr) = [r]; req_ptr r = ptr; req_ip r = ip; now os - req_sent r > 1;
      req_times_sent r \<ge> 5; req_packets r = p # ps; 42 \<le> length (pkt_buf p);
      ld32 ip_src (pkt_buf p) = ip\<rbrakk> \<Longrightarrow> handle_arpreq depth os sr ptr = Inl Diverges"
proof (induction depth arbitrary: sr r p ps)
  case (Suc depth)
  let ?q = "drop sizeof_ethernet_hdr (pkt_buf p)"
  let ?f = "icmp_source_frame i (icmp_error_frame os ip ?q 3 1)"
  let ?p = "\<lparr>pkt_buf = ?f, pkt_iface = strncpy 32 (if_name i)\<rparr>"
  let ?r = "r\<lparr>req_packets := ?p # p # ps\<rparr>"
  let ?sr = "sr\<lparr>cache := (cache sr)\<lparr>requests := [?r]\<rparr>\<rparr>"
  have f: "length ?f = 70" "ld32 ip_src ?f = ip"
    using assms(4) by (simp_all add: icmp_source_frame_def icmp_error_frame_def Let_def header_defs
        buffer_simps)
  then have "?f \<noteq> []" by auto
  then have "sr_arpcache_queuereq (cache sr) ip ?f (Some (if_name i)) =
      ((cache sr)\<lparr>requests := [?r]\<rparr>, ptr)"
    using Suc.prems by (simp add: sr_arpcache_queuereq_def add_packet_def)
  moreover have "handle_arpreq depth os ?sr ptr = Inl Diverges"
    by (rule Suc.IH [of _ ?r ?p "p # ps"]) (use Suc.prems f in \<open>simp_all add: sr_arpcache_lookup_def\<close>)
  ultimately have "send_icmp_with (handle_arpreq depth os) os sr ip ?q 3 1 = Inl Diverges"
    using Suc.prems assms by (simp add: send_icmp_with_def Let_def header_defs need_def)
  with Suc.prems show ?case
    by (simp add: header_defs)
qed simp

lemma lookup_expired_None:
  "sr_arpcache_lookup c ip = None \<Longrightarrow> sr_arpcache_lookup (expire_entries t c) ip = None"
  by (auto simp: sr_arpcache_lookup_def lookup_loop_None_iff expire_entries_def)

text \<open>
  Without the restriction on gateways the recursion can be endless. When a route leads
  through an address of the router itself that is not in the cache, and the request for it
  has been sent five times while a packet from that address waits on it, the next timer
  tick exceeds every bound on the recursion depth.
\<close>

theorem own_gateway_tick_diverges:
  assumes "longest_match (routing_table sr) ip = Some route" and "rt_gw route = ip"
    and "get_interface_from_ip (if_list sr) ip = Some i"
    and "sr_arpcache_lookup (cache sr) ip = None" and "requests (cache sr) = [r]" and "req_ip r = ip"
    and "now os - req_sent r > 1" and "req_times_sent r \<ge> 5" and "req_packets r = p # ps"
    and "42 \<le> length (pkt_buf p)" and "ld32 ip_src (pkt_buf p) = ip"
  shows "sr_arpcache_timeout depth os sr = Inl Diverges"
proof -
  let ?sr = "sr\<lparr>cache := expire_entries (now os) (cache sr)\<rparr>"
  have "handle_arpreq depth os ?sr (req_ptr r) = Inl Diverges"
    by (rule own_gateway_recursion [OF assms(1-3)])
      (use assms get_interface_from_ip_SomeD in
        \<open>auto simp: lookup_expired_None expire_entries_def [THEN arg_cong, of requests]\<close>)
  then show ?thesis
    using assms(5) by (simp add: sr_arpcache_timeout_def sr_arpcache_sweepreqs_def expire_entries_def)
qed

definition demo_waiting :: sr_packet where
  "demo_waiting = \<lparr>pkt_buf = upd 26 [10, 0, 2, 1] (replicate 70 0), pkt_iface = []\<rparr>"

definition demo_exhausted :: sr_arpreq where
  "demo_exhausted = \<lparr>req_ptr = 1, req_ip = le32 [10, 0, 2, 1], req_sent = 90, req_times_sent = 5,
     req_packets = [demo_waiting]\<rparr>"

definition demo_stuck :: sr_instance where
  "demo_stuck = demo_sr\<lparr>routing_table := [(hd demo_rt)\<lparr>rt_gw := le32 [10, 0, 2, 1]\<rparr>],
     cache := (cache demo_sr)\<lparr>requests := [demo_exhausted]\<rparr>\<rparr>"

theorem own_gateway_tick_diverges_witness:
  "\<forall>depth. sr_arpcache_timeout depth demo_os demo_stuck = Inl Diverges"
proof
  fix depth
  have "longest_match (routing_table demo_stuck) (le32 [10, 0, 2, 1]) =
      Some ((hd demo_rt)\<lparr>rt_gw := le32 [10, 0, 2, 1]\<rparr>)"
    by (simp add: demo_stuck_def longest_match_def demo_rt_def le32_def)
  moreover have "get_interface_from_ip (if_list demo_stuck) (le32 [10, 0, 2, 1]) = Some eth2"
    by (simp add: demo_stuck_def get_interface_from_ip_def demo_defs le32_def)
  moreover have "sr_arpcache_lookup (cache demo_stuck) (le32 [10, 0, 2, 1]) = None"
    using demo_lookup [of "le32 [10, 0, 2, 1]"] by (simp add: demo_stuck_def sr_arpcache_lookup_def)
  moreover have "requests (cache demo_stuck) = [demo_exhausted]"
    by (simp add: demo_stuck_def)
  ultimately show "sr_arpcache_timeout depth demo_os demo_stuck = Inl Diverges"
    using own_gateway_tick_diverges [of demo_stuck "le32 [10, 0, 2, 1]"
        "(hd demo_rt)\<lparr>rt_gw := le32 [10, 0, 2, 1]\<rparr>" eth2 demo_exhausted demo_os demo_waiting "[]" depth]
    by (simp add: demo_exhausted_def demo_waiting_def demo_os_def buffer_simps header_defs)
qed

section \<open>Memory safety of the receive path\<close>

lemma andthen_eq_Inl:
  "andthen m k = Inl e \<longleftrightarrow> m = Inl e \<or> (\<exists>x. m = Inr x \<and> k x = Inl e)"
  by (cases m) auto

lemma need_eq_Inl: "need c f k = Inl e \<longleftrightarrow> (\<not> c \<and> f = e) \<or> (c \<and> k = Inl e)"
  by (auto simp: need_def)

lemma deref_eq_Inl: "deref p k = Inl e \<longleftrightarrow> (p = None \<and> e = Null_deref) \<or> (\<exists>x. p = Some x \<and> k x = Inl e)"
  by (cases p) auto

lemmas fault_simps = andthen_eq_Inl need_eq_Inl deref_eq_Inl

lemma icmp_in_bounds:
  assumes "router_inv ifs rt sr" and "28 \<le> length q"
    and "\<And>sr ptr. router_inv ifs rt sr \<Longrightarrow> handle sr ptr \<noteq> Inl Out_of_bounds"
  shows "send_icmp_with handle os sr dst q t c \<noteq> Inl Out_of_bounds"
proof -
  have "length (icmp_source_frame i (icmp_error_frame os dst q t c)) = 70" for i
    by (simp add: icmp_source_frame_def icmp_error_frame_def Let_def header_defs)
  then have "router_inv ifs rt (sr\<lparr>cache := fst (sr_arpcache_queuereq (cache sr) ip
      (icmp_source_frame i (icmp_error_frame os dst q t c)) nm)\<rparr>)" for i ip nm
    by (intro router_inv_queuereq [OF assms(1)]) simp
  then have "handle (sr\<lparr>cache := fst (sr_arpcache_queuereq (cache sr) ip
      (icmp_source_frame i (icmp_error_frame os dst q t c)) nm)\<rparr>) ptr \<noteq> Inl Out_of_bounds" for i ip nm ptr
    by (rule assms(3))
  with assms(2) show ?thesis
    by (auto simp: send_icmp_with_def Let_def fault_simps header_defs case_prod_beta split: option.splits)
qed

lemma unreachable_in_bounds:
  assumes "\<And>sr dst q. router_inv ifs rt sr \<Longrightarrow> 28 \<le> length q \<Longrightarrow> send sr dst q \<noteq> Inl Out_of_bounds"
    and "\<And>sr dst q sr'. router_inv ifs rt sr \<Longrightarrow> send sr dst q = Inr sr' \<Longrightarrow> router_inv ifs rt sr'"
  shows "router_inv ifs rt sr \<Longrightarrow> \<forall>p \<in> set ps. 42 \<le> length (pkt_buf p) \<Longrightarrow>
    unreachable_loop send ptr ps sr \<noteq> Inl Out_of_bounds"
proof (induction ps arbitrary: sr)
  case (Cons p ps)
  have "send sr (ld32 ip_src (pkt_buf p)) (drop sizeof_ethernet_hdr (pkt_buf p)) \<noteq> Inl Out_of_bounds"
    using Cons.prems by (intro assms(1)) (auto simp: header_defs)
  then show ?case
    using Cons assms(2) by (auto simp: fault_simps header_defs)
qed simp

lemma handle_arpreq_in_bounds:
  "router_inv ifs rt sr \<Longrightarrow> handle_arpreq depth os sr ptr \<noteq> Inl Out_of_bounds"
proof (induction depth arbitrary: sr ptr)
  case (Suc depth)
  have send: "send_icmp_with (handle_arpreq depth os) os s dst q 3 1 \<noteq> Inl Out_of_bounds"
    if "router_inv ifs rt s" "28 \<le> length q" for s dst q
    by (rule icmp_in_bounds [OF that Suc.IH])
  have keep: "router_inv ifs rt t"
    if "router_inv ifs rt s" "send_icmp_with (handle_arpreq depth os) os s dst q 3 1 = Inr t" for s dst q t
    using router_inv_icmp [OF that router_inv_handle_arpreq] .
  show ?case
  proof (cases "find (\<lambda>r. req_ptr r = ptr) (requests (cache sr))")
    case (Some r)
    then have "\<forall>p \<in> set (req_packets r). 42 \<le> length (pkt_buf p)"
      using Suc.prems by (auto simp: router_inv_def dest!: find_SomeD)
    with Suc.prems have "unreachable_loop (\<lambda>sr dst pkt. send_icmp_with (handle_arpreq depth os) os sr dst pkt 3 1)
        ptr (req_packets r) sr \<noteq> Inl Out_of_bounds"
    proof (rule unreachable_in_bounds [rotated 2])
      fix s dst q assume "router_inv ifs rt s" "28 \<le> length (q :: byte list)"
      then show "send_icmp_with (handle_arpreq depth os) os s dst q 3 1 \<noteq> Inl Out_of_bounds"
        by (rule send)
    next
      fix s dst q t
      assume "router_inv ifs rt s" "send_icmp_with (handle_arpreq depth os) os s dst q 3 1 = Inr t"
      then show "router_inv ifs rt t" by (rule keep)
    qed
    with Some show ?thesis
      by (auto simp: fault_simps Let_def)
  qed simp
qed simp

lemma send_icmp_in_bounds:
  "router_inv ifs rt sr \<Longrightarrow> 28 \<le> length q \<Longrightarrow> sr_send_icmp_packet depth os sr dst q t c \<noteq> Inl Out_of_bounds"
  unfolding sr_send_icmp_packet_def by (rule icmp_in_bounds [OF _ _ handle_arpreq_in_bounds])

lemma forwarding_in_bounds:
  assumes "router_inv ifs rt sr" and "34 \<le> length p"
    and "ld8 ip_p p = ip_protocol_icmp \<Longrightarrow> 38 \<le> length p"
  shows "ip_forwarding depth os sr p iface route \<noteq> Inl Out_of_bounds"
proof -
  have miss: "handle_arpreq depth os (sr\<lparr>cache := c\<rparr>) ptr \<noteq> Inl Out_of_bounds"
    if "sr_arpcache_queuereq (cache sr) ip q None = (c, ptr)" for c ptr ip q
    using handle_arpreq_in_bounds [OF router_inv_queuereq [OF assms(1)], of q None depth os ip ptr] that
    by simp
  have icmp: "sr_send_icmp_packet depth os sr dst q t c \<noteq> Inl Out_of_bounds"
    if "length q = length p" for dst q t c
    using that assms by (intro send_icmp_in_bounds) auto
  show ?thesis
  proof (cases "get_interface_from_ip (if_list sr) (ld32 ip_dst p)")
    case None
    with miss icmp [of "ttl_frame p"] show ?thesis
      by (auto simp: ip_forwarding_def Let_def fault_simps ttl_frame_def split: option.splits prod.splits)
  next
    case (Some i)
    with assms icmp show ?thesis
      by (auto simp: ip_forwarding_def Let_def fault_simps header_defs sr_echo_icmp_packet_def)
  qed
qed

text \<open>
  C35: in a running router no read or write of the receive path leaves a buffer, provided the
  frame has an Ethernet header and, if it is an ARP frame, all of its 42 bytes (shorter IP
  frames are rejected by the code's own length tests).
\<close>

theorem receive_path_in_bounds:
  assumes "reachable_from router_step (sr_init sr0) sr" and "14 \<le> length p"
    and "ntohs (ld16 ether_type p) = ethertype_arp \<longrightarrow> 42 \<le> length p"
  shows "sr_handlepacket depth os sr p iface \<noteq> Inl Out_of_bounds"
proof -
  have inv: "router_inv (if_list sr0) (routing_table sr0) sr"
    using router.reachable_inv [OF assms(1)] by (auto simp: router_start_def)
  have arp: "42 \<le> length p \<Longrightarrow> sr_handle_arp_packet os sr p \<noteq> Inl Out_of_bounds"
    by (auto simp: sr_handle_arp_packet_def Let_def fault_simps header_defs split: option.splits)
  have ip: "sr_handle_ip_packet depth os sr p iface \<noteq> Inl Out_of_bounds"
    if len: "34 \<le> length p" "ld8 ip_p p = ip_protocol_icmp \<Longrightarrow> 70 \<le> length p"
  proof -
    have "ip_forwarding depth os sr p iface route \<noteq> Inl Out_of_bounds" for route
      by (rule forwarding_in_bounds [OF inv]) (use len in force)+
    moreover have "sr_send_icmp_packet depth os sr dst p t c \<noteq> Inl Out_of_bounds" for dst t c
      by (rule send_icmp_in_bounds [OF inv]) (use len in simp)
    ultimately show ?thesis
      using len(1) by (auto simp: sr_handle_ip_packet_def Let_def fault_simps header_defs)
  qed
  show ?thesis
    using assms(2,3) arp ip
    by (auto simp: sr_handlepacket_def Let_def fault_simps header_defs not_less)
qed

theorem receive_path_in_bounds_witness:
  "sr_handlepacket 3 demo_os demo_after demo_packet [101, 116, 104, 49] \<noteq> Inl Out_of_bounds"
  using receive_path_in_bounds [OF demo_after_reachable, of demo_packet] by (simp add: demo_packet_fields)

section \<open>Next hops that are not in the cache\<close>

text \<open>
  A packet for another host whose next hop is unknown, and not yet asked for, makes the
  router broadcast an ARP request for the next hop on every interface; the request is
  recorded as sent once, but the packet is not queued on it, so it is lost.
\<close>

theorem unknown_next_hop:
  assumes "write_all os" and "ifs_wf (if_list sr)" and "34 \<le> length p" and "1 < now os"
    and "get_interface_from_ip (if_list sr) (ld32 ip_dst p) = None" and "ld8 ip_ttl p \<noteq> 1"
    and "longest_match (routing_table sr) (ld32 ip_dst p) = Some route"
    and "sr_arpcache_lookup (cache sr) (rt_gw route) = None" and "arp_inv (cache sr)"
    and "find (\<lambda>r. req_ip r = rt_gw route) (requests (cache sr)) = None"
  shows "\<exists>sr' r. sr_handle_ip_packet (Suc depth) os sr p iface = Inr sr' \<and>
    wire sr' = wire sr @ map (\<lambda>i. vns_packet_msg (arp_request_bytes i (rt_gw route)) (if_name i)) (if_list sr) \<and>
    requests (cache sr') = r # requests (cache sr) \<and> req_ip r = rt_gw route \<and>
    req_times_sent r = 1 \<and> req_sent r = now os \<and> req_packets r = []"
proof -
  have "ld8 22 (upd 22 [ld8 22 p - 1] p) = ld8 22 p - 1"
    using assms(3) by (simp add: buffer_simps)
  then show ?thesis
    using assms
    by (simp add: sr_handle_ip_packet_def ip_forwarding_def Let_def header_defs ttl_frame_def
        sr_arpcache_queuereq_def add_packet_def sr_send_arp_request_wire)
qed

theorem unknown_next_hop_witness:
  "\<exists>sr' r. sr_handle_ip_packet (Suc 0) demo_os demo_sr demo_packet [101, 116, 104, 49] = Inr sr' \<and>
     length (wire sr') = 2 \<and> requests (cache sr') = [r] \<and> req_packets r = []"
proof -
  have "routing_table demo_sr = demo_rt" "requests (cache demo_sr) = []" "arp_inv (cache demo_sr)"
    "1 < now demo_os" "wire demo_sr = []" "length (if_list demo_sr) = 2"
    by (simp_all add: demo_sr_def sr_arpcache_init_def [THEN arg_cong, of requests] arp_inv_init demo_os_def)
  then show ?thesis
    using unknown_next_hop [of demo_os demo_sr demo_packet "hd demo_rt" 0 "[101, 116, 104, 49]"]
    by (auto simp: demo_packet_fields demo_not_ours demo_route simp del: One_nat_def)
qed

text \<open>
  After \<^verbatim>\<open>sr_verify_routing_table\<close> has accepted the table (result 0), forwarding to a next
  hop that is in the cache cannot fault: every route names an interface that exists.
\<close>

theorem verified_table_forwards:
  assumes "sr_verify_routing_table (if_list sr) (routing_table sr) = 0" and "34 \<le> length p"
    and "get_interface_from_ip (if_list sr) (ld32 ip_dst p) = None" and "ld8 ip_ttl p \<noteq> 1"
    and "longest_match (routing_table sr) (ld32 ip_dst p) = Some route"
    and "sr_arpcache_lookup (cache sr) (rt_gw route) \<noteq> None"
  shows "\<exists>sr'. sr_handle_ip_packet depth os sr p iface = Inr sr' \<and> cache sr' = cache sr"
proof -
  have "ld8 22 (upd 22 [ld8 22 p - 1] p) = ld8 22 p - 1"
    using assms(2) by (simp add: buffer_simps)
  moreover obtain i where "sr_get_interface (if_list sr) (rt_interface route) = Some i"
    using assms(1,5) longest_match_SomeD(1) [OF assms(5)]
    by (auto simp: sr_verify_routing_table_def count_missing_zero split: if_splits)
  ultimately show ?thesis
    using assms by (auto simp: sr_handle_ip_packet_def ip_forwarding_def Let_def header_defs ttl_frame_def)
qed

theorem verified_table_forwards_witness:
  "\<exists>sr'. sr_handle_ip_packet 1 demo_os demo_known demo_packet [101, 116, 104, 49] = Inr sr'"
proof -
  obtain e where "sr_arpcache_lookup (cache demo_known) (le32 [10, 0, 2, 2]) = Some e"
    by (rule demo_known_lookup)
  moreover have "rt_gw (hd demo_rt) = le32 [10, 0, 2, 2]"
    by (simp add: demo_rt_def)
  moreover have "sr_verify_routing_table (if_list demo_sr) demo_rt = 0"
    by (simp add: sr_verify_routing_table_def demo_defs sr_IFACE_NAMELEN_def strncmp_eq_iff cstr_def)
  ultimately show ?thesis
    using verified_table_forwards [of demo_known demo_packet "hd demo_rt" 1 demo_os "[101, 116, 104, 49]"]
    by (auto simp: demo_known_simps demo_packet_fields demo_route demo_not_ours simp del: One_nat_def)
qed

end
