(* ===== verification/Sha1.thy ===== *)
theory Sha1
  imports Net_Prelude
begin

text \<open>
  The SHA-1 implementation that authenticates the router to the VNS server (\<^verbatim>\<open>sha1.c\<close>): the
  context record, the streaming input, the padding and the compression of one block, as
  the C code computes them on 32-bit words. The reference is the definition of FIPS 180:
  the padded message cut into 64-byte blocks and the compression function with its round
  functions indexed by \<open>t\<close>, rotations and modulo-2 sums.
\<close>

section \<open>The code\<close>

record SHA1Context =
  Message_Digest :: "uint32 list"
  Length_Low :: uint32
  Length_High :: uint32
  Message_Block :: "byte list"
  Message_Block_Index :: nat
  Computed :: bool
  Corrupted :: bool

definition SHA1CircularShift :: "nat \<Rightarrow> uint32 \<Rightarrow> uint32" where
  "SHA1CircularShift bits w = (push_bit bits w AND 0xFFFFFFFF) OR drop_bit (32 - bits) w"

definition SHA1Reset :: "SHA1Context \<Rightarrow> SHA1Context" where
  "SHA1Reset context = context\<lparr>Length_Low := 0, Length_High := 0, Message_Block_Index := 0,
     Message_Digest := [0x67452301, 0xEFCDAB89, 0x98BADCFE, 0x10325476, 0xC3D2E1F0],
     Computed := False, Corrupted := False\<rparr>"

text \<open>The word sequence \<^verbatim>\<open>W\<close>: sixteen words of the block, then the loop up to 80.\<close>

definition block_words :: "byte list \<Rightarrow> uint32 list" where
  "block_words b = map (\<lambda>t. push_bit 24 (ucast (b ! (t * 4))) OR push_bit 16 (ucast (b ! (t * 4 + 1))) OR
     push_bit 8 (ucast (b ! (t * 4 + 2))) OR ucast (b ! (t * 4 + 3))) [0..<16]"

primrec extend_words :: "nat \<Rightarrow> uint32 list \<Rightarrow> uint32 list" where
  "extend_words 0 W = W"
| "extend_words (Suc n) W = extend_words n
     (let t = length W
      in W @ [SHA1CircularShift 1 (W ! (t - 3) XOR W ! (t - 8) XOR W ! (t - 14) XOR W ! (t - 16))])"

type_synonym sha_vars = "uint32 \<times> uint32 \<times> uint32 \<times> uint32 \<times> uint32"

text \<open>The body of the four loops; they differ in the boolean function and the constant.\<close>

definition sha_round ::
  "(uint32 \<Rightarrow> uint32 \<Rightarrow> uint32 \<Rightarrow> uint32) \<Rightarrow> uint32 \<Rightarrow> sha_vars \<Rightarrow> uint32 \<Rightarrow> sha_vars" where
  "sha_round f K v w = (case v of (A, B, C, D, E) \<Rightarrow>
     let temp = SHA1CircularShift 5 A + f B C D + E + w + K
     in (temp AND 0xFFFFFFFF, A, SHA1CircularShift 30 B, C, D))"

definition sha_rounds :: "uint32 list \<Rightarrow> sha_vars \<Rightarrow> sha_vars" where
  "sha_rounds W v =
     (let v = foldl (sha_round (\<lambda>B C D. (B AND C) OR (NOT B AND D)) 0x5A827999) v (take 20 W);
          v = foldl (sha_round (\<lambda>B C D. B XOR C XOR D) 0x6ED9EBA1) v (take 20 (drop 20 W));
          v = foldl (sha_round (\<lambda>B C D. (B AND C) OR (B AND D) OR (C AND D)) 0x8F1BBCDC) v
                (take 20 (drop 40 W))
      in foldl (sha_round (\<lambda>B C D. B XOR C XOR D) 0xCA62C1D6) v (take 20 (drop 60 W)))"

definition SHA1ProcessMessageBlock :: "SHA1Context \<Rightarrow> SHA1Context" where
  "SHA1ProcessMessageBlock context =
     (let W = extend_words 64 (block_words (Message_Block context));
          H = Message_Digest context;
          (A, B, C, D, E) = sha_rounds W (H ! 0, H ! 1, H ! 2, H ! 3, H ! 4)
      in context\<lparr>Message_Digest := [(H ! 0 + A) AND 0xFFFFFFFF, (H ! 1 + B) AND 0xFFFFFFFF,
           (H ! 2 + C) AND 0xFFFFFFFF, (H ! 3 + D) AND 0xFFFFFFFF, (H ! 4 + E) AND 0xFFFFFFFF],
           Message_Block_Index := 0\<rparr>)"

text \<open>\<^verbatim>\<open>context->Message_Block[context->Message_Block_Index++] = b\<close>\<close>

definition put_byte :: "byte \<Rightarrow> SHA1Context \<Rightarrow> SHA1Context" where
  "put_byte b context = context\<lparr>Message_Block := (Message_Block context)[Message_Block_Index context := b],
     Message_Block_Index := Message_Block_Index context + 1\<rparr>"

definition count_bits :: "SHA1Context \<Rightarrow> SHA1Context" where
  "count_bits context =
     (let context = context\<lparr>Length_Low := Length_Low context + 8\<rparr>
      in if Length_Low context = 0 then
           let context = context\<lparr>Length_High := Length_High context + 1\<rparr>
           in if Length_High context = 0 then context\<lparr>Corrupted := True\<rparr> else context
         else context)"

fun input_loop :: "SHA1Context \<Rightarrow> byte list \<Rightarrow> SHA1Context" where
  "input_loop context [] = context"
| "input_loop context (b # message_array) =
     (if Corrupted context then context
      else
        let context = count_bits (put_byte b context);
            context = (if Message_Block_Index context = 64 then SHA1ProcessMessageBlock context else context)
        in input_loop context message_array)"

definition SHA1Input :: "SHA1Context \<Rightarrow> byte list \<Rightarrow> SHA1Context" where
  "SHA1Input context message_array =
     (if message_array = [] then context
      else if Computed context \<or> Corrupted context then context\<lparr>Corrupted := True\<rparr>
      else input_loop context message_array)"

function fill_zeros :: "nat \<Rightarrow> SHA1Context \<Rightarrow> SHA1Context" where
  "fill_zeros n context =
     (if Message_Block_Index context < n then fill_zeros n (put_byte 0 context) else context)"
  by pat_completeness auto
termination
  by (relation "measure (\<lambda>(n, context). n - Message_Block_Index context)") (auto simp: put_byte_def)

declare fill_zeros.simps [simp del]

definition store_length :: "SHA1Context \<Rightarrow> SHA1Context" where
  "store_length context =
     (let hi = Length_High context; lo = Length_Low context
      in context\<lparr>Message_Block := (Message_Block context)
           [56 := ucast (drop_bit 24 hi), 57 := ucast (drop_bit 16 hi), 58 := ucast (drop_bit 8 hi),
            59 := ucast hi, 60 := ucast (drop_bit 24 lo), 61 := ucast (drop_bit 16 lo),
            62 := ucast (drop_bit 8 lo), 63 := ucast lo]\<rparr>)"

definition SHA1PadMessage :: "SHA1Context \<Rightarrow> SHA1Context" where
  "SHA1PadMessage context =
     SHA1ProcessMessageBlock (store_length
       (if Message_Block_Index context > 55
        then fill_zeros 56 (SHA1ProcessMessageBlock (fill_zeros 64 (put_byte 0x80 context)))
        else fill_zeros 56 (put_byte 0x80 context)))"

definition SHA1Result :: "SHA1Context \<Rightarrow> bool \<times> SHA1Context" where
  "SHA1Result context =
     (if Corrupted context then (False, context)
      else if \<not> Computed context then (True, (SHA1PadMessage context)\<lparr>Computed := True\<rparr>)
      else (True, context))"

section \<open>The standard\<close>

definition sha_f :: "nat \<Rightarrow> uint32 \<Rightarrow> uint32 \<Rightarrow> uint32 \<Rightarrow> uint32" where
  "sha_f t b c d = (if t < 20 then (b AND c) XOR (NOT b AND d)
     else if t < 40 then b XOR c XOR d
     else if t < 60 then (b AND c) XOR (b AND d) XOR (c AND d)
     else b XOR c XOR d)"

definition sha_K :: "nat \<Rightarrow> uint32" where
  "sha_K t = (if t < 20 then 0x5A827999 else if t < 40 then 0x6ED9EBA1
     else if t < 60 then 0x8F1BBCDC else 0xCA62C1D6)"

fun sha_W :: "byte list \<Rightarrow> nat \<Rightarrow> uint32" where
  "sha_W b t = (if t < 16
     then word_of_nat (unat (b ! (4 * t + 3)) + 256 * (unat (b ! (4 * t + 2)) +
            256 * (unat (b ! (4 * t + 1)) + 256 * unat (b ! (4 * t)))))
     else word_rotl 1 (sha_W b (t - 3) XOR sha_W b (t - 8) XOR sha_W b (t - 14) XOR sha_W b (t - 16)))"

declare sha_W.simps [simp del]

primrec sha_iter :: "byte list \<Rightarrow> sha_vars \<Rightarrow> nat \<Rightarrow> sha_vars" where
  "sha_iter b v 0 = v"
| "sha_iter b v (Suc t) = (case sha_iter b v t of (A, B, C, D, E) \<Rightarrow>
     (word_rotl 5 A + sha_f t B C D + E + sha_K t + sha_W b t, A, word_rotl 30 B, C, D))"

definition sha_compress :: "sha_vars \<Rightarrow> byte list \<Rightarrow> sha_vars" where
  "sha_compress h b = (case h of (h0, h1, h2, h3, h4) \<Rightarrow> case sha_iter b h 80 of (A, B, C, D, E) \<Rightarrow>
     (h0 + A, h1 + B, h2 + C, h3 + D, h4 + E))"

definition sha_init :: sha_vars where
  "sha_init = (0x67452301, 0xEFCDAB89, 0x98BADCFE, 0x10325476, 0xC3D2E1F0)"

fun sha_blocks :: "byte list \<Rightarrow> byte list list" where
  "sha_blocks xs = (if length xs < 64 then [] else take 64 xs # sha_blocks (drop 64 xs))"

declare sha_blocks.simps [simp del]

definition sha_pad :: "byte list \<Rightarrow> byte list" where
  "sha_pad m = m @ [0x80] @ replicate ((119 - length m mod 64) mod 64) 0 @
     map (\<lambda>k. word_of_nat (8 * length m div 256 ^ k)) (rev [0..<8])"

definition sha1 :: "byte list \<Rightarrow> sha_vars" where
  "sha1 m = foldl sha_compress sha_init (sha_blocks (sha_pad m))"

section \<open>One block\<close>

lemma bit_rotl32:
  "n < 32 \<Longrightarrow> k < 32 \<Longrightarrow> bit (word_rotl n (w :: uint32)) k \<longleftrightarrow> bit w ((k + (32 - n)) mod 32)"
  by (subst bit_word_rotl_iff) auto

lemma and_all_ones [simp]: "(w :: uint32) AND 0xFFFFFFFF = w"
proof -
  have "(0xFFFFFFFF :: uint32) = - 1" by simp
  then show ?thesis by (simp only: and.right_neutral)
qed

lemma SHA1CircularShift_rotl:
  assumes "0 < n" and "n < 32"
  shows "SHA1CircularShift n w = word_rotl n w"
proof (rule bit_word_eqI)
  fix k
  assume "k < LENGTH(32)"
  then have k: "k < 32" by simp
  have "bit (SHA1CircularShift n w) k \<longleftrightarrow> (n \<le> k \<and> bit w (k - n)) \<or> bit w (32 - n + k)"
    using k by (simp add: SHA1CircularShift_def bit_or_iff bit_push_bit_iff bit_drop_bit_eq)
  also have "\<dots> \<longleftrightarrow> bit w ((k + (32 - n)) mod 32)"
  proof (cases "k < n")
    case True
    with assms have "(k + (32 - n)) mod 32 = 32 - n + k" by simp
    with True show ?thesis by simp
  next
    case False
    then have "k + (32 - n) = 32 + (k - n)" using assms by simp
    then have "(k + (32 - n)) mod 32 = (k - n) mod 32" by (simp only: mod_add_self1)
    then have "(k + (32 - n)) mod 32 = k - n" using k by simp
    moreover have "\<not> bit w (32 - n + k)"
      using False bit_imp_le_length [of w "32 - n + k"] by auto
    ultimately show ?thesis using False by simp
  qed
  finally show "bit (SHA1CircularShift n w) k \<longleftrightarrow> bit (word_rotl n w) k"
    using assms k by (simp add: bit_rotl32)
qed

lemma sha_choose: "(b AND c) OR (NOT b AND d) = (b AND c) XOR (NOT b AND (d :: uint32))"
  by (rule bit_eqI) (auto simp: bit_or_iff bit_and_iff bit_xor_iff bit_not_iff)

lemma sha_majority: "(b AND c) OR (b AND d) OR (c AND d) = (b AND c) XOR (b AND d) XOR (c AND (d :: uint32))"
  by (rule bit_eqI) (auto simp: bit_or_iff bit_and_iff bit_xor_iff)

lemma or_disjoint: "(x :: uint32) AND y = 0 \<Longrightarrow> x OR y = x + y"
  by (metis add.left_neutral word_plus_and_or)

lemma be_word:
  "push_bit 24 (ucast a) OR push_bit 16 (ucast b) OR push_bit 8 (ucast c) OR ucast d =
   (word_of_nat (unat d + 256 * (unat c + 256 * (unat b + 256 * unat a))) :: uint32)"
  for a b c d :: byte
proof -
  let ?a = "push_bit 24 (ucast a) :: uint32"
  let ?b = "push_bit 16 (ucast b) :: uint32"
  let ?c = "push_bit 8 (ucast c) :: uint32"
  let ?d = "ucast d :: uint32"
  have "?c AND ?d = 0"
    by (rule bit_word_eqI) (auto simp: bit_simps dest: bit_imp_le_length)
  moreover have "?b AND (?c OR ?d) = 0"
    by (rule bit_word_eqI) (auto simp: bit_simps dest: bit_imp_le_length)
  moreover have "?a AND (?b OR (?c OR ?d)) = 0"
    by (rule bit_word_eqI) (auto simp: bit_simps dest: bit_imp_le_length)
  ultimately have "?a OR (?b OR (?c OR ?d)) = ?a + (?b + (?c + ?d))"
    by (simp add: or_disjoint)
  moreover have "?a + (?b + (?c + ?d)) =
      word_of_nat (unat d + 256 * (unat c + 256 * (unat b + 256 * unat a)))"
    by (simp add: push_bit_eq_mult algebra_simps)
  ultimately show ?thesis by (simp only: or.assoc)
qed

lemma block_words_sha_W: "block_words b = map (sha_W b) [0..<16]"
  unfolding block_words_def by (rule map_cong) (simp_all add: be_word sha_W.simps mult.commute)

lemma extend_words_sha_W:
  "16 \<le> k \<Longrightarrow> extend_words n (map (sha_W b) [0..<k]) = map (sha_W b) [0..<k + n]"
proof (induction n arbitrary: k)
  case (Suc n)
  have "map (sha_W b) [0..<k] @ [SHA1CircularShift 1 (sha_W b (k - 3) XOR sha_W b (k - 8) XOR
      sha_W b (k - 14) XOR sha_W b (k - 16))] = map (sha_W b) [0..<Suc k]"
    using Suc.prems by (simp add: SHA1CircularShift_rotl sha_W.simps [of b k])
  then show ?case
    using Suc.IH [of "Suc k"] Suc.prems by (simp add: Let_def)
qed simp

lemma words_sha_W: "extend_words 64 (block_words b) = map (sha_W b) [0..<80]"
  using extend_words_sha_W [of 16 64 b] by (simp add: block_words_sha_W)

text \<open>Each of the four loops is a segment of the iteration of the standard.\<close>

lemma sha_rounds_segment:
  assumes "\<And>t B C D. s \<le> t \<Longrightarrow> t < s + n \<Longrightarrow> f B C D = sha_f t B C D" and "\<And>t. s \<le> t \<Longrightarrow> t < s + n \<Longrightarrow> K = sha_K t"
  shows "foldl (sha_round f K) (sha_iter b v s) (map (sha_W b) [s..<s + n]) = sha_iter b v (s + n)"
  using assms
proof (induction n)
  case (Suc n)
  have f: "f B C D = sha_f (s + n) B C D" and K: "K = sha_K (s + n)" for B C D
    using Suc.prems by simp_all
  have step: "sha_round f K v' (sha_W b (s + n)) = (case v' of (A, B, C, D, E) \<Rightarrow>
      (word_rotl 5 A + sha_f (s + n) B C D + E + sha_K (s + n) + sha_W b (s + n), A, word_rotl 30 B, C, D))"
    for v' unfolding sha_round_def f K by (auto simp: SHA1CircularShift_rotl split: prod.splits)
  have "foldl (sha_round f K) (sha_iter b v s) (map (sha_W b) [s..<s + n]) = sha_iter b v (s + n)"
    using Suc by simp
  then show ?case by (simp add: step)
qed simp

lemma sha_rounds_iter: "sha_rounds (map (sha_W b) [0..<80]) v = sha_iter b v 80"
proof -
  have 1: "foldl (sha_round (\<lambda>B C D. (B AND C) OR (NOT B AND D)) 0x5A827999) v (map (sha_W b) [0..<20]) =
      sha_iter b v 20"
    using sha_rounds_segment [of 0 20 "\<lambda>B C D. (B AND C) OR (NOT B AND D)" "0x5A827999" b v]
    by (simp add: sha_f_def sha_K_def sha_choose)
  have 2: "foldl (sha_round (\<lambda>B C D. B XOR C XOR D) 0x6ED9EBA1) (sha_iter b v 20) (map (sha_W b) [20..<40]) =
      sha_iter b v 40"
    using sha_rounds_segment [of 20 20 "\<lambda>B C D. B XOR C XOR D" "0x6ED9EBA1" b v]
    by (simp add: sha_f_def sha_K_def)
  have 3: "foldl (sha_round (\<lambda>B C D. (B AND C) OR (B AND D) OR (C AND D)) 0x8F1BBCDC) (sha_iter b v 40)
      (map (sha_W b) [40..<60]) = sha_iter b v 60"
    using sha_rounds_segment [of 40 20 "\<lambda>B C D. (B AND C) OR (B AND D) OR (C AND D)" "0x8F1BBCDC" b v]
    by (simp add: sha_f_def sha_K_def sha_majority)
  have 4: "foldl (sha_round (\<lambda>B C D. B XOR C XOR D) 0xCA62C1D6) (sha_iter b v 60) (map (sha_W b) [60..<80]) =
      sha_iter b v 80"
    using sha_rounds_segment [of 60 20 "\<lambda>B C D. B XOR C XOR D" "0xCA62C1D6" b v]
    by (simp add: sha_f_def sha_K_def)
  show ?thesis
    unfolding sha_rounds_def Let_def
    by (simp only: drop_map take_map drop_upt take_upt add_0 numeral_plus_numeral add_num_simps 1 2 3 4)
qed

definition vars_list :: "sha_vars \<Rightarrow> uint32 list" where
  "vars_list v = (case v of (a, b, c, d, e) \<Rightarrow> [a, b, c, d, e])"

lemma process_block:
  assumes "Message_Digest c = vars_list h"
  shows "SHA1ProcessMessageBlock c =
    c\<lparr>Message_Digest := vars_list (sha_compress h (Message_Block c)), Message_Block_Index := 0\<rparr>"
  using assms
  by (auto simp: SHA1ProcessMessageBlock_def words_sha_W sha_rounds_iter sha_compress_def vars_list_def
      Let_def split: prod.splits)

section \<open>Streaming\<close>

lemma sha_blocks_append:
  assumes "64 dvd length p"
  shows "sha_blocks (p @ q) = sha_blocks p @ sha_blocks q"
  using assms
proof (induction p rule: sha_blocks.induct)
  case (1 p)
  show ?case
  proof (cases "length p < 64")
    case True
    with "1.prems" have "p = []" by (auto dest: dvd_imp_le)
    then show ?thesis by (simp add: sha_blocks.simps [of "[]"])
  next
    case False
    then have "64 dvd length (drop 64 p)"
      using "1.prems" by (simp add: dvd_diff_nat)
    with False "1.IH" show ?thesis
      by (simp add: sha_blocks.simps [of p] sha_blocks.simps [of "p @ q"])
  qed
qed

lemma sha_blocks_short: "length q < 64 \<Longrightarrow> sha_blocks q = []"
  by (simp add: sha_blocks.simps)

lemma sha_blocks_one: "length q = 64 \<Longrightarrow> sha_blocks q = [q]"
  by (simp add: sha_blocks.simps [of q] sha_blocks_short)

text \<open>
  The state after a message \<open>m\<close> has been read: its complete blocks \<open>p\<close> have been
  compressed, the rest \<open>q\<close> is at the front of the block buffer, and the two length
  words hold the number of bits.
\<close>

definition sha_state :: "byte list \<Rightarrow> byte list \<Rightarrow> SHA1Context \<Rightarrow> bool" where
  "sha_state p q c \<longleftrightarrow> 64 dvd length p \<and> length q < 64 \<and> length (Message_Block c) = 64 \<and>
     Message_Block_Index c = length q \<and> take (length q) (Message_Block c) = q \<and>
     Message_Digest c = vars_list (foldl sha_compress sha_init (sha_blocks p)) \<and>
     unat (Length_Low c) + 4294967296 * unat (Length_High c) = 8 * (length p + length q) \<and>
     \<not> Computed c \<and> \<not> Corrupted c"

lemma sha_state_reset: "length (Message_Block c) = 64 \<Longrightarrow> sha_state [] [] (SHA1Reset c)"
  by (simp add: sha_state_def SHA1Reset_def vars_list_def sha_init_def sha_blocks_short)

text \<open>The two length words count bits as one 64-bit number.\<close>

lemma count_bits_value:
  assumes "unat (Length_Low c) + 4294967296 * unat (Length_High c) = 8 * n" and "8 * (n + 1) < 2 ^ 64"
  shows "unat (Length_Low (count_bits c)) + 4294967296 * unat (Length_High (count_bits c)) = 8 * (n + 1)"
    and "Corrupted (count_bits c) = Corrupted c" and "Message_Block (count_bits c) = Message_Block c"
    and "Message_Block_Index (count_bits c) = Message_Block_Index c"
    and "Message_Digest (count_bits c) = Message_Digest c" and "Computed (count_bits c) = Computed c"
proof -
  let ?lo = "unat (Length_Low c)" and ?hi = "unat (Length_High c)"
  have lo: "?lo < 4294967296" and hi: "?hi < 4294967296" by (rule unat_lt_4294967296)+
  have "unat (Length_Low c + 8) = (?lo + 8) mod 4294967296"
    by (simp add: unat_word_ariths)
  moreover have "?lo = 4294967288 \<or> ?lo + 8 < 4294967296"
  proof -
    have "?lo = 8 * (n - 536870912 * ?hi)"
      using assms(1) by (simp add: diff_mult_distrib2)
    then obtain k where k: "?lo = 8 * k" by blast
    with lo have "k = 536870911 \<or> k < 536870911" by linarith
    with k show ?thesis by auto
  qed
  ultimately have low: "unat (Length_Low c + 8) = (if ?lo = 4294967288 then 0 else ?lo + 8)"
    by auto
  have high: "?hi + 1 < 4294967296" if "?lo = 4294967288"
    using assms that by simp
  then have high': "unat (Length_High c + 1) = ?hi + 1" if "?lo = 4294967288"
    using that by (simp add: unat_word_ariths)
  have zero: "Length_Low c + 8 = 0 \<longleftrightarrow> ?lo = 4294967288"
    using low by (metis add_is_0 unat_0 unat_eq_0 zero_neq_numeral)
  have nz: "Length_High c + 1 \<noteq> 0" if "?lo = 4294967288"
    using high' [OF that] by (metis Suc_eq_plus1 nat.distinct(1) unat_0)
  show "unat (Length_Low (count_bits c)) + 4294967296 * unat (Length_High (count_bits c)) = 8 * (n + 1)"
    using assms(1) low high' nz zero
    by (cases "?lo = 4294967288") (simp_all add: count_bits_def Let_def)
  show "Corrupted (count_bits c) = Corrupted c" "Message_Block (count_bits c) = Message_Block c"
    "Message_Block_Index (count_bits c) = Message_Block_Index c"
    "Message_Digest (count_bits c) = Message_Digest c" "Computed (count_bits c) = Computed c"
    using zero nz by (simp_all add: count_bits_def Let_def)
qed

lemma sha_state_byte:
  fixes b :: byte and c :: SHA1Context
  assumes "sha_state p q c" and "8 * (length p + length q + 1) < 2 ^ 64"
  defines "c1 \<equiv> count_bits (put_byte b c)"
  defines "c2 \<equiv> (if Message_Block_Index c1 = 64 then SHA1ProcessMessageBlock c1 else c1)"
  shows "\<exists>p' q'. p' @ q' = p @ q @ [b] \<and> sha_state p' q' c2"
proof -
  have c: "64 dvd length p" "length q < 64" "length (Message_Block c) = 64"
    "Message_Block_Index c = length q" "take (length q) (Message_Block c) = q"
    "Message_Digest c = vars_list (foldl sha_compress sha_init (sha_blocks p))"
    "unat (Length_Low c) + 4294967296 * unat (Length_High c) = 8 * (length p + length q)"
    "\<not> Computed c" "\<not> Corrupted c"
    using assms(1) by (simp_all add: sha_state_def)
  have put: "Length_Low (put_byte b c) = Length_Low c" "Length_High (put_byte b c) = Length_High c"
    "Corrupted (put_byte b c) = Corrupted c" "Computed (put_byte b c) = Computed c"
    "Message_Digest (put_byte b c) = Message_Digest c"
    "Message_Block (put_byte b c) = (Message_Block c)[length q := b]"
    "Message_Block_Index (put_byte b c) = length q + 1"
    using c(4) by (simp_all add: put_byte_def)
  have "unat (Length_Low (put_byte b c)) + 4294967296 * unat (Length_High (put_byte b c)) =
      8 * (length p + length q)"
    using c(7) put by simp
  note cb = count_bits_value [OF this assms(2), folded c1_def]
  have front: "take (length q + 1) (Message_Block c1) = q @ [b]"
    using c(2,3,5) cb(3) put(6) by (simp add: take_Suc_conv_app_nth)
  show ?thesis
  proof (cases "length q = 63")
    case False
    then have "c2 = c1" using c(2) cb(4) put(7) by (simp add: c2_def)
    moreover have "sha_state p (q @ [b]) c1"
      using c cb put front False by (simp add: sha_state_def)
    ultimately show ?thesis by (intro exI [of _ p] exI [of _ "q @ [b]"]) simp
  next
    case True
    then have "Message_Block c1 = q @ [b]"
      using front c(3) cb(3) put(6) by simp
    moreover have "sha_blocks (p @ q @ [b]) = sha_blocks p @ [q @ [b]]"
      using c(1) True by (simp add: sha_blocks_append sha_blocks_one)
    moreover have "c2 = SHA1ProcessMessageBlock c1"
      using True cb(4) put(7) by (simp add: c2_def)
    moreover have "Message_Digest c1 = vars_list (foldl sha_compress sha_init (sha_blocks p))"
      using c(6) cb(5) put(5) by simp
    moreover have "length (p @ q @ [b]) = length p + 64" using True by simp
    ultimately have "sha_state (p @ q @ [b]) [] c2"
      using c(1,8,9) cb put True by (simp add: sha_state_def process_block)
    then show ?thesis by (intro exI [of _ "p @ q @ [b]"] exI [of _ "[]"]) simp
  qed
qed

lemma sha_state_input:
  "sha_state p q c \<Longrightarrow> 8 * (length p + length q + length m) < 2 ^ 64 \<Longrightarrow>
    \<exists>p' q'. p' @ q' = p @ q @ m \<and> sha_state p' q' (input_loop c m)"
proof (induction m arbitrary: p q c)
  case Nil
  then show ?case by auto
next
  case (Cons b m)
  let ?c1 = "count_bits (put_byte b c)"
  let ?c2 = "if Message_Block_Index ?c1 = 64 then SHA1ProcessMessageBlock ?c1 else ?c1"
  obtain p1 q1 where 1: "p1 @ q1 = p @ q @ [b]" "sha_state p1 q1 ?c2"
    using sha_state_byte [OF Cons.prems(1), of b] Cons.prems(2) by auto
  have "length p1 + length q1 = length p + length q + 1"
    using arg_cong [OF 1(1), of length] by simp
  then obtain p2 q2 where "p2 @ q2 = p1 @ q1 @ m" "sha_state p2 q2 (input_loop ?c2 m)"
    using Cons.IH [OF 1(2)] Cons.prems(2) by auto
  moreover have "input_loop c (b # m) = input_loop ?c2 m"
    using Cons.prems(1) by (simp add: sha_state_def Let_def)
  ultimately show ?case using 1(1) by (metis append.assoc append_Cons append_Nil)
qed

lemma sha_state_SHA1Input:
  assumes "sha_state p q c" and "8 * (length p + length q + length m) < 2 ^ 64"
  shows "\<exists>p' q'. p' @ q' = p @ q @ m \<and> sha_state p' q' (SHA1Input c m)"
  using assms sha_state_input [OF assms] by (cases "m = []") (auto simp: SHA1Input_def sha_state_def)

section \<open>Padding\<close>

lemma fill_zeros_spec:
  "Message_Block_Index c \<le> n \<Longrightarrow> n \<le> 64 \<Longrightarrow> length (Message_Block c) = 64 \<Longrightarrow>
    fill_zeros n c = c\<lparr>Message_Block := take (Message_Block_Index c) (Message_Block c) @
       replicate (n - Message_Block_Index c) 0 @ drop n (Message_Block c), Message_Block_Index := n\<rparr>"
proof (induction n c rule: fill_zeros.induct)
  case (1 n c)
  show ?case
  proof (cases "Message_Block_Index c < n")
    case True
    let ?i = "Message_Block_Index c" and ?b = "Message_Block c"
    have "take (Suc ?i) (?b[?i := 0]) = take ?i ?b @ [0]"
      using True "1.prems" by (simp add: take_Suc_conv_app_nth)
    moreover have "n - ?i = Suc (n - Suc ?i)" using True by simp
    ultimately have "fill_zeros n (put_byte 0 c) = c\<lparr>Message_Block := take ?i ?b @
        replicate (n - ?i) 0 @ drop n ?b, Message_Block_Index := n\<rparr>"
      using True "1.prems" "1.IH" [OF True] by (simp add: put_byte_def)
    then show ?thesis using True by (subst fill_zeros.simps) simp
  next
    case False
    with "1.prems" have "Message_Block_Index c = n" by simp
    then show ?thesis by (subst fill_zeros.simps) simp
  qed
qed

lemma length_eight:
  "length xs = 8 \<Longrightarrow> \<exists>y0 y1 y2 y3 y4 y5 y6 y7. xs = [y0, y1, y2, y3, y4, y5, y6, y7]"
  by (auto simp: length_Suc_conv eval_nat_numeral)

lemma set_last_eight:
  assumes "length b = 64"
  shows "b[56 := x0, 57 := x1, 58 := x2, 59 := x3, 60 := x4, 61 := x5, 62 := x6, 63 := x7] =
    take 56 b @ [x0, x1, x2, x3, x4, x5, x6, x7]"
proof -
  have "length (drop 56 b) = 8" using assms by simp
  then obtain y0 y1 y2 y3 y4 y5 y6 y7 where "drop 56 b = [y0, y1, y2, y3, y4, y5, y6, y7]"
    using length_eight by blast
  then have b: "b = take 56 b @ [y0, y1, y2, y3, y4, y5, y6, y7]"
    by (metis append_take_drop_id)
  have "length (take 56 b) = 56" using assms by simp
  then show ?thesis
    by (subst b) (simp add: list_update_append del: length_take)
qed

lemma ucast_drop_bit: "(ucast (drop_bit k w) :: byte) = word_of_nat (unat (w :: uint32) div 2 ^ k)"
proof -
  have "(ucast (drop_bit k w) :: byte) = word_of_nat (unat (drop_bit k w))"
    by simp
  also have "unat (drop_bit k w) = unat w div 2 ^ k"
    by (simp only: unat_drop_bit_eq) (simp add: drop_bit_eq_div)
  finally show ?thesis .
qed

lemma word_of_nat_byte_add: "(word_of_nat (x + 256 * y) :: byte) = word_of_nat x"
proof -
  have "(256 :: byte) = 0" by simp
  then have "(word_of_nat (256 * y) :: byte) = 0"
    by (simp only: of_nat_mult of_nat_numeral mult_zero_left)
  then show ?thesis by simp
qed

lemma length_bytes:
  fixes lo hi :: uint32
  assumes "unat lo + 4294967296 * unat hi = n"
  shows "[ucast (drop_bit 24 hi), ucast (drop_bit 16 hi), ucast (drop_bit 8 hi), ucast hi,
      ucast (drop_bit 24 lo), ucast (drop_bit 16 lo), ucast (drop_bit 8 lo), ucast lo] =
    (map (\<lambda>k. word_of_nat (n div 256 ^ k)) (rev [0..<8]) :: byte list)"
proof -
  have lo: "unat lo < 4294967296" by (rule unat_lt_4294967296)
  have hi: "n div 4294967296 = unat hi" using assms lo by auto
  have "n div 256 ^ 7 = n div 4294967296 div 16777216" "n div 256 ^ 6 = n div 4294967296 div 65536"
    "n div 256 ^ 5 = n div 4294967296 div 256"
    by (simp_all add: div_mult2_eq [symmetric])
  then have high: "n div 256 ^ 7 = unat hi div 16777216" "n div 256 ^ 6 = unat hi div 65536"
    "n div 256 ^ 5 = unat hi div 256" "n div 256 ^ 4 = unat hi"
    using hi by simp_all
  have split: "n = unat lo + k * (j * unat hi) \<Longrightarrow> 0 < k \<Longrightarrow> n div k = unat lo div k + j * unat hi" for k j
    by simp
  have low: "n div 256 ^ 3 = unat lo div 16777216 + 256 * unat hi"
    "n div 256 ^ 2 = unat lo div 65536 + 256 * (256 * unat hi)"
    "n div 256 ^ 1 = unat lo div 256 + 256 * (65536 * unat hi)"
    "n div 256 ^ 0 = unat lo + 256 * (16777216 * unat hi)"
    using split [of 16777216 256] split [of 65536 65536] split [of 256 16777216] assms
    by simp_all
  have "rev [0..<8] = [7, 6, 5, 4, 3, 2, 1, 0 :: nat]" by (simp add: upt_rec)
  moreover have "(ucast hi :: byte) = word_of_nat (unat hi)" "(ucast lo :: byte) = word_of_nat (unat lo)"
    by simp_all
  ultimately show ?thesis
    by (simp only: list.map high low word_of_nat_byte_add ucast_drop_bit) simp
qed

text \<open>Finishing a block whose first 56 bytes are in place.\<close>

lemma finish_block:
  assumes "Message_Digest c = vars_list h" and "length (Message_Block c) = 64"
    and "unat (Length_Low c) + 4294967296 * unat (Length_High c) = n"
  shows "Message_Digest (SHA1ProcessMessageBlock (store_length c)) =
    vars_list (sha_compress h (take 56 (Message_Block c) @
      map (\<lambda>k. word_of_nat (n div 256 ^ k)) (rev [0..<8])))"
  unfolding store_length_def Let_def set_last_eight [OF assms(2)] length_bytes [OF assms(3)]
  by (subst process_block [where h = h]) (use assms(1) in simp_all)

lemma sha_pad_state:
  assumes "64 dvd length p" and "length q < 64"
  shows "sha_pad (p @ q) = p @ q @ [0x80] @ replicate ((119 - length q) mod 64) 0 @
    map (\<lambda>k. word_of_nat (8 * (length p + length q) div 256 ^ k)) (rev [0..<8])"
proof -
  have "length (p @ q) mod 64 = length q"
    using assms by (auto simp: dvd_def)
  then show ?thesis unfolding sha_pad_def by simp
qed

text \<open>The context after the byte 0x80 has been stored.\<close>

lemma put_80:
  assumes "sha_state p q c"
  shows "length (Message_Block (put_byte b c)) = 64"
    and "take (Suc (length q)) (Message_Block (put_byte b c)) = q @ [b]"
    and "Message_Block_Index (put_byte b c) = Suc (length q)"
    and "Message_Digest (put_byte b c) = vars_list (foldl sha_compress sha_init (sha_blocks p))"
    and "unat (Length_Low (put_byte b c)) + 4294967296 * unat (Length_High (put_byte b c)) =
      8 * (length p + length q)"
  using assms by (simp_all add: sha_state_def put_byte_def take_Suc_conv_app_nth)

lemma pad_message_one_block:
  assumes "sha_state p q c" and "length q \<le> 55"
  shows "Message_Digest (SHA1PadMessage c) = vars_list (sha1 (p @ q))"
proof -
  let ?L = "map (\<lambda>k. word_of_nat (8 * (length p + length q) div 256 ^ k)) (rev [0..<8]) :: byte list"
  let ?f = "q @ [0x80] @ replicate (55 - length q) 0"
  let ?c1 = "put_byte 0x80 c"
  note c1 = put_80 [OF assms(1), of "0x80"]
  have p: "64 dvd length p" "length q < 64" "Message_Block_Index c = length q"
    using assms(1) by (simp_all add: sha_state_def)
  have c2: "fill_zeros 56 ?c1 =
      ?c1\<lparr>Message_Block := ?f @ drop 56 (Message_Block ?c1), Message_Block_Index := 56\<rparr>"
    using assms(2) c1 fill_zeros_spec [of ?c1 56] by simp
  have f: "length ?f = 56" using assms(2) by simp
  have "(119 - length q) mod 64 = 55 - length q"
    using assms(2) by (simp add: mod_if)
  then have "sha_blocks (sha_pad (p @ q)) = sha_blocks p @ [?f @ ?L]"
    unfolding sha_pad_state [OF p(1,2)] using p(1) assms(2)
    by (subst sha_blocks_append) (simp_all add: sha_blocks_one)
  moreover have "take 56 (?f @ drop 56 (Message_Block ?c1)) = ?f"
    using append_eq_conv_conj [of ?f "drop 56 (Message_Block ?c1)"] f by metis
  moreover have "length (?f @ drop 56 (Message_Block ?c1)) = 64"
    using c1(1) assms(2) by simp
  moreover have "SHA1PadMessage c = SHA1ProcessMessageBlock (store_length (fill_zeros 56 ?c1))"
    using p(3) assms(2) by (simp add: SHA1PadMessage_def)
  ultimately show ?thesis
    unfolding c2 using finish_block [of "?c1\<lparr>Message_Block := ?f @ drop 56 (Message_Block ?c1),
        Message_Block_Index := 56\<rparr>" _ "8 * (length p + length q)"] c1(4,5)
    by (simp add: sha1_def del: length_append take_append append_assoc append.simps)
qed

lemma pad_message_two_blocks:
  assumes "sha_state p q c" and "55 < length q"
  shows "Message_Digest (SHA1PadMessage c) = vars_list (sha1 (p @ q))"
proof -
  let ?L = "map (\<lambda>k. word_of_nat (8 * (length p + length q) div 256 ^ k)) (rev [0..<8]) :: byte list"
  let ?h = "foldl sha_compress sha_init (sha_blocks p)"
  let ?b1 = "q @ [0x80] @ replicate (63 - length q) 0"
  let ?h2 = "sha_compress ?h ?b1"
  let ?c1 = "put_byte 0x80 c"
  note c1 = put_80 [OF assms(1), of "0x80"]
  have p: "64 dvd length p" "length q < 64" "Message_Block_Index c = length q"
    using assms(1) by (simp_all add: sha_state_def)
  have "fill_zeros 64 ?c1 = ?c1\<lparr>Message_Block := ?b1, Message_Block_Index := 64\<rparr>"
    using p(2) c1 fill_zeros_spec [of ?c1 64] by simp
  then have c2: "SHA1ProcessMessageBlock (fill_zeros 64 ?c1) =
      ?c1\<lparr>Message_Block := ?b1, Message_Digest := vars_list ?h2, Message_Block_Index := 0\<rparr>" (is "?l = ?c2")
    using process_block [of "?c1\<lparr>Message_Block := ?b1, Message_Block_Index := 64\<rparr>" ?h] c1(4) by simp
  have c3: "fill_zeros 56 ?c2 = ?c2\<lparr>Message_Block := replicate 56 0 @ drop 56 ?b1, Message_Block_Index := 56\<rparr>"
    using fill_zeros_spec [of ?c2 56] p(2) by simp
  have "(119 - length q) mod 64 = (63 - length q) + 56"
    using assms(2) p(2) by simp
  then have "sha_pad (p @ q) = p @ ?b1 @ (replicate 56 0 @ ?L)"
    by (simp only: sha_pad_state [OF p(1,2)] replicate_add append_assoc)
  then have "sha_blocks (sha_pad (p @ q)) = sha_blocks p @ [?b1, replicate 56 0 @ ?L]"
    using p by (simp only: sha_blocks_append) (subst sha_blocks_append, simp_all add: sha_blocks_one)
  moreover have "SHA1PadMessage c = SHA1ProcessMessageBlock (store_length (fill_zeros 56 ?c2))"
    using p(3) assms(2) by (simp add: SHA1PadMessage_def c2)
  ultimately show ?thesis
    unfolding c3 using finish_block [of "?c2\<lparr>Message_Block := replicate 56 0 @ drop 56 ?b1,
        Message_Block_Index := 56\<rparr>" ?h2 "8 * (length p + length q)"] c1(5) p(2)
    by (simp add: sha1_def)
qed

lemma pad_message:
  "sha_state p q c \<Longrightarrow> Message_Digest (SHA1PadMessage c) = vars_list (sha1 (p @ q))"
  using pad_message_one_block pad_message_two_blocks by (cases "length q > 55") auto

lemma SHA1_two_inputs:
  assumes "length (Message_Block c) = 64" and "8 * (length m + length n) < 2 ^ 64"
  shows "\<exists>c'. SHA1Result (SHA1Input (SHA1Input (SHA1Reset c) m) n) = (True, c') \<and>
    Message_Digest c' = vars_list (sha1 (m @ n)) \<and> Computed c'"
proof -
  obtain p q where pq: "p @ q = m" "sha_state p q (SHA1Input (SHA1Reset c) m)"
    using sha_state_SHA1Input [OF sha_state_reset [OF assms(1)], of m] assms(2) by auto
  have "length p + length q = length m" using arg_cong [OF pq(1), of length] by simp
  then obtain p' q' where "p' @ q' = m @ n" "sha_state p' q' (SHA1Input (SHA1Input (SHA1Reset c) m) n)"
    using sha_state_SHA1Input [OF pq(2), of n] assms(2) pq(1) by auto
  moreover from this(2) have "\<not> Corrupted (SHA1Input (SHA1Input (SHA1Reset c) m) n)"
    "\<not> Computed (SHA1Input (SHA1Input (SHA1Reset c) m) n)"
    by (simp_all add: sha_state_def)
  ultimately show ?thesis
    using pad_message [of p' q'] by (simp add: SHA1Result_def)
qed

section \<open>Properties\<close>

text \<open>
  C12: for every message of less than 2^64 bits, resetting a context, feeding it the message in
  two pieces (of any lengths) and asking for the result succeeds, and the digest is the
  SHA-1 hash of the standard of the whole message.
\<close>

theorem SHA1_correct:
  assumes "length (Message_Block c) = 64" and "8 * (length m + length n) < 2 ^ 64"
  shows "\<exists>c'. SHA1Result (SHA1Input (SHA1Input (SHA1Reset c) m) n) = (True, c') \<and>
    Message_Digest c' = vars_list (sha1 (m @ n)) \<and> Computed c'"
  using assms by (rule SHA1_two_inputs)

definition demo_context :: SHA1Context where
  "demo_context = \<lparr>Message_Digest = [], Length_Low = 7, Length_High = 7, Message_Block = replicate 64 0,
     Message_Block_Index = 3, Computed = True, Corrupted = True\<rparr>"

theorem SHA1_correct_witness:
  "\<exists>c'. SHA1Result (SHA1Input (SHA1Input (SHA1Reset demo_context) [97]) [98, 99]) = (True, c') \<and>
     Message_Digest c' = vars_list (sha1 [97, 98, 99])"
  using SHA1_correct [of demo_context "[97]" "[98, 99]"] by (auto simp: demo_context_def)

text \<open>
  A context that has delivered its result refuses further input: the input is ignored,
  the context is marked corrupted, and every later request for the result fails.
\<close>

theorem SHA1_no_input_after_result:
  assumes "SHA1Result c = (True, c')" and "m \<noteq> []"
  shows "SHA1Input c' m = c'\<lparr>Corrupted := True\<rparr> \<and>
    SHA1Result (SHA1Input c' m) = (False, c'\<lparr>Corrupted := True\<rparr>)"
  using assms by (auto simp: SHA1Result_def SHA1Input_def split: if_splits)

theorem SHA1_no_input_after_result_witness:
  "\<exists>c'. SHA1Result (SHA1Reset demo_context) = (True, c') \<and>
     SHA1Result (SHA1Input c' [1]) = (False, c'\<lparr>Corrupted := True\<rparr>)"
proof -
  obtain c' where "SHA1Result (SHA1Reset demo_context) = (True, c')"
    by (simp add: SHA1Result_def SHA1Reset_def)
  then show ?thesis using SHA1_no_input_after_result [of _ c' "[1]"] by blast
qed

end
