(* ===== verification/Sr_Vns_Server.thy ===== *)
theory Sr_Vns_Server
  imports Sr_Router_Correct Sha1
begin

text \<open>
  The session with the VNS server (\<^verbatim>\<open>sr_vns_comm.c\<close> with the message layouts of
  \<^verbatim>\<open>vnscommand.h\<close>): reading one length-prefixed command from the socket, the commands
  themselves (packet, close, banner, hardware information, routing table, authentication)
  and the negotiation at start-up.

  The socket is the list of results that the coming \<^verbatim>\<open>recv\<close> and \<^verbatim>\<open>read\<close> calls give. A
  call asks for at most \<open>n\<close> bytes and leaves the rest of a longer segment for the next
  call; a list that has run out is a connection the peer has closed, on which \<^verbatim>\<open>recv\<close>
  returns 0 for ever.
\<close>

section \<open>State\<close>

datatype recv_event =
    Segment "byte list"   \<comment> \<open>bytes that are ready to be read\<close>
  | Interrupted           \<comment> \<open>the call returns -1 with EINTR\<close>
  | Failed                \<comment> \<open>the call returns -1 with another error\<close>

record vns =
  router :: sr_instance
  incoming :: "recv_event list"
  auth_key :: "byte list option"
  can_create :: bool
  created :: "(byte list \<times> byte list) list"
  sock_closed :: bool

definition IDSIZE :: nat where "IDSIZE = 32"
definition VNSOPEN :: uint32 where "VNSOPEN = 1"
definition VNSCLOSE :: uint32 where "VNSCLOSE = 2"
definition VNSBANNER :: uint32 where "VNSBANNER = 8"
definition VNSHWINFO :: uint32 where "VNSHWINFO = 16"
definition VNS_RTABLE :: uint32 where "VNS_RTABLE = 32"
definition VNS_OPEN_TEMPLATE :: uint32 where "VNS_OPEN_TEMPLATE = 64"
definition VNS_AUTH_REQUEST :: uint32 where "VNS_AUTH_REQUEST = 128"
definition VNS_AUTH_REPLY :: uint32 where "VNS_AUTH_REPLY = 256"
definition VNS_AUTH_STATUS :: uint32 where "VNS_AUTH_STATUS = 512"

definition HWINTERFACE :: uint32 where "HWINTERFACE = 1"
definition HWETHER :: uint32 where "HWETHER = 32"
definition HWETHIP :: uint32 where "HWETHIP = 64"

lemmas vns_commands = VNSOPEN_def VNSCLOSE_def VNSPACKET_def VNSBANNER_def VNSHWINFO_def
  VNS_RTABLE_def VNS_OPEN_TEMPLATE_def VNS_AUTH_REQUEST_def VNS_AUTH_REPLY_def VNS_AUTH_STATUS_def

section \<open>Reading from the socket\<close>

text \<open>
  The loop that collects \<open>n\<close> bytes: the bytes (\<open>None\<close> when a call failed) and what is
  left of the socket. \<open>Inl Diverges\<close>: every further call returns 0 and the loop never ends.
\<close>

fun recv_loop :: "nat \<Rightarrow> byte list \<Rightarrow> recv_event list \<Rightarrow> fault + byte list option \<times> recv_event list" where
  "recv_loop n acc [] = (if n \<le> length acc then Inr (Some acc, []) else Inl Diverges)"
| "recv_loop n acc (e # evs) =
     (if n \<le> length acc then Inr (Some acc, e # evs)
      else case e of
        Interrupted \<Rightarrow> recv_loop n acc evs
      | Failed \<Rightarrow> Inr (None, evs)
      | Segment bs \<Rightarrow>
          let k = n - length acc
          in if k < length bs then Inr (Some (acc @ take k bs), Segment (drop k bs) # evs)
             else recv_loop n (acc @ bs) evs)"

section \<open>Commands\<close>

definition sr_arp_req_not_for_us :: "sr_instance \<Rightarrow> byte list \<Rightarrow> byte list \<Rightarrow> fault + bool" where
  "sr_arp_req_not_for_us sr packet interface =
     (let iface = sr_get_interface (if_list sr) interface
      in if length packet < sizeof_ethernet_hdr + sizeof_arp_hdr then Inr False
         else case iface of
           None \<Rightarrow> Inl Assert_failed
         | Some i \<Rightarrow> Inr (ld16 ether_type packet = htons ethertype_arp \<and>
             ld16 ar_op packet = htons arp_op_request \<and> ld32 ar_tip packet \<noteq> if_ip i))"

text \<open>A new \<^verbatim>\<open>struct sr_if\<close> before its fields are set.\<close>

definition fresh_if :: "os \<Rightarrow> sr_if" where
  "fresh_if os = (let m = malloc os 56 in
     \<lparr>if_name = take 32 m, if_addr = rd 32 6 m, if_ip = ld32 40 m, if_speed = ld32 44 m\<rparr>)"

text \<open>The switch on the key of one entry; \<open>val\<close> are the bytes from its value on.\<close>

definition hw_apply :: "os \<Rightarrow> uint32 \<Rightarrow> byte list \<Rightarrow> sr_if list \<Rightarrow> fault + sr_if list" where
  "hw_apply os key val ifs =
     (if key = HWINTERFACE then Inr (sr_add_interface (fresh_if os) ifs val)
      else if key = HWETHIP then sr_set_ether_ip ifs (ld32 0 val)
      else if key = HWETHER then sr_set_ether_addr ifs val
      else Inr ifs)"

fun hwinfo_loop :: "os \<Rightarrow> byte list \<Rightarrow> nat \<Rightarrow> nat \<Rightarrow> sr_if list \<Rightarrow> fault + sr_if list" where
  "hwinfo_loop os buf i 0 ifs = Inr ifs"
| "hwinfo_loop os buf i (Suc left) ifs =
     andthen (hw_apply os (ntohl (ld32 (8 + 36 * i) buf)) (drop (8 + 36 * i + 4) buf) ifs)
       (hwinfo_loop os buf (Suc i) left)"

definition sr_handle_hwinfo :: "os \<Rightarrow> sr_instance \<Rightarrow> byte list \<Rightarrow> fault + int \<times> sr_instance" where
  "sr_handle_hwinfo os sr hwinfo =
     (let num_entries = (unat (ntohl (ld32 0 hwinfo)) - 8) div 36
      in andthen (hwinfo_loop os hwinfo 0 num_entries (if_list sr)) (\<lambda>ifs.
           Inr (int num_entries, sr\<lparr>if_list := ifs\<rparr>)))"

definition sr_handle_rtable :: "vns \<Rightarrow> byte list \<Rightarrow> fault + int \<times> vns" where
  "sr_handle_rtable v rtable =
     need (length (cstr (drop 8 rtable)) \<le> IDSIZE) Out_of_bounds
       (let fn = [114, 116, 97, 98, 108, 101, 46] @ cstr (drop 8 rtable)
        in if can_create v then
             need (8 + IDSIZE \<le> length rtable) Out_of_bounds
               (Inr (1, v\<lparr>created := created v @ [(fn, drop (8 + IDSIZE) rtable)]\<rparr>))
           else Inr (0, v))"

definition AUTH_KEY_LEN :: nat where "AUTH_KEY_LEN = 64"
definition SHA1_LEN :: nat where "SHA1_LEN = 20"

text \<open>\<^verbatim>\<open>fgets\<close>: at most \<open>n - 1\<close> bytes, through the first newline; null at end of file.\<close>

definition fgets :: "nat \<Rightarrow> byte list \<Rightarrow> byte list option" where
  "fgets n file =
     (let line = takeWhile (\<lambda>c. c \<noteq> 10) file @ take 1 (dropWhile (\<lambda>c. c \<noteq> 10) file)
      in if file = [] then None else Some (take (n - 1) line))"

definition stack_context :: "os \<Rightarrow> SHA1Context" where
  "stack_context os = \<lparr>Message_Digest = replicate 5 (ld32 0 (malloc os 4)), Length_Low = 0, Length_High = 0,
     Message_Block = malloc os 64, Message_Block_Index = 0, Computed = False, Corrupted = False\<rparr>"

definition auth_reply_msg :: "byte list \<Rightarrow> uint32 list \<Rightarrow> byte list" where
  "auth_reply_msg user digest =
     (let len_username = length (cstr user); len = 12 + len_username + SHA1_LEN
      in bytes32 (htonl (word_of_nat len)) @ bytes32 (htonl VNS_AUTH_REPLY) @
         bytes32 (htonl (word_of_nat len_username)) @ cstr user @ concat (map (\<lambda>w. bytes32 (htonl w)) digest))"

text \<open>
  The user name is read as a string; an array \<^verbatim>\<open>user\<close> that \<^verbatim>\<open>strncpy\<close> has filled without a terminator
  makes \<^verbatim>\<open>strlen\<close> and \<^verbatim>\<open>strcpy\<close> run past its end.
\<close>

definition sr_handle_auth_request :: "os \<Rightarrow> vns \<Rightarrow> byte list \<Rightarrow> fault + int \<times> vns" where
  "sr_handle_auth_request os v req =
     (case auth_key v of
        None \<Rightarrow> Inr (0, v)
      | Some file \<Rightarrow>
          case fgets (AUTH_KEY_LEN + 1) file of
            None \<Rightarrow> Inr (0, v)
          | Some line \<Rightarrow>
              let key = upd 0 (line @ [0]) (malloc os (AUTH_KEY_LEN + 1));
                  sha1 = SHA1Reset (stack_context os);
                  sha1 = SHA1Input sha1 (drop 8 req);
                  sha1 = SHA1Input sha1 (take AUTH_KEY_LEN key);
                  (ok, sha1) = SHA1Result sha1
              in if \<not> ok then Inr (0, v)
                 else need (0 \<in> set (sr_user (router v))) Out_of_bounds
                   (let buf = auth_reply_msg (sr_user (router v)) (Message_Digest sha1);
                        n = write_ret os buf;
                        sr = router v;
                        v = v\<lparr>router := sr\<lparr>wire := wire sr @ [take (nat n) buf]\<rparr>\<rparr>
                    in Inr (if n \<noteq> int (length buf) then 0 else 1, v)))"

definition sr_handle_auth_status :: "byte list \<Rightarrow> fault + int" where
  "sr_handle_auth_status status =
     need (9 \<le> length status) Out_of_bounds (Inr (int (unat (status ! 8))))"

text \<open>
  The switch of \<^verbatim>\<open>sr_read_from_server_expect\<close> on a complete command: the return value and
  the new state. The interface name of a packet is the string from byte 8 on.
\<close>

definition vns_command :: "nat \<Rightarrow> os \<Rightarrow> vns \<Rightarrow> uint32 \<Rightarrow> byte list \<Rightarrow> fault + int \<times> vns" where
  "vns_command depth os v command buf =
     (if command = VNSPACKET then
        need (24 \<le> length buf) Out_of_bounds
          (let packet = drop 24 buf; interface = drop 8 buf
           in andthen (sr_arp_req_not_for_us (router v) packet interface) (\<lambda>other.
                if other then Inr (1, v)
                else andthen (sr_handlepacket depth os (sr_log_packet os (router v) packet) packet interface) (\<lambda>sr.
                  Inr (1, v\<lparr>router := sr\<rparr>))))
      else if command = VNSCLOSE then Inr (0, v)
      else if command = VNSBANNER then Inr (1, v)
      else if command = VNSHWINFO then
        andthen (sr_handle_hwinfo os (router v) buf) (\<lambda>(num, sr).
          Inr (if sr_verify_routing_table (if_list sr) (routing_table sr) \<noteq> 0 then -1 else 1, v\<lparr>router := sr\<rparr>))
      else if command = VNS_RTABLE then
        andthen (sr_handle_rtable v buf) (\<lambda>(r, v). Inr (if r = 0 then -1 else 1, v))
      else if command = VNS_AUTH_REQUEST then
        andthen (sr_handle_auth_request os v buf) (\<lambda>(r, v). Inr (if r = 0 then -1 else 1, v))
      else if command = VNS_AUTH_STATUS then
        andthen (sr_handle_auth_status buf) (\<lambda>r. Inr (if r = 0 then -1 else 1, v))
      else Inr (1, v))"

definition sr_read_from_server_expect :: "nat \<Rightarrow> os \<Rightarrow> vns \<Rightarrow> uint32 \<Rightarrow> fault + int \<times> vns" where
  "sr_read_from_server_expect depth os v expected_cmd =
     andthen (recv_loop 4 [] (incoming v)) (\<lambda>(header, evs).
       let v = v\<lparr>incoming := evs\<rparr>
       in case header of
         None \<Rightarrow> Inr (-1, v)
       | Some h \<Rightarrow>
           let len = sint (ntohl (le32 h))
           in if len > 10000 \<or> len < 0 then Inr (-1, v\<lparr>sock_closed := True\<rparr>)
              else need (4 \<le> len) Out_of_bounds
                (andthen (recv_loop (nat len - 4) [] (incoming v)) (\<lambda>(body, evs).
                   let v = v\<lparr>incoming := evs\<rparr>
                   in case body of
                     None \<Rightarrow> Inr (-1, v\<lparr>sock_closed := True\<rparr>)
                   | Some b \<Rightarrow>
                       need (8 \<le> len) Out_of_bounds
                         (let buf = h @ b; command = ntohl (ld32 4 buf)
                          in if expected_cmd \<noteq> 0 \<and> command \<noteq> expected_cmd \<and> command \<noteq> VNSCLOSE
                             then Inr (-1, v)
                             else vns_command depth os v command buf))))"

definition sr_read_from_server :: "nat \<Rightarrow> os \<Rightarrow> vns \<Rightarrow> fault + int \<times> vns" where
  "sr_read_from_server depth os v = sr_read_from_server_expect depth os v 0"

section \<open>Start-up\<close>

definition c_open_msg :: "sr_instance \<Rightarrow> byte list" where
  "c_open_msg sr = bytes32 (htonl 108) @ bytes32 (htonl VNSOPEN) @ bytes16 (htons (topo_id sr)) @ [0, 0] @
     strncpy IDSIZE (sr_host sr) @ strncpy IDSIZE (sr_user sr) @ replicate IDSIZE 0"

definition c_open_template_msg :: "sr_instance \<Rightarrow> byte list" where
  "c_open_template_msg sr = bytes32 (htonl 70) @ bytes32 (htonl VNS_OPEN_TEMPLATE) @
     strncpy 30 (sr_template sr) @ strncpy IDSIZE (sr_host sr)"

text \<open>
  \<^verbatim>\<open>sr_connect_to_server\<close>; \<open>reached\<close> says whether the host name is resolved, the socket
  created and the connection accepted.
\<close>

definition sr_connect_to_server :: "nat \<Rightarrow> os \<Rightarrow> bool \<Rightarrow> vns \<Rightarrow> fault + int \<times> vns" where
  "sr_connect_to_server depth os reached v =
     (if \<not> reached then Inr (-1, v)
      else andthen (sr_read_from_server_expect depth os v VNS_AUTH_REQUEST) (\<lambda>(r, v).
        if r \<noteq> 1 then Inr (-1, v)
        else andthen (sr_read_from_server_expect depth os v VNS_AUTH_STATUS) (\<lambda>(r, v).
          if r \<noteq> 1 then Inr (-1, v)
          else
            let sr = router v;
                template = cstr (sr_template sr) \<noteq> [];
                buf = (if template then c_open_template_msg sr else c_open_msg sr);
                n = write_ret os buf;
                v = v\<lparr>router := sr\<lparr>wire := wire sr @ [take (nat n) buf]\<rparr>\<rparr>
            in if n \<noteq> int (length buf) then Inr (-1, v)
               else if template then
                 andthen (sr_read_from_server_expect depth os v VNS_RTABLE) (\<lambda>(r, v).
                   Inr (if r \<noteq> 1 then -1 else 0, v))
               else Inr (0, v))))"

section \<open>Reassembly\<close>

text \<open>The bytes that can be read before a call fails, however they are cut into segments.\<close>

fun stream :: "recv_event list \<Rightarrow> byte list" where
  "stream [] = []"
| "stream (Segment bs # evs) = bs @ stream evs"
| "stream (Interrupted # evs) = stream evs"
| "stream (Failed # evs) = []"

lemma recv_loop_stream:
  "length acc \<le> n \<Longrightarrow> n \<le> length acc + length (stream evs) \<Longrightarrow>
    \<exists>evs'. recv_loop n acc evs = Inr (Some (acc @ take (n - length acc) (stream evs)), evs') \<and>
      stream evs' = drop (n - length acc) (stream evs)"
proof (induction n acc evs rule: recv_loop.induct)
  case (2 n acc e evs)
  show ?case
  proof (cases "n \<le> length acc")
    case True
    with "2.prems" show ?thesis by simp
  next
    case False
    show ?thesis
    proof (cases e)
      case (Segment bs)
      with False "2.prems" "2.IH"(1) [OF False Segment refl] show ?thesis
        by (cases "n - length acc < length bs") (auto simp: Let_def)
    qed (use False "2.prems" "2.IH"(2) in auto)
  qed
qed auto

lemma recv_loop_hangs:
  "Failed \<notin> set evs \<Longrightarrow> length acc + length (stream evs) < n \<Longrightarrow> recv_loop n acc evs = Inl Diverges"
  by (induction n acc evs rule: recv_loop.induct) (auto simp: Let_def split: recv_event.split)

text \<open>One complete command at the front of the stream.\<close>

lemma read_command:
  assumes "stream (incoming v) = msg @ rest" and "8 \<le> length msg" and "length msg \<le> 10000"
    and "ntohl (ld32 0 msg) = word_of_nat (length msg)"
  shows "\<exists>evs. stream evs = rest \<and> sr_read_from_server_expect depth os v cmd =
    (if cmd \<noteq> 0 \<and> ntohl (ld32 4 msg) \<noteq> cmd \<and> ntohl (ld32 4 msg) \<noteq> VNSCLOSE then Inr (-1, v\<lparr>incoming := evs\<rparr>)
     else vns_command depth os (v\<lparr>incoming := evs\<rparr>) (ntohl (ld32 4 msg)) msg)"
proof -
  obtain evs1 where 1: "recv_loop 4 [] (incoming v) = Inr (Some (take 4 msg), evs1)"
    "stream evs1 = drop 4 msg @ rest"
    using recv_loop_stream [of "[]" 4 "incoming v"] assms(1,2) by auto
  obtain evs2 where 2: "recv_loop (length msg - 4) [] evs1 = Inr (Some (drop 4 msg), evs2)"
    "stream evs2 = rest"
    using recv_loop_stream [of "[]" "length msg - 4" evs1] 1(2) assms(2) by (auto simp: diff_le_mono)
  have "le32 (take 4 msg) = ld32 0 msg" by (simp add: rd_def)
  moreover have "sint (word_of_nat (length msg) :: uint32) = int (length msg)"
    using assms(3) by (simp add: signed_of_nat signed_take_bit_int_eq_self)
  ultimately have len: "sint (ntohl (le32 (take 4 msg))) = int (length msg)"
    using assms(4) by simp
  show ?thesis
    using assms(2,3) 1 2 by (intro exI [of _ evs2]) (simp add: sr_read_from_server_expect_def len)
qed

section \<open>Properties\<close>

text \<open>
  A frame the server sends in a VNSPACKET message, cut into segments in any way and with
  any number of interrupted calls, reaches \<^verbatim>\<open>sr_handlepacket\<close> byte for byte (and the dump
  file first), and exactly the bytes of that message are consumed. The message has the
  layout that \<^verbatim>\<open>sr_send_packet\<close> itself writes.
\<close>

theorem vns_packet_delivered:
  assumes "stream (incoming v) = vns_packet_msg frame nm @ rest" and "length frame \<le> 9976"
    and "sr_arp_req_not_for_us (router v) frame (strncpy 16 nm @ frame) = Inr False"
  shows "\<exists>evs. stream evs = rest \<and> sr_read_from_server depth os v =
    andthen (sr_handlepacket depth os (sr_log_packet os (router v) frame) frame (strncpy 16 nm @ frame))
      (\<lambda>sr. Inr (1, v\<lparr>incoming := evs, router := sr\<rparr>))"
proof -
  have "drop 8 (vns_packet_msg frame nm) = strncpy 16 nm @ frame"
    by (simp add: vns_packet_msg_def)
  then show ?thesis
    using read_command [OF assms(1), of depth os 0] assms(2,3)
    by (auto simp: sr_read_from_server_def vns_packet_msg_fields vns_command_def)
qed

definition demo_vns :: "recv_event list \<Rightarrow> vns" where
  "demo_vns evs = \<lparr>router = demo_sr, incoming = evs, auth_key = Some (replicate 64 107), can_create = True,
     created = [], sock_closed = False\<rparr>"

theorem vns_packet_delivered_witness:
  "\<exists>evs. stream evs = [9] \<and>
     sr_read_from_server 1 demo_os (demo_vns [Segment (take 10 (vns_packet_msg demo_packet (if_name eth1))),
       Interrupted, Segment (drop 10 (vns_packet_msg demo_packet (if_name eth1)) @ [9])]) =
     andthen (sr_handlepacket 1 demo_os demo_sr demo_packet (strncpy 16 (if_name eth1) @ demo_packet))
       (\<lambda>sr. Inr (1, (demo_vns evs)\<lparr>router := sr\<rparr>))"
proof -
  have "sr_get_interface (if_list demo_sr) (strncpy 16 (if_name eth1) @ demo_packet) = Some eth1"
    by (simp add: sr_get_interface_def sr_IFACE_NAMELEN_def strncmp_eq_iff demo_defs cstr_def strncpy_def)
  moreover have "ld16 ether_type demo_packet \<noteq> htons ethertype_arp"
    by (simp add: header_defs demo_packet_def rd_def htons_def le16_def bytes16_def)
  ultimately have "sr_arp_req_not_for_us demo_sr demo_packet (strncpy 16 (if_name eth1) @ demo_packet) = Inr False"
    by (simp add: sr_arp_req_not_for_us_def)
  moreover have "sr_log_packet demo_os demo_sr demo_packet = demo_sr"
    by (simp add: sr_log_packet_def demo_sr_def)
  ultimately show ?thesis
    using vns_packet_delivered [of "demo_vns [Segment (take 10 (vns_packet_msg demo_packet (if_name eth1))),
       Interrupted, Segment (drop 10 (vns_packet_msg demo_packet (if_name eth1)) @ [9])]" demo_packet "if_name eth1" "[9]" 1 demo_os]
    by (simp add: demo_vns_def demo_packet_fields)
qed

text \<open>
  When the server closes the connection before the first four bytes of a command have
  arrived, the read never returns: the loop does not treat the result 0 of \<^verbatim>\<open>recv\<close> as the
  end of the session.
\<close>

theorem closed_connection_hangs:
  assumes "Failed \<notin> set (incoming v)" and "length (stream (incoming v)) < 4"
  shows "sr_read_from_server depth os v = Inl Diverges"
  using recv_loop_hangs [OF assms(1), of "[]" 4] assms(2)
  by (simp add: sr_read_from_server_def sr_read_from_server_expect_def)

theorem closed_connection_hangs_witness:
  "sr_read_from_server 1 demo_os (demo_vns [Segment [0, 0]]) = Inl Diverges"
  by (rule closed_connection_hangs) (simp_all add: demo_vns_def)

section \<open>Hardware information\<close>

text \<open>The entries with which the server describes one interface.\<close>

definition hw_entry :: "uint32 \<Rightarrow> byte list \<Rightarrow> byte list" where
  "hw_entry key val = bytes32 (htonl key) @ val @ replicate (32 - length val) 0"

definition hw_entries :: "sr_if \<Rightarrow> byte list" where
  "hw_entries i = hw_entry HWINTERFACE (strncpy 32 (if_name i)) @ hw_entry HWETHER (if_addr i) @
     hw_entry HWETHIP (bytes32 (if_ip i))"

lemma length_hw_entry [simp]: "length val \<le> 32 \<Longrightarrow> length (hw_entry key val) = 36"
  by (simp add: hw_entry_def)

lemma hwinfo_entry:
  assumes "length pre = 8 + 36 * i" and "length val \<le> 32"
  shows "ntohl (ld32 (8 + 36 * i) (pre @ hw_entry key val @ post)) = key"
    and "take (length val) (drop (8 + 36 * i + 4) (pre @ hw_entry key val @ post)) = val"
  using assms by (simp_all add: rd_def hw_entry_def)

definition hw_if :: "os \<Rightarrow> sr_if \<Rightarrow> sr_if" where
  "hw_if os i = (fresh_if os)\<lparr>if_name := strncpy 32 (if_name i), if_addr := if_addr i, if_ip := if_ip i\<rparr>"

lemma strncpy_prefix: "length s = n \<Longrightarrow> strncpy n (s @ t) = strncpy n s"
proof -
  assume n: "length s = n"
  have "take n (takeWhile P (s @ t)) = take n (takeWhile P s)" for P
  proof (cases "\<forall>x \<in> set s. P x")
    case True
    then have tw: "takeWhile P s = s" by (simp add: takeWhile_eq_all_conv)
    with True n show ?thesis by (simp add: takeWhile_append2 tw)
  next
    case False
    then show ?thesis by (auto simp: takeWhile_append1)
  qed
  then show ?thesis by (simp add: strncpy_def cstr_def)
qed

lemma strncpy_take: "take n s = u \<Longrightarrow> length u = n \<Longrightarrow> strncpy n s = strncpy n u"
  by (metis append_take_drop_id strncpy_prefix)

lemma strncpy_idem: "strncpy n (strncpy n s) = strncpy n s"
  by (simp add: strncpy_def [of n "strncpy n s"] cstr_strncpy) (simp add: strncpy_def)

lemma hwinfo_step:
  assumes "length pre = 8 + 36 * i" and "length val \<le> 32"
  shows "hwinfo_loop os (pre @ hw_entry key val @ post) i (Suc left) ifs =
    andthen (hw_apply os key (val @ replicate (32 - length val) 0 @ post) ifs)
      (hwinfo_loop os (pre @ hw_entry key val @ post) (Suc i) left)"
proof -
  have "drop (8 + 36 * i + 4) (pre @ hw_entry key val @ post) = val @ replicate (32 - length val) 0 @ post"
    using assms by (simp add: hw_entry_def)
  then show ?thesis
    unfolding hwinfo_loop.simps hwinfo_entry(1) [OF assms] by (simp only:)
qed

lemma hw_apply_entry:
  "hw_apply os HWINTERFACE (strncpy 32 nm @ post) ifs = Inr (ifs @ [(fresh_if os)\<lparr>if_name := strncpy 32 nm\<rparr>])"
  "length mac = 6 \<Longrightarrow> hw_apply os HWETHER (mac @ post) (ifs @ [x]) = Inr (ifs @ [x\<lparr>if_addr := mac\<rparr>])"
  "hw_apply os HWETHIP (bytes32 ip @ post) (ifs @ [x]) = Inr (ifs @ [x\<lparr>if_ip := ip\<rparr>])"
  by (simp_all add: hw_apply_def sr_add_interface_def sr_set_ether_addr_def sr_set_ether_ip_def
      sr_IFACE_NAMELEN_def strncpy_prefix strncpy_idem rd_def HWINTERFACE_def HWETHER_def HWETHIP_def)

lemma hwinfo_one:
  assumes "length pre = 8 + 36 * k" and "length (if_addr i) = 6"
  shows "hwinfo_loop os (pre @ hw_entries i @ post) k (Suc (Suc (Suc left))) ifs =
    hwinfo_loop os (pre @ hw_entries i @ post) (Suc (Suc (Suc k))) left (ifs @ [hw_if os i])"
proof -
  let ?a = "hw_entry HWINTERFACE (strncpy 32 (if_name i))"
  let ?b = "hw_entry HWETHER (if_addr i)"
  let ?c = "hw_entry HWETHIP (bytes32 (if_ip i))"
  have "length (pre @ ?a) = 8 + 36 * Suc k" "length (pre @ ?a @ ?b) = 8 + 36 * Suc (Suc k)"
    using assms by simp_all
  note step = hwinfo_step [OF assms(1), of "strncpy 32 (if_name i)" os HWINTERFACE "?b @ ?c @ post"]
    hwinfo_step [OF this(1), of "if_addr i" os HWETHER "?c @ post"]
    hwinfo_step [OF this(2), of "bytes32 (if_ip i)" os HWETHIP post]
  show ?thesis
    using step assms(2)
    by (simp add: hw_entries_def hw_if_def hw_apply_entry del: hwinfo_loop.simps)
qed

lemma length_hw_entries [simp]: "length (if_addr i) = 6 \<Longrightarrow> length (hw_entries i) = 108"
  by (simp add: hw_entries_def)

lemma hwinfo_all:
  "length pre = 8 + 36 * k \<Longrightarrow> \<forall>i \<in> set hws. length (if_addr i) = 6 \<Longrightarrow>
    hwinfo_loop os (pre @ concat (map hw_entries hws)) k (3 * length hws) ifs =
    Inr (ifs @ map (hw_if os) hws)"
proof (induction hws arbitrary: pre k ifs)
  case (Cons i hws)
  have len: "length (pre @ hw_entries i) = 8 + 36 * Suc (Suc (Suc k))"
    using Cons.prems by simp
  have "hwinfo_loop os (pre @ concat (map hw_entries (i # hws))) k (3 * length (i # hws)) ifs =
      hwinfo_loop os (pre @ hw_entries i @ concat (map hw_entries hws)) k
        (Suc (Suc (Suc (3 * length hws)))) ifs"
    by (simp add: numeral_3_eq_3 del: hwinfo_loop.simps)
  also have "\<dots> = hwinfo_loop os ((pre @ hw_entries i) @ concat (map hw_entries hws))
      (Suc (Suc (Suc k))) (3 * length hws) (ifs @ [hw_if os i])"
    using Cons.prems by (simp add: hwinfo_one del: hwinfo_loop.simps)
  also have "\<dots> = Inr (ifs @ map (hw_if os) (i # hws))"
    using Cons.IH [OF len] Cons.prems(2) by simp
  finally show ?case .
qed simp

definition hwinfo_msg :: "sr_if list \<Rightarrow> byte list" where
  "hwinfo_msg hws = bytes32 (htonl (word_of_nat (8 + 108 * length hws))) @ bytes32 (htonl VNSHWINFO) @
     concat (map hw_entries hws)"

lemma handle_hwinfo_msg:
  assumes "\<forall>i \<in> set hws. length (if_addr i) = 6" and "length hws < 92"
  shows "sr_handle_hwinfo os sr (hwinfo_msg hws) =
    Inr (int (3 * length hws), sr\<lparr>if_list := if_list sr @ map (hw_if os) hws\<rparr>)"
proof -
  let ?n = "8 + 108 * length hws"
  have "unat (ntohl (ld32 0 (hwinfo_msg hws))) = ?n"
    using assms(2) by (simp add: hwinfo_msg_def buffer_simps rd_whole del: of_nat_add of_nat_mult
        of_nat_numeral) (rule unat_word_of_nat32, simp)
  moreover have "(?n - 8) div 36 = 3 * length hws" by simp
  ultimately show ?thesis
    using hwinfo_all [of "bytes32 (htonl (word_of_nat ?n)) @ bytes32 (htonl VNSHWINFO)" 0 hws os "if_list sr"] assms(1)
    by (simp add: sr_handle_hwinfo_def hwinfo_msg_def)
qed

lemma hw_if_wf:
  assumes "ifs_wf hws"
  shows "ifs_wf (map (hw_if os) hws)"
proof -
  have names: "map (\<lambda>i. take 32 (cstr (if_name i))) (map (hw_if os) hws) = map (\<lambda>i. take 32 (cstr (if_name i))) hws"
    by (simp add: hw_if_def cstr_strncpy)
  show ?thesis
    using assms unfolding ifs_wf_def names by (simp add: hw_if_def)
qed

text \<open>
  A hardware description of fewer than 92 interfaces, sent as one VNSHWINFO command, gives
  a router without interfaces exactly these interfaces, in order, with their names (cut to
  32 bytes), hardware and IP addresses, fit for sending (\<open>ifs_wf\<close>) if the names differ; and
  the session goes on exactly if every route names one of them.
\<close>

theorem hwinfo_sets_interfaces:
  assumes "stream (incoming v) = hwinfo_msg hws @ rest" and "ifs_wf hws" and "hws \<noteq> []" and "length hws < 92"
    and "if_list (router v) = []" and "routing_table (router v) \<noteq> []"
  shows "\<exists>evs sr r. sr_read_from_server depth os v = Inr (r, v\<lparr>incoming := evs, router := sr\<rparr>) \<and>
    stream evs = rest \<and> sr = (router v)\<lparr>if_list := map (hw_if os) hws\<rparr> \<and> ifs_wf (if_list sr) \<and>
    (r = 1 \<longleftrightarrow> (\<forall>x \<in> set (routing_table sr). sr_get_interface (if_list sr) (rt_interface x) \<noteq> None)) \<and>
    (r \<noteq> 1 \<longrightarrow> r = -1)"
proof -
  have mac: "\<forall>i \<in> set hws. length (if_addr i) = 6" using assms(2) by (simp add: ifs_wf_def)
  have "length (concat (map hw_entries hws)) = 108 * length hws"
    using mac by (induction hws) auto
  then have len: "length (hwinfo_msg hws) = 8 + 108 * length hws"
    by (simp add: hwinfo_msg_def)
  moreover have "ntohl (ld32 0 (hwinfo_msg hws)) = word_of_nat (length (hwinfo_msg hws))"
    unfolding len by (simp add: hwinfo_msg_def buffer_simps rd_whole)
  ultimately obtain evs where evs: "stream evs = rest" "sr_read_from_server depth os v =
      vns_command depth os (v\<lparr>incoming := evs\<rparr>) (ntohl (ld32 4 (hwinfo_msg hws))) (hwinfo_msg hws)"
    using read_command [OF assms(1), of depth os 0] assms(4) by (auto simp: sr_read_from_server_def)
  have "ntohl (ld32 4 (hwinfo_msg hws)) = VNSHWINFO"
    by (simp add: hwinfo_msg_def buffer_simps rd_whole)
  then show ?thesis
    using evs handle_hwinfo_msg [OF mac assms(4), of os "router v"] assms(3,5,6) hw_if_wf [OF assms(2), of os]
    by (intro exI [of _ evs])
      (auto simp: vns_command_def vns_commands sr_verify_routing_table_def count_missing_zero)
qed

theorem hwinfo_sets_interfaces_witness:
  "\<exists>evs sr. sr_read_from_server 1 demo_os ((demo_vns [Segment (hwinfo_msg [eth1, eth2])])\<lparr>router := demo_sr\<lparr>if_list := []\<rparr>\<rparr>) =
       Inr (1, (demo_vns evs)\<lparr>router := sr\<rparr>) \<and> map if_ip (if_list sr) = [if_ip eth1, if_ip eth2]"
proof -
  let ?v = "(demo_vns [Segment (hwinfo_msg [eth1, eth2])])\<lparr>router := demo_sr\<lparr>if_list := []\<rparr>\<rparr>"
  have "ifs_wf [eth1, eth2]" using demo_ifs_wf by (simp add: demo_sr_def)
  then obtain evs sr r where 1: "sr_read_from_server 1 demo_os ?v = Inr (r, ?v\<lparr>incoming := evs, router := sr\<rparr>)"
    "sr = (router ?v)\<lparr>if_list := map (hw_if demo_os) [eth1, eth2]\<rparr>"
    "r = 1 \<longleftrightarrow> (\<forall>x \<in> set (routing_table sr). sr_get_interface (if_list sr) (rt_interface x) \<noteq> None)"
    using hwinfo_sets_interfaces [of ?v "[eth1, eth2]" "[]" 1 demo_os]
    by (auto simp: demo_vns_def demo_sr_def demo_rt_def)
  have "r = 1"
    unfolding 1(3) 1(2)
    by (simp add: demo_vns_def demo_sr_def demo_rt_def hw_if_def eth1_def eth2_def sr_get_interface_def
        sr_IFACE_NAMELEN_def strncmp_eq_iff cstr_strncpy)
  with 1 show ?thesis
    by (intro exI [of _ evs] exI [of _ sr]) (simp add: demo_vns_def hw_if_def)
qed

section \<open>Authentication\<close>

text \<open>
  The reply to an authentication request carries the user name and the SHA-1 digest of the
  salt followed by the 64-byte key of the file \<^verbatim>\<open>auth_key\<close>, in network byte order, and is
  the only message written.
\<close>

theorem auth_reply_sent:
  assumes "write_all os" and "auth_key v = Some (key @ rest)" and "length key = 64" and "10 \<notin> set key"
    and "length req \<le> 10000" and "0 \<in> set (sr_user (router v))"
  shows "sr_handle_auth_request os v req = Inr (1, v\<lparr>router := (router v)\<lparr>wire := wire (router v) @
    [auth_reply_msg (sr_user (router v)) (vars_list (sha1 (drop 8 req @ key)))]\<rparr>\<rparr>)"
proof -
  have "takeWhile (\<lambda>c. c \<noteq> 10) (key @ rest) = key @ takeWhile (\<lambda>c. c \<noteq> 10) rest"
    using assms(4) by (intro takeWhile_append2) auto
  moreover have "key @ rest \<noteq> []" using assms(3) by auto
  ultimately have line: "fgets 65 (key @ rest) = Some key"
    using assms(3) by (simp add: fgets_def)
  have buf: "take 64 (upd 0 (key @ [0]) (malloc os 65)) = key"
    using assms(3) by (simp add: upd_def)
  have "length (Message_Block (stack_context os)) = 64" by (simp add: stack_context_def)
  moreover have "8 * (length (drop 8 req) + length key) < 2 ^ 64" using assms(3,5) by simp
  ultimately obtain c where
    "SHA1Result (SHA1Input (SHA1Input (SHA1Reset (stack_context os)) (drop 8 req)) key) = (True, c)"
    "Message_Digest c = vars_list (sha1 (drop 8 req @ key))"
    using SHA1_two_inputs by blast
  with assms(1,2,6) line buf show ?thesis
    by (simp add: sr_handle_auth_request_def AUTH_KEY_LEN_def Let_def write_all_def)
qed

theorem auth_reply_sent_witness:
  "\<exists>m. sr_handle_auth_request demo_os (demo_vns []) (replicate 8 0 @ [1, 2, 3]) =
     Inr (1, (demo_vns [])\<lparr>router := demo_sr\<lparr>wire := [m]\<rparr>\<rparr>)"
proof -
  have "0 \<in> set (sr_user demo_sr)"
    by (simp add: demo_sr_def strncpy_def cstr_def)
  moreover have "wire demo_sr = []"
    by (simp add: demo_sr_def)
  ultimately show ?thesis
    using auth_reply_sent [OF demo_write_all, of "demo_vns []" "replicate 64 107" "[]" "replicate 8 0 @ [1, 2, 3]"]
    by (simp add: demo_vns_def) blast
qed

end
