(* ===== verification/Vns_Messages.thy ===== *)
theory Vns_Messages
  imports Sr_Vns_Server
begin

text \<open>
  The messages between the router and the VNS server (\<^verbatim>\<open>vnscommand.h\<close>) as values, with their layout: what the
  router sends is the layout of such a message, and its treatment of received bytes is a
  treatment of messages.
\<close>

section \<open>Messages\<close>

text \<open>
  One constructor for each structure, with the fields after the length and the type. Arrays of characters are
  kept with all their bytes; an array of size 0 at the end of a structure is what follows up to the length.
\<close>

datatype vns_message =
    c_open uint16 "byte list" "byte list" "byte list"
  | c_close "byte list"
  | c_banner "byte list"
  | c_packet "byte list" "byte list"
  | c_hwinfo "(uint32 \<times> byte list) list"
  | c_rtable "byte list" "byte list"
  | c_open_template "byte list" "byte list" "(uint32 \<times> byte) list"
  | c_auth_request "byte list"
  | c_auth_reply "byte list" "byte list"
  | c_auth_status byte "byte list"

fun mType :: "vns_message \<Rightarrow> uint32" where
  "mType (c_open _ _ _ _) = VNSOPEN"
| "mType (c_close _) = VNSCLOSE"
| "mType (c_banner _) = VNSBANNER"
| "mType (c_packet _ _) = VNSPACKET"
| "mType (c_hwinfo _) = VNSHWINFO"
| "mType (c_rtable _ _) = VNS_RTABLE"
| "mType (c_open_template _ _ _) = VNS_OPEN_TEMPLATE"
| "mType (c_auth_request _) = VNS_AUTH_REQUEST"
| "mType (c_auth_reply _ _) = VNS_AUTH_REPLY"
| "mType (c_auth_status _ _) = VNS_AUTH_STATUS"

text \<open>The layout of each structure after its length and type.\<close>

definition c_open_layout :: "uint16 \<Rightarrow> byte list \<Rightarrow> byte list \<Rightarrow> byte list \<Rightarrow> byte list" where
  "c_open_layout topo host uid pass = bytes16 (htons topo) @ [0, 0] @ host @ uid @ pass"

definition c_close_layout :: "byte list \<Rightarrow> byte list" where "c_close_layout msg = msg"

definition c_banner_layout :: "byte list \<Rightarrow> byte list" where "c_banner_layout msg = msg"

definition c_packet_layout :: "byte list \<Rightarrow> byte list \<Rightarrow> byte list" where "c_packet_layout nm frame = nm @ frame"

definition c_hw_entry_layout :: "uint32 \<times> byte list \<Rightarrow> byte list" where
  "c_hw_entry_layout e = (case e of (k, val) \<Rightarrow> bytes32 (htonl k) @ val)"

definition c_hwinfo_layout :: "(uint32 \<times> byte list) list \<Rightarrow> byte list" where
  "c_hwinfo_layout es = concat (map c_hw_entry_layout es)"

definition c_rtable_layout :: "byte list \<Rightarrow> byte list \<Rightarrow> byte list" where "c_rtable_layout host table = host @ table"

definition c_src_filter_layout :: "uint32 \<times> byte \<Rightarrow> byte list" where
  "c_src_filter_layout f = (case f of (ip, bits) \<Rightarrow> bytes32 ip @ [bits])"

definition c_open_template_layout :: "byte list \<Rightarrow> byte list \<Rightarrow> (uint32 \<times> byte) list \<Rightarrow> byte list" where
  "c_open_template_layout nm host fs = nm @ host @ concat (map c_src_filter_layout fs)"

definition c_auth_request_layout :: "byte list \<Rightarrow> byte list" where "c_auth_request_layout salt = salt"

definition c_auth_reply_layout :: "byte list \<Rightarrow> byte list \<Rightarrow> byte list" where
  "c_auth_reply_layout user digest = bytes32 (htonl (word_of_nat (length user))) @ user @ digest"

definition c_auth_status_layout :: "byte \<Rightarrow> byte list \<Rightarrow> byte list" where "c_auth_status_layout ok msg = ok # msg"

lemmas layout_defs [simp] = c_open_layout_def c_close_layout_def c_banner_layout_def c_packet_layout_def c_hwinfo_layout_def
  c_rtable_layout_def c_open_template_layout_def c_auth_request_layout_def c_auth_reply_layout_def c_auth_status_layout_def

lemma entry_layouts [simp]:
  "c_hw_entry_layout (k, val) = bytes32 (htonl k) @ val" "c_src_filter_layout (ip, bits) = bytes32 ip @ [bits]"
  by (simp_all add: c_hw_entry_layout_def c_src_filter_layout_def)

fun body :: "vns_message \<Rightarrow> byte list" where
  "body (c_open topo host uid pass) = c_open_layout topo host uid pass"
| "body (c_close msg) = c_close_layout msg"
| "body (c_banner msg) = c_banner_layout msg"
| "body (c_packet nm frame) = c_packet_layout nm frame"
| "body (c_hwinfo es) = c_hwinfo_layout es"
| "body (c_rtable host table) = c_rtable_layout host table"
| "body (c_open_template nm host fs) = c_open_template_layout nm host fs"
| "body (c_auth_request salt) = c_auth_request_layout salt"
| "body (c_auth_reply user digest) = c_auth_reply_layout user digest"
| "body (c_auth_status ok msg) = c_auth_status_layout ok msg"

text \<open>The sizes of the arrays; only a banner and an error message may be cut short.\<close>

fun sized :: "vns_message \<Rightarrow> bool" where
  "sized (c_open topo host uid pass) \<longleftrightarrow> length host = IDSIZE \<and> length uid = IDSIZE \<and> length pass = IDSIZE"
| "sized (c_close msg) \<longleftrightarrow> length msg \<le> 256"
| "sized (c_banner msg) \<longleftrightarrow> length msg \<le> 256"
| "sized (c_packet nm frame) \<longleftrightarrow> length nm = 16"
| "sized (c_hwinfo es) \<longleftrightarrow> length es \<le> 256 \<and> list_all (\<lambda>e. length (snd e) = 32) es"
| "sized (c_rtable host table) \<longleftrightarrow> length host = IDSIZE"
| "sized (c_open_template nm host fs) \<longleftrightarrow> length nm = 30 \<and> length host = IDSIZE"
| "sized (c_auth_request salt) \<longleftrightarrow> True"
| "sized (c_auth_reply user digest) \<longleftrightarrow> length digest = 20"
| "sized (c_auth_status ok msg) \<longleftrightarrow> True"

definition encode :: "vns_message \<Rightarrow> byte list" where
  "encode m = bytes32 (htonl (word_of_nat (8 + length (body m)))) @ bytes32 (htonl (mType m)) @ body m"

text \<open>Reading a message back.\<close>

fun hw_list :: "byte list \<Rightarrow> (uint32 \<times> byte list) list" where
  "hw_list b = (if length b < 36 then [] else (ntohl (ld32 0 b), rd 4 32 b) # hw_list (drop 36 b))"

fun filter_list :: "byte list \<Rightarrow> (uint32 \<times> byte) list" where
  "filter_list b = (if length b < 5 then [] else (ld32 0 b, b ! 4) # filter_list (drop 5 b))"

declare hw_list.simps [simp del] filter_list.simps [simp del]

definition decode_body :: "uint32 \<Rightarrow> byte list \<Rightarrow> vns_message option" where
  "decode_body ty b =
     (if ty = VNSOPEN then Some (c_open (ntohs (ld16 0 b)) (rd 4 32 b) (rd 36 32 b) (rd 68 32 b))
      else if ty = VNSCLOSE then Some (c_close b)
      else if ty = VNSPACKET then Some (c_packet (take 16 b) (drop 16 b))
      else if ty = VNSBANNER then Some (c_banner b)
      else if ty = VNSHWINFO then Some (c_hwinfo (hw_list b))
      else if ty = VNS_RTABLE then Some (c_rtable (take 32 b) (drop 32 b))
      else if ty = VNS_OPEN_TEMPLATE then Some (c_open_template (take 30 b) (rd 30 32 b) (filter_list (drop 62 b)))
      else if ty = VNS_AUTH_REQUEST then Some (c_auth_request b)
      else if ty = VNS_AUTH_REPLY then
        (let n = unat (ntohl (ld32 0 b)) in Some (c_auth_reply (rd 4 n b) (drop (4 + n) b)))
      else if ty = VNS_AUTH_STATUS then (case b of [] \<Rightarrow> None | ok # msg \<Rightarrow> Some (c_auth_status ok msg))
      else None)"

definition decode :: "byte list \<Rightarrow> vns_message option" where
  "decode buf =
     (if length buf < 8 \<or> ntohl (ld32 0 buf) \<noteq> word_of_nat (length buf) then None
      else decode_body (ntohl (ld32 4 buf)) (drop 8 buf))"

section \<open>Round trip\<close>

lemma length_encode [simp]: "length (encode m) = 8 + length (body m)"
  by (simp add: encode_def)

lemma encode_fields:
  "ntohl (ld32 0 (encode m)) = word_of_nat (length (encode m))" "ntohl (ld32 4 (encode m)) = mType m" "drop 8 (encode m) = body m"
  by (simp_all add: encode_def buffer_simps rd_whole)

lemma hw_list_body: "list_all (\<lambda>e. length (snd e) = 32) es \<Longrightarrow> hw_list (body (c_hwinfo es)) = es"
proof (induction es)
  case Nil
  then show ?case by (simp add: hw_list.simps)
next
  case (Cons e es)
  then show ?case by (cases e) (subst hw_list.simps, simp add: buffer_simps rd_whole)
qed

lemma filter_list_body: "filter_list (concat (map c_src_filter_layout fs)) = fs"
proof (induction fs)
  case Nil
  then show ?case by (simp add: filter_list.simps)
next
  case (Cons e fs)
  then show ?case by (cases e) (subst filter_list.simps, simp add: buffer_simps rd_whole nth_append)
qed

text \<open>
  Every message of the sizes of its structure is read back from its layout.
\<close>

theorem message_roundtrip:
  assumes "sized m" and "length (body m) < 10000"
  shows "decode (encode m) = Some m"
proof -
  have "decode_body (mType m) (body m) = Some m"
  proof (cases m)
    case (c_hwinfo es)
    then show ?thesis using assms(1) hw_list_body [of es] by (simp add: decode_body_def vns_commands)
  next
    case (c_open_template nm host fs)
    then show ?thesis using assms(1) by (simp add: decode_body_def vns_commands filter_list_body rd_def IDSIZE_def)
  next
    case (c_auth_reply user digest)
    then have "unat (word_of_nat (length user) :: uint32) = length user" using assms(2) by (intro unat_word_of_nat32) simp
    then show ?thesis using c_auth_reply by (simp add: decode_body_def vns_commands buffer_simps rd_whole Let_def)
  next
    case (c_open topo host uid pass)
    then show ?thesis
      using assms(1) by (simp add: decode_body_def vns_commands buffer_simps rd_whole IDSIZE_def) (simp add: rd_def)
  qed (use assms(1) in \<open>simp_all add: decode_body_def vns_commands IDSIZE_def\<close>)
  then show ?thesis by (simp add: decode_def encode_fields)
qed

theorem message_roundtrip_witness:
  "decode (encode (c_auth_reply [97, 98] (replicate 20 7))) = Some (c_auth_reply [97, 98] (replicate 20 7))"
  by (rule message_roundtrip) simp_all

section \<open>What the router sends\<close>

definition digest_bytes :: "uint32 list \<Rightarrow> byte list" where
  "digest_bytes ws = concat (map (\<lambda>w. bytes32 (htonl w)) ws)"

text \<open>The four kinds of messages the router builds have the layout of their structures.\<close>

lemma sent_layouts:
  "c_open_msg sr = encode (c_open (topo_id sr) (strncpy IDSIZE (sr_host sr)) (strncpy IDSIZE (sr_user sr)) (replicate IDSIZE 0))"
  "c_open_template_msg sr = encode (c_open_template (strncpy 30 (sr_template sr)) (strncpy IDSIZE (sr_host sr)) [])"
  "length ws = 5 \<Longrightarrow> auth_reply_msg user ws = encode (c_auth_reply (cstr user) (digest_bytes ws))"
  "vns_packet_msg frame iface = encode (c_packet (strncpy 16 iface) frame)"
proof -
  have five: "length (digest_bytes ws) = 4 * length ws" for ws
    unfolding digest_bytes_def by (induction ws) simp_all
  show "c_open_msg sr = encode (c_open (topo_id sr) (strncpy IDSIZE (sr_host sr)) (strncpy IDSIZE (sr_user sr)) (replicate IDSIZE 0))"
    by (simp add: c_open_msg_def encode_def IDSIZE_def)
  show "c_open_template_msg sr = encode (c_open_template (strncpy 30 (sr_template sr)) (strncpy IDSIZE (sr_host sr)) [])"
    by (simp add: c_open_template_msg_def encode_def IDSIZE_def)
  show "length ws = 5 \<Longrightarrow> auth_reply_msg user ws = encode (c_auth_reply (cstr user) (digest_bytes ws))"
    using five [of ws] by (simp add: auth_reply_msg_def encode_def Let_def SHA1_LEN_def digest_bytes_def)
  show "vns_packet_msg frame iface = encode (c_packet (strncpy 16 iface) frame)"
    by (simp add: vns_packet_msg_def encode_def add.commute)
qed

section \<open>What the router does with a message\<close>

fun apply_entries :: "os \<Rightarrow> (uint32 \<times> byte list) list \<Rightarrow> sr_if list \<Rightarrow> fault + sr_if list" where
  "apply_entries os [] ifs = Inr ifs"
| "apply_entries os ((k, val) # es) ifs = andthen (hw_apply os k val ifs) (apply_entries os es)"

text \<open>
  The session as a function of messages: the value and the new state for each kind of message, \<open>key\<close> being the
  key of the file \<^verbatim>\<open>auth_key\<close>. A name without a terminator goes on in what follows it.
\<close>

fun react :: "byte list \<Rightarrow> nat \<Rightarrow> os \<Rightarrow> vns \<Rightarrow> vns_message \<Rightarrow> fault + int \<times> vns" where
  "react key depth os v (c_packet nm frame) =
     andthen (sr_arp_req_not_for_us (router v) frame (nm @ frame)) (\<lambda>other.
       if other then Inr (1, v)
       else andthen (sr_handlepacket depth os (sr_log_packet os (router v) frame) frame (nm @ frame)) (\<lambda>sr.
         Inr (1, v\<lparr>router := sr\<rparr>)))"
| "react key depth os v (c_close msg) = Inr (0, v)"
| "react key depth os v (c_hwinfo es) =
     andthen (apply_entries os es (if_list (router v))) (\<lambda>ifs.
       Inr (if sr_verify_routing_table ifs (routing_table (router v)) \<noteq> 0 then -1 else 1,
         v\<lparr>router := (router v)\<lparr>if_list := ifs\<rparr>\<rparr>))"
| "react key depth os v (c_rtable host table) =
     need (length (cstr (host @ table)) \<le> IDSIZE) Out_of_bounds
       (if can_create v
        then Inr (1, v\<lparr>created := created v @ [([114, 116, 97, 98, 108, 101, 46] @ cstr (host @ table), table)]\<rparr>)
        else Inr (-1, v))"
| "react key depth os v (c_auth_request salt) =
     (let m = c_auth_reply (cstr (sr_user (router v))) (digest_bytes (vars_list (sha1 (salt @ key))))
      in Inr (1, v\<lparr>router := (router v)\<lparr>wire := wire (router v) @ [encode m]\<rparr>\<rparr>))"
| "react key depth os v (c_auth_status ok msg) = Inr (if ok = 0 then -1 else 1, v)"
| "react key depth os v m = Inr (1, v)"

lemma hw_apply_prefix: "length val = 32 \<Longrightarrow> hw_apply os k (val @ rest) ifs = hw_apply os k val ifs"
  by (simp add: hw_apply_def sr_add_interface_def sr_set_ether_addr_def sr_IFACE_NAMELEN_def strncpy_prefix buffer_simps)

lemma hwinfo_loop_entries:
  assumes "length pre = 8 + 36 * i" and "list_all (\<lambda>e. length (snd e) = 32) es"
  shows "hwinfo_loop os (pre @ body (c_hwinfo es)) i (length es) ifs = apply_entries os es ifs"
  using assms
proof (induction es arbitrary: pre i ifs)
  case (Cons e es)
  obtain k val where e: "e = (k, val)" by (cases e)
  have val: "length val = 32" using Cons.prems(2) e by simp
  let ?rest = "body (c_hwinfo es)" and ?e = "bytes32 (htonl k) @ val"
  have b: "pre @ body (c_hwinfo (e # es)) = (pre @ ?e) @ ?rest" by (simp add: e)
  have len: "length (pre @ ?e) = 8 + 36 * Suc i" using Cons.prems(1) val by simp
  have "ntohl (ld32 (8 + 36 * i) ((pre @ ?e) @ ?rest)) = k" "drop (8 + 36 * i + 4) ((pre @ ?e) @ ?rest) = val @ ?rest"
    using Cons.prems(1) by (simp_all add: rd_def)
  moreover have "hwinfo_loop os ((pre @ ?e) @ ?rest) (Suc i) (length es) = apply_entries os es"
    using Cons.IH [OF len] Cons.prems(2) by (intro ext) simp
  ultimately show ?case
    unfolding b using hw_apply_prefix [OF val, of os k ?rest] by (simp add: e del: body.simps append_assoc)
qed simp

lemma react_hwinfo:
  assumes "sized (c_hwinfo es)" and "length (encode (c_hwinfo es)) \<le> 10000"
  shows "vns_command depth os v VNSHWINFO (encode (c_hwinfo es)) = react key depth os v (c_hwinfo es)"
proof -
  have es: "list_all (\<lambda>e. length (snd e) = 32) es" using assms(1) by simp
  then have len: "length (body (c_hwinfo es)) = 36 * length es" by (induction es) auto
  have "unat (ntohl (ld32 0 (encode (c_hwinfo es)))) = 8 + 36 * length es"
    unfolding encode_fields(1) using assms(2) len by (simp only: length_encode) (rule unat_word_of_nat32, simp)
  moreover have "hwinfo_loop os (encode (c_hwinfo es)) 0 (length es) (if_list (router v)) = apply_entries os es (if_list (router v))"
    using hwinfo_loop_entries [of "take 8 (encode (c_hwinfo es))" 0 es os] es by (simp add: encode_def del: body.simps)
  ultimately have "sr_handle_hwinfo os (router v) (encode (c_hwinfo es)) =
      andthen (apply_entries os es (if_list (router v))) (\<lambda>ifs. Inr (int (length es), (router v)\<lparr>if_list := ifs\<rparr>))"
    by (simp add: sr_handle_hwinfo_def)
  then show ?thesis
    by (cases "apply_entries os es (if_list (router v))") (simp_all add: vns_command_def vns_commands)
qed

lemma react_auth:
  assumes "write_all os" and "auth_key v = Some (key @ file)" and "length key = 64" and "10 \<notin> set key"
    and "0 \<in> set (sr_user (router v))" and "length (encode (c_auth_request salt)) \<le> 10000"
  shows "vns_command depth os v VNS_AUTH_REQUEST (encode (c_auth_request salt)) = react key depth os v (c_auth_request salt)"
proof -
  have "length (vars_list x) = 5" for x by (cases x) (simp add: vars_list_def)
  then have "auth_reply_msg (sr_user (router v)) (vars_list (sha1 (salt @ key))) =
      encode (c_auth_reply (cstr (sr_user (router v))) (digest_bytes (vars_list (sha1 (salt @ key)))))"
    by (rule sent_layouts(3))
  moreover have "drop 8 (encode (c_auth_request salt)) = salt" using encode_fields(3) [of "c_auth_request salt"] by simp
  ultimately have "sr_handle_auth_request os v (encode (c_auth_request salt)) = react key depth os v (c_auth_request salt)"
    using auth_reply_sent [OF assms(1-4,6,5)] by (simp add: Let_def)
  then show ?thesis by (simp add: vns_command_def vns_commands Let_def)
qed

lemma command_interpreted:
  assumes "sized m" and "length (encode m) \<le> 10000" and "write_all os" and "auth_key v = Some (key @ file)" and "length key = 64"
    and "10 \<notin> set key" and "0 \<in> set (sr_user (router v))"
  shows "vns_command depth os v (mType m) (encode m) = react key depth os v m"
proof -
  note b = encode_fields(3) [of m]
  show ?thesis
  proof (cases m)
    case (c_packet nm frame)
    then have "drop 24 (encode m) = frame" using assms(1) b by (simp add: encode_def)
    with c_packet b show ?thesis using assms(1) by (simp add: vns_command_def vns_commands Let_def)
  next
    case (c_hwinfo es)
    then show ?thesis using react_hwinfo [of es depth os v key] assms(1,2) by simp
  next
    case (c_rtable host table)
    then have "drop (8 + IDSIZE) (encode m) = table" "8 + IDSIZE \<le> length (encode m)"
      using assms(1) by (simp_all add: encode_def IDSIZE_def)
    with c_rtable b show ?thesis by (auto simp: vns_command_def vns_commands sr_handle_rtable_def Let_def need_def)
  next
    case (c_auth_request salt)
    then show ?thesis using react_auth [OF assms(3-7)] assms(2) by simp
  next
    case (c_auth_status ok msg)
    then have "encode m ! 8 = ok" "9 \<le> length (encode m)" by (simp_all add: encode_def nth_append)
    with c_auth_status show ?thesis by (simp add: vns_command_def vns_commands sr_handle_auth_status_def unsigned_eq_0_iff)
  qed (simp_all add: vns_command_def vns_commands)
qed

section \<open>The session\<close>

text \<open>
  C15: The router understands the messages of the server. Let the next bytes of the stream be the layout of any message
  of \<^verbatim>\<open>vnscommand.h\<close> of at most 10000 bytes, cut into segments in any way and with interrupted calls. Then
  \<^verbatim>\<open>sr_read_from_server\<close> takes exactly these bytes and does what \<open>react\<close> says of that message, without regard to the
  layout: a frame goes to the handlers, the entries of a hardware description set up the interfaces, a routing table is stored
  under the name of the host, a request to authenticate is answered with the message that holds the user name and the digest of salt and key,
  and the session ends after a close or a failed authentication.
\<close>

theorem commands_interpreted:
  assumes "stream (incoming v) = encode m @ rest" and "sized m" and "length (encode m) \<le> 10000" and "write_all os"
    and "auth_key v = Some (key @ file)" and "length key = 64" and "10 \<notin> set key" and "0 \<in> set (sr_user (router v))"
  shows "\<exists>evs. stream evs = rest \<and> sr_read_from_server depth os v = react key depth os (v\<lparr>incoming := evs\<rparr>) m"
proof -
  obtain evs where evs: "stream evs = rest" "sr_read_from_server depth os v =
      vns_command depth os (v\<lparr>incoming := evs\<rparr>) (mType m) (encode m)"
    using read_command [OF assms(1) _ assms(3) encode_fields(1), of depth os 0] encode_fields(2) [of m]
    by (auto simp: sr_read_from_server_def)
  then show ?thesis
    using command_interpreted [OF assms(2-4), where v = "v\<lparr>incoming := evs\<rparr>"] assms(5-8) by auto
qed

theorem commands_interpreted_witness:
  "\<exists>evs m. sr_read_from_server 1 demo_os (demo_vns [Segment (take 3 (encode (c_auth_request [1, 2]))), Interrupted,
        Segment (drop 3 (encode (c_auth_request [1, 2])))]) =
      Inr (1, (demo_vns evs)\<lparr>router := demo_sr\<lparr>wire := [encode m]\<rparr>\<rparr>) \<and> mType m = VNS_AUTH_REPLY"
proof -
  let ?v = "demo_vns [Segment (take 3 (encode (c_auth_request [1, 2]))), Interrupted, Segment (drop 3 (encode (c_auth_request [1, 2])))]"
  have v: "stream (incoming ?v) = encode (c_auth_request [1, 2]) @ []" "auth_key ?v = Some (replicate 64 107 @ [])" "router ?v = demo_sr"
    by (simp_all add: demo_vns_def)
  have sr: "0 \<in> set (sr_user demo_sr)" "wire demo_sr = []" by (simp_all add: demo_sr_def strncpy_def cstr_def)
  obtain evs where "sr_read_from_server 1 demo_os ?v = react (replicate 64 107) 1 demo_os (?v\<lparr>incoming := evs\<rparr>) (c_auth_request [1, 2])"
    using commands_interpreted [OF v(1) _ _ demo_write_all v(2), of 1] sr(1) v(3) by auto
  then show ?thesis
    using sr(2) by (intro exI [of _ evs] exI [of _ "c_auth_reply (cstr (sr_user demo_sr)) (digest_bytes (vars_list (sha1 ([1, 2] @ replicate 64 107))))"])
      (simp add: demo_vns_def Let_def)
qed

end
