(* ===== verification/Sr_Outputs.thy ===== *)
theory Sr_Outputs
  imports Sr_Router_Correct
begin

text \<open>
  What a running router puts out: the messages it writes to the server's socket and the bytes of its
  dump file. The handlers of \<^verbatim>\<open>sr_router.c\<close> and \<^verbatim>\<open>sr_arpcache.c\<close> reach the outside only through
  \<^verbatim>\<open>sr_send_packet\<close>; everything else they do happens in the ARP cache. The locale states this contract
  for an arbitrary predicate on the router, and is interpreted on the shape of the messages and on the dump
  file.
\<close>

section \<open>The contract of the handlers\<close>

locale output_contract =
  fixes P :: "sr_instance \<Rightarrow> bool" and good_os :: "os \<Rightarrow> bool"
  assumes sends: "good_os os \<Longrightarrow> P sr \<Longrightarrow> P (send_frame os p i sr)"
    and caches: "P (sr\<lparr>cache := c\<rparr>) \<longleftrightarrow> P sr"
begin

lemma arp_request: "good_os os \<Longrightarrow> P sr \<Longrightarrow> P (sr_send_arp_request os sr ip)"
proof -
  have "good_os os \<Longrightarrow> P sr \<Longrightarrow> P (arp_request_loop os ip q ifs sr)" for q ifs
    by (induction ifs arbitrary: q sr) (simp_all add: Let_def sends)
  then show "good_os os \<Longrightarrow> P sr \<Longrightarrow> P (sr_send_arp_request os sr ip)"
    by (simp add: sr_send_arp_request_def Let_def)
qed

lemma icmp:
  assumes "send_icmp_with handle os sr dst q t c = Inr sr'" and "good_os os" "P sr"
    and "\<And>sr ptr sr'. P sr \<Longrightarrow> handle sr ptr = Inr sr' \<Longrightarrow> P sr'"
  shows "P sr'"
  using assms
  by (auto simp: send_icmp_with_def Let_def need_eq_Inr deref_eq_Inr sends caches
      split: option.splits prod.splits) (metis caches)+

lemma unreachable:
  assumes "unreachable_loop send ptr ps sr = Inr sr'" and "P sr"
    and "\<And>sr dst q sr'. P sr \<Longrightarrow> send sr dst q = Inr sr' \<Longrightarrow> P sr'"
  shows "P sr'"
  using assms(1,2)
  by (induction ps arbitrary: sr) (auto simp: need_eq_Inr andthen_eq_Inr intro: assms(3))

lemma arpreq: "good_os os \<Longrightarrow> P sr \<Longrightarrow> handle_arpreq depth os sr ptr = Inr sr' \<Longrightarrow> P sr'"
proof (induction depth arbitrary: sr ptr sr')
  case (Suc depth)
  have send: "P t" if "send_icmp_with (handle_arpreq depth os) os s dst q 3 1 = Inr t" "P s" for s dst q t
    using icmp [OF that(1) Suc.prems(1) that(2)] Suc.IH [OF Suc.prems(1)] by blast
  from Suc.prems(3) obtain r where r: "find (\<lambda>r. req_ptr r = ptr) (requests (cache sr)) = Some r"
    by (auto split: option.splits)
  show ?case
  proof (cases "now os - req_sent r > 1 \<and> req_times_sent r \<ge> 5")
    case True
    with Suc.prems(3) r obtain sr1 where
      "unreachable_loop (\<lambda>sr dst pkt. send_icmp_with (handle_arpreq depth os) os sr dst pkt 3 1)
         ptr (req_packets r) sr = Inr sr1" "sr' = sr1\<lparr>cache := sr_arpreq_destroy (cache sr1) ptr\<rparr>"
      by (auto simp: andthen_eq_Inr)
    then show ?thesis
      using unreachable [OF _ Suc.prems(2)] send by (auto simp: caches)
  next
    case False
    with Suc.prems r show ?thesis
      by (auto simp: Let_def caches arp_request split: if_splits)
  qed
qed simp

lemma send_icmp:
  "sr_send_icmp_packet depth os sr dst q t c = Inr sr' \<Longrightarrow> good_os os \<Longrightarrow> P sr \<Longrightarrow> P sr'"
  unfolding sr_send_icmp_packet_def by (rule icmp) (auto intro: arpreq)

lemma timeout:
  assumes "sr_arpcache_timeout depth os sr = Inr sr'" and "good_os os" "P sr"
  shows "P sr'"
proof -
  have "sweep_loop depth os ptrs s = Inr t \<Longrightarrow> P s \<Longrightarrow> P t" for ptrs s t
    by (induction ptrs arbitrary: s) (auto simp: andthen_eq_Inr intro: arpreq [OF assms(2)])
  with assms show ?thesis
    by (auto simp: sr_arpcache_timeout_def sr_arpcache_sweepreqs_def caches)
qed

lemma forwarding:
  assumes "ip_forwarding depth os sr p iface route = Inr sr'" and "good_os os" "P sr"
  shows "P sr'"
proof (cases "get_interface_from_ip (if_list sr) (ld32 ip_dst p)")
  case None
  with assms show ?thesis
    by (auto simp: ip_forwarding_def Let_def deref_eq_Inr sends caches intro: send_icmp arpreq [OF assms(2)]
        split: if_splits option.splits prod.splits) (metis caches arpreq)+
next
  case (Some i)
  with assms show ?thesis
    by (auto simp: ip_forwarding_def Let_def need_eq_Inr sr_echo_icmp_packet_def deref_eq_Inr sends
        intro: send_icmp split: if_splits)
qed

lemma arp_packet: "sr_handle_arp_packet os sr p = Inr sr' \<Longrightarrow> good_os os \<Longrightarrow> P sr \<Longrightarrow> P sr'"
  by (auto simp: sr_handle_arp_packet_def Let_def need_eq_Inr sends caches split: if_splits option.splits)

lemma handlepacket:
  assumes "sr_handlepacket depth os sr p iface = Inr sr'" and "good_os os" "P sr"
  shows "P sr'"
  using assms
  by (auto simp: sr_handlepacket_def sr_handle_ip_packet_def Let_def need_eq_Inr
      intro: arp_packet send_icmp forwarding split: if_splits)

end

section \<open>The messages written to the server\<close>

text \<open>
  The handlers add packet commands, each for a frame that leaves through an interface of the router and carries
  that interface's address as its source. \<open>w\<close> is what had been written before.
\<close>

definition packet_message :: "sr_if list \<Rightarrow> byte list \<Rightarrow> bool" where
  "packet_message ifs m \<longleftrightarrow> (\<exists>i \<in> set ifs.
     38 \<le> length m \<and> ntohl (ld32 0 m) = word_of_nat (length m) \<and> ntohl (ld32 4 m) = VNSPACKET \<and>
     strncmp_eq 16 (if_name i) (rd 8 16 m) \<and> rd ether_shost 6 (drop 24 m) = take 6 (if_addr i))"

definition wire_ok :: "byte list list \<Rightarrow> sr_if list \<Rightarrow> sr_instance \<Rightarrow> bool" where
  "wire_ok w ifs sr \<longleftrightarrow> if_list sr = ifs \<and> (\<exists>ms. wire sr = w @ ms \<and> list_all (packet_message ifs) ms)"

lemma strncmp_eq_right: "strncmp_eq n s (strncpy n t) \<longleftrightarrow> strncmp_eq n s t"
  by (simp add: strncmp_eq_iff cstr_strncpy)

lemma strncmp_eq_mono: "strncmp_eq n s t \<Longrightarrow> m \<le> n \<Longrightarrow> strncmp_eq m s t"
  unfolding strncmp_eq_iff by (metis min.absorb1 take_take)

lemma vns_packet_message:
  assumes "14 \<le> length buf" and "sr_ether_addrs_match_interface sr buf nm"
  shows "packet_message (if_list sr) (vns_packet_msg buf nm)"
proof -
  obtain i where i: "sr_get_interface (if_list sr) nm = Some i" "rd ether_shost 6 buf = take 6 (if_addr i)"
    using assms(2) by (auto simp: sr_ether_addrs_match_interface_def header_defs split: option.splits)
  then have "i \<in> set (if_list sr)" "strncmp_eq sr_IFACE_NAMELEN (if_name i) nm"
    using find_SomeD by (fastforce simp: sr_get_interface_def)+
  moreover from this(2) have "strncmp_eq 16 (if_name i) (strncpy 16 nm)"
    unfolding strncmp_eq_right by (rule strncmp_eq_mono) (simp add: sr_IFACE_NAMELEN_def)
  ultimately show ?thesis
    using i assms(1)
    by (auto simp: packet_message_def vns_packet_msg_fields vns_packet_msg_fields(1) [simplified] intro!: bexI [of _ i])
qed

interpretation wire_msgs: output_contract "wire_ok w ifs" write_all for w ifs
  by unfold_locales (auto simp: wire_ok_def send_frame_wire vns_packet_message)

section \<open>The dump file\<close>

text \<open>The record that \<^verbatim>\<open>sr_log_packet\<close> adds for a packet.\<close>

definition log_record :: "os \<Rightarrow> byte list \<Rightarrow> dump_record" where
  "log_record os buf =
     (\<lparr>sf_sec = word_of_int (now os), sf_usec = word_of_int (now_usec os),
       sf_caplen = word_of_nat (min 1024 (length buf)), sf_len = word_of_nat (min 1024 (length buf))\<rparr>, take 1024 buf)"

definition router_dump_header :: pcap_file_header where
  "router_dump_header = \<lparr>fh_magic = 0xa1b2c3d4, version_major = 2, version_minor = 4, thiszone = 0,
     sigfigs = 0, snaplen = 1024, linktype = 1\<rparr>"

lemma record_ok_log: "record_ok (log_record os buf)"
  by (simp add: record_ok_def log_record_def unat_word_of_nat32 min.commute)

lemma log_packet_appends:
  "logfile (sr_log_packet os sr buf) = map_option (\<lambda>f. f @ record_bytes (log_record os buf)) (logfile sr)"
proof -
  have "take (min 1024 (length buf)) buf = take 1024 buf"
    by (simp add: min_def)
  moreover have "min 1024 (length buf) < 4294967296"
    by simp
  ultimately show ?thesis
    by (auto simp: sr_log_packet_def sr_dump_record log_pkthdr_def Let_def log_record_def PACKET_DUMP_SIZE_def
        unat_word_of_nat32 split: option.split)
qed

text \<open>
  The dump file of a router, when it has one, is a header followed by complete records of at most 1024
  bytes.
\<close>

definition dump_ok :: "sr_instance \<Rightarrow> bool" where
  "dump_ok sr \<longleftrightarrow> (\<forall>f. logfile sr = Some f \<longrightarrow> (\<exists>rs. list_all record_ok rs \<and>
     list_all (\<lambda>r. length (snd r) \<le> 1024) rs \<and> f = file_header_bytes router_dump_header @ concat (map record_bytes rs)))"

lemma dump_ok_log: "dump_ok sr \<Longrightarrow> dump_ok (sr_log_packet os sr buf)"
proof (cases "logfile sr")
  case (Some f)
  assume "dump_ok sr"
  with Some obtain rs where "list_all record_ok rs" "list_all (\<lambda>r. length (snd r) \<le> 1024) rs"
    "f = file_header_bytes router_dump_header @ concat (map record_bytes rs)"
    by (auto simp: dump_ok_def)
  moreover have "length (snd (log_record os buf)) \<le> 1024"
    by (simp add: log_record_def)
  ultimately show ?thesis
    by (auto simp: dump_ok_def log_packet_appends Some record_ok_log intro!: exI [of _ "rs @ [log_record os buf]"])
qed (simp add: dump_ok_def log_packet_appends)

lemma dump_ok_updates [simp]:
  "dump_ok (sr\<lparr>cache := c\<rparr>) = dump_ok sr" "dump_ok (sr\<lparr>wire := w\<rparr>) = dump_ok sr"
  "dump_ok (sr\<lparr>if_list := i\<rparr>) = dump_ok sr" "dump_ok (sr\<lparr>routing_table := t\<rparr>) = dump_ok sr"
  by (simp_all add: dump_ok_def)

interpretation dump: output_contract dump_ok "\<lambda>_. True"
  by unfold_locales (auto simp: send_frame_def sr_send_packet_def Let_def dump_ok_log)

lemma dump_ok_read:
  assumes "dump_ok sr" and "logfile sr = Some f"
  shows "\<exists>rs. read_dump f = Some (router_dump_header, rs) \<and> (\<forall>r \<in> set rs. length (snd r) \<le> 1024)"
  using assms read_dump_bytes by (auto simp: dump_ok_def list_all_iff)

lemma log_all_appends:
  "logfile sr = Some f \<Longrightarrow> logfile (fold (\<lambda>(os, p) sr. sr_log_packet os sr p) ps sr) =
     Some (f @ concat (map (record_bytes \<circ> (\<lambda>(os, p). log_record os p)) ps))"
  by (induction ps arbitrary: sr f) (auto simp: log_packet_appends)

text \<open>
  C17: a dump file reads back as what was logged. A file opened for the router and then given any sequence of
  packets, by calls of \<^verbatim>\<open>sr_log_packet\<close> that do not overlap, is a valid pcap file: a reader finds version 2.4, Ethernet frames
  and a limit of 1024 bytes, and one record per packet, in order, with the time it was logged (cut to 32 bits) and its
  first 1024 bytes. The file is not the standard output.
\<close>

theorem dump_read_back:
  assumes "sr_dump_open can_write out fname 0 1024 = Some fp" and "cstr fname \<noteq> [45]" and "logfile sr = Some fp"
  shows "\<exists>f. logfile (fold (\<lambda>(os, p) sr. sr_log_packet os sr p) ps sr) = Some f \<and>
    read_dump f = Some (router_dump_header, map (\<lambda>(os, p). log_record os p) ps)"
proof -
  have "fp = file_header_bytes router_dump_header"
    using assms(1,2) by (auto simp: sr_dump_open_def sf_write_header_def router_dump_header_def TCPDUMP_MAGIC_def
        PCAP_VERSION_MAJOR_def PCAP_VERSION_MINOR_def LINKTYPE_ETHERNET_def split: if_splits)
  moreover have "list_all record_ok (map (\<lambda>(os, p). log_record os p) ps)"
    by (auto simp: list_all_iff record_ok_log)
  ultimately show ?thesis
    using log_all_appends [OF assms(3)] read_dump_bytes [of "map (\<lambda>(os, p). log_record os p) ps" router_dump_header]
    by simp
qed

definition demo_log :: dump_file where
  "demo_log = sf_write_header [] LINKTYPE_ETHERNET 0 1024"

theorem dump_read_back_witness:
  "\<exists>f. logfile (sr_log_packet demo_os (demo_sr\<lparr>logfile := Some demo_log\<rparr>) demo_arp) = Some f \<and>
    read_dump f = Some (router_dump_header, [log_record demo_os demo_arp])"
  using dump_read_back [of "\<lambda>_. True" "[]" "[108]" demo_log "demo_sr\<lparr>logfile := Some demo_log\<rparr>" "[(demo_os, demo_arp)]"]
  by (simp add: sr_dump_open_def demo_log_def cstr_def)

section \<open>Two threads at the dump file\<close>

text \<open>
  \<^verbatim>\<open>sr_dump\<close> calls \<^verbatim>\<open>fwrite\<close> twice and takes no lock, and both threads of the router reach it through
  \<^verbatim>\<open>sr_send_packet\<close>. The calls themselves are atomic, so two overlapping calls of \<^verbatim>\<open>sr_log_packet\<close>
  write an interleaving of their pieces.
\<close>

definition log_writes :: "os \<Rightarrow> byte list \<Rightarrow> byte list list" where
  "log_writes os buf = [sf_pkthdr_bytes (fst (log_record os buf)), snd (log_record os buf)]"

lemma log_packet_writes:
  "logfile (sr_log_packet os sr buf) = map_option (\<lambda>f. f @ concat (log_writes os buf)) (logfile sr)"
  by (simp add: log_packet_appends log_writes_def record_bytes_def)

text \<open>
  When both threads write their record headers before their packets, the file cannot be read any more.
\<close>

theorem overlapping_logs_unreadable:
  "\<exists>ws \<in> shuffles (log_writes demo_os [1]) (log_writes demo_os [2]).
     read_dump (file_header_bytes router_dump_header @ concat ws) = None"
proof -
  let ?h = "\<lambda>b. sf_pkthdr_bytes (fst (log_record demo_os [b]))"
  have "[?h 1, ?h 2, [1], [2]] \<in> shuffles (log_writes demo_os [1]) (log_writes demo_os [2])"
    by (simp add: log_writes_def log_record_def)
  moreover have "read_records (?h 1 @ ?h 2 @ [1] @ [2]) = None" by code_simp
  then have "read_dump (file_header_bytes router_dump_header @ concat [?h 1, ?h 2, [1], [2]]) = None"
    by (simp add: read_dump_def read_file_header_bytes)
  ultimately show ?thesis by blast
qed

end
