(* ===== verification/Sr_Utils.thy ===== *)
theory Sr_Utils
  imports Sr_Instance
begin

text \<open>
  What the router prints: the header printers of \<^verbatim>\<open>sr_utils.c\<close> and the listings of the routing table
  (\<^verbatim>\<open>sr_rt.c\<close>), of the interfaces (\<^verbatim>\<open>sr_if.c\<close>) and of the ARP cache (\<^verbatim>\<open>sr_arpcache.c\<close>). A printer returns
  the text it writes; one that reads a packet buffer returns \<open>Out_of_bounds\<close> when it would read behind its end. A
  buffer argument holds the bytes from the pointer on.
\<close>

section \<open>Addresses\<close>

definition ethertype :: "byte list \<Rightarrow> fault + uint16" where
  "ethertype buf = need (ether_type + 2 \<le> length buf) Out_of_bounds (Inr (ntohs (ld16 ether_type buf)))"

definition ip_protocol :: "byte list \<Rightarrow> fault + byte" where
  "ip_protocol buf =
     (let off = ip_p - sizeof_ethernet_hdr
      in need (off < length buf) Out_of_bounds (Inr (ld8 off buf)))"

text \<open>The loop over the six bytes of a hardware address, from position \<open>pos\<close> on.\<close>

fun print_addr_eth_loop :: "nat \<Rightarrow> nat \<Rightarrow> byte list \<Rightarrow> fault + byte list" where
  "print_addr_eth_loop 0 pos addr = Inr []"
| "print_addr_eth_loop (Suc left) pos addr =
     need (pos < length addr) Out_of_bounds
       (andthen (print_addr_eth_loop left (Suc pos) addr) (\<lambda>out.
          Inr ((if pos > 0 then ascii '':'' else []) @ hex2 (addr ! pos) @ out)))"

definition print_addr_eth :: "byte list \<Rightarrow> fault + byte list" where
  "print_addr_eth addr =
     andthen (print_addr_eth_loop ETHER_ADDR_LEN 0 addr) (\<lambda>out. Inr (out @ [10]))"

definition print_addr_ip_int :: "uint32 \<Rightarrow> byte list" where
  "print_addr_ip_int ip =
     decimal (unat (drop_bit 24 ip)) @ ascii ''.'' @
     decimal (unat (drop_bit 24 (push_bit 8 ip))) @ ascii ''.'' @
     decimal (unat (drop_bit 24 (push_bit 16 ip))) @ ascii ''.'' @
     decimal (unat (drop_bit 24 (push_bit 24 ip))) @ [10]"

definition INET_ADDRSTRLEN :: nat where
  "INET_ADDRSTRLEN = 16"

text \<open>The text is written into an array of \<open>INET_ADDRSTRLEN\<close> bytes although the call allows 100.\<close>

definition print_addr_ip :: "uint32 \<Rightarrow> fault + byte list" where
  "print_addr_ip address =
     (let buf = inet_ntoa address @ [0]
      in need (length buf \<le> INET_ADDRSTRLEN) Out_of_bounds (Inr (inet_ntoa address @ [10])))"

section \<open>Headers\<close>

definition print_hdr_eth :: "byte list \<Rightarrow> fault + byte list" where
  "print_hdr_eth buf =
     need (sizeof_ethernet_hdr \<le> length buf) Out_of_bounds
       (andthen (print_addr_eth (rd ether_dhost ETHER_ADDR_LEN buf)) (\<lambda>dhost.
        andthen (print_addr_eth (rd ether_shost ETHER_ADDR_LEN buf)) (\<lambda>shost.
          Inr (ascii ''ETHERNET header:'' @ [10, 9] @ ascii ''destination: '' @ dhost @
               [9] @ ascii ''source: '' @ shost @
               [9] @ ascii ''type: '' @ decimal (unat (ntohs (ld16 ether_type buf))) @ [10]))))"

definition IP_MF :: uint16 where "IP_MF = 0x2000"
definition IP_RF :: uint16 where "IP_RF = 0x8000"
definition IP_OFFMASK :: uint16 where "IP_OFFMASK = 0x1fff"

text \<open>A line \<^verbatim>\<open>\tlabel: number\<close>.\<close>

definition field_line :: "string \<Rightarrow> nat \<Rightarrow> byte list" where
  "field_line name v = [9] @ ascii name @ ascii '': '' @ decimal v @ [10]"

definition print_hdr_ip :: "byte list \<Rightarrow> fault + byte list" where
  "print_hdr_ip buf =
     need (sizeof_ip_hdr \<le> length buf) Out_of_bounds
       (let at = (\<lambda>f. f - sizeof_ethernet_hdr);
            off = ntohs (ld16 (at ip_off) buf)
        in Inr (ascii ''IP header:'' @ [10] @
             field_line ''version'' (unat (ld8 (at ip_v_hl) buf) div 16) @
             field_line ''header length'' (unat (ld8 (at ip_v_hl) buf) mod 16) @
             field_line ''type of service'' (unat (ld8 (at ip_tos) buf)) @
             field_line ''length'' (unat (ntohs (ld16 (at ip_len) buf))) @
             field_line ''id'' (unat (ntohs (ld16 (at ip_id) buf))) @
             (if off AND IP_DF \<noteq> 0 then [9] @ ascii ''fragment flag: DF'' @ [10]
              else if off AND IP_MF \<noteq> 0 then [9] @ ascii ''fragment flag: MF'' @ [10]
              else if off AND IP_RF \<noteq> 0 then [9] @ ascii ''fragment flag: R'' @ [10]
              else []) @
             field_line ''fragment offset'' (unat (off AND IP_OFFMASK)) @
             field_line ''TTL'' (unat (ld8 (at ip_ttl) buf)) @
             field_line ''protocol'' (unat (ld8 (at ip_p) buf)) @
             field_line ''checksum'' (unat (ld16 (at ip_sum) buf)) @
             [9] @ ascii ''source: '' @ print_addr_ip_int (ntohl (ld32 (at ip_src) buf)) @
             [9] @ ascii ''destination: '' @ print_addr_ip_int (ntohl (ld32 (at ip_dst) buf))))"

definition print_hdr_icmp :: "byte list \<Rightarrow> fault + byte list" where
  "print_hdr_icmp buf =
     need (4 \<le> length buf) Out_of_bounds
       (Inr (ascii ''ICMP header:'' @ [10] @ field_line ''type'' (unat (ld8 0 buf)) @
             field_line ''code'' (unat (ld8 1 buf)) @ field_line ''checksum'' (unat (ld16 2 buf))))"

definition print_hdr_arp :: "byte list \<Rightarrow> fault + byte list" where
  "print_hdr_arp buf =
     need (sizeof_arp_hdr \<le> length buf) Out_of_bounds
       (let at = (\<lambda>f. f - sizeof_ethernet_hdr)
        in andthen (print_addr_eth (rd (at ar_sha) ETHER_ADDR_LEN buf)) (\<lambda>sha.
           andthen (print_addr_eth (rd (at ar_tha) ETHER_ADDR_LEN buf)) (\<lambda>tha.
             Inr (ascii ''ARP header'' @ [10] @
               field_line ''hardware type'' (unat (ntohs (ld16 (at ar_hrd) buf))) @
               field_line ''protocol type'' (unat (ntohs (ld16 (at ar_pro) buf))) @
               field_line ''hardware address length'' (unat (ld8 (at ar_hln) buf)) @
               field_line ''protocol address length'' (unat (ld8 (at ar_pln) buf)) @
               field_line ''opcode'' (unat (ntohs (ld16 (at ar_op) buf))) @
               [9] @ ascii ''sender hardware address: '' @ sha @
               [9] @ ascii ''sender ip address: '' @ print_addr_ip_int (ntohl (ld32 (at ar_sip) buf)) @
               [9] @ ascii ''target hardware address: '' @ tha @
               [9] @ ascii ''target ip address: '' @ print_addr_ip_int (ntohl (ld32 (at ar_tip) buf))))))"

text \<open>\<open>len\<close> is the length argument, which a caller may choose larger than the buffer.\<close>

definition print_hdrs :: "byte list \<Rightarrow> nat \<Rightarrow> fault + byte list" where
  "print_hdrs buf len =
     (let minlength = sizeof_ethernet_hdr
      in if len < minlength then Inr (ascii ''Failed to print ETHERNET header, insufficient length'' @ [10])
         else
           andthen (ethertype buf) (\<lambda>ethtype.
           andthen (print_hdr_eth buf) (\<lambda>out.
             if ethtype = ethertype_ip then
               let minlength = minlength + sizeof_ip_hdr
               in if len < minlength then Inr (out @ ascii ''Failed to print IP header, insufficient length'' @ [10])
                  else
                    andthen (print_hdr_ip (drop sizeof_ethernet_hdr buf)) (\<lambda>ip_out.
                    andthen (ip_protocol (drop sizeof_ethernet_hdr buf)) (\<lambda>ip_proto.
                      if ip_proto = ip_protocol_icmp then
                        let minlength = minlength + sizeof_icmp_hdr
                        in if len < minlength
                           then Inr (out @ ip_out @ ascii ''Failed to print ICMP header, insufficient length'' @ [10])
                           else andthen (print_hdr_icmp (drop (sizeof_ethernet_hdr + sizeof_ip_hdr) buf)) (\<lambda>icmp_out.
                                  Inr (out @ ip_out @ icmp_out))
                      else Inr (out @ ip_out)))
             else if ethtype = ethertype_arp then
               let minlength = minlength + sizeof_arp_hdr
               in if len < minlength then Inr (out @ ascii ''Failed to print ARP header, insufficient length'' @ [10])
                  else andthen (print_hdr_arp (drop sizeof_ethernet_hdr buf)) (\<lambda>arp_out. Inr (out @ arp_out))
             else Inr (out @ ascii ''Unrecognized Ethernet Type: '' @ decimal (unat ethtype) @ [10]))))"

section \<open>Listings\<close>

definition sr_print_routing_entry :: "sr_rt \<Rightarrow> byte list" where
  "sr_print_routing_entry e =
     inet_ntoa (rt_dest e) @ [9, 9] @ inet_ntoa (rt_gw e) @ [9] @ inet_ntoa (rt_mask e) @ [9] @
     cstr (rt_interface e) @ [10]"

definition sr_print_routing_table :: "sr_rt list \<Rightarrow> byte list list" where
  "sr_print_routing_table rt =
     (if rt = [] then [ascii '' *warning* Routing table empty '' @ [10]]
      else (ascii ''Destination'' @ [9] @ ascii ''Gateway'' @ [9, 9] @ ascii ''Mask'' @ [9] @ ascii ''Iface'' @ [10])
        # map sr_print_routing_entry rt)"

text \<open>\<^verbatim>\<open>DebugMAC\<close> prints with lower-case digits.\<close>

definition hex2_lower :: "byte \<Rightarrow> byte list" where
  "hex2_lower b = map (\<lambda>n. word_of_nat (if n < 10 then 48 + n else 87 + n)) [unat b div 16, unat b mod 16]"

definition sr_print_if :: "sr_if \<Rightarrow> byte list list" where
  "sr_print_if i =
     (let a = if_addr i
      in [cstr (if_name i) @ [9] @ ascii ''HWaddr'' @ concat (map (\<lambda>k. hex2_lower (a ! k) @ [58]) [0..<5]) @
            hex2_lower (a ! 5) @ [10],
          [9] @ ascii ''inet addr '' @ inet_ntoa (if_ip i) @ [10]])"

definition sr_print_if_list :: "sr_if list \<Rightarrow> byte list list" where
  "sr_print_if_list ifs =
     (if ifs = [] then [ascii '' Interface list empty '' @ [10]] else concat (map sr_print_if ifs))"

section \<open>Printing within the buffer\<close>

lemma print_addr_eth_loop_ok:
  "pos + left \<le> length addr \<Longrightarrow> \<exists>out. print_addr_eth_loop left pos addr = Inr out"
proof (induction left arbitrary: pos)
  case (Suc left)
  from Suc.prems obtain out where "print_addr_eth_loop left (Suc pos) addr = Inr out"
    using Suc.IH [of "Suc pos"] by auto
  with Suc.prems show ?case by auto
qed auto

lemma print_addr_eth_ok:
  assumes "6 \<le> length addr"
  obtains out where "print_addr_eth addr = Inr out"
  using print_addr_eth_loop_ok [of 0 6 addr] assms by (auto simp: print_addr_eth_def ETHER_ADDR_LEN_def)

lemma print_hdr_eth_ok:
  assumes "14 \<le> length buf"
  obtains out where "print_hdr_eth buf = Inr out"
proof -
  have "6 \<le> length (rd ether_dhost ETHER_ADDR_LEN buf)" "6 \<le> length (rd ether_shost ETHER_ADDR_LEN buf)"
    using assms by (simp_all add: header_defs)
  then show thesis
    by (elim print_addr_eth_ok) (use assms that in \<open>auto simp: print_hdr_eth_def sizeof_ethernet_hdr_def\<close>)
qed

lemma print_hdr_arp_ok:
  assumes "28 \<le> length buf"
  obtains out where "print_hdr_arp buf = Inr out"
proof -
  have "6 \<le> length (rd (ar_sha - sizeof_ethernet_hdr) ETHER_ADDR_LEN buf)"
    "6 \<le> length (rd (ar_tha - sizeof_ethernet_hdr) ETHER_ADDR_LEN buf)"
    using assms by (simp_all add: header_defs)
  then show thesis
    by (elim print_addr_eth_ok) (use assms that in \<open>auto simp: print_hdr_arp_def sizeof_arp_hdr_def\<close>)
qed

lemma print_hdr_ip_ok: "20 \<le> length buf \<Longrightarrow> \<exists>out. print_hdr_ip buf = Inr out"
  by (simp add: print_hdr_ip_def sizeof_ip_hdr_def Let_def)

text \<open>
  The header printers stay inside the packet. Called with a length that is not larger than the buffer,
  \<^verbatim>\<open>print_hdrs\<close> returns for every content of the buffer, however short or malformed the packet is.
\<close>

theorem print_hdrs_in_bounds:
  assumes "len \<le> length buf"
  shows "\<exists>out. print_hdrs buf len = Inr out"
proof (cases "len < 14")
  case False
  with assms obtain out where out: "print_hdr_eth buf = Inr out"
    using print_hdr_eth_ok by (metis le_trans not_le)
  have arp: "\<exists>out. print_hdr_arp (drop 14 buf) = Inr out" if "42 \<le> len"
    by (rule print_hdr_arp_ok [of "drop 14 buf"]) (use that assms in auto)
  have ip: "\<exists>out. print_hdr_ip (drop 14 buf) = Inr out" if "34 \<le> len"
    using print_hdr_ip_ok [of "drop 14 buf"] that assms by auto
  have icmp: "\<exists>out. print_hdr_icmp (drop 34 buf) = Inr out" if "70 \<le> len"
    using that assms by (auto simp: print_hdr_icmp_def need_def)
  have "34 \<le> len \<Longrightarrow> ip_p - sizeof_ethernet_hdr < length buf - sizeof_ethernet_hdr"
    using assms by (simp add: header_defs)
  then show ?thesis
    using False assms out arp ip icmp
    by (auto simp: print_hdrs_def ethertype_def ip_protocol_def ether_type_def sizeof_ethernet_hdr_def
        sizeof_ip_hdr_def sizeof_icmp_hdr_def sizeof_arp_hdr_def Let_def)
qed (simp add: print_hdrs_def sizeof_ethernet_hdr_def)

theorem print_hdrs_in_bounds_witness:
  "\<exists>out. print_hdrs (replicate 12 0 @ [8, 0] @ replicate 15 7) 29 = Inr out"
  by (rule print_hdrs_in_bounds) simp

section \<open>Addresses and routing tables read back\<close>

lemma octets_of_shifts:
  assumes "unat w = d + 256 * (c + 256 * (b + 256 * a))" and "a < 256" "b < 256" "c < 256" "d < 256"
  shows "unat (drop_bit 24 w) = a" "unat (drop_bit 24 (push_bit 8 w)) = b"
    "unat (drop_bit 24 (push_bit 16 w)) = c" "unat (drop_bit 24 (push_bit 24 (w :: uint32))) = d"
proof -
  have *: "(q + 4294967296 * k) mod 4294967296 div 16777216 = (q :: nat) div 16777216" if "q < 4294967296" for q k
    using that by simp
  have drop: "unat (drop_bit 24 v) = unat v div 16777216" for v :: uint32
    using unat_lt_4294967296 [of v] by (subst unsigned_drop_bit_eq) (simp add: drop_bit_eq_div take_bit_eq_mod)
  have push: "unat (push_bit k v) = unat v * 2 ^ k mod 4294967296" for k and v :: uint32
    by (subst unsigned_push_bit_eq) (simp add: push_bit_eq_mult take_bit_eq_mod)
  show "unat (drop_bit 24 w) = a"
    using assms by (simp add: drop)
  have "unat w * 2 ^ 8 = 256 * d + 65536 * c + 16777216 * b + 4294967296 * (a)" "256 * d + 65536 * c + 16777216 * b < 4294967296" "(256 * d + 65536 * c + 16777216 * b) div 16777216 = b"
    using assms by simp_all
  then show "unat (drop_bit 24 (push_bit 8 w)) = b"
    using *[of "256 * d + 65536 * c + 16777216 * b" "a"] by (simp only: drop push)
  have "unat w * 2 ^ 16 = 65536 * d + 16777216 * c + 4294967296 * (b + 256 * a)" "65536 * d + 16777216 * c < 4294967296" "(65536 * d + 16777216 * c) div 16777216 = c"
    using assms by simp_all
  then show "unat (drop_bit 24 (push_bit 16 w)) = c"
    using *[of "65536 * d + 16777216 * c" "b + 256 * a"] by (simp only: drop push)
  have "unat w * 2 ^ 24 = 16777216 * d + 4294967296 * (c + 256 * (b + 256 * a))" "16777216 * d < 4294967296" "(16777216 * d) div 16777216 = d"
    using assms by simp_all
  then show "unat (drop_bit 24 (push_bit 24 w)) = d"
    using *[of "16777216 * d" "c + 256 * (b + 256 * a)"] by (simp only: drop push)
qed

text \<open>The shifting printer writes the same text as \<^verbatim>\<open>inet_ntoa\<close>.\<close>

lemma print_addr_ip_int_ntoa: "print_addr_ip_int (ntohl addr) = inet_ntoa addr @ [10]"
proof -
  have "ntohl addr = le32 [bytes32 addr ! 3, bytes32 addr ! 2, bytes32 addr ! 1, bytes32 addr ! 0]"
    unfolding ntohl_def htonl_def by (subst bytes32_four) simp
  then have "unat (ntohl addr) = unat (bytes32 addr ! 3) + 256 * (unat (bytes32 addr ! 2) +
      256 * (unat (bytes32 addr ! 1) + 256 * unat (bytes32 addr ! 0)))"
    by (simp only: unat_le32)
  from octets_of_shifts [OF this unat_lt_256 unat_lt_256 unat_lt_256 unat_lt_256] show ?thesis
    by (simp add: print_addr_ip_int_def inet_ntoa_dotted ascii_def)
qed

lemma print_addr_ip_in_bounds: "print_addr_ip addr = Inr (inet_ntoa addr @ [10])"
proof -
  have "length (decimal (unat (b :: byte))) \<le> 3" for b
    using decimal_length [of "unat b" 2] unat_lt_256 [of b] by simp
  from this [of "bytes32 addr ! 0"] this [of "bytes32 addr ! 1"] this [of "bytes32 addr ! 2"] this [of "bytes32 addr ! 3"]
  have "length (inet_ntoa addr) \<le> 15" unfolding inet_ntoa_dotted by simp
  then show ?thesis by (simp add: print_addr_ip_def INET_ADDRSTRLEN_def)
qed

lemma tokens_word:
  assumes "t \<noteq> []" and "\<forall>c \<in> set t. \<not> is_space c" and "\<forall>c \<in> set ws. is_space c" and "is_space c"
  shows "tokens (Suc n) (ws @ t @ c # rest) = t # tokens n (c # rest)"
proof -
  have "dropWhile is_space (ws @ t @ c # rest) = t @ c # rest"
    using assms(1,2,3) by (cases t) (simp_all add: dropWhile_append2 dropWhile_eq_Nil_conv)
  moreover have "takeWhile (\<lambda>c. \<not> is_space c) (t @ c # rest) = t"
    using assms(2,4) by (simp add: takeWhile_append2)
  ultimately show ?thesis using assms(1) by simp
qed

text \<open>An entry whose interface name a line of the file can hold.\<close>

definition printable_route :: "sr_rt \<Rightarrow> bool" where
  "printable_route e \<longleftrightarrow> (let nm = cstr (rt_interface e) in
     nm \<noteq> [] \<and> length nm < 32 \<and> list_all (\<lambda>c. \<not> is_space c) nm \<and> rt_interface e = strncpy 32 nm)"

lemma scan_printed_entry:
  assumes "printable_route e"
  shows "scan_line bufs (sr_print_routing_entry e) =
    Inr ([inet_ntoa (rt_dest e), inet_ntoa (rt_gw e), inet_ntoa (rt_mask e), cstr (rt_interface e)] @ drop 4 bufs)"
proof -
  let ?nm = "cstr (rt_interface e)"
  have nm: "?nm \<noteq> []" "length ?nm < 32" "\<forall>c \<in> set ?nm. \<not> is_space c" "0 \<notin> set ?nm"
    using assms by (auto simp: printable_route_def Let_def list_all_iff cstr_def dest: set_takeWhileD)
  have plain: "\<not> is_space c" "c \<noteq> 0" if "is_dec c \<or> c = 46" for c
    using that unat_lt_256 [of c] by (auto simp: is_space_def is_dec_def word_le_nat_alt)
  have addr: "inet_ntoa a \<noteq> []" "\<forall>c \<in> set (inet_ntoa a). \<not> is_space c" "0 \<notin> set (inet_ntoa a)"
    "length (inet_ntoa a) < 32" for a
    using inet_ntoa_chars [of a] print_addr_ip_in_bounds [of a] plain
    by (auto simp: inet_ntoa_dotted [THEN arg_cong, of "\<lambda>x. x = []"] list_all_iff print_addr_ip_def INET_ADDRSTRLEN_def
        need_eq_Inr)
  have "0 \<notin> set (sr_print_routing_entry e)"
    using nm(4) addr(3) by (auto simp: sr_print_routing_entry_def)
  then have c: "cstr (sr_print_routing_entry e) = sr_print_routing_entry e"
    by (rule cstr_id)
  have sp: "is_space 9" "is_space 10" by (simp_all add: is_space_def)
  have "tokens (Suc (Suc (Suc (Suc 0)))) (sr_print_routing_entry e) =
      [inet_ntoa (rt_dest e), inet_ntoa (rt_gw e), inet_ntoa (rt_mask e), ?nm]"
    using tokens_word [OF addr(1,2), of "[]" 9] tokens_word [OF addr(1,2), of "[9, 9]" 9]
      tokens_word [OF addr(1,2), of "[9]" 9] tokens_word [OF nm(1,3), of "[9]" 10] sp
    by (simp add: sr_print_routing_entry_def del: tokens.simps(2))
  then show ?thesis
    using nm(2) addr(4) by (simp add: scan_line_def c Let_def numeral_eq_Suc del: tokens.simps(2))
qed

lemma load_printed_entries:
  assumes "list_all printable_route rt"
  shows "load_lines cleared bufs rt0 (map sr_print_routing_entry rt) =
    Inr (0, if rt = [] then rt0 else (if cleared then rt0 else []) @ rt)"
  using assms
proof (induction rt arbitrary: cleared bufs rt0)
  case (Cons e rt)
  have "strncpy sr_IFACE_NAMELEN (cstr (rt_interface e)) = rt_interface e"
    using Cons.prems by (simp add: printable_route_def Let_def sr_IFACE_NAMELEN_def)
  with Cons show ?case
    by (auto simp: scan_printed_entry inet_aton_ntoa sr_add_rt_entry_def)
qed simp

text \<open>
  C32: a routing table reads back as it is printed. The lines below the heading of the listing that
  \<^verbatim>\<open>sr_print_routing_table\<close> writes are a routing table file: \<^verbatim>\<open>sr_load_rt\<close> accepts it and the router
  then has exactly the printed table, whatever it had before. Interface names are non-empty, shorter than 32
  bytes and without spaces.
\<close>

theorem routing_table_roundtrip:
  assumes "rt \<noteq> []" and "list_all printable_route rt"
  shows "sr_load_rt (Some (tl (sr_print_routing_table rt))) bufs rt0 = Inr (0, rt)"
  using load_printed_entries [OF assms(2), of False bufs rt0] assms(1)
  by (simp add: sr_load_rt_def sr_print_routing_table_def)

definition demo_route :: sr_rt where
  "demo_route = \<lparr>rt_dest = le32 [10, 0, 2, 0], rt_gw = le32 [10, 0, 2, 2], rt_mask = le32 [255, 255, 255, 0],
     rt_interface = strncpy 32 [101, 116, 104, 50]\<rparr>"

theorem routing_table_roundtrip_witness:
  "sr_load_rt (Some (tl (sr_print_routing_table [demo_route]))) [] [] = Inr (0, [demo_route])"
proof (rule routing_table_roundtrip)
  have "cstr (strncpy 32 [101, 116, 104, 50]) = [101, 116, 104, 50]"
    unfolding cstr_strncpy by (simp add: cstr_def)
  then show "list_all printable_route [demo_route]"
    by (simp add: printable_route_def demo_route_def is_space_def)
qed simp
end
