(* ===== verification/Sr_Main.thy ===== *)
theory Sr_Main
  imports Sr_Vns_Server Sr_Outputs Sr_Utils
begin

text \<open>
  The main program of the router (\<^verbatim>\<open>sr_main.c\<close>): the command line, the set-up of the instance, the start of the
  session, and the loop that handles one command of the server after the other while the timeout thread
  started by \<^verbatim>\<open>sr_init\<close> runs beside it. The record \<open>env\<close> is what the program finds when it starts: its
  arguments, the files, the user's name, the contents of its stack and the connection. Messages on the terminal are
  left out.
\<close>

section \<open>Command line\<close>

record options =
  opt_host :: "byte list"
  opt_user :: "byte list option"
  opt_server :: "byte list"
  opt_rtable :: "byte list"
  opt_template :: "byte list option"
  opt_port :: uint32
  opt_topo :: uint32
  opt_logfile :: "byte list option"

definition default_options :: options where
  "default_options = \<lparr>opt_host = ascii ''vrhost'', opt_user = None, opt_server = ascii ''localhost'',
     opt_rtable = ascii ''rtable'', opt_template = None, opt_port = 8888, opt_topo = 0, opt_logfile = None\<rparr>"

text \<open>One turn of the switch; \<open>None\<close> is the exit of \<^verbatim>\<open>-h\<close>.\<close>

definition set_option :: "getopt_result \<Rightarrow> options \<Rightarrow> options option" where
  "set_option c opts =
     (case c of
        Flag f \<Rightarrow> if f = of_char CHR ''h'' then None else Some opts
      | Arg f optarg \<Rightarrow>
          if f = of_char CHR ''p'' then Some (opts\<lparr>opt_port := atoi optarg\<rparr>)
          else if f = of_char CHR ''t'' then Some (opts\<lparr>opt_topo := atoi optarg\<rparr>)
          else if f = of_char CHR ''v'' then Some (opts\<lparr>opt_host := optarg\<rparr>)
          else if f = of_char CHR ''u'' then Some (opts\<lparr>opt_user := Some optarg\<rparr>)
          else if f = of_char CHR ''s'' then Some (opts\<lparr>opt_server := optarg\<rparr>)
          else if f = of_char CHR ''l'' then Some (opts\<lparr>opt_logfile := Some optarg\<rparr>)
          else if f = of_char CHR ''r'' then Some (opts\<lparr>opt_rtable := optarg\<rparr>)
          else if f = of_char CHR ''T'' then Some (opts\<lparr>opt_template := Some optarg\<rparr>)
          else Some opts
      | Bad_option \<Rightarrow> Some opts)"

fun set_options :: "getopt_result list \<Rightarrow> options \<Rightarrow> options option" where
  "set_options [] opts = Some opts"
| "set_options (c # cs) opts =
     (case set_option c opts of None \<Rightarrow> None | Some opts \<Rightarrow> set_options cs opts)"

definition parse_options :: "byte list list \<Rightarrow> options option" where
  "parse_options argv = set_options (fst (getopt (ascii ''h'') (ascii ''svputrlT'') argv)) default_options"

section \<open>Setting up\<close>

record env =
  argv :: "byte list list"
  stack_instance :: sr_instance
  stack_bufs :: "byte list list"
  files :: "byte list \<Rightarrow> byte list option"
  writable :: "byte list \<Rightarrow> bool"
  printed :: "byte list"
  pw_name :: "byte list option"
  reaches :: "byte list \<Rightarrow> uint16 \<Rightarrow> bool"
  conn :: "recv_event list"
  key_file :: "byte list option"
  may_create :: bool

definition sr_init_instance :: "sr_instance \<Rightarrow> sr_instance" where
  "sr_init_instance sr = sr\<lparr>sr_user := (sr_user sr)[0 := 0], sr_host := (sr_host sr)[0 := 0], topo_id := 0,
     if_list := [], routing_table := [], logfile := None, wire := []\<rparr>"

definition sr_set_user :: "byte list option \<Rightarrow> sr_instance \<Rightarrow> sr_instance" where
  "sr_set_user pw sr =
     (case pw of
        None \<Rightarrow> sr\<lparr>sr_user := strncpy 32 (ascii ''something_silly'')\<rparr>
      | Some name \<Rightarrow> sr\<lparr>sr_user := strncpy 32 name\<rparr>)"

text \<open>The lines \<^verbatim>\<open>fgets\<close> reads from a file with a buffer of \<^verbatim>\<open>BUFSIZ\<close> bytes.\<close>

function file_lines :: "byte list \<Rightarrow> byte list list" where
  "file_lines bs =
     (case fgets 8192 bs of None \<Rightarrow> [] | Some line \<Rightarrow> line # file_lines (drop (length line) bs))"
  by pat_completeness auto
termination
proof (relation "measure length")
  fix bs line
  assume "fgets 8192 bs = Some line"
  then have "bs \<noteq> [] \<and> line \<noteq> []"
    by (cases bs) (auto simp: fgets_def Let_def split: if_splits)
  then show "(drop (length line) bs, bs) \<in> measure length"
    by simp
qed simp

declare file_lines.simps [simp del]

text \<open>A file as the program finds it: one it has created itself hides what was there before.\<close>

definition file_at :: "env \<Rightarrow> vns \<Rightarrow> byte list \<Rightarrow> byte list list option" where
  "file_at env v name =
     map_option file_lines
       (case map_of (rev (created v)) name of Some bs \<Rightarrow> Some bs | None \<Rightarrow> files env name)"

text \<open>\<open>None\<close> is the exit with status 1.\<close>

definition sr_load_rt_wrap :: "env \<Rightarrow> byte list \<Rightarrow> vns \<Rightarrow> fault + vns option" where
  "sr_load_rt_wrap env rtable v =
     andthen (sr_load_rt (file_at env v rtable) (stack_bufs env) (routing_table (router v))) (\<lambda>(ret, rt).
       Inr (if ret \<noteq> 0 then None else Some (v\<lparr>router := (router v)\<lparr>routing_table := rt\<rparr>\<rparr>)))"

section \<open>The program\<close>

datatype outcome = Exit int | Running vns

text \<open>The part of \<^verbatim>\<open>main\<close> before the session: the routing table or the template, the names, the dump file.\<close>

definition main_table :: "env \<Rightarrow> options \<Rightarrow> vns \<Rightarrow> fault + vns option" where
  "main_table env opts v =
     (case opt_template opts of
        None \<Rightarrow>
          sr_load_rt_wrap env (opt_rtable opts)
            (v\<lparr>router := (router v)\<lparr>sr_template := (sr_template (router v))[0 := 0]\<rparr>\<rparr>)
      | Some template \<Rightarrow> Inr (Some (v\<lparr>router := (router v)\<lparr>sr_template := strncpy 30 template\<rparr>\<rparr>)))"

definition main_names :: "env \<Rightarrow> options \<Rightarrow> sr_instance \<Rightarrow> sr_instance" where
  "main_names env opts sr =
     (let sr = sr\<lparr>topo_id := ucast (opt_topo opts), sr_host := strncpy 32 (opt_host opts)\<rparr>
      in case opt_user opts of
           None \<Rightarrow> sr_set_user (pw_name env) sr
         | Some user \<Rightarrow> sr\<lparr>sr_user := strncpy 32 user\<rparr>)"

definition main_logfile :: "env \<Rightarrow> options \<Rightarrow> vns \<Rightarrow> outcome" where
  "main_logfile env opts v =
     (case opt_logfile opts of
        None \<Rightarrow> Running v
      | Some fname \<Rightarrow>
          (case sr_dump_open (writable env) (printed env) fname 0 (word_of_nat PACKET_DUMP_SIZE) of
             None \<Rightarrow> Exit 1
           | Some fp \<Rightarrow> Running (v\<lparr>router := (router v)\<lparr>logfile := Some fp\<rparr>\<rparr>)))"

definition main_setup :: "env \<Rightarrow> options \<Rightarrow> fault + outcome" where
  "main_setup env opts =
     (let v = \<lparr>router = sr_init_instance (stack_instance env), incoming = conn env, auth_key = key_file env,
               can_create = may_create env, created = [], sock_closed = False\<rparr>
      in andthen (main_table env opts v) (\<lambda>r.
           Inr (case r of
                  None \<Rightarrow> Exit 1
                | Some v \<Rightarrow> main_logfile env opts (v\<lparr>router := main_names env opts (router v)\<rparr>))))"

text \<open>
  The session is negotiated and the routing table is read again: from \<^verbatim>\<open>rtable.vrhost\<close> if a template is used and
  that name was given, from the given file otherwise.
\<close>

definition main_connect :: "nat \<Rightarrow> os \<Rightarrow> env \<Rightarrow> options \<Rightarrow> vns \<Rightarrow> fault + outcome" where
  "main_connect depth os env opts v =
     andthen (sr_connect_to_server depth os (reaches env (opt_server opts) (ucast (opt_port opts))) v) (\<lambda>(r, v).
       if r = -1 then Inr (Exit 1)
       else
         andthen
           (if opt_template opts \<noteq> None \<and> cstr (opt_rtable opts) = ascii ''rtable.vrhost''
            then sr_load_rt_wrap env (ascii ''rtable.vrhost'') v
            else sr_load_rt_wrap env (opt_rtable opts) v)
           (\<lambda>r. Inr (case r of None \<Rightarrow> Exit 1 | Some v \<Rightarrow> Running (v\<lparr>router := sr_init (router v)\<rparr>))))"

text \<open>Up to the loop: the exit status, or the state in which the loop starts.\<close>

definition main_start :: "nat \<Rightarrow> os \<Rightarrow> env \<Rightarrow> fault + outcome" where
  "main_start depth os env =
     (case parse_options (argv env) of
        None \<Rightarrow> Inr (Exit 0)
      | Some opts \<Rightarrow>
          andthen (main_setup env opts) (\<lambda>r.
            case r of Exit c \<Rightarrow> Inr (Exit c) | Running v \<Rightarrow> main_connect depth os env opts v))"

text \<open>
  The loop \<^verbatim>\<open>while(sr_read_from_server(&sr) == 1)\<close> with the timeout thread beside it: a turn of one of them.
  A turn is one step here: turns that overlap, which the code does not exclude, are the subject of \<open>Sr_Threads\<close> for the
  queue of requests and of the end of \<open>Sr_Outputs\<close> for the dump file.
\<close>

inductive main_step :: "vns \<Rightarrow> vns \<Rightarrow> bool" where
  command: "sr_read_from_server depth os v = Inr (1, v') \<Longrightarrow> main_step v v'"
| timer: "sr_arpcache_timeout depth os (router v) = Inr sr \<Longrightarrow> main_step v (v\<lparr>router := sr\<rparr>)"

text \<open>After the loop: the dump file is closed. What is returned is the status and the finished dump file.\<close>

definition sr_destroy_instance :: "sr_instance \<Rightarrow> dump_file option" where
  "sr_destroy_instance sr = logfile sr"

definition main_finish :: "vns \<Rightarrow> int \<times> dump_file option" where
  "main_finish v = (0, sr_destroy_instance (router v))"

section \<open>The arrays keep their sizes\<close>

text \<open>The declared sizes of the arrays in \<^verbatim>\<open>struct sr_instance\<close>, \<^verbatim>\<open>struct sr_if\<close> and \<^verbatim>\<open>struct sr_rt\<close>.\<close>

definition if_typed :: "sr_if \<Rightarrow> bool" where
  "if_typed i \<longleftrightarrow> length (if_name i) = 32 \<and> length (if_addr i) = 6"

definition sr_typed :: "sr_instance \<Rightarrow> bool" where
  "sr_typed sr \<longleftrightarrow> length (sr_user sr) = 32 \<and> length (sr_host sr) = 32 \<and> length (sr_template sr) = 30 \<and>
     list_all if_typed (if_list sr) \<and> list_all (\<lambda>r. length (rt_interface r) = 32) (routing_table sr)"

lemma sr_typed_updates [simp]:
  "sr_typed (sr\<lparr>cache := c\<rparr>) = sr_typed sr" "sr_typed (sr\<lparr>wire := w\<rparr>) = sr_typed sr"
  "sr_typed (sr\<lparr>logfile := l\<rparr>) = sr_typed sr"
  by (simp_all add: sr_typed_def)

lemma sr_typed_log [simp]: "sr_typed (sr_log_packet os sr buf) = sr_typed sr"
  by (simp add: sr_log_packet_def split: option.split)

interpretation typed: output_contract sr_typed "\<lambda>_. True"
  by unfold_locales (auto simp: send_frame_def sr_send_packet_def Let_def)

lemma hw_apply_typed:
  assumes "hw_apply os key val ifs = Inr ifs'" and "32 \<le> length val" and "list_all if_typed ifs"
  shows "list_all if_typed ifs'"
proof -
  have fresh: "if_typed ((fresh_if os)\<lparr>if_name := strncpy 32 nm\<rparr>)" for nm
    by (simp add: if_typed_def fresh_if_def Let_def)
  have l: "list_all if_typed (butlast ifs)" "ifs \<noteq> [] \<Longrightarrow> if_typed (last ifs)"
    using assms(3) by (auto simp: list_all_iff dest: in_set_butlastD)
  then have "ifs \<noteq> [] \<Longrightarrow> if_typed ((last ifs)\<lparr>if_addr := take 6 val\<rparr>)"
    "ifs \<noteq> [] \<Longrightarrow> if_typed ((last ifs)\<lparr>if_ip := x\<rparr>)" for x
    using assms(2) by (auto simp: if_typed_def)
  with assms(1,3) l fresh show ?thesis
    by (auto simp: hw_apply_def sr_add_interface_def sr_set_ether_ip_def sr_set_ether_addr_def sr_IFACE_NAMELEN_def
        need_eq_Inr split: if_splits)
qed

lemma hwinfo_loop_typed:
  "hwinfo_loop os buf i left ifs = Inr ifs' \<Longrightarrow> 8 + 36 * (i + left) \<le> length buf \<Longrightarrow>
   list_all if_typed ifs \<Longrightarrow> list_all if_typed ifs'"
proof (induction left arbitrary: i ifs)
  case (Suc left)
  then obtain ifs1 where 1: "hw_apply os (ntohl (ld32 (8 + 36 * i) buf)) (drop (8 + 36 * i + 4) buf) ifs = Inr ifs1"
    "hwinfo_loop os buf (Suc i) left ifs1 = Inr ifs'"
    by (auto simp: andthen_eq_Inr)
  have "list_all if_typed ifs1"
    by (rule hw_apply_typed [OF 1(1)]) (use Suc.prems in auto)
  then show ?case
    using Suc.IH [OF 1(2)] Suc.prems(2) by simp
qed simp

lemma handle_hwinfo_typed:
  assumes "sr_handle_hwinfo os sr buf = Inr (n, sr')" and "sr_typed sr" and "unat (ntohl (ld32 0 buf)) = length buf"
    and "8 \<le> length buf"
  shows "sr_typed sr'"
proof -
  let ?n = "(length buf - 8) div 36"
  obtain ifs where ifs: "hwinfo_loop os buf 0 ?n (if_list sr) = Inr ifs" "sr' = sr\<lparr>if_list := ifs\<rparr>"
    using assms(1,3) by (auto simp: sr_handle_hwinfo_def Let_def andthen_eq_Inr)
  have "list_all if_typed ifs"
    by (rule hwinfo_loop_typed [OF ifs(1)]) (use assms(2,4) in \<open>auto simp: sr_typed_def\<close>)
  with assms(2) ifs(2) show ?thesis by (simp add: sr_typed_def)
qed

section \<open>The invariant of the loop\<close>

definition cache_ok :: "sr_instance \<Rightarrow> bool" where
  "cache_ok sr \<longleftrightarrow> router_inv (if_list sr) (routing_table sr) sr"

lemma cache_ok_updates [simp]:
  "cache_ok (sr\<lparr>wire := w\<rparr>) = cache_ok sr" "cache_ok (sr\<lparr>if_list := i\<rparr>) = cache_ok sr"
  by (simp_all add: cache_ok_def router_inv_def)

lemma cache_ok_log [simp]: "cache_ok (sr_log_packet os sr buf) = cache_ok sr"
  by (simp add: cache_ok_def router_inv_def)

lemma cache_ok_handlepacket:
  "cache_ok sr \<Longrightarrow> sr_handlepacket depth os sr p i = Inr sr' \<Longrightarrow> cache_ok sr'"
  using router_inv_handlepacket unfolding cache_ok_def by (metis router_inv_def)

lemma cache_ok_timeout: "cache_ok sr \<Longrightarrow> sr_arpcache_timeout depth os sr = Inr sr' \<Longrightarrow> cache_ok sr'"
  using router_inv_timeout unfolding cache_ok_def by (metis router_inv_def)

definition loop_inv :: "vns \<Rightarrow> bool" where
  "loop_inv v \<longleftrightarrow> sr_typed (router v) \<and> cache_ok (router v) \<and> dump_ok (router v)"

lemma recv_loop_length:
  "recv_loop n acc evs = Inr (Some bs, evs') \<Longrightarrow> length acc \<le> n \<Longrightarrow> length bs = n"
  by (induction n acc evs rule: recv_loop.induct) (auto simp: Let_def split: if_splits recv_event.splits)

text \<open>A command is either refused, or complete and of the announced length when it is handled.\<close>

lemma read_cases:
  assumes "sr_read_from_server_expect depth os v cmd = Inr (r, v')"
  obtains (refused) "r = -1" "router v' = router v" "created v' = created v"
  | (handled) v1 buf where "router v1 = router v" "created v1 = created v"
      "vns_command depth os v1 (ntohl (ld32 4 buf)) buf = Inr (r, v')"
      "8 \<le> length buf" "unat (ntohl (ld32 0 buf)) = length buf"
      "cmd = 0 \<or> ntohl (ld32 4 buf) = cmd \<or> ntohl (ld32 4 buf) = VNSCLOSE"
proof -
  from assms obtain h evs where h: "recv_loop 4 [] (incoming v) = Inr (h, evs)"
    by (auto simp: sr_read_from_server_expect_def andthen_eq_Inr)
  show thesis
  proof (cases h)
    case None
    with h assms show ?thesis
      by (intro refused) (auto simp: sr_read_from_server_expect_def)
  next
    case (Some hd)
    let ?len = "sint (ntohl (le32 hd))"
    have hd: "length hd = 4" using recv_loop_length h Some by fastforce
    show ?thesis
    proof (cases "?len > 10000 \<or> ?len < 0")
      case True
      with h Some assms show ?thesis
        by (intro refused) (auto simp: sr_read_from_server_expect_def Let_def)
    next
      case False
      from assms h Some False obtain b evs' where
        b: "4 \<le> ?len" "recv_loop (nat ?len - 4) [] evs = Inr (b, evs')"
        by (auto simp: sr_read_from_server_expect_def Let_def need_eq_Inr andthen_eq_Inr)
      show ?thesis
      proof (cases b)
        case None
        with h Some b False assms show ?thesis
          by (intro refused) (auto simp: sr_read_from_server_expect_def Let_def)
      next
        case (Some bd)
        let ?buf = "hd @ bd"
        have len: "length ?buf = nat ?len"
          using recv_loop_length [of "nat ?len - 4" "[]" evs bd evs'] b Some hd by auto
        have "ld32 0 ?buf = le32 hd" using hd by (simp add: rd_def)
        moreover have "uint (ntohl (le32 hd)) = ?len"
          unfolding uint_sint by (rule take_bit_int_eq_self) (use False in auto)
        ultimately have unat: "unat (ntohl (ld32 0 ?buf)) = length ?buf"
          using len by (simp add: unat_eq_nat_uint)
        from assms h \<open>h = Some hd\<close> False b Some have "8 \<le> ?len"
          and res: "(if cmd \<noteq> 0 \<and> ntohl (ld32 4 ?buf) \<noteq> cmd \<and> ntohl (ld32 4 ?buf) \<noteq> VNSCLOSE
            then Inr (-1, v\<lparr>incoming := evs'\<rparr>) else vns_command depth os (v\<lparr>incoming := evs'\<rparr>) (ntohl (ld32 4 ?buf)) ?buf)
            = Inr (r, v')"
          by (auto simp: sr_read_from_server_expect_def Let_def need_eq_Inr)
        then show ?thesis
          using handled [of "v\<lparr>incoming := evs'\<rparr>" ?buf] refused unat len by (auto split: if_splits)
      qed
    qed
  qed
qed

lemma auth_request_router:
  assumes "sr_handle_auth_request os v buf = Inr (r, v')"
  shows "\<exists>w. router v' = (router v)\<lparr>wire := w\<rparr>"
proof -
  have "\<exists>w. router v = (router v)\<lparr>wire := w\<rparr>" by (rule exI [of _ "wire (router v)"]) simp
  with assms show ?thesis
    by (auto simp: sr_handle_auth_request_def Let_def need_eq_Inr split: option.splits prod.splits if_splits)
qed

lemma loop_inv_command:
  assumes "vns_command depth os v command buf = Inr (r, v')" and "loop_inv v"
    and "8 \<le> length buf" and "unat (ntohl (ld32 0 buf)) = length buf"
  shows "loop_inv v'"
proof -
  have packet: "loop_inv (v\<lparr>router := sr\<rparr>)"
    if "sr_handlepacket depth os (sr_log_packet os (router v) p) p i = Inr sr" for sr p i
    using assms(2) typed.handlepacket [OF that] dump.handlepacket [OF that] cache_ok_handlepacket [OF _ that]
    by (simp add: loop_inv_def dump_ok_log)
  have hwinfo: "loop_inv (v\<lparr>router := sr\<rparr>)" if "sr_handle_hwinfo os (router v) buf = Inr (n, sr)" for n sr
    using assms(2-4) handle_hwinfo_typed [OF that] that
    by (auto simp: loop_inv_def sr_handle_hwinfo_def Let_def andthen_eq_Inr)
  have auth: "loop_inv w" if "sr_handle_auth_request os v buf = Inr (n, w)" for n w
    using assms(2) auth_request_router [OF that] by (auto simp: loop_inv_def)
  have rtable: "loop_inv w" if "sr_handle_rtable v buf = Inr (n, w)" for n w
    using assms(2) that by (auto simp: loop_inv_def sr_handle_rtable_def Let_def need_eq_Inr split: if_splits)
  show ?thesis
    using assms(1,2) packet hwinfo auth rtable
    by (auto simp: vns_command_def Let_def need_eq_Inr andthen_eq_Inr split: if_splits)
qed

lemma loop_inv_read:
  assumes "sr_read_from_server_expect depth os v cmd = Inr (r, v')" and "loop_inv v"
  shows "loop_inv v'"
  using assms(1)
proof (cases rule: read_cases)
  case refused
  with assms(2) show ?thesis by (simp add: loop_inv_def)
next
  case (handled v1 buf)
  then show ?thesis
    using loop_inv_command [OF handled(3)] assms(2) by (simp add: loop_inv_def)
qed

lemma loop_inv_step: "main_step v v' \<Longrightarrow> loop_inv v \<Longrightarrow> loop_inv v'"
proof (induction rule: main_step.induct)
  case (command depth os v v')
  then show ?case unfolding sr_read_from_server_def by (rule loop_inv_read)
next
  case (timer depth os v sr)
  then show ?case
    using typed.timeout [OF timer(1)] dump.timeout [OF timer(1)] cache_ok_timeout [OF _ timer(1)]
    by (simp add: loop_inv_def)
qed

section \<open>The state in which the loop starts\<close>

text \<open>Negotiating the session only writes to the socket and creates files.\<close>

definition same_router :: "vns \<Rightarrow> vns \<Rightarrow> bool" where
  "same_router v v' \<longleftrightarrow> (\<exists>w. router v' = (router v)\<lparr>wire := w\<rparr>)"

lemma same_router_refl: "router v' = router v \<Longrightarrow> same_router v v'"
  by (auto simp: same_router_def intro!: exI [of _ "wire (router v)"])

lemma same_router_trans: "same_router u v \<Longrightarrow> same_router v w \<Longrightarrow> same_router u w"
  by (auto simp: same_router_def)

lemma same_router_write: "same_router v (v\<lparr>router := (router v)\<lparr>wire := w\<rparr>\<rparr>)"
  by (auto simp: same_router_def)

lemma expect_same_router:
  assumes "sr_read_from_server_expect depth os v cmd = Inr (r, v')"
    and "cmd \<in> {VNS_AUTH_REQUEST, VNS_AUTH_STATUS, VNS_RTABLE}"
  shows "same_router v v'"
  using assms(1)
proof (cases rule: read_cases)
  case refused
  then show ?thesis by (simp add: same_router_refl)
next
  case (handled v1 buf)
  have "same_router v1 v'"
  proof -
    consider "ntohl (ld32 4 buf) = VNS_AUTH_REQUEST" | "ntohl (ld32 4 buf) = VNS_AUTH_STATUS"
      | "ntohl (ld32 4 buf) = VNS_RTABLE" | "ntohl (ld32 4 buf) = VNSCLOSE"
      using handled(6) assms(2) by (auto simp: vns_commands)
    then show ?thesis
    proof cases
      case 1
      with handled(3) obtain n where "sr_handle_auth_request os v1 buf = Inr (n, v')"
        by (auto simp: vns_command_def vns_commands andthen_eq_Inr)
      then show ?thesis unfolding same_router_def by (rule auth_request_router)
    next
      case 2
      with handled(3) have "v' = v1"
        by (auto simp: vns_command_def vns_commands andthen_eq_Inr)
      then show ?thesis by (simp add: same_router_refl)
    next
      case 3
      with handled(3) obtain n where "sr_handle_rtable v1 buf = Inr (n, v')"
        by (auto simp: vns_command_def vns_commands andthen_eq_Inr)
      then show ?thesis
        by (intro same_router_refl) (auto simp: sr_handle_rtable_def Let_def need_eq_Inr split: if_splits)
    next
      case 4
      with handled(3) have "v' = v1"
        by (auto simp: vns_command_def vns_commands)
      then show ?thesis by (simp add: same_router_refl)
    qed
  qed
  with handled(1) show ?thesis by (simp add: same_router_def)
qed

lemma connect_same_router:
  assumes "sr_connect_to_server depth os reached v = Inr (r, v')"
  shows "same_router v v'"
proof (cases reached)
  case True
  with assms obtain r1 v1 where 1: "sr_read_from_server_expect depth os v VNS_AUTH_REQUEST = Inr (r1, v1)"
    by (auto simp: sr_connect_to_server_def andthen_eq_Inr)
  note s1 = expect_same_router [OF 1]
  show ?thesis
  proof (cases "r1 = 1")
    case r1: True
    with True assms 1 obtain r2 v2 where 2: "sr_read_from_server_expect depth os v1 VNS_AUTH_STATUS = Inr (r2, v2)"
      by (auto simp: sr_connect_to_server_def andthen_eq_Inr)
    note s2 = same_router_trans [OF s1 expect_same_router [OF 2]]
    have s3: "same_router v t" if "sr_read_from_server_expect depth os (v2\<lparr>router := (router v2)\<lparr>wire := w\<rparr>\<rparr>) VNS_RTABLE = Inr (q, t)"
      for w q t
      using same_router_trans [OF s2 same_router_trans [OF same_router_write expect_same_router [OF that]]] by simp
    show ?thesis
      using True assms 1 r1 2 s2 s3 same_router_trans [OF s2 same_router_write]
      by (auto simp: sr_connect_to_server_def andthen_eq_Inr Let_def split: if_splits)
  qed (use True assms 1 s1 in \<open>auto simp: sr_connect_to_server_def\<close>)
qed (use assms in \<open>auto simp: sr_connect_to_server_def same_router_refl\<close>)

lemma load_lines_typed:
  "load_lines cleared bufs rt lines = Inr (n, rt') \<Longrightarrow> list_all (\<lambda>r. length (rt_interface r) = 32) rt \<Longrightarrow>
   list_all (\<lambda>r. length (rt_interface r) = 32) rt'"
proof (induction lines arbitrary: cleared bufs rt)
  case (Cons line lines)
  then obtain bufs' where bufs': "scan_line bufs line = Inr bufs'"
    by (auto simp: andthen_eq_Inr)
  let ?new = "\<lambda>d g m. sr_add_rt_entry (if cleared then rt else []) d g m (bufs' ! 3)"
  have new: "list_all (\<lambda>r. length (rt_interface r) = 32) (?new d g m)" for d g m
    using Cons.prems(2) by (simp add: sr_add_rt_entry_def sr_IFACE_NAMELEN_def)
  show ?case
  proof (cases "inet_aton (bufs' ! 0) = None \<or> inet_aton (bufs' ! 1) = None \<or> inet_aton (bufs' ! 2) = None")
    case True
    with Cons.prems bufs' show ?thesis by (auto split: option.splits)
  next
    case False
    then obtain d g m where "inet_aton (bufs' ! 0) = Some d" "inet_aton (bufs' ! 1) = Some g" "inet_aton (bufs' ! 2) = Some m"
      by auto
    with Cons.prems(1) bufs' have "load_lines True bufs' (?new d g m) lines = Inr (n, rt')"
      by simp
    then show ?thesis using Cons.IH new by blast
  qed
qed simp

lemma load_rt_wrap_router:
  assumes "sr_load_rt_wrap env name v = Inr (Some v')"
  shows "\<exists>rt. v' = v\<lparr>router := (router v)\<lparr>routing_table := rt\<rparr>\<rparr> \<and> (sr_typed (router v) \<longrightarrow> sr_typed (router v'))"
  using assms load_lines_typed
  by (auto simp: sr_load_rt_wrap_def sr_load_rt_def andthen_eq_Inr sr_typed_def split: option.splits if_splits prod.splits)

text \<open>The stack has the room the structure declares, and the dump does not go to the terminal.\<close>

definition env_ok :: "env \<Rightarrow> bool" where
  "env_ok env \<longleftrightarrow> length (sr_user (stack_instance env)) = 32 \<and> length (sr_host (stack_instance env)) = 32 \<and>
     length (sr_template (stack_instance env)) = 30 \<and>
     (case parse_options (argv env) of
        None \<Rightarrow> True
      | Some opts \<Rightarrow> (case opt_logfile opts of None \<Rightarrow> True | Some fname \<Rightarrow> cstr fname \<noteq> [45]))"

lemma dump_open_header:
  assumes "sr_dump_open cw out fname 0 (word_of_nat PACKET_DUMP_SIZE) = Some fp" and "cstr fname \<noteq> [45]"
  shows "fp = file_header_bytes router_dump_header"
  using assms by (auto simp: sr_dump_open_def sf_write_header_def router_dump_header_def TCPDUMP_MAGIC_def
      PCAP_VERSION_MAJOR_def PCAP_VERSION_MINOR_def LINKTYPE_ETHERNET_def PACKET_DUMP_SIZE_def split: if_splits)

lemma dump_ok_opened:
  assumes "sr_dump_open cw out fname 0 (word_of_nat PACKET_DUMP_SIZE) = Some fp" and "cstr fname \<noteq> [45]"
  shows "dump_ok (sr\<lparr>logfile := Some fp\<rparr>)"
  using dump_open_header [OF assms] by (auto simp: dump_ok_def intro!: exI [of _ "[]"])

text \<open>What holds of the router between set-up and \<^verbatim>\<open>sr_init\<close>.\<close>

definition start_ok :: "sr_instance \<Rightarrow> bool" where
  "start_ok sr \<longleftrightarrow> sr_typed sr \<and> dump_ok sr"

lemma start_ok_same_router: "same_router v v' \<Longrightarrow> start_ok (router v') = start_ok (router v)"
  by (auto simp: same_router_def start_ok_def)

lemma start_ok_load:
  "sr_load_rt_wrap env name v = Inr (Some v') \<Longrightarrow> start_ok (router v) \<Longrightarrow> start_ok (router v')"
  using load_rt_wrap_router by (fastforce simp: start_ok_def)

lemma start_ok_names: "start_ok sr \<Longrightarrow> start_ok (main_names env opts sr)"
  by (auto simp: start_ok_def sr_typed_def dump_ok_def main_names_def sr_set_user_def Let_def split: option.split)

lemma start_ok_table:
  assumes "main_table env opts v = Inr (Some v')" and "start_ok (router v)"
  shows "start_ok (router v')"
proof (cases "opt_template opts")
  case None
  have "start_ok ((router v)\<lparr>sr_template := (sr_template (router v))[0 := 0]\<rparr>)"
    using assms(2) by (simp add: start_ok_def sr_typed_def dump_ok_def)
  with None assms(1) show ?thesis
    using start_ok_load by (fastforce simp: main_table_def)
next
  case (Some t)
  with assms show ?thesis
    by (auto simp: main_table_def start_ok_def sr_typed_def dump_ok_def)
qed

lemma start_ok_log:
  assumes "main_logfile env opts v = Running v'" and "start_ok (router v)"
    and "env_ok env" and "parse_options (argv env) = Some opts"
  shows "start_ok (router v')"
  using assms dump_ok_opened
  by (auto simp: main_logfile_def start_ok_def env_ok_def split: option.splits)

lemma main_setup_ok:
  assumes "main_setup env opts = Inr (Running v)" and "env_ok env" and "parse_options (argv env) = Some opts"
  shows "start_ok (router v)"
proof -
  let ?v = "\<lparr>router = sr_init_instance (stack_instance env), incoming = conn env, auth_key = key_file env,
    can_create = may_create env, created = [], sock_closed = False\<rparr>"
  obtain v1 where v1: "main_table env opts ?v = Inr (Some v1)"
    "main_logfile env opts (v1\<lparr>router := main_names env opts (router v1)\<rparr>) = Running v"
    using assms(1) by (auto simp: main_setup_def andthen_eq_Inr split: option.splits)
  have "start_ok (router ?v)"
    using assms(2) by (simp add: start_ok_def sr_typed_def dump_ok_def sr_init_instance_def env_ok_def)
  then have "start_ok (main_names env opts (router v1))"
    by (intro start_ok_names start_ok_table [OF v1(1)])
  with start_ok_log [OF v1(2)] assms(2,3) show ?thesis by simp
qed

lemma main_start_inv:
  assumes "main_start depth os env = Inr (Running v)" and "env_ok env"
  shows "loop_inv v"
proof -
  obtain opts v0 where 0: "parse_options (argv env) = Some opts" "main_setup env opts = Inr (Running v0)"
    "main_connect depth os env opts v0 = Inr (Running v)"
  proof -
    from assms(1) obtain opts where opts: "parse_options (argv env) = Some opts"
      by (auto simp: main_start_def split: option.splits)
    with assms(1) obtain r where "main_setup env opts = Inr r"
      by (auto simp: main_start_def andthen_eq_Inr)
    with assms(1) opts that show thesis by (cases r) (auto simp: main_start_def)
  qed
  obtain r v1 where 1: "sr_connect_to_server depth os (reaches env (opt_server opts) (ucast (opt_port opts))) v0 = Inr (r, v1)"
    using 0(3) by (auto simp: main_connect_def andthen_eq_Inr)
  obtain name v2 where 2: "sr_load_rt_wrap env name v1 = Inr (Some v2)" "v = v2\<lparr>router := sr_init (router v2)\<rparr>"
    using 0(3) 1 unfolding main_connect_def by (auto simp: andthen_eq_Inr split: if_splits option.splits)
  have "start_ok (router v2)"
    using main_setup_ok [OF 0(2) assms(2) 0(1)] start_ok_same_router [OF connect_same_router [OF 1]] start_ok_load [OF 2(1)]
    by simp
  moreover have "cache_ok (sr_init (router v2))"
    by (simp add: cache_ok_def router_inv_def sr_init_def arp_inv_init) (simp add: sr_arpcache_init_def)
  ultimately show ?thesis
    by (simp add: loop_inv_def 2(2) start_ok_def sr_init_def)
qed

definition main_started :: "env \<Rightarrow> vns \<Rightarrow> bool" where
  "main_started env v \<longleftrightarrow> env_ok env \<and> (\<exists>depth os. main_start depth os env = Inr (Running v))"

interpretation sr: step_system main_step "main_started env" loop_inv for env
  by unfold_locales (auto simp: main_started_def intro: main_start_inv loop_inv_step)

section \<open>Starting a session\<close>

definition auth_request_msg :: "byte list \<Rightarrow> byte list" where
  "auth_request_msg salt = bytes32 (htonl (word_of_nat (8 + length salt))) @ bytes32 (htonl VNS_AUTH_REQUEST) @ salt"

definition auth_status_msg :: "byte list \<Rightarrow> byte list" where
  "auth_status_msg msg = bytes32 (htonl (word_of_nat (9 + length msg))) @ bytes32 (htonl VNS_AUTH_STATUS) @ [1] @ msg"

lemma auth_msgs [simp]:
  "length (auth_request_msg salt) = 8 + length salt" "length (auth_status_msg msg) = 9 + length msg"
  "ntohl (ld32 0 (auth_request_msg salt)) = word_of_nat (8 + length salt)"
  "ntohl (ld32 4 (auth_request_msg salt)) = VNS_AUTH_REQUEST" "drop 8 (auth_request_msg salt) = salt"
  "ntohl (ld32 0 (auth_status_msg msg)) = word_of_nat (9 + length msg)"
  "ntohl (ld32 4 (auth_status_msg msg)) = VNS_AUTH_STATUS" "auth_status_msg msg ! 8 = 1"
  by (simp_all add: auth_request_msg_def auth_status_msg_def buffer_simps rd_whole nth_append)

text \<open>The server asks for a reply to a salt, and accepts it.\<close>

lemma connect_accepted:
  assumes "stream (incoming v) = auth_request_msg salt @ auth_status_msg msg @ rest"
    and "length salt \<le> 9992" and "length msg \<le> 9991" and "write_all os"
    and "auth_key v = Some (key @ more_text)" and "length key = 64" and "10 \<notin> set key"
    and "0 \<in> set (sr_user (router v))" and "cstr (sr_template (router v)) = []"
  shows "\<exists>evs. stream evs = rest \<and> sr_connect_to_server depth os True v =
    Inr (0, v\<lparr>incoming := evs, router := (router v)\<lparr>wire := wire (router v) @
      [auth_reply_msg (sr_user (router v)) (vars_list (sha1 (salt @ key))), c_open_msg (router v)]\<rparr>\<rparr>)"
proof -
  let ?reply = "auth_reply_msg (sr_user (router v)) (vars_list (sha1 (salt @ key)))"
  obtain evs1 where 1: "stream evs1 = auth_status_msg msg @ rest"
    "sr_read_from_server_expect depth os v VNS_AUTH_REQUEST =
     vns_command depth os (v\<lparr>incoming := evs1\<rparr>) VNS_AUTH_REQUEST (auth_request_msg salt)"
    using read_command [OF assms(1), of depth os VNS_AUTH_REQUEST] assms(2) by auto
  let ?v1 = "v\<lparr>incoming := evs1, router := (router v)\<lparr>wire := wire (router v) @ [?reply]\<rparr>\<rparr>"
  have 2: "sr_read_from_server_expect depth os v VNS_AUTH_REQUEST = Inr (1, ?v1)"
    using auth_reply_sent [OF assms(4), of "v\<lparr>incoming := evs1\<rparr>" key more_text "auth_request_msg salt"] assms(2,5-8) 1(2)
    by (simp add: vns_command_def vns_commands)
  obtain evs2 where 3: "stream evs2 = rest"
    "sr_read_from_server_expect depth os ?v1 VNS_AUTH_STATUS =
     vns_command depth os (?v1\<lparr>incoming := evs2\<rparr>) VNS_AUTH_STATUS (auth_status_msg msg)"
    using read_command [of ?v1 "auth_status_msg msg" rest depth os VNS_AUTH_STATUS] 1(1) assms(3) by auto
  have 4: "sr_read_from_server_expect depth os ?v1 VNS_AUTH_STATUS = Inr (1, ?v1\<lparr>incoming := evs2\<rparr>)"
    using 3(2) by (simp add: vns_command_def vns_commands sr_handle_auth_status_def)
  have "c_open_msg ((router v)\<lparr>wire := w\<rparr>) = c_open_msg (router v)" for w
    by (simp add: c_open_msg_def)
  then have "sr_connect_to_server depth os True v = Inr (0, v\<lparr>incoming := evs2, router := (router v)\<lparr>wire := wire (router v) @
      [?reply, c_open_msg (router v)]\<rparr>\<rparr>)"
    using 2 4 assms(4,9) by (simp add: sr_connect_to_server_def write_all_def)
  with 3(1) show ?thesis by blast
qed

text \<open>A table loaded with success does not depend on what was there before.\<close>

lemma load_lines_clears:
  assumes "load_lines False bufs rt lines = Inr (0, rt1)" and "lines \<noteq> []"
  shows "load_lines False bufs rt0 lines = Inr (0, rt1)"
  using assms by (cases lines) (auto simp: andthen_eq_Inr split: option.splits)

lemma reload_table:
  assumes "sr_load_rt content bufs [] = Inr (0, rt)"
  shows "sr_load_rt content bufs rt = Inr (0, rt)"
proof (cases content)
  case (Some lines)
  with assms show ?thesis
    using load_lines_clears [of bufs "[]" lines rt rt] by (cases "lines = []") (auto simp: sr_load_rt_def)
qed (use assms in \<open>simp add: sr_load_rt_def\<close>)

text \<open>The name the router reports: the option, the login name or a substitute.\<close>

definition user_name :: "env \<Rightarrow> options \<Rightarrow> byte list" where
  "user_name env opts =
     (case opt_user opts of
        Some user \<Rightarrow> user
      | None \<Rightarrow> (case pw_name env of Some name \<Rightarrow> name | None \<Rightarrow> ascii ''something_silly''))"

lemma main_names_eq:
  "main_names env opts sr = sr\<lparr>topo_id := ucast (opt_topo opts), sr_host := strncpy 32 (opt_host opts),
     sr_user := strncpy 32 (user_name env opts)\<rparr>"
  by (simp add: main_names_def user_name_def sr_set_user_def split: option.split)

lemma terminated_strncpy: "length (cstr s) < n \<Longrightarrow> 0 \<in> set (strncpy n s)"
  by (simp add: strncpy_def Let_def)

definition opened_log :: "options \<Rightarrow> dump_file option" where
  "opened_log opts = map_option (\<lambda>_. file_header_bytes router_dump_header) (opt_logfile opts)"

definition log_writable :: "env \<Rightarrow> options \<Rightarrow> bool" where
  "log_writable env opts = (case opt_logfile opts of None \<Rightarrow> True | Some fname \<Rightarrow> writable env (cstr fname))"

lemma main_logfile_opened:
  assumes "log_writable env opts" and "env_ok env" and "parse_options (argv env) = Some opts" and "logfile (router v) = None"
  shows "main_logfile env opts v = Running (v\<lparr>router := (router v)\<lparr>logfile := opened_log opts\<rparr>\<rparr>)"
proof (cases "opt_logfile opts")
  case None
  have "v = v\<lparr>router := (router v)\<lparr>logfile := None\<rparr>\<rparr>" using assms(4) by (cases v; cases "router v") simp
  with None show ?thesis by (simp add: main_logfile_def opened_log_def)
next
  case (Some fname)
  then have f: "cstr fname \<noteq> [45]" "writable env (cstr fname)"
    using assms(1-3) by (simp_all add: log_writable_def env_ok_def)
  then obtain fp where "sr_dump_open (writable env) (printed env) fname 0 (word_of_nat PACKET_DUMP_SIZE) = Some fp"
    by (simp add: sr_dump_open_def)
  with Some dump_open_header [OF this f(1)] show ?thesis
    by (simp add: main_logfile_def opened_log_def)
qed

lemma setup_plain:
  assumes "opt_template opts = None" and "log_writable env opts" and "env_ok env" and "parse_options (argv env) = Some opts"
    and "files env (opt_rtable opts) = Some table" and "sr_load_rt (Some (file_lines table)) (stack_bufs env) [] = Inr (0, rt)"
  shows "main_setup env opts = Inr (Running \<lparr>router = (main_names env opts ((sr_init_instance (stack_instance env))
      \<lparr>sr_template := (sr_template (stack_instance env))[0 := 0], routing_table := rt\<rparr>))\<lparr>logfile := opened_log opts\<rparr>,
    incoming = conn env, auth_key = key_file env, can_create = may_create env, created = [], sock_closed = False\<rparr>)"
  using assms(1,5,6) main_logfile_opened [OF assms(2-4)]
  by (simp add: main_setup_def main_table_def sr_load_rt_wrap_def file_at_def main_names_eq sr_init_instance_def)

text \<open>The router with which the session starts, before it has written anything.\<close>

definition started_router :: "env \<Rightarrow> options \<Rightarrow> sr_rt list \<Rightarrow> sr_instance" where
  "started_router env opts rt = (main_names env opts ((sr_init_instance (stack_instance env))
     \<lparr>sr_template := (sr_template (stack_instance env))[0 := 0], routing_table := rt\<rparr>))\<lparr>logfile := opened_log opts\<rparr>"

lemma started_router_fields [simp]:
  "wire (started_router env opts rt) = []" "sr_user (started_router env opts rt) = strncpy 32 (user_name env opts)"
  "sr_host (started_router env opts rt) = strncpy 32 (opt_host opts)" "topo_id (started_router env opts rt) = ucast (opt_topo opts)"
  "routing_table (started_router env opts rt) = rt" "if_list (started_router env opts rt) = []"
  "sr_template (started_router env opts rt) = (sr_template (stack_instance env))[0 := 0]"
  "logfile (started_router env opts rt) = opened_log opts"
  by (simp_all add: started_router_def main_names_eq sr_init_instance_def)

lemma start_session:
  assumes "parse_options (argv env) = Some opts" and "opt_template opts = None" and "log_writable env opts"
    and "files env (opt_rtable opts) = Some table" and "sr_load_rt (Some (file_lines table)) (stack_bufs env) [] = Inr (0, rt)"
    and "reaches env (opt_server opts) (ucast (opt_port opts))" and "write_all os" and "env_ok env"
    and "key_file env = Some (key @ more_text)" and "length key = 64" and "10 \<notin> set key"
    and "length (cstr (user_name env opts)) < 32"
    and "stream (conn env) = auth_request_msg salt @ auth_status_msg msg @ rest" and "length salt \<le> 9992" and "length msg \<le> 9991"
  shows "\<exists>evs. stream evs = rest \<and> main_start depth os env = Inr (Running
    \<lparr>router = sr_init ((started_router env opts rt)\<lparr>wire := [auth_reply_msg (strncpy 32 (user_name env opts))
       (vars_list (sha1 (salt @ key))), c_open_msg (started_router env opts rt)]\<rparr>),
     incoming = evs, auth_key = key_file env, can_create = may_create env, created = [], sock_closed = False\<rparr>)"
proof -
  let ?sr = "started_router env opts rt"
  define v where "v = \<lparr>router = ?sr, incoming = conn env, auth_key = key_file env, can_create = may_create env,
      created = [], sock_closed = False\<rparr>"
  have "length (sr_template (stack_instance env)) = 30"
    using assms(8) by (simp add: env_ok_def)
  then have "cstr (sr_template ?sr) = []"
    by (cases "sr_template (stack_instance env)") (auto simp: cstr_def)
  then obtain evs where evs: "stream evs = rest" "sr_connect_to_server depth os True v = Inr (0, v\<lparr>incoming := evs,
      router := ?sr\<lparr>wire := [auth_reply_msg (sr_user ?sr) (vars_list (sha1 (salt @ key))), c_open_msg ?sr]\<rparr>\<rparr>)"
    using connect_accepted [of v salt msg rest os key more_text depth] assms(7,9-15) terminated_strncpy [OF assms(12)]
    by (auto simp: v_def)
  let ?w = "?sr\<lparr>wire := [auth_reply_msg (sr_user ?sr) (vars_list (sha1 (salt @ key))), c_open_msg ?sr]\<rparr>"
  have "r\<lparr>wire := w, routing_table := routing_table r\<rparr> = r\<lparr>wire := w\<rparr>" for r :: sr_instance and w by simp
  from this [of ?sr] have same: "?sr\<lparr>wire := w, routing_table := rt\<rparr> = ?sr\<lparr>wire := w\<rparr>" for w
    by (simp only: started_router_fields)
  have "main_connect depth os env opts v = Inr (Running (v\<lparr>incoming := evs, router := sr_init ?w\<rparr>))"
    using evs(2) assms(2,4,6) reload_table [OF assms(5)]
    by (simp add: main_connect_def sr_load_rt_wrap_def file_at_def v_def same)
  then have "main_start depth os env = Inr (Running (v\<lparr>incoming := evs, router := sr_init ?w\<rparr>))"
    using setup_plain [OF assms(2,3,8,1,4,5)] assms(1) by (simp add: main_start_def v_def started_router_def)
  with evs(1) show ?thesis by (auto simp: v_def)
qed

text \<open>
  C7: the router comes up. Started without a template, with a readable routing table, a 64-byte
  key and a server that asks for authentication with some salt and accepts the answer, \<^verbatim>\<open>main\<close> reaches its loop.
  It has written exactly two messages, the reply with the user name and the SHA-1 digest of salt and key,
  and the open command with topology, host and user of the command line; the routing table is the file's
  although it has been loaded twice, the ARP cache is empty,
  a requested dump file holds its header, and what else the server sent is unread.
\<close>

theorem session_established:
  assumes "parse_options (argv env) = Some opts" and "opt_template opts = None" and "log_writable env opts"
    and "files env (opt_rtable opts) = Some table" and "sr_load_rt (Some (file_lines table)) (stack_bufs env) [] = Inr (0, rt)"
    and "reaches env (opt_server opts) (ucast (opt_port opts))" and "write_all os" and "env_ok env"
    and "key_file env = Some (key @ more_text)" and "length key = 64" and "10 \<notin> set key"
    and "length (cstr (user_name env opts)) < 32"
    and "stream (conn env) = auth_request_msg salt @ auth_status_msg msg @ rest" and "length salt \<le> 9992" and "length msg \<le> 9991"
  shows "\<exists>v. main_start depth os env = Inr (Running v) \<and> stream (incoming v) = rest \<and>
    wire (router v) = [auth_reply_msg (sr_user (router v)) (vars_list (sha1 (salt @ key))), c_open_msg (router v)] \<and>
    sr_user (router v) = strncpy 32 (user_name env opts) \<and> sr_host (router v) = strncpy 32 (opt_host opts) \<and>
    topo_id (router v) = ucast (opt_topo opts) \<and> routing_table (router v) = rt \<and> if_list (router v) = [] \<and>
    cache (router v) = sr_arpcache_init \<and> logfile (router v) = opened_log opts"
proof -
  have "c_open_msg (sr_init (r\<lparr>wire := w\<rparr>)) = c_open_msg r" for r w
    by (simp add: c_open_msg_def sr_init_def)
  with start_session [OF assms, of depth] show ?thesis
    by (elim exE conjE, intro exI conjI) (assumption, simp_all add: sr_init_def)
qed

text \<open>A text in which every line ends with a newline is read line by line.\<close>

lemma fgets_line:
  assumes "10 \<notin> set l" and "length l < 8191"
  shows "fgets 8192 (l @ 10 # rest) = Some (l @ [10])"
proof -
  have "takeWhile (\<lambda>c. c \<noteq> 10) (l @ 10 # rest) = l" "dropWhile (\<lambda>c. c \<noteq> 10) (l @ 10 # rest) = 10 # rest"
    using assms(1) by (induction l) auto
  with assms(2) show ?thesis by (simp add: fgets_def)
qed

lemma file_lines_single:
  assumes "10 \<notin> set l" and "length l < 8191"
  shows "file_lines (l @ [10]) = [l @ [10]]"
proof -
  have "file_lines [] = []" by (subst file_lines.simps) (simp add: fgets_def)
  with fgets_line [OF assms, of "[]"] show ?thesis
    by (subst file_lines.simps) simp
qed

definition demo_env :: env where
  "demo_env = \<lparr>argv = [ascii ''-l'', ascii ''log''], stack_instance = demo_sr, stack_bufs = [],
     files = (\<lambda>name. if name = ascii ''rtable'' then Some (sr_print_routing_entry demo_route) else None),
     writable = (\<lambda>_. True), printed = [], pw_name = Some [117], reaches = (\<lambda>_ _. True),
     conn = [Segment (auth_request_msg [1, 2, 3] @ auth_status_msg [])], key_file = Some (replicate 64 107),
     may_create = True\<rparr>"

definition demo_options :: options where
  "demo_options = default_options\<lparr>opt_logfile := Some (ascii ''log'')\<rparr>"

lemma demo_env_options: "parse_options (argv demo_env) = Some demo_options"
  by (simp add: parse_options_def demo_env_def demo_options_def set_option_def ascii_def)

lemma demo_env_ok: "env_ok demo_env"
  by (simp add: env_ok_def demo_env_options) (simp add: demo_env_def demo_options_def demo_sr_def ascii_def cstr_def)

lemma demo_env_table:
  "sr_load_rt (Some (file_lines (sr_print_routing_entry demo_route))) [] [] = Inr (0, [demo_route])"
proof -
  have nm: "cstr (strncpy 32 [101, 116, 104, 50]) = [101, 116, 104, 50]"
    unfolding cstr_strncpy by (simp add: cstr_def)
  then have p: "printable_route demo_route"
    by (simp add: printable_route_def demo_route_def is_space_def)
  let ?l = "butlast (sr_print_routing_entry demo_route)"
  have "10 \<notin> set (inet_ntoa a)" "length (inet_ntoa a) < 20" for a
    using inet_ntoa_chars [of a] print_addr_ip_in_bounds [of a]
    by (auto simp: list_all_iff is_dec_def print_addr_ip_def INET_ADDRSTRLEN_def need_eq_Inr)
  note ntoa = this
  have "10 \<notin> set ?l"
    using nm ntoa(1) by (simp add: sr_print_routing_entry_def demo_route_def butlast_append)
  moreover have "length ?l < 8191"
    using nm ntoa(2) [of "rt_dest demo_route"] ntoa(2) [of "rt_gw demo_route"] ntoa(2) [of "rt_mask demo_route"]
    by (simp add: sr_print_routing_entry_def demo_route_def butlast_append)
  moreover have "sr_print_routing_entry demo_route = ?l @ [10]"
    by (simp add: sr_print_routing_entry_def butlast_append)
  ultimately have "file_lines (sr_print_routing_entry demo_route) = [sr_print_routing_entry demo_route]"
    using file_lines_single by metis
  then show ?thesis
    using load_printed_entries [of "[demo_route]" False "[]" "[]"] p by (simp add: sr_load_rt_def)
qed

lemma demo_env_fields:
  "opt_template demo_options = None" "log_writable demo_env demo_options"
  "files demo_env (opt_rtable demo_options) = Some (sr_print_routing_entry demo_route)"
  "stack_bufs demo_env = []" "reaches demo_env (opt_server demo_options) (ucast (opt_port demo_options))"
  "key_file demo_env = Some (replicate 64 107 @ [])" "user_name demo_env demo_options = [117]"
  "stream (conn demo_env) = auth_request_msg [1, 2, 3] @ auth_status_msg [] @ []"
  by (simp_all add: demo_env_def demo_options_def default_options_def log_writable_def user_name_def)

theorem session_established_witness:
  "\<exists>v. main_start 1 demo_os demo_env = Inr (Running v) \<and> routing_table (router v) = [demo_route] \<and>
     logfile (router v) = Some (file_header_bytes router_dump_header)"
proof -
  have "length (cstr (user_name demo_env demo_options)) < 32"
    by (simp add: demo_env_fields cstr_def)
  from session_established [OF demo_env_options demo_env_fields(1-3) _ demo_env_fields(5) demo_write_all demo_env_ok
      demo_env_fields(6) _ _ this demo_env_fields(8), of "[demo_route]" 1]
  show ?thesis
    using demo_env_table by (simp add: demo_env_fields(4)) (auto simp: opened_log_def demo_options_def)
qed

section \<open>Invariants of the running program\<close>

text \<open>
  C13: the data of the router stay well typed. In every state the main loop reaches, the name arrays of the
  instance have their declared 32, 32 and 30 bytes, every interface has a name of 32 and an address of 6
  bytes whatever hardware descriptions the server has sent, every route names its interface in 32 bytes, and the ARP
  cache has 100 entries with six-byte addresses.
\<close>

theorem router_state_typed:
  assumes "env_ok env" and "main_start depth os env = Inr (Running v0)" and "reachable_from main_step v0 v"
  shows "length (sr_user (router v)) = 32 \<and> length (sr_host (router v)) = 32 \<and> length (sr_template (router v)) = 30 \<and>
    (\<forall>i \<in> set (if_list (router v)). length (if_name i) = 32 \<and> length (if_addr i) = 6) \<and>
    (\<forall>r \<in> set (routing_table (router v)). length (rt_interface r) = 32) \<and>
    length (entries (cache (router v))) = 100 \<and> (\<forall>e \<in> set (entries (cache (router v))). length (ent_mac e) = 6)"
proof -
  have "loop_inv v"
    using sr.reachable_inv [OF assms(3), of env] assms(1,2) by (auto simp: main_started_def)
  then show ?thesis
    by (auto simp: loop_inv_def sr_typed_def if_typed_def cache_ok_def router_inv_def arp_inv_def SR_ARPCACHE_SZ_def
        list_all_iff)
qed

text \<open>
  The dump file is a pcap file after every turn. As long as the turns of the two threads do not overlap and the file is
  not the standard output, a reader finds the file header and complete records of at most 1024 bytes, and nothing else.
\<close>

theorem dump_always_valid:
  assumes "env_ok env" and "main_start depth os env = Inr (Running v0)" and "reachable_from main_step v0 v"
    and "logfile (router v) = Some f"
  shows "\<exists>rs. read_dump f = Some (router_dump_header, rs) \<and> (\<forall>r \<in> set rs. length (snd r) \<le> 1024) \<and>
    main_finish v = (0, Some f)"
proof -
  have "loop_inv v"
    using sr.reachable_inv [OF assms(3), of env] assms(1,2) by (auto simp: main_started_def)
  then show ?thesis
    using dump_ok_read [OF _ assms(4)] assms(4)
    by (auto simp: loop_inv_def main_finish_def sr_destroy_instance_def)
qed

lemma demo_user: "length (cstr (user_name demo_env demo_options)) < 32"
  by (simp add: demo_env_fields cstr_def)

lemmas demo_start = start_session [OF demo_env_options demo_env_fields(1-3) _ demo_env_fields(5) demo_write_all demo_env_ok
  demo_env_fields(6) _ _ demo_user demo_env_fields(8), of "[demo_route]" 1]

lemma demo_main:
  obtains v0 v where "main_start 1 demo_os demo_env = Inr (Running v0)" "main_step v0 v"
    "logfile (router v) = Some (file_header_bytes router_dump_header)" "routing_table (router v) = [demo_route]"
proof -
  obtain v0 where v0: "main_start 1 demo_os demo_env = Inr (Running v0)" "cache (router v0) = sr_arpcache_init"
      "logfile (router v0) = Some (file_header_bytes router_dump_header)" "routing_table (router v0) = [demo_route]"
    using demo_start demo_env_table by (auto simp: demo_env_fields(4) sr_init_def opened_log_def demo_options_def)
  obtain sr where "sr_arpcache_timeout 1 demo_os (router v0) = Inr sr"
    "sr = (router v0)\<lparr>cache := expire_entries 100 (cache (router v0))\<rparr>"
    by (simp add: sr_arpcache_timeout_def sr_arpcache_sweepreqs_def v0(2) sr_arpcache_init_def expire_entries_def demo_os_def)
  with v0 main_step.timer [of 1 demo_os v0 sr] that show thesis by simp
qed

theorem router_state_typed_witness:
  "\<exists>v0 v. main_start 1 demo_os demo_env = Inr (Running v0) \<and> reachable_from main_step v0 v \<and>
     length (sr_user (router v)) = 32 \<and> length (entries (cache (router v))) = 100"
proof -
  obtain v0 v where v: "main_start 1 demo_os demo_env = Inr (Running v0)" "main_step v0 v"
    by (rule demo_main)
  then have "reachable_from main_step v0 v"
    by (metis reachable_from.next_state reachable_from.start)
  with v router_state_typed [OF demo_env_ok v(1)] show ?thesis by blast
qed

theorem dump_always_valid_witness:
  "\<exists>v0 v f rs. main_start 1 demo_os demo_env = Inr (Running v0) \<and> main_step v0 v \<and>
     logfile (router v) = Some f \<and> read_dump f = Some (router_dump_header, rs)"
proof -
  obtain v0 v where v: "main_start 1 demo_os demo_env = Inr (Running v0)" "main_step v0 v"
    "logfile (router v) = Some (file_header_bytes router_dump_header)"
    by (rule demo_main)
  then have "reachable_from main_step v0 v"
    by (metis reachable_from.next_state reachable_from.start)
  with v dump_always_valid [OF demo_env_ok v(1)] show ?thesis by blast
qed

section \<open>The table of a template\<close>

text \<open>
  A router started from a template asks the server for a routing table, which is stored under the name
  \<^verbatim>\<open>rtable.\<close> followed by the host, but the file read afterwards is the one of the option \<^verbatim>\<open>-r\<close> in both
  branches: whether a template is used makes no difference to the table.
\<close>

theorem template_table_ignored:
  assumes "0 \<notin> set (opt_rtable opts)"
  shows "main_connect depth os env opts v =
    andthen (sr_connect_to_server depth os (reaches env (opt_server opts) (ucast (opt_port opts))) v) (\<lambda>(r, v).
      if r = -1 then Inr (Exit 1)
      else andthen (sr_load_rt_wrap env (opt_rtable opts) v)
        (\<lambda>r. Inr (case r of None \<Rightarrow> Exit 1 | Some v \<Rightarrow> Running (v\<lparr>router := sr_init (router v)\<rparr>))))"
proof -
  have "(if opt_template opts \<noteq> None \<and> cstr (opt_rtable opts) = ascii ''rtable.vrhost''
      then sr_load_rt_wrap env (ascii ''rtable.vrhost'') u else sr_load_rt_wrap env (opt_rtable opts) u) =
      sr_load_rt_wrap env (opt_rtable opts) u" for u
    using cstr_id [OF assms] by auto
  then show ?thesis by (simp only: main_connect_def)
qed

end
