(* ===== verification/Vns_Sent.thy ===== *)
theory Vns_Sent
  imports Vns_Messages Sr_Main
begin

text \<open>
  Everything the router writes to the server, from the start of the program on: the messages of the start of the session, the
  replies to requests to authenticate, and the packets sent by the handlers and by the timer.
\<close>

section \<open>The replies and the messages of the start\<close>

text \<open>The messages that open a session, and the replies to requests to authenticate.\<close>

definition session_message :: "byte list \<Rightarrow> bool" where
  "session_message m \<longleftrightarrow>
     (\<exists>user digest. length digest = 20 \<and> m = encode (c_auth_reply user digest)) \<or>
     (\<exists>topo host user pass. sized (c_open topo host user pass) \<and> m = encode (c_open topo host user pass)) \<or>
     (\<exists>nm host. sized (c_open_template nm host []) \<and> m = encode (c_open_template nm host []))"

definition adds_messages :: "(byte list \<Rightarrow> bool) \<Rightarrow> vns \<Rightarrow> vns \<Rightarrow> bool" where
  "adds_messages P v v' \<longleftrightarrow> (\<exists>ms. wire (router v') = wire (router v) @ ms \<and> list_all P ms)"

lemma adds_messages_trans: "adds_messages P u v \<Longrightarrow> adds_messages P v w \<Longrightarrow> adds_messages P u w"
  unfolding adds_messages_def by (metis append.assoc list_all_append)

lemma adds_messages_same: "wire (router v') = wire (router v) \<Longrightarrow> adds_messages P v v'"
  by (auto simp: adds_messages_def intro!: exI [of _ "[]"])

lemma adds_messages_mono: "adds_messages P v v' \<Longrightarrow> (\<And>m. P m \<Longrightarrow> Q m) \<Longrightarrow> adds_messages Q v v'"
  by (auto simp: adds_messages_def list_all_iff)

lemma auth_request_adds:
  assumes "sr_handle_auth_request os v req = Inr (r, v')" and "write_all os" and "length req < 2 ^ 32"
  shows "adds_messages session_message v v'"
proof (cases "auth_key v")
  case (Some key_bytes)
  show ?thesis
  proof (cases "fgets (AUTH_KEY_LEN + 1) key_bytes")
    case (Some line)
    let ?key = "upd 0 (line @ [0]) (malloc os (AUTH_KEY_LEN + 1))"
    have "8 * (length (drop 8 req) + length (take AUTH_KEY_LEN ?key)) < 2 ^ 64"
      using assms(3) by (simp add: AUTH_KEY_LEN_def)
    then obtain c where c: "SHA1Result (SHA1Input (SHA1Input (SHA1Reset (stack_context os)) (drop 8 req)) (take AUTH_KEY_LEN ?key)) = (True, c)"
      "Message_Digest c = vars_list (sha1 (drop 8 req @ take AUTH_KEY_LEN ?key))"
      using SHA1_two_inputs [of "stack_context os" "drop 8 req" "take AUTH_KEY_LEN ?key"] by (auto simp: stack_context_def)
    have five: "length (vars_list x) = 5" for x by (cases x) (simp add: vars_list_def)
    then have "length (digest_bytes (Message_Digest c)) = 20"
      unfolding c(2) digest_bytes_def by (simp add: length_concat comp_def sum_list_triv)
    then have "session_message (auth_reply_msg (sr_user (router v)) (Message_Digest c))"
      unfolding session_message_def using sent_layouts(3) [of "Message_Digest c"] five c(2) by (metis (no_types))
    then show ?thesis
      using assms(1,2) \<open>auth_key v = Some key_bytes\<close> Some c(1)
      by (auto simp: sr_handle_auth_request_def Let_def need_eq_Inr write_all_def adds_messages_def)
  qed (use assms(1) Some in \<open>auto simp: sr_handle_auth_request_def adds_messages_same\<close>)
qed (use assms(1) in \<open>auto simp: sr_handle_auth_request_def adds_messages_same\<close>)

text \<open>What a command of the server can make the router write.\<close>

definition sent_by_router :: "sr_if list \<Rightarrow> byte list \<Rightarrow> bool" where
  "sent_by_router ifs m \<longleftrightarrow> session_message m \<or> packet_message ifs m"

lemma command_adds:
  assumes "vns_command depth os v command buf = Inr (r, v')" and "write_all os" and "length buf < 2 ^ 32"
  shows "adds_messages (sent_by_router (if_list (router v))) v v'"
    "command \<noteq> VNSPACKET \<Longrightarrow> adds_messages session_message v v'"
proof -
  have packet: "adds_messages (packet_message (if_list (router v))) v (v\<lparr>router := sr\<rparr>)"
    if "sr_handlepacket depth os (sr_log_packet os (router v) p) p i = Inr sr" for sr p i
  proof -
    have "wire_ok (wire (router v)) (if_list (router v)) (sr_log_packet os (router v) p)"
      by (simp add: wire_ok_def sr_log_packet_def Let_def split: option.split)
    from wire_msgs.handlepacket [OF that assms(2) this] show ?thesis by (simp add: wire_ok_def adds_messages_def)
  qed
  have auth: "adds_messages session_message v w" if "sr_handle_auth_request os v buf = Inr (n, w)" for n w
    using auth_request_adds [OF that assms(2,3)] .
  have rtable: "adds_messages P v w" if "sr_handle_rtable v buf = Inr (n, w)" for n w P
    using that by (intro adds_messages_same) (auto simp: sr_handle_rtable_def Let_def need_eq_Inr split: if_splits)
  have hwinfo: "adds_messages P v (v\<lparr>router := sr\<rparr>)" if "sr_handle_hwinfo os (router v) buf = Inr (n, sr)" for n sr P
    using that by (intro adds_messages_same) (auto simp: sr_handle_hwinfo_def Let_def andthen_eq_Inr)
  show other: "adds_messages session_message v v'" if "command \<noteq> VNSPACKET"
    using assms(1) that auth rtable hwinfo
    by (auto simp: vns_command_def Let_def need_eq_Inr andthen_eq_Inr adds_messages_same split: if_splits)
  have "adds_messages (packet_message (if_list (router v))) v v'" if "command = VNSPACKET"
    using assms(1) that packet by (auto simp: vns_command_def Let_def need_eq_Inr andthen_eq_Inr adds_messages_same split: if_splits)
  with other show "adds_messages (sent_by_router (if_list (router v))) v v'"
    by (cases "command = VNSPACKET") (auto elim!: adds_messages_mono simp: sent_by_router_def)
qed

lemma unat_below: "unat (w :: uint32) < 2 ^ 32"
  using unsigned_less [of w] by simp

lemma read_adds:
  assumes "sr_read_from_server_expect depth os v cmd = Inr (r, v')" and "write_all os"
  shows "adds_messages (sent_by_router (if_list (router v))) v v'"
    "cmd \<noteq> 0 \<Longrightarrow> cmd \<noteq> VNSPACKET \<Longrightarrow> adds_messages session_message v v'"
proof -
  show "adds_messages (sent_by_router (if_list (router v))) v v'"
    using assms(1)
  proof (cases rule: read_cases)
    case (handled v1 buf)
    moreover have "length buf < 2 ^ 32" using unat_below [of "ntohl (ld32 0 buf)"] handled(5) by simp
    ultimately show ?thesis using command_adds(1) [OF handled(3) assms(2)] by (simp add: adds_messages_def)
  qed (simp add: adds_messages_same)
  show "adds_messages session_message v v'" if "cmd \<noteq> 0" "cmd \<noteq> VNSPACKET"
    using assms(1)
  proof (cases rule: read_cases)
    case (handled v1 buf)
    moreover have "length buf < 2 ^ 32" using unat_below [of "ntohl (ld32 0 buf)"] handled(5) by simp
    moreover have "ntohl (ld32 4 buf) \<noteq> VNSPACKET" using handled(6) that by (auto simp: vns_commands)
    ultimately show ?thesis using command_adds(2) [OF handled(3) assms(2)] by (simp add: adds_messages_def)
  qed (simp add: adds_messages_same)
qed

lemma open_message: "session_message (if template then c_open_template_msg sr else c_open_msg sr)"
proof (cases template)
  case True
  have "sized (c_open_template (strncpy 30 (sr_template sr)) (strncpy IDSIZE (sr_host sr)) [])" by simp
  with True sent_layouts(2) [of sr] show ?thesis unfolding session_message_def by (metis (full_types))
next
  case False
  have "sized (c_open (topo_id sr) (strncpy IDSIZE (sr_host sr)) (strncpy IDSIZE (sr_user sr)) (replicate IDSIZE 0))" by simp
  with False sent_layouts(1) [of sr] show ?thesis unfolding session_message_def by (metis (full_types))
qed

lemma connect_adds:
  assumes "sr_connect_to_server depth os reached v = Inr (r, v')" and "write_all os"
  shows "adds_messages session_message v v'"
proof -
  note adds = read_adds(2) [OF _ assms(2)]
  show ?thesis
  proof (cases reached)
    case True
    then obtain r1 v1 where 1: "sr_read_from_server_expect depth os v VNS_AUTH_REQUEST = Inr (r1, v1)"
      using assms(1) by (auto simp: sr_connect_to_server_def andthen_eq_Inr)
    have a1: "adds_messages session_message v v1" using adds [OF 1] by (simp add: vns_commands)
    show ?thesis
    proof (cases "r1 = 1")
      case r1: True
      then obtain r2 v2 where 2: "sr_read_from_server_expect depth os v1 VNS_AUTH_STATUS = Inr (r2, v2)"
        using True assms(1) 1 by (auto simp: sr_connect_to_server_def andthen_eq_Inr)
      have a2: "adds_messages session_message v v2"
        using adds_messages_trans [OF a1] adds [OF 2] by (simp add: vns_commands)
      let ?m = "if cstr (sr_template (router v2)) \<noteq> [] then c_open_template_msg (router v2) else c_open_msg (router v2)"
      let ?v3 = "v2\<lparr>router := (router v2)\<lparr>wire := wire (router v2) @ [?m]\<rparr>\<rparr>"
      have a3: "adds_messages session_message v ?v3"
      proof (rule adds_messages_trans [OF a2])
        show "adds_messages session_message v2 ?v3"
          unfolding adds_messages_def using open_message by (intro exI [of _ "[?m]"]) simp
      qed
      have a4: "adds_messages session_message v t" if "sr_read_from_server_expect depth os ?v3 VNS_RTABLE = Inr (q, t)" for q t
        using adds_messages_trans [OF a3] adds [OF that] by (simp add: vns_commands)
      show ?thesis
        using True assms 1 r1 2 a2 a3 a4
        by (auto simp: sr_connect_to_server_def andthen_eq_Inr Let_def write_all_def split: if_splits)
    qed (use True assms(1) 1 a1 in \<open>auto simp: sr_connect_to_server_def\<close>)
  qed (use assms(1) in \<open>auto simp: sr_connect_to_server_def adds_messages_same\<close>)
qed

lemma load_wire: "sr_load_rt_wrap env name v = Inr (Some v') \<Longrightarrow> wire (router v') = wire (router v)"
  by (auto simp: sr_load_rt_wrap_def andthen_eq_Inr split: option.splits if_splits)

lemma setup_wire:
  assumes "main_setup env opts = Inr (Running v)"
  shows "wire (router v) = []"
proof -
  let ?v = "\<lparr>router = sr_init_instance (stack_instance env), incoming = conn env, auth_key = key_file env,
    can_create = may_create env, created = [], sock_closed = False\<rparr>"
  obtain v1 where v1: "main_table env opts ?v = Inr (Some v1)"
    "main_logfile env opts (v1\<lparr>router := main_names env opts (router v1)\<rparr>) = Running v"
    using assms by (auto simp: main_setup_def andthen_eq_Inr split: option.splits)
  have "wire (router v1) = wire (router ?v)"
    using v1(1) load_wire by (fastforce simp: main_table_def split: option.splits)
  moreover have "wire (router v) = wire (router v1)"
    using v1(2) by (auto simp: main_logfile_def main_names_def sr_set_user_def Let_def split: option.splits)
  ultimately show ?thesis by (simp add: sr_init_instance_def)
qed

lemma start_messages:
  assumes "main_start depth os env = Inr (Running v)" and "write_all os"
  shows "list_all session_message (wire (router v))"
proof -
  obtain opts v0 where 0: "main_setup env opts = Inr (Running v0)" "main_connect depth os env opts v0 = Inr (Running v)"
  proof -
    from assms(1) obtain opts r where "parse_options (argv env) = Some opts" "main_setup env opts = Inr r"
      by (auto simp: main_start_def andthen_eq_Inr split: option.splits)
    with assms(1) that show thesis by (cases r) (auto simp: main_start_def)
  qed
  have "wire (router v0) = []"
    using setup_wire [OF 0(1)] .
  moreover obtain r v1 where 1: "sr_connect_to_server depth os (reaches env (opt_server opts) (ucast (opt_port opts))) v0 = Inr (r, v1)"
    using 0(2) by (auto simp: main_connect_def andthen_eq_Inr)
  moreover obtain name v2 where "sr_load_rt_wrap env name v1 = Inr (Some v2)" "v = v2\<lparr>router := sr_init (router v2)\<rparr>"
    using 0(2) 1 unfolding main_connect_def by (auto simp: andthen_eq_Inr split: if_splits option.splits)
  then have "wire (router v) = wire (router v1)"
    using load_wire by (simp add: sr_init_def)
  ultimately show ?thesis using connect_adds [OF 1 assms(2)] by (simp add: adds_messages_def)
qed

section \<open>The whole session\<close>

text \<open>The turns of the main loop, the last one included, and of the timer, when writes to the socket are not cut short.\<close>

inductive sending_step :: "vns \<Rightarrow> vns \<Rightarrow> bool" where
  command: "write_all os \<Longrightarrow> sr_read_from_server depth os v = Inr (rc, v') \<Longrightarrow> sending_step v v'"
| timer: "write_all os \<Longrightarrow> sr_arpcache_timeout depth os (router v) = Inr sr \<Longrightarrow> sending_step v (v\<lparr>router := sr\<rparr>)"

lemma sending_step_adds: "sending_step v v' \<Longrightarrow> adds_messages (sent_by_router (if_list (router v))) v v'"
proof (induction rule: sending_step.induct)
  case (command os depth v rc v')
  then show ?case using read_adds(1) by (simp add: sr_read_from_server_def)
next
  case (timer os depth v sr)
  have "wire_ok (wire (router v)) (if_list (router v)) (router v)" by (simp add: wire_ok_def)
  from wire_msgs.timeout [OF timer(2,1) this] show ?case
    by (auto simp: wire_ok_def adds_messages_def sent_by_router_def list_all_iff)
qed

text \<open>
  C16: everything the router sends is well formed. From the start of the program on, whatever commands arrive and however often the
  timer ticks, every message written to the server is one of these: a reply to a request to authenticate, with the user name and a
  digest of 20 bytes; an opening of the session by topology or by template; or a packet command that
  states its own length, names an interface the router had when it was written and carries a frame whose source is the hardware
  address of that interface. (The interfaces change when the server sends hardware descriptions.) Writes to the socket
  are not cut short.
\<close>

theorem sent_messages_well_formed:
  assumes "write_all os" and "main_start depth os env = Inr (Running v0)" and "reachable_from sending_step v0 v"
    and "m \<in> set (wire (router v))"
  shows "(\<exists>user digest. length digest = 20 \<and> m = encode (c_auth_reply user digest)) \<or>
    (\<exists>topo host user pass. sized (c_open topo host user pass) \<and> m = encode (c_open topo host user pass)) \<or>
    (\<exists>nm host. sized (c_open_template nm host []) \<and> m = encode (c_open_template nm host [])) \<or>
    (\<exists>u. reachable_from sending_step v0 u \<and> (\<exists>i \<in> set (if_list (router u)).
       38 \<le> length m \<and> ntohl (ld32 0 m) = word_of_nat (length m) \<and> ntohl (ld32 4 m) = VNSPACKET \<and>
       strncmp_eq 16 (if_name i) (rd 8 16 m) \<and> rd ether_shost 6 (drop 24 m) = take 6 (if_addr i)))"
proof -
  have "session_message m \<or> (\<exists>u. reachable_from sending_step v0 u \<and> packet_message (if_list (router u)) m)"
    using assms(3,4)
  proof (induction rule: reachable_from.induct)
    case start
    then show ?case using start_messages [OF assms(2,1)] by (auto simp: list_all_iff)
  next
    case (next_state s t)
    show ?case
    proof (cases "m \<in> set (wire (router s))")
      case False
      then have "sent_by_router (if_list (router s)) m"
        using sending_step_adds [OF next_state(2)] next_state(4) by (auto simp: adds_messages_def list_all_iff)
      then show ?thesis using next_state(1) by (auto simp: sent_by_router_def)
    qed (use next_state(3) in blast)
  qed
  then show ?thesis unfolding session_message_def packet_message_def by blast
qed

theorem sent_messages_well_formed_witness:
  "\<exists>v m. main_start 1 demo_os demo_env = Inr (Running v) \<and> m \<in> set (wire (router v)) \<and>
     (session_message m \<or> (\<exists>u. reachable_from sending_step v u \<and> packet_message (if_list (router u)) m))"
proof -
  obtain v where v0: "main_start 1 demo_os demo_env = Inr (Running v)" "wire (router v) \<noteq> []"
    using demo_start demo_env_table by (auto simp: demo_env_fields(4) sr_init_def)
  then obtain m where v: "main_start 1 demo_os demo_env = Inr (Running v)" "m \<in> set (wire (router v))"
    by (cases "wire (router v)") auto
  from sent_messages_well_formed [OF demo_write_all v(1) reachable_from.start v(2)] v show ?thesis
    unfolding session_message_def packet_message_def by blast
qed

end
