(* ===== verification/Sr_Threads.thy ===== *)
theory Sr_Threads
  imports Sr_Router
begin

text \<open>
  The two threads of the router on the queue of ARP requests. The receiving thread calls
  \<^verbatim>\<open>sr_arpcache_queuereq\<close>, which takes the lock of the cache, and then \<^verbatim>\<open>handle_arpreq\<close>, which takes none
  (lines 355 and 461 of \<^verbatim>\<open>sr_router.c\<close>); the timeout thread holds the lock during its whole turn and calls
  \<^verbatim>\<open>handle_arpreq\<close> as well. So the steps here are finer than those of \<open>Sr_Router\<close>: \<^verbatim>\<open>handle_arpreq\<close> is cut
  into the tests, which read the request, and what follows them, a destruction that takes the lock or, after the
  frames have been sent, the assignments to \<^verbatim>\<open>sent\<close> and \<^verbatim>\<open>times_sent\<close>. Between any two steps of one thread the other can
  run, as far as the lock allows.

  Only the cache is kept, and requests have no packets waiting on them, as is the case when every gateway is
  a neighbour; then \<^verbatim>\<open>handle_arpreq\<close> does not call itself through \<^verbatim>\<open>sr_send_icmp_packet\<close>.
\<close>

section \<open>The steps of handle_arpreq\<close>

text \<open>The tests of \<^verbatim>\<open>handle_arpreq\<close>: nothing is due, a request is to be sent, or the limit is reached.\<close>

datatype verdict = Not_due | Resend | Give_up

definition arpreq_test :: "time_t \<Rightarrow> nat \<Rightarrow> sr_arpcache \<Rightarrow> fault + verdict" where
  "arpreq_test curtime ptr c =
     (case find (\<lambda>r. req_ptr r = ptr) (requests c) of
        None \<Rightarrow> Inl Use_after_free
      | Some r \<Rightarrow> Inr (if curtime - req_sent r > 1 then if req_times_sent r \<ge> 5 then Give_up else Resend else Not_due))"

definition arpreq_sent :: "time_t \<Rightarrow> nat \<Rightarrow> sr_arpcache \<Rightarrow> fault + sr_arpcache" where
  "arpreq_sent curtime ptr c =
     (case find (\<lambda>r. req_ptr r = ptr) (requests c) of
        None \<Rightarrow> Inl Use_after_free
      | Some r \<Rightarrow> Inr (c\<lparr>requests := update_first (\<lambda>r. req_ptr r = ptr)
                     (\<lambda>r. r\<lparr>req_sent := curtime, req_times_sent := req_times_sent r + 1\<rparr>) (requests c)\<rparr>))"

definition arpreq_given_up :: "nat \<Rightarrow> sr_arpcache \<Rightarrow> fault + sr_arpcache" where
  "arpreq_given_up ptr c =
     (case find (\<lambda>r. req_ptr r = ptr) (requests c) of
        None \<Rightarrow> Inl Use_after_free
      | Some _ \<Rightarrow> Inr (sr_arpreq_destroy c ptr))"

text \<open>Without the other thread the steps are \<^verbatim>\<open>handle_arpreq\<close>.\<close>

lemma steps_are_handle_arpreq:
  assumes "find (\<lambda>r. req_ptr r = ptr) (requests (cache sr)) = Some r" and "req_packets r = []"
    and cache: "cache (sr_send_arp_request os sr (req_ip r)) = cache sr"
  shows "map_sum id cache (handle_arpreq (Suc depth) os sr ptr) =
    andthen (arpreq_test (now os) ptr (cache sr)) (\<lambda>v.
      case v of Not_due \<Rightarrow> Inr (cache sr) | Resend \<Rightarrow> arpreq_sent (now os) ptr (cache sr)
      | Give_up \<Rightarrow> arpreq_given_up ptr (cache sr))"
  using assms by (simp add: arpreq_test_def arpreq_sent_def arpreq_given_up_def Let_def)

section \<open>The threads\<close>

text \<open>
  Where the receiving thread is: elsewhere, with the request it was given, past the test with a frame to send, or
  about to destroy the request. The timeout thread sleeps, or has the requests of its list still before it.
\<close>

datatype receiver = Elsewhere | Has nat | Sending nat | Destroying nat
datatype sweeper = Sleeping | Sweeping "nat list" | Resending nat "nat list"

record arp_threads =
  shared :: sr_arpcache
  rx :: receiver
  timer :: sweeper

text \<open>The steps of the receiving thread; the lock is free when the timeout thread sleeps.\<close>

definition rx_queue :: "uint32 \<Rightarrow> arp_threads \<Rightarrow> arp_threads" where
  "rx_queue ip s = (let (c, ptr) = sr_arpcache_queuereq (shared s) ip [] None in s\<lparr>shared := c, rx := Has ptr\<rparr>)"

definition rx_insert :: "time_t \<Rightarrow> byte list \<Rightarrow> uint32 \<Rightarrow> arp_threads \<Rightarrow> arp_threads" where
  "rx_insert curtime mac ip s = s\<lparr>shared := fst (sr_arpcache_insert curtime (shared s) mac ip)\<rparr>"

definition rx_test :: "time_t \<Rightarrow> nat \<Rightarrow> arp_threads \<Rightarrow> fault + arp_threads" where
  "rx_test curtime ptr s =
     andthen (arpreq_test curtime ptr (shared s)) (\<lambda>v.
       Inr (s\<lparr>rx := (case v of Not_due \<Rightarrow> Elsewhere | Resend \<Rightarrow> Sending ptr | Give_up \<Rightarrow> Destroying ptr)\<rparr>))"

definition rx_sent :: "time_t \<Rightarrow> nat \<Rightarrow> arp_threads \<Rightarrow> fault + arp_threads" where
  "rx_sent curtime ptr s = andthen (arpreq_sent curtime ptr (shared s)) (\<lambda>c. Inr (s\<lparr>shared := c, rx := Elsewhere\<rparr>))"

definition rx_destroy :: "nat \<Rightarrow> arp_threads \<Rightarrow> fault + arp_threads" where
  "rx_destroy ptr s = andthen (arpreq_given_up ptr (shared s)) (\<lambda>c. Inr (s\<lparr>shared := c, rx := Elsewhere\<rparr>))"

text \<open>The steps of the timeout thread. It has the lock, so it destroys a request in the step that tests it.\<close>

definition tick_start :: "time_t \<Rightarrow> arp_threads \<Rightarrow> arp_threads" where
  "tick_start curtime s = s\<lparr>shared := expire_entries curtime (shared s), timer := Sweeping (map req_ptr (requests (shared s)))\<rparr>"

definition tick_test :: "time_t \<Rightarrow> nat \<Rightarrow> nat list \<Rightarrow> arp_threads \<Rightarrow> fault + arp_threads" where
  "tick_test curtime ptr ptrs s =
     andthen (arpreq_test curtime ptr (shared s)) (\<lambda>v.
       case v of
         Not_due \<Rightarrow> Inr (s\<lparr>timer := Sweeping ptrs\<rparr>)
       | Resend \<Rightarrow> Inr (s\<lparr>timer := Resending ptr ptrs\<rparr>)
       | Give_up \<Rightarrow> andthen (arpreq_given_up ptr (shared s)) (\<lambda>c. Inr (s\<lparr>shared := c, timer := Sweeping ptrs\<rparr>)))"

definition tick_sent :: "time_t \<Rightarrow> nat \<Rightarrow> nat list \<Rightarrow> arp_threads \<Rightarrow> fault + arp_threads" where
  "tick_sent curtime ptr ptrs s =
     andthen (arpreq_sent curtime ptr (shared s)) (\<lambda>c. Inr (s\<lparr>shared := c, timer := Sweeping ptrs\<rparr>))"

inductive arp_step :: "arp_threads \<Rightarrow> arp_threads \<Rightarrow> bool" where
  queue: "rx s = Elsewhere \<Longrightarrow> timer s = Sleeping \<Longrightarrow> arp_step s (rx_queue ip s)"
| insert: "rx s = Elsewhere \<Longrightarrow> timer s = Sleeping \<Longrightarrow> length mac = 6 \<Longrightarrow> arp_step s (rx_insert curtime mac ip s)"
| test: "rx s = Has ptr \<Longrightarrow> rx_test curtime ptr s = Inr s' \<Longrightarrow> arp_step s s'"
| sent: "rx s = Sending ptr \<Longrightarrow> rx_sent curtime ptr s = Inr s' \<Longrightarrow> arp_step s s'"
| destroy: "rx s = Destroying ptr \<Longrightarrow> timer s = Sleeping \<Longrightarrow> rx_destroy ptr s = Inr s' \<Longrightarrow> arp_step s s'"
| tick: "timer s = Sleeping \<Longrightarrow> arp_step s (tick_start curtime s)"
| tick_test: "timer s = Sweeping (ptr # ptrs) \<Longrightarrow> tick_test curtime ptr ptrs s = Inr s' \<Longrightarrow> arp_step s s'"
| tick_sent: "timer s = Resending ptr ptrs \<Longrightarrow> tick_sent curtime ptr ptrs s = Inr s' \<Longrightarrow> arp_step s s'"
| tick_end: "timer s = Sweeping [] \<Longrightarrow> arp_step s (s\<lparr>timer := Sleeping\<rparr>)"

definition arp_threads_init :: arp_threads where
  "arp_threads_init = \<lparr>shared = sr_arpcache_init, rx = Elsewhere, timer = Sleeping\<rparr>"

section \<open>The invariant\<close>



























section \<open>Properties\<close>


text \<open>A run given by the actions of the threads, for the examples.\<close>

datatype arp_action = Queue uint32 | Test time_t | Sent time_t | Destroy | Tick time_t | Tick_test time_t | Tick_sent time_t | Tick_end

fun act :: "arp_action \<Rightarrow> arp_threads \<Rightarrow> arp_threads option" where
  "act (Queue ip) s = (if rx s = Elsewhere \<and> timer s = Sleeping then Some (rx_queue ip s) else None)"
| "act (Test t) s = (case rx s of Has ptr \<Rightarrow> (case rx_test t ptr s of Inr s' \<Rightarrow> Some s' | _ \<Rightarrow> None) | _ \<Rightarrow> None)"
| "act (Sent t) s = (case rx s of Sending ptr \<Rightarrow> (case rx_sent t ptr s of Inr s' \<Rightarrow> Some s' | _ \<Rightarrow> None) | _ \<Rightarrow> None)"
| "act Destroy s = (case rx s of Destroying ptr \<Rightarrow>
     if timer s = Sleeping then (case rx_destroy ptr s of Inr s' \<Rightarrow> Some s' | _ \<Rightarrow> None) else None | _ \<Rightarrow> None)"
| "act (Tick t) s = (if timer s = Sleeping then Some (tick_start t s) else None)"
| "act (Tick_test t) s = (case timer s of Sweeping (ptr # ptrs) \<Rightarrow>
     (case tick_test t ptr ptrs s of Inr s' \<Rightarrow> Some s' | _ \<Rightarrow> None) | _ \<Rightarrow> None)"
| "act (Tick_sent t) s = (case timer s of Resending ptr ptrs \<Rightarrow>
     (case tick_sent t ptr ptrs s of Inr s' \<Rightarrow> Some s' | _ \<Rightarrow> None) | _ \<Rightarrow> None)"
| "act Tick_end s = (if timer s = Sweeping [] then Some (s\<lparr>timer := Sleeping\<rparr>) else None)"

fun acts :: "arp_action list \<Rightarrow> arp_threads \<Rightarrow> arp_threads option" where
  "acts [] s = Some s"
| "acts (a # as) s = (case act a s of None \<Rightarrow> None | Some s' \<Rightarrow> acts as s')"

lemma act_step: "act a s = Some s' \<Longrightarrow> arp_step s s'"
  by (cases a) (auto intro: arp_step.intros split: receiver.splits sweeper.splits list.splits sum.splits if_splits)

lemma acts_reachable: "reachable_from arp_step s0 s \<Longrightarrow> acts as s = Some s' \<Longrightarrow> reachable_from arp_step s0 s'"
  by (induction as arbitrary: s) (auto split: option.splits intro: reachable_from.next_state dest: act_step)




text \<open>
  The missing lock: the receiving thread has the request and is interrupted; the timeout thread finds the limit reached and
  frees it; the receiving thread then reads the freed memory. In the same way a request is destroyed twice.
\<close>

definition freed :: "arp_action list" where
  "freed = concat (map (\<lambda>t. [Queue 7, Test t, Sent t]) [2, 4, 6, 8, 10]) @ [Queue 7, Tick 12, Tick_test 12, Tick_end]"

definition freed_twice :: "arp_action list" where
  "freed_twice = concat (map (\<lambda>t. [Queue 7, Test t, Sent t]) [2, 4, 6, 8, 10]) @ [Queue 7, Test 12, Tick 12, Tick_test 12, Tick_end]"

theorem freed_request_used:
  "\<exists>s ptr. reachable_from arp_step arp_threads_init s \<and> rx s = Has ptr \<and> rx_test 12 ptr s = Inl Use_after_free"
  "\<exists>s ptr. reachable_from arp_step arp_threads_init s \<and> rx s = Destroying ptr \<and> timer s = Sleeping \<and> rx_destroy ptr s = Inl Use_after_free"
proof -
  have "case acts freed arp_threads_init of None \<Rightarrow> False | Some s \<Rightarrow> rx s = Has 1 \<and> rx_test 12 1 s = Inl Use_after_free"
    by code_simp
  then show "\<exists>s ptr. reachable_from arp_step arp_threads_init s \<and> rx s = Has ptr \<and> rx_test 12 ptr s = Inl Use_after_free"
    by (cases "acts freed arp_threads_init") (auto dest: acts_reachable [OF reachable_from.start])
  have "case acts freed_twice arp_threads_init of None \<Rightarrow> False | Some s \<Rightarrow> rx s = Destroying 1 \<and> timer s = Sleeping \<and> rx_destroy 1 s = Inl Use_after_free"
    by code_simp
  then show "\<exists>s ptr. reachable_from arp_step arp_threads_init s \<and> rx s = Destroying ptr \<and> timer s = Sleeping \<and> rx_destroy ptr s = Inl Use_after_free"
    by (cases "acts freed_twice arp_threads_init") (auto dest: acts_reachable [OF reachable_from.start])
qed

end
