(* ===== verification/Network_Io.thy ===== *)
theory Network_Io
  imports Net_Prelude
begin

text \<open>
  The datagram service under STCP (\<^verbatim>\<open>network_io_tcp.c\<close>, \<^verbatim>\<open>network_io_socket.c\<close>, \<^verbatim>\<open>network_io.c\<close>,
  \<^verbatim>\<open>network_io.h\<close>): every datagram travels over a TCP connection as a 16-bit length and its
  bytes, written and read by the loop of \<^verbatim>\<open>_tcp_io\<close>, which goes on after a partial transfer.

  The operating system is the record \<open>conn_sock\<close>: what has been written, the outcomes of the
  coming \<^verbatim>\<open>write\<close> calls (once they are used up every call writes all it is given), and what
  the coming \<^verbatim>\<open>read\<close> calls find: arrived bytes in pieces of any size, an error or the end of
  the stream. A read that finds nothing blocks, which is the value \<open>None\<close>. The field \<open>so_errno\<close> is
  the \<^verbatim>\<open>errno\<close> of the last failed \<^verbatim>\<open>write\<close>, or the one a failing \<^verbatim>\<open>connect\<close> sets. A socket belongs
  to one context at a time, so it is kept in the context in the place of its descriptor.
\<close>

section \<open>Sockets\<close>

datatype tx_event = Written nat | Tx_error int
datatype rx_event = Arrived "byte list" | Eof | Rx_error int

record conn_sock =
  tx :: "byte list"
  tx_events :: "tx_event list"
  rx :: "rx_event list"
  connect_ok :: bool
  sock_port :: uint16
  so_errno :: int

record sockaddr =
  sa_family :: nat
  sin_port :: uint16
  sin_addr :: uint32

definition AF_INET :: nat where
  "AF_INET = 2"

datatype accept_event = Accepted sockaddr conn_sock | Accept_error

type_synonym io_func = "conn_sock \<Rightarrow> byte list \<Rightarrow> (int \<times> byte list \<times> conn_sock) option"

text \<open>
  \<^verbatim>\<open>write\<close> and \<^verbatim>\<open>read\<close> with the buffer they are given: the result, the contents of the buffer's
  transferred part afterwards, the socket.
\<close>

definition sys_write :: io_func where
  "sys_write s buf =
     (case tx_events s of
        [] \<Rightarrow> Some (int (length buf), buf, s\<lparr>tx := tx s @ buf\<rparr>)
      | Written n # es \<Rightarrow>
          Some (int (min n (length buf)), take n buf, s\<lparr>tx := tx s @ take n buf, tx_events := es\<rparr>)
      | Tx_error e # es \<Rightarrow> Some (- 1, [], s\<lparr>tx_events := es, so_errno := e\<rparr>))"

fun read_events :: "nat \<Rightarrow> rx_event list \<Rightarrow> (int \<times> byte list \<times> rx_event list) option" where
  "read_events n [] = None"
| "read_events n (Arrived [] # es) = read_events n es"
| "read_events n (Arrived (b # bs) # es) =
     Some (int (min n (length (b # bs))), take n (b # bs), Arrived (drop n (b # bs)) # es)"
| "read_events n (Eof # es) = Some (0, [], Eof # es)"
| "read_events n (Rx_error e # es) = Some (- 1, [], es)"

definition sys_read :: io_func where
  "sys_read s buf =
     (case read_events (length buf) (rx s) of
        None \<Rightarrow> None
      | Some (rc, bs, es) \<Rightarrow> Some (rc, bs, s\<lparr>rx := es\<rparr>))"

section \<open>The context\<close>

record tcp_io_ctx =
  recv_thread_started :: bool
  socket :: "conn_sock option"
  new_socket :: "conn_sock option"
  connected :: bool
  pending :: "accept_event list"

record network_context =
  local_addr :: sockaddr
  peer_addr :: sockaddr
  peer_addr_len :: nat
  peer_addr_valid :: bool
  impl_data :: "tcp_io_ctx option"
  random_seed :: nat

definition MAX_IP_PAYLOAD_LEN :: nat where
  "MAX_IP_PAYLOAD_LEN = 1500"

definition zero_addr :: sockaddr where
  "zero_addr = \<lparr>sa_family = 0, sin_port = 0, sin_addr = 0\<rparr>"

text \<open>
  \<^verbatim>\<open>_network_init\<close> with \<^verbatim>\<open>_network_init_socket\<close> and \<^verbatim>\<open>_network_alloc_context_socket\<close>; \<open>s\<close> is the socket
  the system creates, or \<open>None\<close> where \<^verbatim>\<open>socket\<close> or \<^verbatim>\<open>pipe\<close> fails, which an assert turns into an abort.
\<close>

definition network_alloc_context_socket :: "conn_sock option \<Rightarrow> fault + tcp_io_ctx" where
  "network_alloc_context_socket s =
     (case s of
        None \<Rightarrow> Inl Assert_failed
      | Some s \<Rightarrow>
          Inr \<lparr>recv_thread_started = False, socket = Some s, new_socket = None, connected = False, pending = []\<rparr>)"

definition network_init_socket :: "conn_sock option \<Rightarrow> fault + network_context" where
  "network_init_socket s =
     andthen (network_alloc_context_socket s) (\<lambda>io.
       Inr \<lparr>local_addr = zero_addr, peer_addr = zero_addr, peer_addr_len = 0, peer_addr_valid = False,
         impl_data = Some io, random_seed = 0x632A\<rparr>)"

definition network_init :: "conn_sock option \<Rightarrow> fault + network_context" where
  "network_init s =
     andthen (network_init_socket s) (\<lambda>ctx.
       deref (impl_data ctx) (\<lambda>io.
         Inr (ctx\<lparr>impl_data := Some (io\<lparr>new_socket := None, connected := False\<rparr>)\<rparr>)))"

definition network_close :: "network_context \<Rightarrow> fault + network_context" where
  "network_close ctx =
     (case impl_data ctx of None \<Rightarrow> Inl Assert_failed | Some _ \<Rightarrow> Inr (ctx\<lparr>impl_data := None\<rparr>))"

text \<open>The macros \<^verbatim>\<open>VERIFY_SOCKET\<close> and \<^verbatim>\<open>GET_SOCKET\<close>.\<close>

definition with_socket ::
  "network_context \<Rightarrow> (tcp_io_ctx \<Rightarrow> conn_sock \<Rightarrow> fault + 'a) \<Rightarrow> fault + 'a" where
  "with_socket ctx k =
     (case impl_data ctx of
        None \<Rightarrow> Inl Assert_failed
      | Some io \<Rightarrow> (case socket io of None \<Rightarrow> Inl Assert_failed | Some s \<Rightarrow> k io s))"

definition network_get_port :: "network_context \<Rightarrow> fault + uint16" where
  "network_get_port ctx = with_socket ctx (\<lambda>io s. Inr (sock_port s))"

text \<open>\<open>if_ip\<close> is the address \<^verbatim>\<open>gethostbyname_r\<close> finds for the name of the host.\<close>

definition network_get_local_addr :: "uint32 \<Rightarrow> network_context \<Rightarrow> fault + uint32" where
  "network_get_local_addr if_ip ctx =
     need (peer_addr_valid ctx) Assert_failed
       (need (peer_addr_len ctx > 0) Assert_failed
          (need (sa_family (peer_addr ctx) = AF_INET) Assert_failed (Inr if_ip)))"

definition network_update_passive_state ::
  "network_context \<Rightarrow> network_context \<Rightarrow> bool \<Rightarrow> bool \<Rightarrow> fault + network_context \<times> network_context" where
  "network_update_passive_state new_ctx accept_ctx new_listening new_is_active =
     (case (impl_data new_ctx, impl_data accept_ctx) of
        (Some new_io, Some accept_io) \<Rightarrow>
          need (\<not> new_listening) Assert_failed
            (need (\<not> new_is_active) Assert_failed
               (Inr (new_ctx\<lparr>impl_data := Some (new_io\<lparr>socket := new_socket accept_io, connected := True\<rparr>)\<rparr>,
                     accept_ctx\<lparr>impl_data := Some (accept_io\<lparr>new_socket := None\<rparr>)\<rparr>)))
      | _ \<Rightarrow> Inl Assert_failed)"

section \<open>Input and output\<close>

text \<open>
  The loop of \<^verbatim>\<open>_tcp_io\<close>: \<open>cbuf\<close> is the part of the buffer that has not been transferred yet,
  \<open>before\<close> the part that has; the result is the return value, the buffer and the socket.
\<close>

function tcp_io ::
  "io_func \<Rightarrow> nat \<Rightarrow> conn_sock \<Rightarrow> byte list \<Rightarrow> byte list \<Rightarrow> fault + (int \<times> byte list \<times> conn_sock) option" where
  "tcp_io io n s before cbuf =
     (if length cbuf = 0 then Inr (Some (int n, before, s))
      else case io s cbuf of
             None \<Rightarrow> Inr None
           | Some (rc, bs, s') \<Rightarrow>
               if rc \<le> 0 then Inr (Some (rc, before @ cbuf, s'))
               else if rc > int (length cbuf) then Inl Assert_failed
               else tcp_io io n s' (before @ bs) (drop (nat rc) cbuf))"
  by pat_completeness auto
termination
  by (relation "measure (\<lambda>(io, n, s, before, cbuf). length cbuf)") auto

declare tcp_io.simps [simp del]

definition tcp_connect :: "network_context \<Rightarrow> fault + int \<times> network_context" where
  "tcp_connect ctx =
     (case impl_data ctx of
        None \<Rightarrow> Inl Assert_failed
      | Some io \<Rightarrow>
          if connected io then Inr (0, ctx)
          else
            need (peer_addr_valid ctx) Assert_failed
              (need (sa_family (peer_addr ctx) = AF_INET) Assert_failed
                 (need (sin_port (peer_addr ctx) > 0) Assert_failed
                    (deref (socket io) (\<lambda>s.
                       if connect_ok s then Inr (0, ctx\<lparr>impl_data := Some (io\<lparr>connected := True\<rparr>)\<rparr>)
                       else Inr (- 1, ctx))))))"

text \<open>Sequencing of calls that may block.\<close>

definition bindw :: "fault + 'a option \<Rightarrow> ('a \<Rightarrow> fault + 'b option) \<Rightarrow> fault + 'b option" where
  "bindw m k = andthen m (\<lambda>r. case r of None \<Rightarrow> Inr None | Some x \<Rightarrow> k x)"

lemma bindw_simps [simp]:
  "bindw (Inl e) k = Inl e" "bindw (Inr None) k = Inr None" "bindw (Inr (Some x)) k = k x"
  by (simp_all add: bindw_def)

definition set_socket :: "network_context \<Rightarrow> conn_sock \<Rightarrow> network_context" where
  "set_socket ctx s = ctx\<lparr>impl_data := map_option (\<lambda>io. io\<lparr>socket := Some s\<rparr>) (impl_data ctx)\<rparr>"

definition network_send_packet :: "network_context \<Rightarrow> byte list \<Rightarrow> fault + (int \<times> network_context) option" where
  "network_send_packet ctx src =
     need (peer_addr_len ctx > 0) Assert_failed
       (with_socket ctx (\<lambda>_ _.
          andthen (tcp_connect ctx) (\<lambda>(rc, ctx).
            if rc < 0 then Inr (Some (- 1, ctx))
            else with_socket ctx (\<lambda>io s.
              bindw (tcp_io sys_write 2 s [] (bytes16 (htons (word_of_nat (length src))))) (\<lambda>(rc, _, s).
                if rc < 0 then Inr (Some (- 1, set_socket ctx s))
                else bindw (tcp_io sys_write (length src) s [] src) (\<lambda>(rc, _, s).
                  if rc < 0 then Inr (Some (- 1, set_socket ctx s))
                  else Inr (Some (int (length src), set_socket ctx s))))))))"

text \<open>
  The part of \<^verbatim>\<open>_network_recv_packet\<close> that reads from the chosen socket into a buffer of \<open>max_len\<close>
  bytes (\<open>dst\<close> is its contents).
\<close>

definition recv_frame :: "conn_sock \<Rightarrow> byte list \<Rightarrow> fault + (int \<times> byte list \<times> conn_sock) option" where
  "recv_frame s dst =
     bindw (tcp_io sys_read 2 s [] [0, 0]) (\<lambda>(rc, len_buf, s).
       if rc \<le> 0 then Inr (Some (rc, dst, s))
       else
         let packet_len = unat (ntohs (le16 len_buf)); n = min packet_len (length dst)
         in bindw (tcp_io sys_read n s [] (take n dst)) (\<lambda>(rc, got, s).
              if rc \<le> 0 then Inr (Some (rc, got @ drop n dst, s))
              else if packet_len > length dst then
                bindw (tcp_io sys_read (packet_len - length dst) s [] (replicate (packet_len - length dst) 0))
                  (\<lambda>(_, _, s). Inr (Some (int packet_len, got @ drop n dst, s)))
              else Inr (Some (int packet_len, got @ drop n dst, s))))"

definition network_recv_packet ::
  "bool \<Rightarrow> bool \<Rightarrow> network_context \<Rightarrow> byte list \<Rightarrow> fault + (int \<times> byte list \<times> network_context) option" where
  "network_recv_packet is_active listening ctx dst =
     with_socket ctx (\<lambda>_ _.
       andthen (if is_active then tcp_connect ctx else Inr (0, ctx)) (\<lambda>(rc, ctx).
         if rc < 0 then Inr (Some (- 1, dst, ctx))
         else with_socket ctx (\<lambda>io s.
           if listening then
             (case pending io of
                [] \<Rightarrow> Inr None
              | Accept_error # es \<Rightarrow>
                  Inr (Some (- 1, dst, ctx\<lparr>peer_addr_len := 16, impl_data := Some (io\<lparr>pending := es\<rparr>)\<rparr>))
              | Accepted peer c # es \<Rightarrow>
                  need (new_socket io = None) Assert_failed
                    (bindw (recv_frame c dst) (\<lambda>(rc, dst, c).
                       Inr (Some (rc, dst, ctx\<lparr>peer_addr := peer, peer_addr_len := 16,
                         impl_data := Some (io\<lparr>pending := es, new_socket := Some c\<rparr>)\<rparr>)))))
           else
             bindw (recv_frame s dst) (\<lambda>(rc, dst, s). Inr (Some (rc, dst, set_socket ctx s))))))"

section \<open>The loop transfers everything\<close>

definition writable :: "conn_sock \<Rightarrow> bool" where
  "writable s \<longleftrightarrow> list_all (\<lambda>e. case e of Written n \<Rightarrow> n > 0 | Tx_error _ \<Rightarrow> False) (tx_events s)"

text \<open>The bytes that have arrived, without regard to the pieces they came in.\<close>

fun arrived :: "rx_event list \<Rightarrow> byte list" where
  "arrived (Arrived bs # es) = bs @ arrived es"
| "arrived _ = []"

lemma sys_write_writable:
  assumes "writable s" and "buf \<noteq> []"
  shows "\<exists>k es. 0 < k \<and> k \<le> length buf \<and>
    sys_write s buf = Some (int k, take k buf, s\<lparr>tx := tx s @ take k buf, tx_events := es\<rparr>) \<and>
    writable (s\<lparr>tx := tx s @ take k buf, tx_events := es\<rparr>)"
proof (cases "tx_events s")
  case Nil
  with assms show ?thesis
    by (intro exI [of _ "length buf"] exI [of _ "[]"]) (cases s, simp add: sys_write_def writable_def)
next
  case (Cons e es)
  with assms(1) obtain n where "e = Written n" "n > 0"
    by (cases e) (auto simp: writable_def)
  with Cons assms show ?thesis
    by (intro exI [of _ "min n (length buf)"] exI [of _ es])
      (simp add: sys_write_def writable_def min_def)
qed

lemma tcp_io_write:
  "writable s \<Longrightarrow> \<exists>es. tcp_io sys_write n s before cbuf =
    Inr (Some (int n, before @ cbuf, s\<lparr>tx := tx s @ cbuf, tx_events := es\<rparr>)) \<and>
    writable (s\<lparr>tx := tx s @ cbuf, tx_events := es\<rparr>)"
proof (induction "length cbuf" arbitrary: s before cbuf rule: less_induct)
  case less
  show ?case
  proof (cases "cbuf = []")
    case True
    then show ?thesis
      using less.prems by (intro exI [of _ "tx_events s"]) (cases s, simp add: tcp_io.simps [of sys_write n _ before "[]"])
  next
    case False
    obtain k es where k: "0 < k" "k \<le> length cbuf"
      and w: "sys_write s cbuf = Some (int k, take k cbuf, s\<lparr>tx := tx s @ take k cbuf, tx_events := es\<rparr>)"
      and good: "writable (s\<lparr>tx := tx s @ take k cbuf, tx_events := es\<rparr>)"
      using sys_write_writable [OF less.prems False] by blast
    have "tcp_io sys_write n s before cbuf =
        tcp_io sys_write n (s\<lparr>tx := tx s @ take k cbuf, tx_events := es\<rparr>) (before @ take k cbuf) (drop k cbuf)"
      using False k w by (subst tcp_io.simps) simp
    then show ?thesis
      using less.hyps [OF _ good, of "drop k cbuf" "before @ take k cbuf"] k False by auto
  qed
qed

lemma read_events_arrived:
  "arrived es \<noteq> [] \<Longrightarrow> n > 0 \<Longrightarrow>
    \<exists>k es'. 0 < k \<and> k \<le> n \<and> k \<le> length (arrived es) \<and>
      read_events n es = Some (int k, take k (arrived es), es') \<and> arrived es' = drop k (arrived es)"
proof (induction n es rule: read_events.induct)
  case (3 n b bs es)
  then show ?case
    by (intro exI [of _ "min n (length (b # bs))"] exI [of _ "Arrived (drop n (b # bs)) # es"])
      (auto simp: min_def take_Cons' drop_Cons')
qed auto

lemma tcp_io_read:
  "length cbuf \<le> length (arrived (rx s)) \<Longrightarrow>
    \<exists>es. tcp_io sys_read n s before cbuf =
      Inr (Some (int n, before @ take (length cbuf) (arrived (rx s)), s\<lparr>rx := es\<rparr>)) \<and>
      arrived es = drop (length cbuf) (arrived (rx s))"
proof (induction "length cbuf" arbitrary: s before cbuf rule: less_induct)
  case less
  show ?case
  proof (cases "cbuf = []")
    case True
    then show ?thesis
      by (intro exI [of _ "rx s"]) (cases s, simp add: tcp_io.simps [of sys_read n _ before "[]"])
  next
    case False
    then have "arrived (rx s) \<noteq> []" using less.prems by auto
    then obtain k es where k: "0 < k" "k \<le> length cbuf" "k \<le> length (arrived (rx s))"
      and r: "read_events (length cbuf) (rx s) = Some (int k, take k (arrived (rx s)), es)"
      and es: "arrived es = drop k (arrived (rx s))"
      using read_events_arrived [of "rx s" "length cbuf"] False by auto
    have "tcp_io sys_read n s before cbuf =
        tcp_io sys_read n (s\<lparr>rx := es\<rparr>) (before @ take k (arrived (rx s))) (drop k cbuf)"
      using False k r by (subst tcp_io.simps) (simp add: sys_read_def)
    moreover have "take k (arrived (rx s)) @ take (length cbuf - k) (drop k (arrived (rx s))) =
        take (length cbuf) (arrived (rx s))"
      using k by (metis take_add le_add_diff_inverse)
    ultimately show ?thesis
      using less.hyps [of "drop k cbuf" "s\<lparr>rx := es\<rparr>" "before @ take k (arrived (rx s))"] k False es less.prems
      by auto
  qed
qed

section \<open>Datagrams\<close>

definition dgram :: "byte list \<Rightarrow> byte list" where
  "dgram p = bytes16 (htons (word_of_nat (length p))) @ p"

lemma length_header: "n < 65536 \<Longrightarrow> unat (ntohs (le16 (bytes16 (htons (word_of_nat n))))) = n"
  by (simp add: unat_word_of_nat16)

definition open_conn :: "network_context \<Rightarrow> conn_sock \<Rightarrow> bool" where
  "open_conn ctx s \<longleftrightarrow> peer_addr_len ctx > 0 \<and>
     (\<exists>io. impl_data ctx = Some io \<and> connected io \<and> socket io = Some s)"

lemma open_conn_set_socket: "open_conn ctx s \<Longrightarrow> open_conn (set_socket ctx t) t"
  by (auto simp: open_conn_def set_socket_def)

lemma open_conn_with_socket: "open_conn ctx s \<Longrightarrow> \<exists>io. with_socket ctx k = k io s"
  by (auto simp: open_conn_def with_socket_def)

lemma open_conn_connect: "open_conn ctx s \<Longrightarrow> tcp_connect ctx = Inr (0, ctx)"
  by (auto simp: open_conn_def tcp_connect_def)

lemma send_packet_open:
  assumes "open_conn ctx s" and "writable s"
  shows "\<exists>es. network_send_packet ctx src =
      Inr (Some (int (length src), set_socket ctx (s\<lparr>tx := tx s @ dgram src, tx_events := es\<rparr>))) \<and>
    writable (s\<lparr>tx := tx s @ dgram src, tx_events := es\<rparr>)"
proof -
  let ?hdr = "bytes16 (htons (word_of_nat (length src)))"
  obtain es where h: "tcp_io sys_write 2 s [] ?hdr =
      Inr (Some (2, ?hdr, s\<lparr>tx := tx s @ ?hdr, tx_events := es\<rparr>))"
    and g: "writable (s\<lparr>tx := tx s @ ?hdr, tx_events := es\<rparr>)"
    using tcp_io_write [OF assms(2), of 2 "[]" ?hdr] by auto
  then obtain es' where p: "tcp_io sys_write (length src) (s\<lparr>tx := tx s @ ?hdr, tx_events := es\<rparr>) [] src =
      Inr (Some (int (length src), src, s\<lparr>tx := tx s @ dgram src, tx_events := es'\<rparr>))"
    and "writable (s\<lparr>tx := tx s @ dgram src, tx_events := es'\<rparr>)"
    using tcp_io_write [OF g, of "length src" "[]" src] by (auto simp: dgram_def)
  moreover obtain io where "impl_data ctx = Some io" "socket io = Some s" "peer_addr_len ctx > 0"
    using assms(1) by (auto simp: open_conn_def)
  ultimately show ?thesis
    using h by (auto simp: network_send_packet_def with_socket_def open_conn_connect [OF assms(1)])
qed

lemma recv_frame_arrived:
  assumes "arrived (rx s) = dgram p @ rest" and "p \<noteq> []" and "length p < 65536" and "dst \<noteq> []"
  shows "\<exists>es. recv_frame s dst =
      Inr (Some (int (length p), take (length dst) p @ drop (length p) dst, s\<lparr>rx := es\<rparr>)) \<and>
    arrived es = rest"
proof -
  let ?hdr = "bytes16 (htons (word_of_nat (length p)))" and ?n = "min (length p) (length dst)"
  obtain es where h: "tcp_io sys_read 2 s [] [0, 0] = Inr (Some (2, ?hdr, s\<lparr>rx := es\<rparr>))"
    and es: "arrived es = p @ rest"
    using tcp_io_read [of "[0, 0]" s 2 "[]"] assms(1) by (auto simp: dgram_def)
  obtain es' where b: "tcp_io sys_read ?n (s\<lparr>rx := es\<rparr>) [] (take ?n dst) =
      Inr (Some (int ?n, take ?n p, s\<lparr>rx := es'\<rparr>))"
    and es': "arrived es' = drop ?n (p @ rest)"
    using tcp_io_read [of "take ?n dst" "s\<lparr>rx := es\<rparr>" ?n "[]"] es by (auto simp: trans_le_add1)
  have n: "?n > 0" using assms(2,4) by simp
  show ?thesis
  proof (cases "length p > length dst")
    case True
    let ?d = "length p - length dst"
    obtain es'' where d: "tcp_io sys_read ?d (s\<lparr>rx := es'\<rparr>) [] (replicate ?d 0) =
        Inr (Some (int ?d, take ?d (drop (length dst) p), s\<lparr>rx := es''\<rparr>))"
      and "arrived es'' = rest"
      using tcp_io_read [of "replicate ?d 0" "s\<lparr>rx := es'\<rparr>" ?d "[]"] es' True
      by (auto simp: diff_le_mono)
    then show ?thesis
      using True n h b length_header [OF assms(3)] by (auto simp: recv_frame_def Let_def)
  next
    case False
    then show ?thesis
      using n h b es' length_header [OF assms(3)] by (auto simp: recv_frame_def Let_def)
  qed
qed

lemma recv_packet_open:
  assumes "open_conn ctx s" and "arrived (rx s) = dgram p @ rest" and "p \<noteq> []" and "length p < 65536"
    and "dst \<noteq> []"
  shows "\<exists>es. network_recv_packet is_active False ctx dst =
      Inr (Some (int (length p), take (length dst) p @ drop (length p) dst, set_socket ctx (s\<lparr>rx := es\<rparr>))) \<and>
    arrived es = rest"
proof -
  obtain io where "impl_data ctx = Some io" "socket io = Some s"
    using assms(1) by (auto simp: open_conn_def)
  then show ?thesis
    using recv_frame_arrived [OF assms(2-5)] open_conn_connect [OF assms(1)]
    by (auto simp: network_recv_packet_def with_socket_def)
qed

section \<open>Properties\<close>

text \<open>A sender of several packets, and a receiver that reads \<open>n\<close> of them into a buffer of the maximal size.\<close>

fun send_all :: "network_context \<Rightarrow> byte list list \<Rightarrow> fault + network_context option" where
  "send_all ctx [] = Inr (Some ctx)"
| "send_all ctx (p # ps) = bindw (network_send_packet ctx p) (\<lambda>(_, ctx). send_all ctx ps)"

fun recv_all :: "network_context \<Rightarrow> nat \<Rightarrow> fault + byte list list option" where
  "recv_all ctx 0 = Inr (Some [])"
| "recv_all ctx (Suc n) =
     bindw (network_recv_packet False False ctx (replicate MAX_IP_PAYLOAD_LEN 0)) (\<lambda>(rc, dst, ctx).
       bindw (recv_all ctx n) (\<lambda>ps. Inr (Some (take (nat rc) dst # ps))))"

lemma send_all_open:
  "open_conn ctx s \<Longrightarrow> writable s \<Longrightarrow>
    \<exists>ctx' s'. send_all ctx ps = Inr (Some ctx') \<and> open_conn ctx' s' \<and> tx s' = tx s @ concat (map dgram ps)"
proof (induction ps arbitrary: ctx s)
  case (Cons p ps)
  then obtain es where es: "network_send_packet ctx p =
      Inr (Some (int (length p), set_socket ctx (s\<lparr>tx := tx s @ dgram p, tx_events := es\<rparr>)))"
    "writable (s\<lparr>tx := tx s @ dgram p, tx_events := es\<rparr>)"
    using send_packet_open by blast
  then show ?case
    using Cons.IH [OF open_conn_set_socket [OF Cons.prems(1)] es(2)] by auto
qed auto

lemma recv_all_open:
  "open_conn ctx s \<Longrightarrow> arrived (rx s) = concat (map dgram ps) \<Longrightarrow>
    list_all (\<lambda>p. p \<noteq> [] \<and> length p \<le> MAX_IP_PAYLOAD_LEN) ps \<Longrightarrow> recv_all ctx (length ps) = Inr (Some ps)"
proof (induction ps arbitrary: ctx s)
  case (Cons p ps)
  let ?dst = "replicate MAX_IP_PAYLOAD_LEN 0"
  have "p \<noteq> []" "length p \<le> MAX_IP_PAYLOAD_LEN" using Cons.prems(3) by simp_all
  then obtain es where "network_recv_packet False False ctx ?dst =
      Inr (Some (int (length p), p @ drop (length p) ?dst, set_socket ctx (s\<lparr>rx := es\<rparr>)))"
    and "arrived es = concat (map dgram ps)"
    using recv_packet_open [OF Cons.prems(1), of p "concat (map dgram ps)" ?dst False] Cons.prems(2)
    by (auto simp: MAX_IP_PAYLOAD_LEN_def)
  then show ?case
    using Cons.IH [OF open_conn_set_socket [OF Cons.prems(1)]] Cons.prems(3) by simp
qed simp

text \<open>
  C20: the TCP connection carries datagrams. Whatever the sizes in which the system accepts the
  bytes of the sender, and whatever the pieces in which the same bytes reach the receiver,
  packets of 1 to 1500 bytes are received one by one, complete and in the order sent.
\<close>

theorem datagram_service:
  assumes "open_conn snd_ctx a" and "writable a" and "tx a = []"
    and "list_all (\<lambda>p. p \<noteq> [] \<and> length p \<le> MAX_IP_PAYLOAD_LEN) ps"
    and "send_all snd_ctx ps = Inr (Some snd_ctx')" and "open_conn snd_ctx' a'"
    and "open_conn rcv_ctx b" and "arrived (rx b) = tx a'"
  shows "recv_all rcv_ctx (length ps) = Inr (Some ps)"
proof -
  obtain s' where "open_conn snd_ctx' s'" "tx s' = concat (map dgram ps)"
    using send_all_open [OF assms(1,2), of ps] assms(3,5) by auto
  moreover have "s' = a'" using calculation(1) assms(6) by (auto simp: open_conn_def)
  ultimately show ?thesis using recv_all_open [OF assms(7)] assms(4,8) by simp
qed

definition demo_sock :: "tx_event list \<Rightarrow> rx_event list \<Rightarrow> byte list \<Rightarrow> conn_sock" where
  "demo_sock tes res sent =
     \<lparr>tx = sent, tx_events = tes, rx = res, connect_ok = True, sock_port = 0x3930, so_errno = 0\<rparr>"

definition demo_io :: "tx_event list \<Rightarrow> rx_event list \<Rightarrow> byte list \<Rightarrow> network_context" where
  "demo_io tes res sent =
     \<lparr>local_addr = zero_addr, peer_addr = \<lparr>sa_family = AF_INET, sin_port = 0x5000, sin_addr = 0x0200007F\<rparr>,
      peer_addr_len = 16, peer_addr_valid = True,
      impl_data = Some \<lparr>recv_thread_started = True,
        socket = Some (demo_sock tes res sent),
        new_socket = None, connected = True, pending = []\<rparr>, random_seed = 0x632A\<rparr>"

lemma demo_open: "open_conn (demo_io tes res sent) (demo_sock tes res sent)"
  by (simp add: demo_io_def open_conn_def)

lemma demo_send:
  "send_all (demo_io [Written 1, Written 9, Written 2] [] []) [[1, 2, 3], [4]] =
    Inr (Some (demo_io [] [] [0, 3, 1, 2, 3, 0, 1, 4]))"
  by code_simp

theorem datagram_service_witness:
  "recv_all (demo_io [] [Arrived [0], Arrived [3, 1], Arrived [], Arrived [2, 3, 0], Arrived [1, 4]] [])
      (length [[1, 2, 3], [4 :: byte]]) = Inr (Some [[1, 2, 3], [4]])"
  by (rule datagram_service [OF demo_open _ _ _ demo_send demo_open demo_open])
    (simp_all add: demo_sock_def writable_def MAX_IP_PAYLOAD_LEN_def)

end
