(* ===== verification/Network_Descriptors.thy ===== *)
theory Network_Descriptors
  imports Network_Io
begin

text \<open>
  The descriptors of the network layer (\<^verbatim>\<open>network_io_socket.c\<close>, \<^verbatim>\<open>network_io_tcp.c\<close>). \<open>Network_Io\<close> has the data that
  pass through the sockets; here are the numbers of the sockets and of the exit pipe, what the functions open, hand over
  and close, and that every descriptor has one owner, who closes it once.
\<close>

section \<open>State\<close>

text \<open>
  The descriptors in \<^verbatim>\<open>network_context_socket_tcp_t\<close>, where \<open>-1\<close> is none. The system has the set of open
  descriptors; \<open>bad_closes\<close> are those \<^verbatim>\<open>close\<close> was called for while they were not open.
\<close>

record net_fds =
  fd_socket :: int
  exit_pipe_read :: int
  exit_pipe_write :: int
  fd_new_socket :: int

record fd_table =
  open_fds :: "int set"
  bad_closes :: "int list"

definition sys_open :: "int set \<Rightarrow> fd_table \<Rightarrow> fd_table" where
  "sys_open fds d = d\<lparr>open_fds := fds \<union> open_fds d\<rparr>"

definition sys_close :: "int \<Rightarrow> fd_table \<Rightarrow> fd_table" where
  "sys_close fd d =
     (if fd \<in> open_fds d then d\<lparr>open_fds := open_fds d - {fd}\<rparr> else d\<lparr>bad_closes := bad_closes d @ [fd]\<rparr>)"

section \<open>Operations\<close>

text \<open>
  \<^verbatim>\<open>_network_alloc_context_socket\<close>: \<open>s\<close> and \<open>p\<close> are the results of \<^verbatim>\<open>socket\<close> and \<^verbatim>\<open>pipe\<close>, \<open>None\<close> for a failure, after
  which the assert aborts. \<^verbatim>\<open>calloc\<close> leaves 0 in \<^verbatim>\<open>new_socket\<close> until \<^verbatim>\<open>_network_init\<close> sets it.
\<close>

definition fds_alloc_context :: "int option \<Rightarrow> (int \<times> int) option \<Rightarrow> fd_table \<Rightarrow> fault + net_fds \<times> fd_table" where
  "fds_alloc_context s p d =
     (case s of
        None \<Rightarrow> Inl Assert_failed
      | Some fd \<Rightarrow>
          (case p of
             None \<Rightarrow> Inl Assert_failed
           | Some (r, w) \<Rightarrow>
               Inr (\<lparr>fd_socket = fd, exit_pipe_read = r, exit_pipe_write = w, fd_new_socket = 0\<rparr>,
                 sys_open {r, w} (sys_open {fd} d))))"

definition fds_init :: "int option \<Rightarrow> (int \<times> int) option \<Rightarrow> fd_table \<Rightarrow> fault + net_fds \<times> fd_table" where
  "fds_init s p d = andthen (fds_alloc_context s p d) (\<lambda>(f, d). Inr (f\<lparr>fd_new_socket := -1\<rparr>, d))"

definition destroy_context_socket :: "net_fds \<Rightarrow> fd_table \<Rightarrow> fd_table" where
  "destroy_context_socket f d =
     (let d = (if fd_socket f \<ge> 0 then sys_close (fd_socket f) d else d);
          d = (if exit_pipe_read f \<ge> 0 then sys_close (exit_pipe_read f) d else d)
      in if exit_pipe_write f \<ge> 0 then sys_close (exit_pipe_write f) d else d)"

text \<open>\<^verbatim>\<open>_network_close_socket\<close> and \<^verbatim>\<open>_network_close\<close>; the argument is \<^verbatim>\<open>impl_data\<close>, which is null afterwards.\<close>

definition network_close_socket :: "net_fds option \<Rightarrow> fd_table \<Rightarrow> fault + net_fds option \<times> fd_table" where
  "network_close_socket impl d =
     (case impl of None \<Rightarrow> Inl Assert_failed | Some f \<Rightarrow> Inr (None, destroy_context_socket f d))"

definition fds_close :: "net_fds option \<Rightarrow> fd_table \<Rightarrow> fault + net_fds option \<times> fd_table" where
  "fds_close impl d =
     (case impl of
        None \<Rightarrow> Inl Assert_failed
      | Some f \<Rightarrow> network_close_socket impl (if fd_new_socket f \<noteq> -1 then sys_close (fd_new_socket f) d else d))"

text \<open>The accept in \<^verbatim>\<open>_network_recv_packet\<close>: \<open>c\<close> is its result, and the value the socket that is read from.\<close>

definition fds_accept :: "int option \<Rightarrow> net_fds \<Rightarrow> fd_table \<Rightarrow> fault + int \<times> net_fds \<times> fd_table" where
  "fds_accept c f d =
     (case c of
        None \<Rightarrow> Inr (-1, f, d)
      | Some fd \<Rightarrow>
          need (fd_new_socket f = -1) Assert_failed (Inr (fd, f\<lparr>fd_new_socket := fd\<rparr>, sys_open {fd} d)))"

text \<open>\<^verbatim>\<open>_network_update_passive_state\<close>, given the flags of the new mysocket.\<close>

definition fds_update_passive ::
  "bool \<Rightarrow> bool \<Rightarrow> net_fds \<Rightarrow> net_fds \<Rightarrow> fd_table \<Rightarrow> fault + net_fds \<times> net_fds \<times> fd_table" where
  "fds_update_passive listening is_active new acc d =
     need (\<not> listening) Assert_failed
       (need (\<not> is_active) Assert_failed
          (Inr (new\<lparr>fd_socket := fd_new_socket acc\<rparr>, acc\<lparr>fd_new_socket := -1\<rparr>, sys_close (fd_socket new) d)))"

section \<open>Agreement with the model of the data\<close>

text \<open>A socket of \<open>Network_Io\<close> is present where the descriptor is.\<close>

definition same_sockets :: "tcp_io_ctx \<Rightarrow> net_fds \<Rightarrow> bool" where
  "same_sockets io f \<longleftrightarrow> (socket io \<noteq> None \<longleftrightarrow> fd_socket f \<ge> 0) \<and> (new_socket io \<noteq> None \<longleftrightarrow> fd_new_socket f \<noteq> -1)
     \<and> fd_new_socket f \<ge> -1"

lemma init_agrees:
  assumes "0 \<le> fd"
  shows "\<exists>ctx io. network_init (Some s) = Inr ctx \<and> impl_data ctx = Some io \<and>
    (\<exists>f d'. fds_init (Some fd) (Some (r, w)) d = Inr (f, d') \<and> same_sockets io f)"
  using assms by (auto simp: network_init_def network_init_socket_def network_alloc_context_socket_def
      fds_init_def fds_alloc_context_def same_sockets_def)

lemma update_agrees:
  assumes "impl_data new_ctx = Some new_io" and "impl_data acc_ctx = Some acc_io"
    and "same_sockets new_io new" and "same_sockets acc_io acc"
    and "network_update_passive_state new_ctx acc_ctx l a = Inr (new_ctx', acc_ctx')"
  shows "\<exists>new_io' acc_io' new' acc' d'. impl_data new_ctx' = Some new_io' \<and> impl_data acc_ctx' = Some acc_io' \<and>
    fds_update_passive l a new acc d = Inr (new', acc', d') \<and> same_sockets new_io' new' \<and> same_sockets acc_io' acc'"
  using assms by (auto simp: network_update_passive_state_def fds_update_passive_def same_sockets_def need_def split: if_splits)

section \<open>Every descriptor has one owner\<close>

text \<open>
  The life of the contexts of a process, each under a name of its own. What the system opens is not open before; a context
  is handed the accepted socket by the thread that accepted it, for a listening one.
\<close>

type_synonym owners = "nat \<rightharpoonup> net_fds"

inductive fd_step :: "owners \<times> fd_table \<Rightarrow> owners \<times> fd_table \<Rightarrow> bool" where
  create: "\<lbrakk>c k = None; distinct [fd, r, w]; list_all (\<lambda>x. x \<ge> 0 \<and> x \<notin> open_fds d) [fd, r, w];
      fds_init (Some fd) (Some (r, w)) d = Inr (f, d')\<rbrakk> \<Longrightarrow> fd_step (c, d) (c(k \<mapsto> f), d')"
| accepts: "\<lbrakk>c k = Some f; case a of None \<Rightarrow> True | Some fd \<Rightarrow> fd \<ge> 0 \<and> fd \<notin> open_fds d;
      fds_accept a f d = Inr (rc, f', d')\<rbrakk> \<Longrightarrow> fd_step (c, d) (c(k \<mapsto> f'), d')"
| hands_over: "\<lbrakk>c k = Some new; c l = Some acc; k \<noteq> l; fd_new_socket acc \<noteq> -1;
      fds_update_passive listening is_active new acc d = Inr (new', acc', d')\<rbrakk>
    \<Longrightarrow> fd_step (c, d) (c(k \<mapsto> new', l \<mapsto> acc'), d')"
| closes: "\<lbrakk>c k \<noteq> None; fds_close (c k) d = Inr (none, d')\<rbrakk> \<Longrightarrow> fd_step (c, d) (c(k := none), d')"

definition owned :: "net_fds \<Rightarrow> int set" where
  "owned f = {fd_socket f, exit_pipe_read f, exit_pipe_write f} \<union> (if fd_new_socket f = -1 then {} else {fd_new_socket f})"

text \<open>Within a context the descriptors are different, and -1 only where the code allows it.\<close>

definition good_fds :: "net_fds \<Rightarrow> bool" where
  "good_fds f \<longleftrightarrow> distinct [fd_socket f, exit_pipe_read f, exit_pipe_write f, fd_new_socket f] \<and>
     fd_socket f \<ge> 0 \<and> exit_pipe_read f \<ge> 0 \<and> exit_pipe_write f \<ge> 0 \<and> fd_new_socket f \<ge> -1"

definition own :: "net_fds option \<Rightarrow> int set" where
  "own o_f = (case o_f of None \<Rightarrow> {} | Some f \<Rightarrow> owned f)"

lemma own_simps [simp]: "own None = {}" "own (Some f) = owned f"
  by (simp_all add: own_def)

definition fd_inv :: "int set \<Rightarrow> owners \<times> fd_table \<Rightarrow> bool" where
  "fd_inv base s \<longleftrightarrow>
     (\<forall>k. pred_option good_fds (fst s k) \<and> own (fst s k) \<inter> base = {}) \<and>
     (\<forall>k l. k \<noteq> l \<longrightarrow> own (fst s k) \<inter> own (fst s l) = {}) \<and>
     open_fds (snd s) = base \<union> (\<Union>k. own (fst s k)) \<and> bad_closes (snd s) = []"

lemma swap_part: "R \<inter> A = {} \<Longrightarrow> A \<inter> B = {} \<Longrightarrow> (B \<union> (A \<union> R) - A) \<union> X = B \<union> (X \<union> R)" for A :: "'a set"
  by blast

text \<open>
  One context changes its descriptors: it may drop some and take others that were not open.
\<close>

lemma fd_inv_change:
  assumes inv: "fd_inv base (c, d)" and new: "own x - own (c k) \<subseteq> - open_fds d" and "pred_option good_fds x"
    and op: "open_fds d' = (open_fds d - own (c k)) \<union> own x" and "bad_closes d' = bad_closes d"
  shows "fd_inv base (c(k := x), d')"
proof -
  have x: "own x \<inter> base = {}" "\<And>l. l \<noteq> k \<Longrightarrow> own x \<inter> own (c l) = {}"
    using inv new by (fastforce simp: fd_inv_def)+
  have old: "own (c k) \<inter> base = {}" "\<And>l. l \<noteq> k \<Longrightarrow> own (c l) \<inter> own (c k) = {}" "open_fds d = base \<union> (\<Union>l. own (c l))"
    using inv by (simp_all add: fd_inv_def)
  let ?rest = "\<Union>l \<in> - {k}. own (c l)"
  have "(\<Union>l. own ((c(k := x)) l)) = own x \<union> ?rest" by (auto split: if_splits)
  moreover have split: "(\<Union>l. own (c l)) = own (c k) \<union> ?rest" by auto
  moreover have "(base \<union> (own (c k) \<union> ?rest) - own (c k)) \<union> own x = base \<union> (own x \<union> ?rest)"
    using old(1,2) by (intro swap_part) auto
  ultimately have "open_fds d' = base \<union> (\<Union>l. own ((c(k := x)) l))" using op old(3) by argo
  then show ?thesis using inv x x(2) [THEN Int_commute [THEN trans]] assms(3,5) by (auto simp: fd_inv_def)
qed

lemma fd_inv_owned:
  assumes "fd_inv base (c, d)" and "c k = Some f"
  shows "good_fds f" "owned f \<subseteq> open_fds d"
proof -
  have "pred_option good_fds (c k)" "own (c k) \<subseteq> open_fds d" using assms(1) by (auto simp: fd_inv_def)
  then show "good_fds f" "owned f \<subseteq> open_fds d" using assms(2) by simp_all
qed

lemmas fd_ops = fds_init_def fds_alloc_context_def fds_accept_def fds_update_passive_def sys_open_def need_def

lemma fds_close_effect:
  assumes "good_fds f" and "owned f \<subseteq> open_fds d"
  shows "fds_close (Some f) d = Inr (None, d\<lparr>open_fds := open_fds d - owned f\<rparr>)"
  using assms by (cases d) (auto simp: fds_close_def network_close_socket_def destroy_context_socket_def sys_close_def
      good_fds_def owned_def Let_def split: if_splits)

lemma hand_over_inv:
  assumes inv: "fd_inv base (c, d)" and k: "c k = Some new" "c l = Some acc" "k \<noteq> l" and fd: "fd_new_socket acc \<noteq> -1"
    and op: "fds_update_passive listening is_active new acc d = Inr (new', acc', d')"
  shows "fd_inv base (c(k \<mapsto> new', l \<mapsto> acc'), d')"
proof -
  let ?fd = "fd_new_socket acc"
  note good = fd_inv_owned [OF inv k(1)] fd_inv_owned [OF inv k(2)]
  have eq: "new' = new\<lparr>fd_socket := ?fd\<rparr>" "acc' = acc\<lparr>fd_new_socket := -1\<rparr>" "d' = sys_close (fd_socket new) d"
    using op by (auto simp: fds_update_passive_def need_def split: if_splits)
  have nn: "?fd \<ge> 0" using good(3) fd by (simp add: good_fds_def)
  have "own (c k) \<inter> own (c l) = {}" using inv k(3) by (auto simp: fd_inv_def)
  then have disj: "?fd \<notin> owned new" using k fd by (auto simp: owned_def)
  have moved: "fd_inv base (c(l \<mapsto> acc'), d\<lparr>open_fds := open_fds d - {?fd}\<rparr>)"
    using good k fd by (intro fd_inv_change [OF inv]) (auto simp: eq owned_def good_fds_def)
  have "fd_inv base (c(l \<mapsto> acc', k \<mapsto> new'), d')"
    using good k fd disj nn by (intro fd_inv_change [OF moved]) (auto simp: eq owned_def good_fds_def sys_close_def)
  then show ?thesis using k(3) by (simp add: fun_upd_twist)
qed

lemma fd_step_inv: "fd_step s s' \<Longrightarrow> fd_inv base s \<Longrightarrow> fd_inv base s'"
proof (induction rule: fd_step.induct)
  case (create c k fd r w d f d')
  then have "f = \<lparr>fd_socket = fd, exit_pipe_read = r, exit_pipe_write = w, fd_new_socket = -1\<rparr>"
    "d' = d\<lparr>open_fds := {fd, r, w} \<union> open_fds d\<rparr>" by (auto simp: fd_ops)
  with create show ?case by (intro fd_inv_change) (auto simp: owned_def good_fds_def)
next
  case (accepts c k f a d rc f' d')
  note good = fd_inv_owned [OF accepts(4,1)]
  show ?case
  proof (cases a)
    case None
    then show ?thesis using accepts by (simp add: fd_ops fun_upd_idem)
  next
    case (Some fd)
    with accepts have "f' = f\<lparr>fd_new_socket := fd\<rparr>" "d' = d\<lparr>open_fds := {fd} \<union> open_fds d\<rparr>" "fd_new_socket f = -1"
      by (auto simp: fd_ops split: if_splits)
    with Some accepts good show ?thesis by (intro fd_inv_change [OF accepts(4)]) (auto simp: owned_def good_fds_def)
  qed
next
  case (hands_over c k new l acc listening is_active d new' acc' d')
  then show ?case by (blast intro: hand_over_inv)
next
  case (closes c k d none d')
  then obtain f where f: "c k = Some f" by blast
  with closes fds_close_effect [OF fd_inv_owned [OF closes(3) f]]
  have "none = None" "d' = d\<lparr>open_fds := open_fds d - owned f\<rparr>" by simp_all
  with closes f show ?case by (intro fd_inv_change) auto
qed

text \<open>
  C27: The network layer neither leaks descriptors nor closes one twice. Start with no context and any open descriptors of the
  rest of the program. After any sequence of creations, accepted connections, hand-overs of the accepted socket
  to a new context and closes, every context owns its socket, its exit pipe and an accepted socket that waits to be handed over,
  no two contexts share one, the open descriptors are exactly those of the contexts and of the rest, and \<^verbatim>\<open>close\<close> was never
  called for a descriptor that was not open.
\<close>

theorem descriptors_owned:
  assumes "fd_step\<^sup>*\<^sup>* (Map.empty, \<lparr>open_fds = base, bad_closes = []\<rparr>) (c, d)"
  shows "open_fds d = base \<union> (\<Union>k. own (c k)) \<and> bad_closes d = [] \<and>
    (\<forall>k. own (c k) \<inter> base = {} \<and> (\<forall>l. l \<noteq> k \<longrightarrow> own (c k) \<inter> own (c l) = {}))"
proof -
  have "fd_inv base (c, d)"
    using assms
  proof (induction rule: rtranclp_induct)
    case base
    then show ?case by (simp add: fd_inv_def)
  next
    case (step s s')
    then show ?case by (blast intro: fd_step_inv)
  qed
  then show ?thesis by (simp add: fd_inv_def)
qed

text \<open>A server with the standard streams open creates a mysocket, accepts a connection and hands it over.\<close>

definition listener_fds :: net_fds where
  "listener_fds = \<lparr>fd_socket = 3, exit_pipe_read = 4, exit_pipe_write = 5, fd_new_socket = -1\<rparr>"

definition server_fds :: net_fds where
  "server_fds = \<lparr>fd_socket = 7, exit_pipe_read = 8, exit_pipe_write = 9, fd_new_socket = -1\<rparr>"

definition demo_owners :: owners where
  "demo_owners = [0 \<mapsto> listener_fds, 1 \<mapsto> server_fds\<lparr>fd_socket := 6\<rparr>]"

lemma demo_run:
  "fd_step\<^sup>*\<^sup>* (Map.empty, \<lparr>open_fds = {0, 1, 2}, bad_closes = []\<rparr>)
    (demo_owners, \<lparr>open_fds = {0, 1, 2, 3, 4, 5, 6, 8, 9}, bad_closes = []\<rparr>)"
proof -
  let ?l = "listener_fds\<lparr>fd_new_socket := 6\<rparr>" and ?d = "\<lambda>fds. \<lparr>open_fds = fds, bad_closes = []\<rparr>"
  have "fd_step (Map.empty, ?d {0, 1, 2}) ([0 \<mapsto> listener_fds], ?d {0, 1, 2, 3, 4, 5})"
    by (rule fd_step.create [where fd = 3 and r = 4 and w = 5]) (auto simp: fd_ops listener_fds_def)
  moreover have "fd_step ([0 \<mapsto> listener_fds], ?d {0, 1, 2, 3, 4, 5}) ([0 \<mapsto> listener_fds, 0 \<mapsto> ?l], ?d {0, 1, 2, 3, 4, 5, 6})"
    by (rule fd_step.accepts [where a = "Some 6" and f = listener_fds and rc = 6]) (auto simp: fd_ops listener_fds_def)
  moreover have "fd_step ([0 \<mapsto> ?l], ?d {0, 1, 2, 3, 4, 5, 6}) ([0 \<mapsto> ?l, 1 \<mapsto> server_fds], ?d {0, 1, 2, 3, 4, 5, 6, 7, 8, 9})"
    by (rule fd_step.create [where fd = 7 and r = 8 and w = 9]) (auto simp: fd_ops server_fds_def)
  moreover have "fd_step ([0 \<mapsto> ?l, 1 \<mapsto> server_fds], ?d {0, 1, 2, 3, 4, 5, 6, 7, 8, 9})
      ([0 \<mapsto> ?l, 1 \<mapsto> server_fds, 1 \<mapsto> server_fds\<lparr>fd_socket := 6\<rparr>, 0 \<mapsto> listener_fds], ?d {0, 1, 2, 3, 4, 5, 6, 8, 9})"
    by (rule fd_step.hands_over [where new = server_fds and acc = ?l and listening = False and is_active = False])
      (auto simp: fd_ops sys_close_def listener_fds_def server_fds_def)
  ultimately show ?thesis by (auto intro: converse_rtranclp_into_rtranclp simp: demo_owners_def fun_upd_twist)
qed

theorem descriptors_owned_witness:
  "{0, 1, 2, 3, 4, 5, 6, 8, 9} = {0, 1, 2} \<union> (\<Union>k. own (demo_owners k)) \<and> own (demo_owners 0) \<inter> own (demo_owners 1) = {}"
  using descriptors_owned [OF demo_run] by simp

end
