(* ===== verification/Mysock_Queue.thy ===== *)
theory Mysock_Queue
  imports Net_Prelude
begin

text \<open>
  The packet queues between the network, the transport layer and the application
  (\<^verbatim>\<open>_mysock_enqueue_buffer\<close>, \<^verbatim>\<open>_mysock_dequeue_buffer\<close> and \<^verbatim>\<open>_mysock_free_queue\<close> of
  \<^verbatim>\<open>mysock.c\<close>): singly linked nodes in a heap with a head and a tail pointer, the asserts of
  the code included. The contract is the locale \<open>packet_fifo\<close>, a first-in first-out queue
  of buffers whose front can be consumed in part; its client lemmas say that nothing is
  lost, duplicated or reordered. The pointer structure interprets it.

  The mutex of the context makes each operation atomic. A dequeue from an empty queue blocks:
  its result is \<open>None\<close>. The overlapping \<^verbatim>\<open>memcpy\<close> of a partial removal is taken to copy
  forwards.
\<close>

section \<open>The code\<close>

record packet_queue_node =
  node_data :: "byte list"
  node_next :: "nat option"

record packet_queue =
  q_head :: "nat option"
  q_tail :: "nat option"

record qmem =
  qheap :: "nat \<Rightarrow> packet_queue_node option"
  brk :: nat

definition enqueue_buffer :: "qmem \<Rightarrow> packet_queue \<Rightarrow> byte list \<Rightarrow> fault + qmem \<times> packet_queue" where
  "enqueue_buffer m pq packet =
     (let node = brk m;
          h = (qheap m)(node \<mapsto> \<lparr>node_data = packet, node_next = None\<rparr>);
          m = m\<lparr>qheap := h, brk := node + 1\<rparr>
      in case q_head pq of
           None \<Rightarrow> need (q_tail pq = None) Assert_failed (Inr (m, \<lparr>q_head = Some node, q_tail = Some node\<rparr>))
         | Some _ \<Rightarrow>
             (case q_tail pq of
                None \<Rightarrow> Inl Assert_failed
              | Some t \<Rightarrow>
                  (case h t of
                     None \<Rightarrow> Inl Use_after_free
                   | Some last_node \<Rightarrow>
                       need (node_next last_node = None) Assert_failed
                         (Inr (m\<lparr>qheap := h(t \<mapsto> last_node\<lparr>node_next := Some node\<rparr>)\<rparr>, pq\<lparr>q_tail := Some node\<rparr>)))))"

text \<open>
  The bytes copied to the destination, the length returned, the new heap and queue. Without
  \<open>remove_partial\<close> the length returned is that of the whole packet, also where the
  destination is smaller.
\<close>

definition dequeue_buffer ::
  "qmem \<Rightarrow> packet_queue \<Rightarrow> nat \<Rightarrow> bool \<Rightarrow> fault + (byte list \<times> nat \<times> qmem \<times> packet_queue) option" where
  "dequeue_buffer m pq max_len remove_partial =
     (case q_head pq of
        None \<Rightarrow> Inr None
      | Some p \<Rightarrow>
          (case qheap m p of
             None \<Rightarrow> Inl Use_after_free
           | Some node \<Rightarrow>
               if length (node_data node) > max_len \<and> remove_partial then
                 Inr (Some (take max_len (node_data node), max_len,
                   m\<lparr>qheap := (qheap m)(p \<mapsto> node\<lparr>node_data := drop max_len (node_data node)\<rparr>)\<rparr>, pq))
               else
                 let m' = m\<lparr>qheap := (qheap m)(p := None)\<rparr>;
                     out = take (min max_len (length (node_data node))) (node_data node)
                 in case node_next node of
                      Some q \<Rightarrow> Inr (Some (out, length (node_data node), m', pq\<lparr>q_head := Some q\<rparr>))
                    | None \<Rightarrow>
                        need (q_tail pq = Some p) Assert_failed
                          (Inr (Some (out, length (node_data node), m', \<lparr>q_head = None, q_tail = None\<rparr>)))))"

text \<open>The loop of \<^verbatim>\<open>_mysock_free_queue\<close>; the bound is the number of heap blocks.\<close>

fun free_nodes :: "nat \<Rightarrow> qmem \<Rightarrow> nat option \<Rightarrow> bool \<Rightarrow> fault + qmem \<times> bool" where
  "free_nodes fuel m None result = Inr (m, result)"
| "free_nodes 0 m (Some p) result = Inl Diverges"
| "free_nodes (Suc fuel) m (Some p) result =
     (case qheap m p of
        None \<Rightarrow> Inl Use_after_free
      | Some node \<Rightarrow>
          free_nodes fuel (m\<lparr>qheap := (qheap m)(p := None)\<rparr>) (node_next node)
            (if length (node_data node) > 0 then True else result))"

definition free_queue :: "nat \<Rightarrow> qmem \<Rightarrow> packet_queue \<Rightarrow> fault + bool \<times> qmem \<times> packet_queue" where
  "free_queue fuel m pq =
     andthen (free_nodes fuel m (q_head pq) (q_head pq \<noteq> None)) (\<lambda>(m, result).
       Inr (result, m, \<lparr>q_head = None, q_tail = None\<rparr>))"

section \<open>The contract\<close>

text \<open>A writer of several packets, and a reader that takes them apart with buffers of sizes \<open>ns\<close>.\<close>

fun enqueue_all :: "('s \<Rightarrow> byte list \<Rightarrow> fault + 's) \<Rightarrow> byte list list \<Rightarrow> 's \<Rightarrow> fault + 's" where
  "enqueue_all enq [] s = Inr s"
| "enqueue_all enq (x # xs) s = andthen (enq s x) (enqueue_all enq xs)"

fun dequeue_all ::
  "('s \<Rightarrow> nat \<Rightarrow> bool \<Rightarrow> fault + (byte list \<times> nat \<times> 's) option) \<Rightarrow> nat list \<Rightarrow> 's \<Rightarrow> fault + byte list \<times> 's" where
  "dequeue_all deq [] s = Inr ([], s)"
| "dequeue_all deq (n # ns) s = andthen (deq s n True) (\<lambda>r.
     case r of
       None \<Rightarrow> Inr ([], s)
     | Some (bs, _, t) \<Rightarrow> andthen (dequeue_all deq ns t) (\<lambda>(rest, u). Inr (bs @ rest, u)))"

locale packet_fifo =
  fixes enq :: "'s \<Rightarrow> byte list \<Rightarrow> fault + 's"
    and deq :: "'s \<Rightarrow> nat \<Rightarrow> bool \<Rightarrow> fault + (byte list \<times> nat \<times> 's) option"
    and rep :: "'s \<Rightarrow> byte list list \<Rightarrow> bool"
  assumes enq_rep: "rep s xs \<Longrightarrow> \<exists>t. enq s x = Inr t \<and> rep t (xs @ [x])"
    and deq_empty: "rep s [] \<Longrightarrow> deq s n b = Inr None"
    and deq_part: "rep s (x # xs) \<Longrightarrow> n < length x \<Longrightarrow>
      \<exists>t. deq s n True = Inr (Some (take n x, n, t)) \<and> rep t (drop n x # xs)"
    and deq_whole: "rep s (x # xs) \<Longrightarrow> length x \<le> n \<or> \<not> b \<Longrightarrow>
      \<exists>t. deq s n b = Inr (Some (take n x, length x, t)) \<and> rep t xs"
begin

lemma enqueue_all_rep: "rep s xs \<Longrightarrow> \<exists>t. enqueue_all enq ys s = Inr t \<and> rep t (xs @ ys)"
proof (induction ys arbitrary: s xs)
  case (Cons y ys)
  obtain u where "enq s y = Inr u" "rep u (xs @ [y])"
    using enq_rep [OF Cons.prems] by blast
  with Cons.IH [of u "xs @ [y]"] show ?case by simp
qed simp

lemma deq_split:
  assumes "rep s (x # xs)"
  shows "\<exists>len t ys. deq s n True = Inr (Some (take n x, len, t)) \<and> rep t ys \<and>
    concat (x # xs) = take n x @ concat ys"
proof (cases "n < length x")
  case True
  then show ?thesis
    using deq_part [OF assms True] append_take_drop_id [of n x]
    by (metis append.assoc concat.simps(2))
next
  case False
  then show ?thesis using deq_whole [OF assms, of n True] by fastforce
qed

lemma dequeue_all_stream:
  "rep s xs \<Longrightarrow> \<exists>bs t ys. dequeue_all deq ns s = Inr (bs, t) \<and> rep t ys \<and> concat xs = bs @ concat ys"
proof (induction ns arbitrary: s xs)
  case (Cons n ns)
  show ?case
  proof (cases xs)
    case Nil
    with Cons.prems show ?thesis by (auto simp: deq_empty)
  next
    case (Cons x xs')
    then obtain len t ys where "deq s n True = Inr (Some (take n x, len, t))" "rep t ys"
      "concat xs = take n x @ concat ys"
      using deq_split Cons.prems by metis
    with Cons.IH [of t ys] show ?thesis by fastforce
  qed
qed auto

lemma fifo_stream:
  assumes "rep s []"
  shows "\<exists>u bs t zs. enqueue_all enq ys s = Inr u \<and> dequeue_all deq ns u = Inr (bs, t) \<and> rep t zs \<and>
    concat ys = bs @ concat zs"
  using enqueue_all_rep [OF assms, of ys] dequeue_all_stream by fastforce

end

section \<open>The linked list implements it\<close>

text \<open>\<open>chain h p ps\<close>: the nodes at the addresses \<open>ps\<close> are linked in this order from \<open>p\<close> on.\<close>

fun chain :: "(nat \<Rightarrow> packet_queue_node option) \<Rightarrow> nat option \<Rightarrow> nat list \<Rightarrow> bool" where
  "chain h p [] \<longleftrightarrow> p = None"
| "chain h p (a # as) \<longleftrightarrow> p = Some a \<and> (\<exists>n. h a = Some n \<and> chain h (node_next n) as)"

definition contents :: "(nat \<Rightarrow> packet_queue_node option) \<Rightarrow> nat list \<Rightarrow> byte list list" where
  "contents h as = map (\<lambda>a. node_data (the (h a))) as"

definition queue_rep :: "qmem \<times> packet_queue \<Rightarrow> byte list list \<Rightarrow> bool" where
  "queue_rep s xs \<longleftrightarrow> (\<exists>as. chain (qheap (fst s)) (q_head (snd s)) as \<and> distinct as \<and>
     q_tail (snd s) = (if as = [] then None else Some (last as)) \<and>
     contents (qheap (fst s)) as = xs \<and> (\<forall>a. qheap (fst s) a \<noteq> None \<longrightarrow> a < brk (fst s)))"

lemma chain_upd_other: "a \<notin> set as \<Longrightarrow> chain (h(a := v)) p as = chain h p as"
  by (induction as arbitrary: p) auto

lemma contents_upd_other: "a \<notin> set as \<Longrightarrow> contents (h(a := v)) as = contents h as"
  by (auto simp: contents_def)

lemma chain_last:
  "chain h p as \<Longrightarrow> as \<noteq> [] \<Longrightarrow> \<exists>n. h (last as) = Some n \<and> node_next n = None"
  by (induction as arbitrary: p) (auto split: if_splits)

lemma chain_mem: "chain h p as \<Longrightarrow> a \<in> set as \<Longrightarrow> h a \<noteq> None"
  by (induction as arbitrary: p) auto

lemma chain_snoc:
  "chain h p as \<Longrightarrow> as \<noteq> [] \<Longrightarrow> distinct as \<Longrightarrow> b \<notin> set as \<Longrightarrow> h (last as) = Some n \<Longrightarrow>
    chain (h(b \<mapsto> \<lparr>node_data = x, node_next = None\<rparr>, last as \<mapsto> n\<lparr>node_next := Some b\<rparr>)) p (as @ [b])"
proof (induction as arbitrary: p)
  case (Cons a as)
  show ?case
  proof (cases "as = []")
    case True
    with Cons.prems show ?thesis by auto
  next
    case False
    then have "last as \<in> set as" by simp
    with Cons.prems False have "a \<noteq> last as" "a \<noteq> b" by auto
    with Cons False show ?thesis by auto
  qed
qed simp

lemma contents_snoc:
  assumes "as \<noteq> []" and "b \<notin> set as" and "h (last as) = Some n"
  shows "contents (h(b \<mapsto> \<lparr>node_data = x, node_next = None\<rparr>, last as \<mapsto> n\<lparr>node_next := Some b\<rparr>)) (as @ [b]) =
    contents h as @ [x]"
proof -
  have "b \<noteq> last as" using assms by auto
  with assms show ?thesis by (auto simp: contents_def)
qed

lemma chain_None: "chain h None as \<longleftrightarrow> as = []"
  by (cases as) auto

definition queue_enq :: "qmem \<times> packet_queue \<Rightarrow> byte list \<Rightarrow> fault + qmem \<times> packet_queue" where
  "queue_enq s x = enqueue_buffer (fst s) (snd s) x"

definition queue_deq ::
  "qmem \<times> packet_queue \<Rightarrow> nat \<Rightarrow> bool \<Rightarrow> fault + (byte list \<times> nat \<times> qmem \<times> packet_queue) option" where
  "queue_deq s n b = dequeue_buffer (fst s) (snd s) n b"

lemma queue_enq_rep:
  assumes "queue_rep s xs"
  shows "\<exists>t. queue_enq s x = Inr t \<and> queue_rep t (xs @ [x])"
proof -
  obtain m pq where s: "s = (m, pq)" by fastforce
  obtain as where as: "chain (qheap m) (q_head pq) as" "distinct as"
    "q_tail pq = (if as = [] then None else Some (last as))" "contents (qheap m) as = xs"
    "\<forall>a. qheap m a \<noteq> None \<longrightarrow> a < brk m"
    using assms by (auto simp: queue_rep_def s)
  have fresh: "brk m \<notin> set as"
    using as(1,5) chain_mem by (metis less_irrefl)
  show ?thesis
  proof (cases "as = []")
    case True
    let ?h = "(qheap m)(brk m \<mapsto> \<lparr>node_data = x, node_next = None\<rparr>)"
    have "queue_enq s x = Inr (m\<lparr>qheap := ?h, brk := brk m + 1\<rparr>, \<lparr>q_head = Some (brk m), q_tail = Some (brk m)\<rparr>)"
      using as(1,3) True by (simp add: queue_enq_def s enqueue_buffer_def Let_def)
    moreover have "queue_rep (m\<lparr>qheap := ?h, brk := brk m + 1\<rparr>, \<lparr>q_head = Some (brk m), q_tail = Some (brk m)\<rparr>) [x]"
      unfolding queue_rep_def using as(5)
      by (intro exI [of _ "[brk m]"]) (auto simp: contents_def less_Suc_eq)
    moreover have "xs = []" using as(4) True by (simp add: contents_def)
    ultimately show ?thesis by simp
  next
    case False
    then obtain n where n: "qheap m (last as) = Some n" "node_next n = None"
      using as(1) chain_last by blast
    have "last as \<noteq> brk m" using last_in_set [OF False] fresh by metis
    moreover obtain p where "q_head pq = Some p" using as(1) False by (cases as) auto
    ultimately have "queue_enq s x = Inr
        (m\<lparr>qheap := (qheap m)(brk m \<mapsto> \<lparr>node_data = x, node_next = None\<rparr>, last as \<mapsto> n\<lparr>node_next := Some (brk m)\<rparr>),
           brk := brk m + 1\<rparr>, pq\<lparr>q_tail := Some (brk m)\<rparr>)"
      using as(3) False n by (simp add: queue_enq_def s enqueue_buffer_def Let_def)
    moreover have "\<forall>a. ((qheap m)(brk m \<mapsto> \<lparr>node_data = x, node_next = None\<rparr>,
        last as \<mapsto> n\<lparr>node_next := Some (brk m)\<rparr>)) a \<noteq> None \<longrightarrow> a < brk m + 1"
      using as(5) n(1) by (auto simp: less_Suc_eq)
    ultimately show ?thesis
      using chain_snoc [OF as(1) False as(2) fresh n(1)] contents_snoc [of as "brk m" "qheap m" n, OF False fresh n(1)] as fresh
      by (auto simp: queue_rep_def intro!: exI [of _ "as @ [brk m]"])
  qed
qed

lemma queue_rep_Cons:
  assumes "queue_rep (m, pq) (x # xs)"
  obtains p as n where "q_head pq = Some p" and "qheap m p = Some n" and "node_data n = x"
    and "chain (qheap m) (node_next n) as" and "p \<notin> set as" and "distinct as"
    and "q_tail pq = Some (last (p # as))" and "contents (qheap m) as = xs"
    and "\<forall>a. qheap m a \<noteq> None \<longrightarrow> a < brk m"
proof -
  obtain bs where bs: "chain (qheap m) (q_head pq) bs" "distinct bs"
    "q_tail pq = (if bs = [] then None else Some (last bs))" "contents (qheap m) bs = x # xs"
    "\<forall>a. qheap m a \<noteq> None \<longrightarrow> a < brk m"
    using assms by (auto simp: queue_rep_def)
  then obtain p as where "bs = p # as" by (cases bs) (auto simp: contents_def)
  with bs show thesis by (intro that) (auto simp: contents_def)
qed

lemma queue_deq_part:
  assumes "queue_rep s (x # xs)" and "n < length x"
  shows "\<exists>t. queue_deq s n True = Inr (Some (take n x, n, t)) \<and> queue_rep t (drop n x # xs)"
proof -
  obtain m pq where s: "s = (m, pq)" by fastforce
  obtain p as nd where p: "q_head pq = Some p" "qheap m p = Some nd" "node_data nd = x"
    "chain (qheap m) (node_next nd) as" "p \<notin> set as" "distinct as" "q_tail pq = Some (last (p # as))"
    "contents (qheap m) as = xs" "\<forall>a. qheap m a \<noteq> None \<longrightarrow> a < brk m"
    using assms(1) unfolding s by (rule queue_rep_Cons)
  let ?m = "m\<lparr>qheap := (qheap m)(p \<mapsto> nd\<lparr>node_data := drop n x\<rparr>)\<rparr>"
  have "queue_deq s n True = Inr (Some (take n x, n, ?m, pq))"
    using p(1-3) assms(2) by (simp add: queue_deq_def s dequeue_buffer_def)
  moreover have "queue_rep (?m, pq) (drop n x # xs)"
    unfolding queue_rep_def
    using p by (intro exI [of _ "p # as"]) (auto simp: chain_upd_other contents_def)
  ultimately show ?thesis by blast
qed

lemma queue_deq_whole:
  assumes "queue_rep s (x # xs)" and "length x \<le> n \<or> \<not> b"
  shows "\<exists>t. queue_deq s n b = Inr (Some (take n x, length x, t)) \<and> queue_rep t xs"
proof -
  obtain m pq where s: "s = (m, pq)" by fastforce
  obtain p as nd where p: "q_head pq = Some p" "qheap m p = Some nd" "node_data nd = x"
    "chain (qheap m) (node_next nd) as" "p \<notin> set as" "distinct as" "q_tail pq = Some (last (p # as))"
    "contents (qheap m) as = xs" "\<forall>a. qheap m a \<noteq> None \<longrightarrow> a < brk m"
    using assms(1) unfolding s by (rule queue_rep_Cons)
  let ?m = "m\<lparr>qheap := (qheap m)(p := None)\<rparr>"
  let ?pq = "\<lparr>q_head = node_next nd, q_tail = (if as = [] then None else Some (last as))\<rparr>"
  have "take (min n (length x)) x = take n x" by (simp add: min_def)
  then have "queue_deq s n b = Inr (Some (take n x, length x, ?m, ?pq))"
    using p assms(2) by (cases as) (auto simp: queue_deq_def s dequeue_buffer_def Let_def)
  moreover have "queue_rep (?m, ?pq) xs"
    unfolding queue_rep_def
    using p by (intro exI [of _ as]) (auto simp: chain_upd_other contents_upd_other)
  ultimately show ?thesis by blast
qed

interpretation mq: packet_fifo queue_enq queue_deq queue_rep
proof (unfold_locales, goal_cases)
  case (1 s xs x)
  then show ?case by (rule queue_enq_rep)
next
  case (2 s n b)
  then show ?case
    by (auto simp: queue_rep_def contents_def queue_deq_def dequeue_buffer_def)
next
  case (3 s x xs n)
  then show ?case by (rule queue_deq_part)
next
  case (4 s x xs n b)
  then show ?case by (rule queue_deq_whole)
qed

section \<open>Properties\<close>

text \<open>
  A queue is a byte stream: when packets \<open>ys\<close> are enqueued and then taken out with
  partial removal into buffers of any sizes, no assert of the code fails, and the bytes
  obtained followed by the bytes still queued are the bytes of \<open>ys\<close>, in order.
\<close>

theorem queue_is_byte_stream:
  assumes "queue_rep s []"
  shows "\<exists>u bs t zs. enqueue_all queue_enq ys s = Inr u \<and> dequeue_all queue_deq ns u = Inr (bs, t) \<and>
    queue_rep t zs \<and> concat ys = bs @ concat zs"
  using assms by (rule mq.fifo_stream)

definition demo_empty :: "qmem \<times> packet_queue" where
  "demo_empty = (\<lparr>qheap = Map.empty, brk = 0\<rparr>, \<lparr>q_head = None, q_tail = None\<rparr>)"

lemma demo_empty_rep: "queue_rep demo_empty []"
  by (simp add: queue_rep_def demo_empty_def contents_def)

theorem queue_is_byte_stream_witness:
  "\<exists>u bs t zs. enqueue_all queue_enq [[1, 2, 3], [4]] demo_empty = Inr u \<and>
     dequeue_all queue_deq [2, 2] u = Inr (bs, t) \<and> [1, 2, 3, 4] = bs @ concat zs"
  using queue_is_byte_stream [OF demo_empty_rep, of "[[1, 2, 3], [4]]" "[2, 2]"] by fastforce

text \<open>
  Without partial removal a packet leaves the queue whole, whatever the size of the
  destination: the destination gets its first bytes, the rest is lost, and the length
  returned is that of the whole packet.
\<close>

theorem whole_packet_dequeued:
  assumes "queue_rep s (x # xs)"
  shows "\<exists>t. queue_deq s n False = Inr (Some (take n x, length x, t)) \<and> queue_rep t xs"
  using mq.deq_whole [OF assms] by simp

theorem whole_packet_dequeued_witness:
  "\<exists>u t. queue_enq demo_empty [1, 2, 3] = Inr u \<and> queue_deq u 2 False = Inr (Some ([1, 2], 3, t))"
proof -
  obtain u where u: "queue_enq demo_empty [1, 2, 3] = Inr u" "queue_rep u [[1, 2, 3]]"
    using mq.enq_rep [OF demo_empty_rep, of "[1, 2, 3]"] by auto
  with whole_packet_dequeued [OF u(2), of 2] show ?thesis by auto
qed

text \<open>Freeing a queue visits its nodes once.\<close>

lemma free_nodes_chain:
  "chain (qheap m) p as \<Longrightarrow> distinct as \<Longrightarrow> length as \<le> fuel \<Longrightarrow>
    \<exists>m'. free_nodes fuel m p r = Inr (m', r \<or> (\<exists>x \<in> set (contents (qheap m) as). x \<noteq> [])) \<and>
      qheap m' = (\<lambda>a. if a \<in> set as then None else qheap m a) \<and> brk m' = brk m"
proof (induction as arbitrary: m p fuel r)
  case (Cons a as)
  then obtain f where f: "fuel = Suc f" by (cases fuel) auto
  obtain n where n: "p = Some a" "qheap m a = Some n" "chain (qheap m) (node_next n) as"
    using Cons.prems(1) by auto
  let ?m = "m\<lparr>qheap := (qheap m)(a := None)\<rparr>"
  have "chain (qheap ?m) (node_next n) as" "contents (qheap ?m) as = contents (qheap m) as"
    using n(3) Cons.prems(2) by (simp_all add: chain_upd_other contents_upd_other)
  with Cons.IH [of ?m "node_next n" f "if node_data n \<noteq> [] then True else r"] Cons.prems(2,3) f n(1,2)
  show ?case by (fastforce simp: contents_def fun_eq_iff)
qed (auto simp: contents_def chain_None)

text \<open>
  Freeing a queue ends after at most as many rounds as it has packets, frees every node
  exactly once and leaves an empty queue; it reports true for every non-empty queue,
  also when all its packets are empty.
\<close>

theorem free_queue_frees_all:
  assumes "queue_rep (m, pq) xs" and "length xs \<le> fuel"
  shows "\<exists>m' pq'. free_queue fuel m pq = Inr (xs \<noteq> [], m', pq') \<and> queue_rep (m', pq') [] \<and>
    card {a. qheap m a \<noteq> None \<and> qheap m' a = None} = length xs"
proof -
  obtain as where as: "chain (qheap m) (q_head pq) as" "distinct as" "contents (qheap m) as = xs"
    "\<forall>a. qheap m a \<noteq> None \<longrightarrow> a < brk m"
    using assms(1) by (auto simp: queue_rep_def)
  have len: "length as = length xs" using as(3) by (auto simp: contents_def)
  have head: "q_head pq \<noteq> None \<longleftrightarrow> xs \<noteq> []" using as(1) len by (cases as) auto
  obtain m' where m': "free_nodes fuel m (q_head pq) (q_head pq \<noteq> None) = Inr (m', xs \<noteq> [])"
    "qheap m' = (\<lambda>a. if a \<in> set as then None else qheap m a)" "brk m' = brk m"
    using free_nodes_chain [OF as(1,2), of fuel "q_head pq \<noteq> None"] assms(2) len head as(3) by fastforce
  have "{a. qheap m a \<noteq> None \<and> qheap m' a = None} = set as"
    using m'(2) chain_mem [OF as(1)] by auto
  then have "card {a. qheap m a \<noteq> None \<and> qheap m' a = None} = length xs"
    using as(2) len by (simp add: distinct_card)
  with m' as(4) show ?thesis
    by (auto simp: free_queue_def queue_rep_def contents_def)
qed

theorem free_queue_frees_all_witness:
  "\<exists>u m' pq'. queue_enq demo_empty [] = Inr u \<and> free_queue 1 (fst u) (snd u) = Inr (True, m', pq')"
proof -
  obtain u where u: "queue_enq demo_empty [] = Inr u" "queue_rep u [[]]"
    using mq.enq_rep [OF demo_empty_rep, of "[]"] by auto
  then have "queue_rep (fst u, snd u) [[]]" by simp
  with u(1) free_queue_frees_all [OF this, of 1] show ?thesis by auto
qed

end
