(* ===== verification/Mysock.thy ===== *)
theory Mysock
  imports Mysock_Queue Network_Io
begin

text \<open>
  The mysocket layer (\<^verbatim>\<open>mysock.c\<close>, \<^verbatim>\<open>mysock_impl.h\<close>): the context of a mysocket, the descriptor
  table \<^verbatim>\<open>global_ctx\<close> with allocation and release of descriptors, and the waiting of the
  application for its connection. Contexts live in a heap, since the table and the threads
  share them by address. The packet queues of a context are lists of buffers here;
  \<open>list_queue_refined\<close> relates the list operations to the linked list of \<open>Mysock_Queue\<close>.

  The makefile leaves asserts enabled, so \<^verbatim>\<open>_mysock_get_context\<close> verifies the descriptor and
  aborts for a bad one. Mutexes make the operations atomic; condition variables only wake
  waiting threads, so an operation that would wait has the value \<open>None\<close>.
\<close>

section \<open>Contexts\<close>

type_synonym queue = "byte list list"

record mysock_context =
  is_active :: bool
  network_state :: network_context
  bound :: bool
  listening :: bool
  my_sd :: int
  listen_sd :: int
  blocking :: bool
  stcp_errno :: int
  transport_thread_started :: bool
  close_requested :: bool
  eof :: bool
  network_recv_queue :: queue
  app_send_queue :: queue
  app_recv_queue :: queue

record process =
  ctx_mem :: "nat \<Rightarrow> mysock_context option"
  ctx_brk :: nat
  global_ctx :: "nat option list"
  errno :: int

definition MAX_NUM_CONNECTIONS :: nat where
  "MAX_NUM_CONNECTIONS = 64"

definition EINTR :: int where "EINTR = 4"
definition EMFILE :: int where "EMFILE = 24"
definition ECONNREFUSED :: int where "ECONNREFUSED = 111"
definition ECONNABORTED :: int where "ECONNABORTED = 103"

lemmas errno_defs = EINTR_def EMFILE_def ECONNREFUSED_def ECONNABORTED_def

section \<open>Queues as lists\<close>

definition enqueue :: "queue \<Rightarrow> byte list \<Rightarrow> queue" where
  "enqueue q packet = q @ [packet]"

definition dequeue :: "queue \<Rightarrow> nat \<Rightarrow> bool \<Rightarrow> (byte list \<times> nat \<times> queue) option" where
  "dequeue q max_len remove_partial =
     (case q of
        [] \<Rightarrow> None
      | x # xs \<Rightarrow>
          if length x > max_len \<and> remove_partial then Some (take max_len x, max_len, drop max_len x # xs)
          else Some (take max_len x, length x, xs))"

interpretation lq: packet_fifo "\<lambda>q x. Inr (enqueue q x)" "\<lambda>q n b. Inr (dequeue q n b)" "(=)"
  by unfold_locales (auto simp: enqueue_def dequeue_def)

section \<open>The descriptor table\<close>

definition allocate_context :: "conn_sock option \<Rightarrow> fault + mysock_context" where
  "allocate_context s =
     andthen (network_init s) (\<lambda>net.
       Inr \<lparr>is_active = False, network_state = net, bound = False, listening = False, my_sd = 0,
         listen_sd = - 1, blocking = True, stcp_errno = 0, transport_thread_started = False,
         close_requested = False, eof = False,
         network_recv_queue = [], app_send_queue = [], app_recv_queue = []\<rparr>)"

definition free_context :: "('a process_scheme) \<Rightarrow> nat \<Rightarrow> fault + 'a process_scheme" where
  "free_context w c =
     (case ctx_mem w c of
        None \<Rightarrow> Inl Use_after_free
      | Some ctx \<Rightarrow>
          andthen (network_close (network_state ctx)) (\<lambda>_.
            let sd = nat (my_sd ctx)
            in Inr (w\<lparr>ctx_mem := (ctx_mem w)(c := None),
                 global_ctx := (if global_ctx w ! sd = Some c then (global_ctx w)[sd := None] else global_ctx w)\<rparr>)))"

text \<open>The search for a free descriptor.\<close>

fun first_free :: "nat option list \<Rightarrow> nat \<Rightarrow> nat option" where
  "first_free [] k = None"
| "first_free (c # cs) k = (if c = None then Some k else first_free cs (Suc k))"

definition new_mysocket :: "conn_sock option \<Rightarrow> 'a process_scheme \<Rightarrow> fault + int \<times> 'a process_scheme" where
  "new_mysocket s w =
     andthen (allocate_context s) (\<lambda>ctx.
       let c = ctx_brk w;
           w = w\<lparr>ctx_mem := (ctx_mem w)(c \<mapsto> ctx), ctx_brk := c + 1\<rparr>
       in case first_free (global_ctx w) 0 of
            Some k \<Rightarrow>
              Inr (int k, w\<lparr>global_ctx := (global_ctx w)[k := Some c],
                ctx_mem := (ctx_mem w)(c \<mapsto> ctx\<lparr>my_sd := int k\<rparr>)\<rparr>)
          | None \<Rightarrow>
              andthen (free_context w c) (\<lambda>w. Inr (- 1, w\<lparr>errno := EMFILE\<rparr>)))"

definition verify_mysocket_descriptor ::
  "nat option \<Rightarrow> int \<Rightarrow> 'a process_scheme \<Rightarrow> fault + nat" where
  "verify_mysocket_descriptor comp_ctx sd w =
     need (0 \<le> sd \<and> sd < int MAX_NUM_CONNECTIONS) Assert_failed
       (case global_ctx w ! nat sd of
          None \<Rightarrow> Inl Assert_failed
        | Some c \<Rightarrow>
            (case ctx_mem w c of
               None \<Rightarrow> Inl Use_after_free
             | Some ctx \<Rightarrow>
                 need (my_sd ctx = sd) Assert_failed
                   (need (comp_ctx = None \<or> comp_ctx = Some c) Assert_failed (Inr c))))"

definition get_context :: "int \<Rightarrow> 'a process_scheme \<Rightarrow> fault + nat \<times> mysock_context" where
  "get_context sd w =
     andthen (verify_mysocket_descriptor None sd w) (\<lambda>c.
       deref (ctx_mem w c) (\<lambda>ctx. Inr (c, ctx)))"

definition put_context :: "nat \<Rightarrow> mysock_context \<Rightarrow> 'a process_scheme \<Rightarrow> 'a process_scheme" where
  "put_context c ctx w = w\<lparr>ctx_mem := (ctx_mem w)(c \<mapsto> ctx)\<rparr>"

text \<open>\<^verbatim>\<open>_mysock_wait_for_connection\<close>: the return value and the new \<^verbatim>\<open>errno\<close>.\<close>

definition wait_for_connection :: "mysock_context \<Rightarrow> (int \<times> int) option" where
  "wait_for_connection ctx =
     (if blocking ctx then None
      else Some (if stcp_errno ctx \<noteq> 0 then - 1 else 0, stcp_errno ctx))"

text \<open>
  Starting the threads of a connection: \<^verbatim>\<open>_network_start_recv_thread\<close> (the system call that ignores
  \<^verbatim>\<open>SIGPIPE\<close> and the creation of a thread are taken to succeed) and \<^verbatim>\<open>_mysock_transport_init\<close>.
\<close>

definition network_start_recv_thread :: "mysock_context \<Rightarrow> fault + mysock_context" where
  "network_start_recv_thread ctx =
     (case impl_data (network_state ctx) of
        None \<Rightarrow> Inl Assert_failed
      | Some io \<Rightarrow>
          Inr (ctx\<lparr>network_state := (network_state ctx)\<lparr>impl_data := Some (io\<lparr>recv_thread_started := True\<rparr>)\<rparr>\<rparr>))"

definition mysock_transport_init :: "int \<Rightarrow> bool \<Rightarrow> 'a process_scheme \<Rightarrow> fault + 'a process_scheme" where
  "mysock_transport_init sd active w =
     andthen (get_context sd w) (\<lambda>(c, ctx).
       need (\<not> listening ctx) Assert_failed
         (andthen (network_start_recv_thread (ctx\<lparr>is_active := active\<rparr>)) (\<lambda>ctx.
            Inr (put_context c (ctx\<lparr>transport_thread_started := True\<rparr>) w))))"

section \<open>Consistency of the table\<close>

definition table_ok :: "'a process_scheme \<Rightarrow> bool" where
  "table_ok w \<longleftrightarrow> length (global_ctx w) = MAX_NUM_CONNECTIONS \<and>
     (\<forall>k c. k < MAX_NUM_CONNECTIONS \<longrightarrow> global_ctx w ! k = Some c \<longrightarrow>
        (\<exists>ctx. ctx_mem w c = Some ctx \<and> my_sd ctx = int k \<and> impl_data (network_state ctx) \<noteq> None)) \<and>
     (\<forall>c. ctx_mem w c \<noteq> None \<longrightarrow> c < ctx_brk w)"

lemma table_okD:
  assumes "table_ok w" and "k < MAX_NUM_CONNECTIONS" and "global_ctx w ! k = Some c"
  obtains ctx where "ctx_mem w c = Some ctx" and "my_sd ctx = int k"
    and "impl_data (network_state ctx) \<noteq> None" and "c < ctx_brk w"
  using assms unfolding table_ok_def by blast

lemma table_ok_length: "table_ok w \<Longrightarrow> length (global_ctx w) = MAX_NUM_CONNECTIONS"
  by (simp add: table_ok_def)

lemma get_context_eq:
  assumes "table_ok w" and "k < MAX_NUM_CONNECTIONS" and "global_ctx w ! k = Some c"
  shows "\<exists>ctx. ctx_mem w c = Some ctx \<and> get_context (int k) w = Inr (c, ctx)"
proof -
  obtain ctx where "ctx_mem w c = Some ctx" "my_sd ctx = int k"
    using assms by (rule table_okD)
  with assms(2,3) show ?thesis by (simp add: get_context_def verify_mysocket_descriptor_def)
qed

lemma get_context_InrD:
  "get_context sd w = Inr (c, ctx) \<Longrightarrow>
    0 \<le> sd \<and> nat sd < MAX_NUM_CONNECTIONS \<and> global_ctx w ! nat sd = Some c \<and> ctx_mem w c = Some ctx \<and> my_sd ctx = sd"
  by (auto simp: get_context_def verify_mysocket_descriptor_def andthen_eq_Inr need_eq_Inr deref_eq_Inr
      split: option.splits)

lemma get_context_unused: "global_ctx w ! nat sd = None \<Longrightarrow> get_context sd w = Inl Assert_failed"
  by (simp add: get_context_def verify_mysocket_descriptor_def need_def)

text \<open>A descriptor whose entry and context are the same finds the same context.\<close>

lemma get_context_cong:
  assumes "global_ctx v ! nat sd = global_ctx w ! nat sd"
    and "\<And>c. global_ctx w ! nat sd = Some c \<Longrightarrow> ctx_mem v c = ctx_mem w c"
  shows "get_context sd v = get_context sd w"
  using assms
  by (cases "global_ctx w ! nat sd")
    (auto simp: get_context_def verify_mysocket_descriptor_def need_def andthen_def split: option.splits)

lemma first_free_None: "first_free cs k = None \<longleftrightarrow> None \<notin> set cs"
  by (induction cs arbitrary: k) auto

lemma first_free_Some:
  "first_free cs k = Some n \<Longrightarrow> k \<le> n \<and> n - k < length cs \<and> cs ! (n - k) = None \<and> None \<notin> set (take (n - k) cs)"
proof (induction cs arbitrary: k)
  case (Cons c cs)
  show ?case
  proof (cases c)
    case (Some a)
    then have "Suc k \<le> n \<and> n - Suc k < length cs \<and> cs ! (n - Suc k) = None \<and> None \<notin> set (take (n - Suc k) cs)"
      using Cons by simp
    moreover from this have "n - k = Suc (n - Suc k)" by linarith
    ultimately show ?thesis using Some by auto
  qed (use Cons.prems in simp)
qed simp

definition fresh_context :: "conn_sock \<Rightarrow> int \<Rightarrow> mysock_context" where
  "fresh_context s sd =
     \<lparr>is_active = False,
       network_state = \<lparr>local_addr = zero_addr, peer_addr = zero_addr, peer_addr_len = 0, peer_addr_valid = False,
         impl_data = Some \<lparr>recv_thread_started = False, socket = Some s, new_socket = None, connected = False, pending = []\<rparr>,
         random_seed = 0x632A\<rparr>,
       bound = False, listening = False, my_sd = sd, listen_sd = - 1, blocking = True, stcp_errno = 0,
       transport_thread_started = False, close_requested = False, eof = False,
       network_recv_queue = [], app_send_queue = [], app_recv_queue = []\<rparr>"

lemma allocate_context_eq: "allocate_context (Some s) = Inr (fresh_context s 0)"
  by (simp add: allocate_context_def network_init_def network_init_socket_def network_alloc_context_socket_def
      fresh_context_def)

lemma new_mysocket_free:
  assumes "first_free (global_ctx w) 0 = Some k"
  shows "new_mysocket (Some s) w = Inr (int k, w\<lparr>ctx_brk := ctx_brk w + 1,
    ctx_mem := (ctx_mem w)(ctx_brk w \<mapsto> fresh_context s (int k)), global_ctx := (global_ctx w)[k := Some (ctx_brk w)]\<rparr>)"
  using assms by (simp add: new_mysocket_def allocate_context_eq Let_def fresh_context_def)

lemma new_mysocket_full:
  assumes "table_ok w" and "first_free (global_ctx w) 0 = None"
  shows "new_mysocket (Some s) w = Inr (- 1, w\<lparr>ctx_brk := ctx_brk w + 1, errno := EMFILE\<rparr>)"
proof -
  have "ctx_mem w (ctx_brk w) = None" using assms(1) by (auto simp: table_ok_def)
  moreover have "global_ctx w ! 0 \<noteq> Some (ctx_brk w)"
    using assms(1) by (auto simp: MAX_NUM_CONNECTIONS_def elim!: table_okD [where k = 0])
  moreover have "(ctx_mem w)(ctx_brk w := None) = ctx_mem w"
    using calculation(1) by auto
  ultimately show ?thesis
    using assms(2) by (simp add: new_mysocket_def allocate_context_eq free_context_def Let_def
        fresh_context_def network_close_def)
qed

lemma table_ok_new:
  assumes "table_ok w" and "k < MAX_NUM_CONNECTIONS"
  shows "table_ok (w\<lparr>ctx_brk := ctx_brk w + 1,
    ctx_mem := (ctx_mem w)(ctx_brk w \<mapsto> fresh_context s (int k)), global_ctx := (global_ctx w)[k := Some (ctx_brk w)]\<rparr>)"
proof -
  have "c < ctx_brk w" if "j < MAX_NUM_CONNECTIONS" "global_ctx w ! j = Some c" for j c
    using table_okD [OF assms(1) that] by blast
  then show ?thesis
    using assms unfolding table_ok_def
    by (auto simp: nth_list_update fresh_context_def less_Suc_eq split: if_splits)
qed

section \<open>Properties\<close>

text \<open>
  C37: the list operations on queues, which the rest of the stack is modelled with, are what
  the linked list of the code does: on a heap that represents \<open>q\<close>, enqueueing and dequeueing
  give a heap that represents the list operation's result, with the same bytes and length.
\<close>

theorem list_queue_refined:
  assumes "queue_rep s q"
  shows "(\<exists>t. queue_enq s x = Inr t \<and> queue_rep t (enqueue q x)) \<and>
    (case dequeue q n b of
       None \<Rightarrow> queue_deq s n b = Inr None
     | Some (bs, len, q') \<Rightarrow> \<exists>t. queue_deq s n b = Inr (Some (bs, len, t)) \<and> queue_rep t q')"
proof (cases q)
  case Nil
  then show ?thesis using assms mq.enq_rep [OF assms] mq.deq_empty [of s n b] by (simp add: enqueue_def dequeue_def)
next
  case (Cons y ys)
  then show ?thesis
    using mq.enq_rep [OF assms] mq.deq_part [of s y ys n] mq.deq_whole [of s y ys n b] assms
    by (cases "length y > n \<and> b") (auto simp: enqueue_def dequeue_def)
qed

theorem list_queue_refined_witness:
  "\<exists>t. queue_enq demo_empty [7] = Inr t \<and> queue_rep t (enqueue [] [7])"
  using list_queue_refined [OF demo_empty_rep, of "[7]" 0 True] by simp

text \<open>
  Creating a mysocket takes the lowest free descriptor, which then finds a new blocked
  context, and changes no other entry of the table or context; when all 64 are in use it
  returns -1 with \<^verbatim>\<open>EMFILE\<close> and the table and the contexts stay as they were. The table
  stays consistent and no assert fails.
\<close>

theorem lowest_descriptor_allocated:
  assumes "table_ok w"
  shows "\<exists>sd w'. new_mysocket (Some s) w = Inr (sd, w') \<and> table_ok w' \<and>
    (if None \<in> set (global_ctx w) then
       0 \<le> sd \<and> sd < 64 \<and> global_ctx w ! nat sd = None \<and> None \<notin> set (take (nat sd) (global_ctx w)) \<and>
       (\<exists>c. ctx_mem w c = None \<and> get_context sd w' = Inr (c, fresh_context s sd) \<and>
          global_ctx w' = (global_ctx w)[nat sd := Some c] \<and> ctx_mem w' = (ctx_mem w)(c \<mapsto> fresh_context s sd))
     else sd = - 1 \<and> errno w' = EMFILE \<and> global_ctx w' = global_ctx w \<and> ctx_mem w' = ctx_mem w)"
proof (cases "first_free (global_ctx w) 0")
  case None
  moreover have "table_ok (w\<lparr>ctx_brk := ctx_brk w + 1, errno := EMFILE\<rparr>)"
    using assms by (auto simp: table_ok_def less_Suc_eq)
  ultimately show ?thesis using assms by (simp add: new_mysocket_full first_free_None)
next
  case (Some k)
  then have k: "k < MAX_NUM_CONNECTIONS" "global_ctx w ! k = None" "None \<notin> set (take k (global_ctx w))"
    using first_free_Some [OF Some] table_ok_length [OF assms] by auto
  let ?w = "w\<lparr>ctx_brk := ctx_brk w + 1, ctx_mem := (ctx_mem w)(ctx_brk w \<mapsto> fresh_context s (int k)),
    global_ctx := (global_ctx w)[k := Some (ctx_brk w)]\<rparr>"
  have "table_ok ?w" using assms k(1) by (rule table_ok_new)
  moreover have "get_context (int k) ?w = Inr (ctx_brk w, fresh_context s (int k))"
    using get_context_eq [OF calculation k(1), of "ctx_brk w"] k(1) table_ok_length [OF assms] by simp
  moreover have "ctx_mem w (ctx_brk w) = None" using assms by (auto simp: table_ok_def)
  moreover have "None \<in> set (global_ctx w)" using Some first_free_None [of "global_ctx w" 0] by auto
  ultimately show ?thesis
    using k new_mysocket_free [OF Some, of s] by (auto simp: MAX_NUM_CONNECTIONS_def)
qed

definition demo_process :: process where
  "demo_process = \<lparr>ctx_mem = Map.empty, ctx_brk = 0, global_ctx = replicate 64 None, errno = 0\<rparr>"

lemma demo_process_ok: "table_ok demo_process"
  by (simp add: table_ok_def demo_process_def MAX_NUM_CONNECTIONS_def)

theorem lowest_descriptor_allocated_witness:
  "\<exists>w'. new_mysocket (Some (demo_sock [] [] [])) demo_process = Inr (0, w') \<and> table_ok w'"
  using lowest_descriptor_allocated [OF demo_process_ok, of "demo_sock [] [] []"]
    new_mysocket_free [of demo_process 0 "demo_sock [] [] []"]
  by (simp add: demo_process_def replicate_eq_replicate numeral_eq_Suc)

text \<open>
  Releasing a context frees exactly its own descriptor: the descriptor is refused from
  then on, every other descriptor finds the context it found before, and the table stays
  consistent.
\<close>

theorem descriptor_released:
  assumes "table_ok w" and "get_context sd w = Inr (c, ctx)"
  shows "\<exists>w'. free_context w c = Inr w' \<and> table_ok w' \<and> get_context sd w' = Inl Assert_failed \<and>
    (\<forall>sd'. nat sd' \<noteq> nat sd \<longrightarrow> nat sd' < 64 \<longrightarrow> get_context sd' w' = get_context sd' w)"
proof -
  have sd: "0 \<le> sd" "nat sd < MAX_NUM_CONNECTIONS" "global_ctx w ! nat sd = Some c" "ctx_mem w c = Some ctx"
    "my_sd ctx = sd"
    using get_context_InrD [OF assms(2)] by auto
  let ?w = "w\<lparr>ctx_mem := (ctx_mem w)(c := None), global_ctx := (global_ctx w)[nat sd := None]\<rparr>"
  have other: "c' \<noteq> c" if "j < MAX_NUM_CONNECTIONS" "j \<noteq> nat sd" "global_ctx w ! j = Some c'" for j c'
    using table_okD [OF assms(1) that(1,3)] sd that(2) by (metis nat_int option.inject)
  have "impl_data (network_state ctx) \<noteq> None"
    using table_okD [OF assms(1) sd(2,3)] sd(4) by auto
  then have "free_context w c = Inr ?w"
    using sd by (auto simp: free_context_def network_close_def Let_def)
  moreover have "table_ok ?w"
    using assms(1) other sd unfolding table_ok_def by (auto simp: nth_list_update split: if_splits)
  moreover have "get_context sd ?w = Inl Assert_failed"
    using sd(2) table_ok_length [OF assms(1)] by (intro get_context_unused) simp
  moreover have "get_context sd' ?w = get_context sd' w" if "nat sd' \<noteq> nat sd" "nat sd' < 64" for sd'
    using that other [of "nat sd'"] by (intro get_context_cong) (auto simp: MAX_NUM_CONNECTIONS_def)
  ultimately show ?thesis by blast
qed

theorem descriptor_released_witness:
  "\<exists>(w :: process) c w'. get_context 0 w = Inr (c, fresh_context (demo_sock [] [] []) 0) \<and> free_context w c = Inr w' \<and>
     get_context 0 w' = Inl Assert_failed"
proof -
  let ?w = "\<lparr>ctx_mem = [0 \<mapsto> fresh_context (demo_sock [] [] []) 0], ctx_brk = 1,
    global_ctx = Some 0 # replicate 63 None, errno = 0\<rparr> :: process"
  have ok: "table_ok ?w"
    by (auto simp: table_ok_def MAX_NUM_CONNECTIONS_def nth_Cons' fresh_context_def)
  have get: "get_context 0 ?w = Inr (0, fresh_context (demo_sock [] [] []) 0)"
    by (simp add: get_context_def verify_mysocket_descriptor_def MAX_NUM_CONNECTIONS_def fresh_context_def)
  from descriptor_released [OF ok get] get show ?thesis by blast
qed

end
