(* ===== verification/Mysock_Hash.thy ===== *)
theory Mysock_Hash
  imports Net_Prelude
begin

text \<open>
  The chained hash table that \<^verbatim>\<open>mysock_hash.h\<close> generates: an array of buckets, each a list
  of key and data, new entries in front. The hash function and the size are arguments, as
  they are of the macro \<^verbatim>\<open>HASH_TABLE_DECLARE_EXTENDED\<close>; keys are compared with \<open>=\<close>, the
  default. The asserts of the generated functions are faults. The contract is the locale
  \<open>key_table\<close>: the table is a partial map.
\<close>

section \<open>The code\<close>

type_synonym ('k, 'd) buckets = "('k \<times> 'd) list list"

definition hash_empty :: "nat \<Rightarrow> ('k, 'd) buckets" where
  "hash_empty n_buckets = replicate n_buckets []"

definition hash_get_entry :: "('k \<Rightarrow> nat) \<Rightarrow> nat \<Rightarrow> ('k, 'd) buckets \<Rightarrow> 'k \<Rightarrow> fault + 'd option" where
  "hash_get_entry hashfn n_buckets tbl key =
     (let ndx = hashfn key
      in need (ndx < n_buckets) Assert_failed (Inr (map_option snd (find (\<lambda>e. fst e = key) (tbl ! ndx)))))"

definition hash_insert :: "('k \<Rightarrow> nat) \<Rightarrow> nat \<Rightarrow> ('k, 'd) buckets \<Rightarrow> 'k \<Rightarrow> 'd \<Rightarrow> fault + ('k, 'd) buckets" where
  "hash_insert hashfn n_buckets tbl key d =
     (let ndx = hashfn key
      in need (ndx < n_buckets) Assert_failed (Inr (tbl[ndx := (key, d) # tbl ! ndx])))"

definition hash_lookup :: "('k \<Rightarrow> nat) \<Rightarrow> nat \<Rightarrow> ('k, 'd) buckets \<Rightarrow> 'k \<Rightarrow> fault + 'd" where
  "hash_lookup hashfn n_buckets tbl key =
     andthen (hash_get_entry hashfn n_buckets tbl key) (\<lambda>e.
       case e of None \<Rightarrow> Inl Assert_failed | Some d \<Rightarrow> Inr d)"

definition hash_lookup_ptr :: "('k \<Rightarrow> nat) \<Rightarrow> nat \<Rightarrow> ('k, 'd) buckets \<Rightarrow> 'k \<Rightarrow> fault + 'd option" where
  "hash_lookup_ptr hashfn n_buckets tbl key = hash_get_entry hashfn n_buckets tbl key"

definition hash_entry_exists :: "('k \<Rightarrow> nat) \<Rightarrow> nat \<Rightarrow> ('k, 'd) buckets \<Rightarrow> 'k \<Rightarrow> fault + bool" where
  "hash_entry_exists hashfn n_buckets tbl key =
     andthen (hash_get_entry hashfn n_buckets tbl key) (\<lambda>e. Inr (e \<noteq> None))"

fun set_first :: "'k \<Rightarrow> 'd \<Rightarrow> ('k \<times> 'd) list \<Rightarrow> ('k \<times> 'd) list" where
  "set_first key d [] = []"
| "set_first key d (e # es) = (if fst e = key then (key, d) # es else e # set_first key d es)"

definition hash_set_entry :: "('k \<Rightarrow> nat) \<Rightarrow> nat \<Rightarrow> ('k, 'd) buckets \<Rightarrow> 'k \<Rightarrow> 'd \<Rightarrow> fault + ('k, 'd) buckets" where
  "hash_set_entry hashfn n_buckets tbl key d =
     andthen (hash_get_entry hashfn n_buckets tbl key) (\<lambda>e.
       if e \<noteq> None then Inr (tbl[hashfn key := set_first key d (tbl ! hashfn key)])
       else hash_insert hashfn n_buckets tbl key d)"

fun delete_first :: "'k \<Rightarrow> ('k \<times> 'd) list \<Rightarrow> ('k \<times> 'd) list" where
  "delete_first key [] = []"
| "delete_first key (e # es) = (if fst e = key then es else e # delete_first key es)"

definition hash_delete :: "('k \<Rightarrow> nat) \<Rightarrow> nat \<Rightarrow> ('k, 'd) buckets \<Rightarrow> 'k \<Rightarrow> fault + ('k, 'd) buckets" where
  "hash_delete hashfn n_buckets tbl key =
     (let ndx = hashfn key
      in need (ndx < n_buckets) Assert_failed
        (let tbl = tbl[ndx := delete_first key (tbl ! ndx)]
         in andthen (hash_get_entry hashfn n_buckets tbl key) (\<lambda>e.
              need (e = None) Assert_failed (Inr tbl))))"

section \<open>The contract\<close>

locale key_table =
  fixes lookup :: "'t \<Rightarrow> 'k \<Rightarrow> fault + 'd option"
    and insert :: "'t \<Rightarrow> 'k \<Rightarrow> 'd \<Rightarrow> fault + 't"
    and delete :: "'t \<Rightarrow> 'k \<Rightarrow> fault + 't"
    and key_ok :: "'k \<Rightarrow> bool"
    and rep :: "'t \<Rightarrow> ('k \<Rightarrow> 'd option) \<Rightarrow> bool"
  assumes lookup_rep: "rep t f \<Longrightarrow> key_ok k \<Longrightarrow> lookup t k = Inr (f k)"
    and insert_rep: "rep t f \<Longrightarrow> key_ok k \<Longrightarrow> f k = None \<Longrightarrow> \<exists>u. insert t k d = Inr u \<and> rep u (f(k \<mapsto> d))"
    and delete_rep: "rep t f \<Longrightarrow> key_ok k \<Longrightarrow> \<exists>u. delete t k = Inr u \<and> rep u (f(k := None))"
begin

lemma insert_lookup:
  assumes "rep t f" and "key_ok k" and "key_ok k'" and "f k = None"
  shows "\<exists>u. insert t k d = Inr u \<and> lookup u k' = (if k' = k then Inr (Some d) else lookup t k')"
  using insert_rep [OF assms(1,2,4)] lookup_rep [OF _ assms(3)] assms(1) by fastforce

lemma insert_delete:
  assumes "rep t f" and "key_ok k" and "f k = None"
  shows "\<exists>u v. insert t k d = Inr u \<and> delete u k = Inr v \<and> rep v f"
proof -
  obtain u where u: "insert t k d = Inr u" "rep u (f(k \<mapsto> d))"
    using insert_rep [OF assms] by blast
  obtain v where v: "delete u k = Inr v" "rep v ((f(k \<mapsto> d))(k := None))"
    using delete_rep [OF u(2) assms(2)] by blast
  have "(f(k \<mapsto> d))(k := None) = f" using assms(3) by auto
  with u v show ?thesis by auto
qed

end

section \<open>The buckets implement it\<close>

definition hash_rep :: "('k \<Rightarrow> nat) \<Rightarrow> nat \<Rightarrow> ('k, 'd) buckets \<Rightarrow> ('k \<Rightarrow> 'd option) \<Rightarrow> bool" where
  "hash_rep hashfn n_buckets tbl f \<longleftrightarrow> length tbl = n_buckets \<and>
     (\<forall>n < n_buckets. distinct (map fst (tbl ! n))) \<and>
     (\<forall>k. hashfn k < n_buckets \<longrightarrow> f k = map_of (tbl ! hashfn k) k)"

lemma find_map_of: "map_option snd (find (\<lambda>e. fst e = k) es) = map_of es k"
  by (induction es) auto

lemma map_of_delete_first:
  "distinct (map fst es) \<Longrightarrow> map_of (delete_first k es) k' = (if k' = k then None else map_of es k')"
proof (induction es)
  case (Cons e es)
  obtain a b where e: "e = (a, b)" by fastforce
  have "map_of es a = None" using Cons.prems by (simp add: e map_of_eq_None_iff)
  with Cons show ?case by (auto simp: e)
qed simp

lemma set_delete_first: "set (delete_first k es) \<subseteq> set es"
  by (induction es) auto

lemma distinct_delete_first: "distinct (map fst es) \<Longrightarrow> distinct (map fst (delete_first k es))"
proof (induction es)
  case (Cons e es)
  then show ?case using set_delete_first [of k es] by auto
qed simp

lemma hash_rep_empty: "hash_rep hashfn n_buckets (hash_empty n_buckets) Map.empty"
  by (simp add: hash_rep_def hash_empty_def)

lemma hash_lookup_rep:
  "hash_rep hashfn n_buckets t f \<Longrightarrow> hashfn k < n_buckets \<Longrightarrow> hash_lookup_ptr hashfn n_buckets t k = Inr (f k)"
  by (simp add: hash_lookup_ptr_def hash_get_entry_def hash_rep_def find_map_of)

lemma hash_insert_rep:
  assumes "hash_rep hashfn n_buckets t f" and "hashfn k < n_buckets" and "f k = None"
  shows "\<exists>u. hash_insert hashfn n_buckets t k d = Inr u \<and> hash_rep hashfn n_buckets u (f(k \<mapsto> d))"
proof -
  let ?u = "t[hashfn k := (k, d) # t ! hashfn k]"
  have "k \<notin> fst ` set (t ! hashfn k)"
    using assms by (auto simp: hash_rep_def map_of_eq_None_iff)
  then have "hash_rep hashfn n_buckets ?u (f(k \<mapsto> d))"
    using assms by (auto simp: hash_rep_def nth_list_update)
  then show ?thesis
    using assms(2) by (simp add: hash_insert_def Let_def)
qed

lemma hash_delete_rep:
  assumes "hash_rep hashfn n_buckets t f" and "hashfn k < n_buckets"
  shows "\<exists>u. hash_delete hashfn n_buckets t k = Inr u \<and> hash_rep hashfn n_buckets u (f(k := None))"
proof -
  let ?u = "t[hashfn k := delete_first k (t ! hashfn k)]"
  have rep: "hash_rep hashfn n_buckets ?u (f(k := None))"
    using assms by (auto simp: hash_rep_def nth_list_update map_of_delete_first distinct_delete_first)
  then have "hash_get_entry hashfn n_buckets ?u k = Inr None"
    using hash_lookup_rep [OF rep assms(2)] by (simp add: hash_lookup_ptr_def)
  with rep assms(2) show ?thesis
    by (simp add: hash_delete_def Let_def)
qed

interpretation htab: key_table "hash_lookup_ptr hashfn n_buckets" "hash_insert hashfn n_buckets"
  "hash_delete hashfn n_buckets" "\<lambda>k. hashfn k < n_buckets" "hash_rep hashfn n_buckets" for hashfn n_buckets
proof (unfold_locales, goal_cases)
  case (1 t f k)
  then show ?case by (rule hash_lookup_rep)
next
  case (2 t f k d)
  then show ?case by (rule hash_insert_rep)
next
  case (3 t f k)
  then show ?case by (rule hash_delete_rep)
qed

section \<open>Properties\<close>

text \<open>Any sequence of changes, on the table and on a map. An insertion is allowed for a key that is absent only.\<close>

datatype ('k, 'd) table_op = Insert 'k 'd | Set_entry 'k 'd | Delete 'k

fun run_op :: "('k \<Rightarrow> nat) \<Rightarrow> nat \<Rightarrow> ('k, 'd) table_op \<Rightarrow> ('k, 'd) buckets \<Rightarrow> fault + ('k, 'd) buckets" where
  "run_op hashfn n_buckets (Insert k d) t = hash_insert hashfn n_buckets t k d"
| "run_op hashfn n_buckets (Set_entry k d) t = hash_set_entry hashfn n_buckets t k d"
| "run_op hashfn n_buckets (Delete k) t = hash_delete hashfn n_buckets t k"

fun run_ops :: "('k \<Rightarrow> nat) \<Rightarrow> nat \<Rightarrow> ('k, 'd) table_op list \<Rightarrow> ('k, 'd) buckets \<Rightarrow> fault + ('k, 'd) buckets" where
  "run_ops hashfn n_buckets [] t = Inr t"
| "run_ops hashfn n_buckets (x # xs) t = andthen (run_op hashfn n_buckets x t) (run_ops hashfn n_buckets xs)"

fun map_op :: "('k, 'd) table_op \<Rightarrow> ('k \<rightharpoonup> 'd) \<Rightarrow> ('k \<rightharpoonup> 'd)" where
  "map_op (Insert k d) f = f(k \<mapsto> d)"
| "map_op (Set_entry k d) f = f(k \<mapsto> d)"
| "map_op (Delete k) f = f(k := None)"

fun allowed :: "('k \<Rightarrow> nat) \<Rightarrow> nat \<Rightarrow> ('k, 'd) table_op list \<Rightarrow> ('k \<rightharpoonup> 'd) \<Rightarrow> bool" where
  "allowed hashfn n_buckets [] f \<longleftrightarrow> True"
| "allowed hashfn n_buckets (x # xs) f \<longleftrightarrow>
     (case x of Insert k d \<Rightarrow> hashfn k < n_buckets \<and> f k = None | Set_entry k d \<Rightarrow> hashfn k < n_buckets
      | Delete k \<Rightarrow> hashfn k < n_buckets) \<and> allowed hashfn n_buckets xs (map_op x f)"

lemma map_of_set_first:
  "map_of es k \<noteq> None \<Longrightarrow> map_of (set_first k d es) k' = (if k' = k then Some d else map_of es k')"
  by (induction es) (auto split: if_splits)

lemma keys_set_first: "map fst (set_first k d es) = map fst es"
  by (induction es) auto

lemma hash_set_rep:
  assumes "hash_rep hashfn n_buckets t f" and "hashfn k < n_buckets"
  shows "\<exists>u. hash_set_entry hashfn n_buckets t k d = Inr u \<and> hash_rep hashfn n_buckets u (f(k \<mapsto> d))"
proof (cases "f k")
  case None
  then show ?thesis
    using hash_insert_rep [OF assms None, of d] hash_lookup_rep [OF assms]
    by (simp add: hash_set_entry_def hash_lookup_ptr_def)
next
  case (Some e)
  then have "hash_rep hashfn n_buckets (t[hashfn k := set_first k d (t ! hashfn k)]) (f(k \<mapsto> d))"
    using assms by (auto simp: hash_rep_def nth_list_update map_of_set_first keys_set_first)
  then show ?thesis
    using Some hash_lookup_rep [OF assms] by (simp add: hash_set_entry_def hash_lookup_ptr_def)
qed

lemma run_ops_rep:
  "hash_rep hashfn n_buckets t f \<Longrightarrow> allowed hashfn n_buckets xs f \<Longrightarrow>
     \<exists>u. run_ops hashfn n_buckets xs t = Inr u \<and> hash_rep hashfn n_buckets u (fold map_op xs f)"
proof (induction xs arbitrary: t f)
  case (Cons x xs)
  have "\<exists>v. run_op hashfn n_buckets x t = Inr v \<and> hash_rep hashfn n_buckets v (map_op x f)"
    using Cons.prems by (cases x) (simp_all add: htab.insert_rep htab.delete_rep hash_set_rep)
  then show ?case using Cons.IH Cons.prems(2) by auto
qed simp

text \<open>
  C38: a hash table behaves as a partial map. Starting from the empty table, any sequence of insertions of absent
  keys, assignments to present or absent ones and deletions of any keys, colliding or not, succeeds without a failing assert.
  Afterwards every key, whether it was touched or not, is found exactly if the map has it, with the data the map has;
  \<^verbatim>\<open>HASH_LOOKUP\<close> fails its assert exactly for the absent ones.
\<close>

theorem hash_table_is_map:
  assumes "allowed hashfn n_buckets ops Map.empty"
  shows "\<exists>t. run_ops hashfn n_buckets ops (hash_empty n_buckets) = Inr t \<and>
    (\<forall>k. hashfn k < n_buckets \<longrightarrow>
       hash_lookup_ptr hashfn n_buckets t k = Inr (fold map_op ops Map.empty k) \<and>
       hash_entry_exists hashfn n_buckets t k = Inr (fold map_op ops Map.empty k \<noteq> None) \<and>
       hash_lookup hashfn n_buckets t k =
         (case fold map_op ops Map.empty k of None \<Rightarrow> Inl Assert_failed | Some d \<Rightarrow> Inr d))"
proof -
  obtain t where t: "run_ops hashfn n_buckets ops (hash_empty n_buckets) = Inr t"
    "hash_rep hashfn n_buckets t (fold map_op ops Map.empty)"
    using run_ops_rep [OF hash_rep_empty assms] by blast
  then show ?thesis
    using hash_lookup_rep [OF t(2)]
    by (auto simp: hash_lookup_def hash_entry_exists_def hash_lookup_ptr_def split: option.split)
qed

text \<open>Two keys in one bucket: the first, behind the other in the chain, is deleted.\<close>

theorem hash_table_is_map_witness:
  "\<exists>t. run_ops (\<lambda>k. k mod 4) 4 [Insert (5 :: nat) True, Insert 9 True, Set_entry 9 False, Delete 5] (hash_empty 4) = Inr t \<and>
     hash_lookup_ptr (\<lambda>k. k mod 4) 4 t 9 = Inr (Some False) \<and> hash_lookup_ptr (\<lambda>k. k mod 4) 4 t 5 = Inr None"
  using hash_table_is_map [of "\<lambda>k. k mod 4" 4 "[Insert (5 :: nat) True, Insert 9 True, Set_entry 9 False, Delete 5]"] by auto

text \<open>
  The insertion does not look for an earlier entry of the key, and the deletion removes one
  entry: after a key has been inserted into a table that has it already, deleting it fails
  an assert.
\<close>

theorem duplicate_insert_breaks_delete:
  assumes "hash_rep hashfn n_buckets t f" and "hashfn k < n_buckets" and "f k = Some d'"
  shows "\<exists>u. hash_insert hashfn n_buckets t k d = Inr u \<and> hash_delete hashfn n_buckets u k = Inl Assert_failed"
proof -
  have "map_of (t ! hashfn k) k = Some d'" and "hashfn k < length t"
    using assms by (simp_all add: hash_rep_def)
  then have "hash_delete hashfn n_buckets (t[hashfn k := (k, d) # t ! hashfn k]) k = Inl Assert_failed"
    using assms(2) by (simp add: hash_delete_def Let_def hash_get_entry_def find_map_of)
  then show ?thesis
    using assms(2) by (simp add: hash_insert_def Let_def)
qed

theorem duplicate_insert_breaks_delete_witness:
  "\<exists>t u. hash_insert (\<lambda>k. k mod 4) 4 (hash_empty 4) (9 :: nat) True = Inr t \<and>
     hash_insert (\<lambda>k. k mod 4) 4 t 9 False = Inr u \<and> hash_delete (\<lambda>k. k mod 4) 4 u 9 = Inl Assert_failed"
proof -
  obtain t where t: "hash_insert (\<lambda>k. k mod 4) 4 (hash_empty 4) (9 :: nat) True = Inr t"
    "hash_rep (\<lambda>k. k mod 4) 4 t [9 \<mapsto> True]"
    using htab.insert_rep [OF hash_rep_empty, of "\<lambda>k. k mod 4" 9 4 True] by auto
  with duplicate_insert_breaks_delete [OF t(2), of 9 True False] show ?thesis by auto
qed

end
