(* ===== verification/Connection_Demux.thy ===== *)
theory Connection_Demux
  imports Mysock Mysock_Hash
begin

text \<open>
  The demultiplexing of connection requests on listening mysockets (\<^verbatim>\<open>connection_demux.c\<close>):
  a queue of pending connections per listening socket, found through the hash table
  \<^verbatim>\<open>listen_table\<close>, with a second queue of those whose handshake is complete.

  The array of pending connections is reallocated when the backlog grows, and the completed
  queue points into it: an entry of the completed queue is the block it points into with the
  index, and following it where the block has been moved is a use after free. The operations are
  functions here, so that they do not overlap; overlapping ones, which the read lock alone does not exclude, are in
  \<open>Listen_Threads\<close>. The comparison of addresses with \<^verbatim>\<open>memcmp\<close> covers the
  whole \<^verbatim>\<open>sockaddr\<close>, as the 16 bytes \<^verbatim>\<open>accept\<close> reports do. The closing of a listening socket is in
  \<open>Mysock_Api\<close>.
\<close>

section \<open>The code\<close>

record connect_request =
  req_peer :: sockaddr
  req_peer_len :: nat
  req_sd :: int

record listen_queue =
  local_port :: uint16
  max_len :: nat
  cur_len :: nat
  connection_queue :: "connect_request list"
  queue_block :: nat
  completed_queue :: "(nat \<times> nat) list"

record demux = process +
  listen_table :: "(int, nat) buckets"
  lq_mem :: "nat \<Rightarrow> listen_queue option"
  lq_brk :: nat

definition invalid_request :: connect_request where
  "invalid_request = \<lparr>req_peer = zero_addr, req_peer_len = 0, req_sd = - 1\<rparr>"

text \<open>The default hash function, a C remainder converted to unsigned.\<close>

definition listen_hash :: "int \<Rightarrow> nat" where
  "listen_hash sd = unat (word_of_int (sgn sd * (\<bar>sd\<bar> mod 64)) :: uint32)"

definition get_connection_queue :: "mysock_context \<Rightarrow> demux \<Rightarrow> fault + nat option" where
  "get_connection_queue ctx w =
     need (listening ctx \<and> bound ctx) Assert_failed
       (hash_lookup_ptr listen_hash MAX_NUM_CONNECTIONS (listen_table w) (my_sd ctx))"

text \<open>
  The effects on one listen queue: taking the first completed connection, the two searches of an
  arriving request, and the completion of a handshake.
\<close>

definition take_completed :: "listen_queue \<Rightarrow> fault + (int \<times> listen_queue) option" where
  "take_completed q =
     (case completed_queue q of
        [] \<Rightarrow> Inr None
      | (b, k) # rest \<Rightarrow>
          need (b = queue_block q) Use_after_free
            (need (k < length (connection_queue q)) Out_of_bounds
               (need (cur_len q > 0) Assert_failed
                  (Inr (Some (req_sd (connection_queue q ! k),
                     q\<lparr>completed_queue := rest, connection_queue := (connection_queue q)[k := invalid_request],
                       cur_len := cur_len q - 1\<rparr>))))))"

fun is_retransmission :: "sockaddr \<Rightarrow> nat \<Rightarrow> connect_request list \<Rightarrow> fault + bool" where
  "is_retransmission peer len [] = Inr False"
| "is_retransmission peer len (r # rs) =
     need (req_sd r = - 1 \<or> len = req_peer_len r) Assert_failed
       (if req_peer r = peer then Inr True else is_retransmission peer len rs)"

fun find_index :: "('x \<Rightarrow> bool) \<Rightarrow> nat \<Rightarrow> 'x list \<Rightarrow> nat option" where
  "find_index P k [] = None"
| "find_index P k (x # xs) = (if P x then Some k else find_index P (Suc k) xs)"

definition claim_slot :: "listen_queue \<Rightarrow> fault + (nat \<times> listen_queue) option" where
  "claim_slot q =
     (if cur_len q < max_len q then
        (case find_index (\<lambda>r. req_sd r < 0) 0 (take (max_len q) (connection_queue q)) of
           None \<Rightarrow> Inl Assert_failed
         | Some k \<Rightarrow>
             need (req_sd (connection_queue q ! k) = - 1) Assert_failed
               (Inr (Some (k, q\<lparr>cur_len := cur_len q + 1\<rparr>))))
      else Inr None)"

definition fill_slot :: "nat \<Rightarrow> connect_request \<Rightarrow> listen_queue \<Rightarrow> listen_queue" where
  "fill_slot k r q = q\<lparr>connection_queue := (connection_queue q)[k := r]\<rparr>"

definition release_slot :: "nat \<Rightarrow> listen_queue \<Rightarrow> listen_queue" where
  "release_slot k q =
     q\<lparr>connection_queue := (connection_queue q)[k := invalid_request], cur_len := cur_len q - 1\<rparr>"

definition complete_request :: "int \<Rightarrow> listen_queue \<Rightarrow> fault + listen_queue" where
  "complete_request sd q =
     (case find_index (\<lambda>r. req_sd r = sd) 0 (take (max_len q) (connection_queue q)) of
        None \<Rightarrow> Inl Assert_failed
      | Some k \<Rightarrow> Inr (q\<lparr>completed_queue := completed_queue q @ [(queue_block q, k)]\<rparr>))"

section \<open>The operations\<close>

definition with_queue :: "nat \<Rightarrow> demux \<Rightarrow> (listen_queue \<Rightarrow> fault + 'a) \<Rightarrow> fault + 'a" where
  "with_queue a w k = (case lq_mem w a of None \<Rightarrow> Inl Use_after_free | Some q \<Rightarrow> k q)"

definition put_queue :: "nat \<Rightarrow> listen_queue \<Rightarrow> demux \<Rightarrow> demux" where
  "put_queue a q w = w\<lparr>lq_mem := (lq_mem w)(a \<mapsto> q)\<rparr>"

text \<open>\<^verbatim>\<open>_mysock_dequeue_connection\<close>: the address of the context of the new connection.\<close>

definition dequeue_connection :: "mysock_context \<Rightarrow> demux \<Rightarrow> fault + (nat \<times> demux) option" where
  "dequeue_connection accept_ctx w =
     need (listening accept_ctx \<and> bound accept_ctx) Assert_failed
       (andthen (get_connection_queue accept_ctx w) (\<lambda>q.
          case q of
            None \<Rightarrow> Inl Assert_failed
          | Some a \<Rightarrow>
              with_queue a w (\<lambda>q.
                bindw (take_completed q) (\<lambda>(sd, q).
                  andthen (get_context sd w) (\<lambda>(c, _).
                    Inr (Some (c, put_queue a q w)))))))"

definition TH_SYN :: byte where
  "TH_SYN = 2"

text \<open>
  The new context of an accepted request: the parameters of the connection, the socket of the
  accepted TCP connection, the threads and the queued SYN packet.
\<close>

definition establish :: "int \<Rightarrow> nat \<Rightarrow> byte list \<Rightarrow> sockaddr \<Rightarrow> nat \<Rightarrow> demux \<Rightarrow> fault + demux" where
  "establish sd c packet peer len w =
     andthen (get_context sd w) (\<lambda>(n, new_ctx).
       deref (ctx_mem w c) (\<lambda>ctx.
         let new_ctx = new_ctx\<lparr>listen_sd := my_sd ctx, network_state := (network_state new_ctx)
               \<lparr>peer_addr := peer, peer_addr_len := len, peer_addr_valid := True\<rparr>\<rparr>
         in andthen (network_update_passive_state (network_state new_ctx) (network_state ctx)
                       (listening new_ctx) (is_active new_ctx)) (\<lambda>(new_net, net).
              let w = put_context n (new_ctx\<lparr>network_state := new_net\<rparr>)
                        (put_context c (ctx\<lparr>network_state := net\<rparr>) w)
              in andthen (mysock_transport_init sd False w) (\<lambda>w.
                   deref (ctx_mem w n) (\<lambda>new_ctx.
                     Inr (put_context n
                       (new_ctx\<lparr>network_recv_queue := enqueue (network_recv_queue new_ctx) packet\<rparr>) w))))))"

definition enqueue_connection ::
  "nat \<Rightarrow> byte list \<Rightarrow> sockaddr \<Rightarrow> nat \<Rightarrow> conn_sock option \<Rightarrow> demux \<Rightarrow> fault + bool \<times> demux" where
  "enqueue_connection c packet peer len s w =
     deref (ctx_mem w c) (\<lambda>ctx.
       need (listening ctx \<and> bound ctx) Assert_failed
         (need (len > 0) Assert_failed
            (if length packet < 20 \<or> packet ! 13 AND TH_SYN = 0 then Inr (False, w)
             else andthen (get_connection_queue ctx w) (\<lambda>q.
               case q of
                 None \<Rightarrow> Inr (False, w)
               | Some a \<Rightarrow>
                   with_queue a w (\<lambda>q.
                     need (max_len q \<le> length (connection_queue q)) Out_of_bounds
                       (andthen (is_retransmission peer len (take (max_len q) (connection_queue q))) (\<lambda>again.
                          if again then Inr (False, w)
                          else andthen (claim_slot q) (\<lambda>slot.
                            case slot of
                              None \<Rightarrow> Inr (False, w)
                            | Some (k, q) \<Rightarrow>
                                andthen (new_mysocket s w) (\<lambda>(sd, w).
                                  if sd < 0 then Inr (False, put_queue a (release_slot k q) w)
                                  else
                                    andthen (establish sd c packet peer len
                                        (put_queue a (fill_slot k \<lparr>req_peer = peer, req_peer_len = len, req_sd = sd\<rparr> q) w))
                                      (\<lambda>w. Inr (True, w))))))))))) "

definition passive_connection_complete :: "nat \<Rightarrow> demux \<Rightarrow> fault + demux" where
  "passive_connection_complete c w =
     deref (ctx_mem w c) (\<lambda>ctx.
       need (listen_sd ctx \<ge> 0) Assert_failed
         (andthen (get_context (listen_sd ctx) w) (\<lambda>(_, listen_ctx).
            andthen (get_connection_queue listen_ctx w) (\<lambda>q.
              case q of
                None \<Rightarrow> Inr w
              | Some a \<Rightarrow>
                  with_queue a w (\<lambda>q.
                    andthen (complete_request (my_sd ctx) q) (\<lambda>q. Inr (put_queue a q w)))))))"

text \<open>
  \<^verbatim>\<open>_mysock_set_backlog\<close>; \<open>moves\<close> says whether \<^verbatim>\<open>realloc\<close> moves the array.
\<close>

definition resize :: "bool \<Rightarrow> nat \<Rightarrow> nat \<Rightarrow> listen_queue \<Rightarrow> listen_queue" where
  "resize moves fresh n q =
     (if n > max_len q then
        q\<lparr>connection_queue := take (max_len q) (connection_queue q) @ replicate (n - max_len q) invalid_request,
          queue_block := (if moves then fresh else queue_block q), max_len := n\<rparr>
      else q\<lparr>max_len := n\<rparr>)"

definition set_backlog :: "bool \<Rightarrow> nat \<Rightarrow> uint32 \<Rightarrow> demux \<Rightarrow> fault + demux" where
  "set_backlog moves c backlog w =
     deref (ctx_mem w c) (\<lambda>ctx.
       need (listening ctx \<and> bound ctx) Assert_failed
         (andthen (network_get_port (network_state ctx)) (\<lambda>port.
            need (ntohs port > 0) Assert_failed
              (andthen (get_connection_queue ctx w) (\<lambda>q.
                 andthen
                   (case q of
                      Some a \<Rightarrow> Inr (a, w)
                    | None \<Rightarrow>
                        andthen (hash_insert listen_hash MAX_NUM_CONNECTIONS (listen_table w) (my_sd ctx) (lq_brk w)) (\<lambda>t.
                          Inr (lq_brk w, put_queue (lq_brk w)
                            \<lparr>local_port = ntohs port, max_len = 0, cur_len = 0, connection_queue = [], queue_block = 0,
                             completed_queue = []\<rparr>
                            (w\<lparr>listen_table := t, lq_brk := lq_brk w + 1\<rparr>))))
                   (\<lambda>(a, w).
                      with_queue a w (\<lambda>q.
                        need (local_port q = ntohs port) Assert_failed
                          (Inr (put_queue a (resize moves (lq_brk w) (unat (backlog + 1)) q)
                             (w\<lparr>lq_brk := lq_brk w + 1\<rparr>))))))))))"

section \<open>The invariant of a listen queue\<close>

definition pending_slots :: "listen_queue \<Rightarrow> nat set" where
  "pending_slots q = {k. k < length (connection_queue q) \<and> req_sd (connection_queue q ! k) \<noteq> - 1}"

definition lq_ok :: "nat \<Rightarrow> listen_queue \<Rightarrow> bool" where
  "lq_ok n q \<longleftrightarrow> max_len q = n \<and> length (connection_queue q) = n \<and> cur_len q = card (pending_slots q) \<and>
     (\<forall>r \<in> set (connection_queue q). req_sd r \<ge> - 1) \<and>
     inj_on (\<lambda>k. req_sd (connection_queue q ! k)) (pending_slots q) \<and>
     distinct (map snd (completed_queue q)) \<and>
     (\<forall>e \<in> set (completed_queue q). fst e = queue_block q \<and> snd e \<in> pending_slots q)"

definition completed_sds :: "listen_queue \<Rightarrow> int list" where
  "completed_sds q = map (\<lambda>e. req_sd (connection_queue q ! snd e)) (completed_queue q)"

lemma find_index_None: "find_index P k xs = None \<longleftrightarrow> (\<forall>x \<in> set xs. \<not> P x)"
  by (induction xs arbitrary: k) auto

lemma find_index_Some:
  "find_index P k xs = Some n \<Longrightarrow> k \<le> n \<and> n - k < length xs \<and> P (xs ! (n - k))"
proof (induction xs arbitrary: k)
  case (Cons x xs)
  show ?case
  proof (cases "P x")
    case False
    then have "Suc k \<le> n \<and> n - Suc k < length xs \<and> P (xs ! (n - Suc k))" using Cons by simp
    moreover from this have "n - k = Suc (n - Suc k)" by linarith
    ultimately show ?thesis by simp
  qed (use Cons.prems in simp)
qed simp

lemma finite_pending [simp]: "finite (pending_slots q)"
  by (simp add: pending_slots_def)

lemma pending_less: "k \<in> pending_slots q \<Longrightarrow> k < length (connection_queue q)"
  by (simp add: pending_slots_def)

lemma card_pending_le: "card (pending_slots q) \<le> length (connection_queue q)"
  using card_mono [of "{..<length (connection_queue q)}" "pending_slots q"] by (auto simp: pending_slots_def)

lemma pending_full: "card (pending_slots q) = length (connection_queue q) \<Longrightarrow> pending_slots q = {..<length (connection_queue q)}"
  by (intro card_subset_eq) (auto simp: pending_slots_def)

lemma claim_slot_ok:
  assumes "lq_ok n q"
  shows "(cur_len q < n \<and> (\<exists>k. claim_slot q = Inr (Some (k, q\<lparr>cur_len := cur_len q + 1\<rparr>)) \<and> k < n \<and> k \<notin> pending_slots q)) \<or>
    (cur_len q = n \<and> claim_slot q = Inr None)"
proof (cases "cur_len q < n")
  case True
  let ?f = "find_index (\<lambda>r. req_sd r < 0) 0 (take (max_len q) (connection_queue q))"
  have "?f \<noteq> None"
  proof
    assume "?f = None"
    then have "\<forall>r \<in> set (connection_queue q). req_sd r \<noteq> - 1"
      using assms by (fastforce simp: find_index_None lq_ok_def)
    then have "pending_slots q = {..<length (connection_queue q)}"
      by (auto simp: pending_slots_def)
    with True assms show False by (simp add: lq_ok_def)
  qed
  then obtain k where k: "?f = Some k" by blast
  then have "k < n" and "req_sd (connection_queue q ! k) < 0"
    using find_index_Some [OF k] assms by (auto simp: lq_ok_def)
  moreover from this have "req_sd (connection_queue q ! k) = - 1"
    using assms unfolding lq_ok_def by (metis nth_mem zle_diff1_eq add.left_neutral diff_0 order_antisym)
  ultimately show ?thesis
    using True k assms by (auto simp: claim_slot_def lq_ok_def pending_slots_def)
next
  case False
  then show ?thesis
    using assms card_pending_le [of q] by (auto simp: claim_slot_def lq_ok_def)
qed

lemma pending_fill:
  assumes "k < length (connection_queue q)" and "req_sd r \<noteq> - 1"
  shows "pending_slots (fill_slot k r q) = insert k (pending_slots q)"
  using assms by (auto simp: pending_slots_def fill_slot_def nth_list_update)

lemma pending_remove:
  "pending_slots (q\<lparr>connection_queue := (connection_queue q)[k := invalid_request]\<rparr>) = pending_slots q - {k}"
  by (cases "k < length (connection_queue q)")
    (auto simp: pending_slots_def nth_list_update invalid_request_def split: if_splits)

lemma pending_cong: "connection_queue q' = connection_queue q \<Longrightarrow> pending_slots q' = pending_slots q"
  by (simp add: pending_slots_def)

lemma set_list_updateD: "x \<in> set (xs[k := y]) \<Longrightarrow> x \<in> set xs \<or> x = y"
  using set_update_subset_insert [of xs k y] by blast

section \<open>The life of a listen queue\<close>

text \<open>
  A request arrives and gets a new descriptor, or none is left for it; a handshake completes
  (once per connection); the application accepts. The backlog stays as it is, and each operation is one step.
\<close>

inductive listen_step :: "listen_queue \<Rightarrow> listen_queue \<Rightarrow> bool" where
  arrive: "claim_slot q = Inr (Some (k, q')) \<Longrightarrow> req_sd r \<ge> 0 \<Longrightarrow> req_sd r \<notin> req_sd ` set (connection_queue q) \<Longrightarrow>
    listen_step q (fill_slot k r q')"
| refuse: "claim_slot q = Inr (Some (k, q')) \<Longrightarrow> listen_step q (release_slot k q')"
| complete: "complete_request sd q = Inr q' \<Longrightarrow> sd \<ge> 0 \<Longrightarrow> sd \<notin> set (completed_sds q) \<Longrightarrow> listen_step q q'"
| accept: "take_completed q = Inr (Some (sd, q')) \<Longrightarrow> listen_step q q'"

definition fresh_queue :: "nat \<Rightarrow> listen_queue \<Rightarrow> bool" where
  "fresh_queue n q \<longleftrightarrow> max_len q = n \<and> cur_len q = 0 \<and> connection_queue q = replicate n invalid_request \<and>
     completed_queue q = []"

lemma fresh_queue_ok: "fresh_queue n q \<Longrightarrow> lq_ok n q"
proof -
  assume q: "fresh_queue n q"
  then have "pending_slots q = {}" by (auto simp: fresh_queue_def pending_slots_def invalid_request_def)
  with q show ?thesis by (auto simp: fresh_queue_def lq_ok_def invalid_request_def)
qed

text \<open>Writing a slot that is not pending does not disturb the pending ones.\<close>

lemma inj_pending_update:
  assumes "lq_ok n q" and "A \<subseteq> pending_slots q" and "k \<notin> A"
  shows "inj_on (\<lambda>j. req_sd ((connection_queue q)[k := r] ! j)) A"
proof -
  have "inj_on (\<lambda>j. req_sd (connection_queue q ! j)) A"
    using assms(1,2) inj_on_subset unfolding lq_ok_def by blast
  moreover have "(connection_queue q)[k := r] ! j = connection_queue q ! j" if "j \<in> A" for j
    using that assms(3) by (metis nth_list_update_neq)
  ultimately show ?thesis by (simp cong: inj_on_cong)
qed

lemma fill_ok:
  assumes "lq_ok n q" and k: "k < n" "k \<notin> pending_slots q" and "req_sd r \<ge> 0" and "req_sd r \<notin> req_sd ` set (connection_queue q)"
  shows "lq_ok n (fill_slot k r (q\<lparr>cur_len := cur_len q + 1\<rparr>))"
proof -
  let ?q = "q\<lparr>cur_len := cur_len q + 1\<rparr>"
  have len: "length (connection_queue q) = n" using assms(1) by (simp add: lq_ok_def)
  have p: "pending_slots (fill_slot k r ?q) = insert k (pending_slots q)"
    using pending_fill [of k ?q r] k(1) len assms(4) pending_cong [of ?q q] by simp
  have "inj_on (\<lambda>j. req_sd ((connection_queue q)[k := r] ! j)) (insert k (pending_slots q))"
  proof (unfold inj_on_insert, intro conjI)
    show "inj_on (\<lambda>j. req_sd ((connection_queue q)[k := r] ! j)) (pending_slots q)"
      using k(2) by (intro inj_pending_update [OF assms(1)]) simp_all
    have "req_sd ((connection_queue q)[k := r] ! j) \<noteq> req_sd r" if "j \<in> pending_slots q - {k}" for j
      using that assms(5) pending_less [of j q] by (metis DiffE imageI insertI1 nth_list_update_neq nth_mem)
    then show "req_sd ((connection_queue q)[k := r] ! k) \<notin>
        (\<lambda>j. req_sd ((connection_queue q)[k := r] ! j)) ` (pending_slots q - {k})"
      using k(1) len by (force simp del: nth_list_update_neq)
  qed
  then show ?thesis
    using assms(1,4) k p unfolding lq_ok_def
    by (auto simp: fill_slot_def card_insert_if dest!: set_list_updateD)
qed

lemma arrive_ok:
  assumes "lq_ok n q" and "claim_slot q = Inr (Some (k, q'))" and "req_sd r \<ge> 0"
    and "req_sd r \<notin> req_sd ` set (connection_queue q)"
  shows "lq_ok n (fill_slot k r q')"
  using claim_slot_ok [OF assms(1)] assms(2) fill_ok [OF assms(1) _ _ assms(3,4)] by auto

lemma refuse_ok:
  assumes "lq_ok n q" and "claim_slot q = Inr (Some (k, q'))"
  shows "lq_ok n (release_slot k q')"
proof -
  have k: "k < n" "k \<notin> pending_slots q" and q': "q' = q\<lparr>cur_len := cur_len q + 1\<rparr>"
    using claim_slot_ok [OF assms(1)] assms(2) by auto
  have p: "pending_slots (release_slot k q') = pending_slots q"
    using pending_remove [of q k] k(2) pending_cong [of "release_slot k q'"
        "q\<lparr>connection_queue := (connection_queue q)[k := invalid_request]\<rparr>"]
    by (simp add: release_slot_def q')
  have "inj_on (\<lambda>j. req_sd ((connection_queue q)[k := invalid_request] ! j)) (pending_slots q)"
    using k(2) by (intro inj_pending_update [OF assms(1)]) simp_all
  then show ?thesis
    using assms(1) p unfolding lq_ok_def
    by (auto simp: release_slot_def q' invalid_request_def dest!: set_list_updateD)
qed

lemma complete_ok:
  assumes "lq_ok n q" and "complete_request sd q = Inr q'" and "sd \<ge> 0" and "sd \<notin> set (completed_sds q)"
  shows "lq_ok n q'" and "completed_sds q' = completed_sds q @ [sd]"
proof -
  obtain k where f: "find_index (\<lambda>r. req_sd r = sd) 0 (take (max_len q) (connection_queue q)) = Some k"
    and q': "q' = q\<lparr>completed_queue := completed_queue q @ [(queue_block q, k)]\<rparr>"
    using assms(2) by (auto simp: complete_request_def split: option.splits)
  have k: "k < n" "req_sd (connection_queue q ! k) = sd"
    using find_index_Some [OF f] assms(1) by (auto simp: lq_ok_def)
  then have "k \<in> pending_slots q" using assms(1,3) by (simp add: pending_slots_def lq_ok_def)
  moreover have "k \<notin> snd ` set (completed_queue q)"
    using assms(4) k(2) by (auto simp: completed_sds_def)
  moreover have "pending_slots q' = pending_slots q" by (rule pending_cong) (simp add: q')
  ultimately show "lq_ok n q'" using assms(1) unfolding lq_ok_def by (auto simp: q')
  show "completed_sds q' = completed_sds q @ [sd]" using k(2) by (simp add: completed_sds_def q')
qed

lemma take_completed_ok:
  assumes "lq_ok n q"
  shows "(completed_queue q = [] \<and> take_completed q = Inr None) \<or>
    (\<exists>sd q'. take_completed q = Inr (Some (sd, q')) \<and> completed_sds q = sd # completed_sds q' \<and> lq_ok n q')"
proof (cases "completed_queue q")
  case (Cons e rest)
  obtain b k where e: "e = (b, k)" by fastforce
  have b: "b = queue_block q" and k: "k \<in> pending_slots q" and rest: "k \<notin> snd ` set rest"
    using assms Cons e by (auto simp: lq_ok_def)
  have pos: "cur_len q > 0" using assms k by (auto simp: lq_ok_def card_gt_0_iff)
  let ?q = "q\<lparr>completed_queue := rest, connection_queue := (connection_queue q)[k := invalid_request], cur_len := cur_len q - 1\<rparr>"
  have t: "take_completed q = Inr (Some (req_sd (connection_queue q ! k), ?q))"
    using Cons e b pos pending_less [OF k] by (simp add: take_completed_def)
  have "(connection_queue q)[k := invalid_request] ! snd e' = connection_queue q ! snd e'" if "e' \<in> set rest" for e'
    using that rest by (metis image_eqI nth_list_update_neq)
  then have c: "completed_sds q = req_sd (connection_queue q ! k) # completed_sds ?q"
    using Cons e by (simp add: completed_sds_def)
  have "pending_slots ?q = pending_slots q - {k}"
    using pending_remove [of q k] pending_cong [of ?q "q\<lparr>connection_queue := (connection_queue q)[k := invalid_request]\<rparr>"]
    by simp
  moreover have "inj_on (\<lambda>j. req_sd ((connection_queue q)[k := invalid_request] ! j)) (pending_slots q - {k})"
    by (intro inj_pending_update [OF assms]) auto
  ultimately have "lq_ok n ?q"
    using assms k rest Cons e unfolding lq_ok_def
    by (auto simp: invalid_request_def image_iff dest!: set_list_updateD)
  with t c show ?thesis by blast
qed (simp add: take_completed_def)

lemma listen_step_ok: "lq_ok n q \<Longrightarrow> listen_step q q' \<Longrightarrow> lq_ok n q'"
  by (erule listen_step.cases) (auto intro: arrive_ok refuse_ok complete_ok(1) dest: take_completed_ok)

interpretation pending_conns: step_system listen_step "fresh_queue n" "lq_ok n" for n
  by unfold_locales (auto intro: fresh_queue_ok listen_step_ok)

section \<open>Properties\<close>

text \<open>Lookups of descriptors after a context has been replaced.\<close>

lemma get_context_put_same:
  "get_context sd w = Inr (c, ctx) \<Longrightarrow> my_sd ctx' = my_sd ctx \<Longrightarrow> get_context sd (put_context c ctx' w) = Inr (c, ctx')"
  by (auto simp: get_context_def verify_mysocket_descriptor_def put_context_def andthen_eq_Inr need_eq_Inr deref_eq_Inr
      split: option.splits)

lemma get_context_put_other:
  "get_context sd w = Inr (c, ctx) \<Longrightarrow> c' \<noteq> c \<Longrightarrow> get_context sd (put_context c' x w) = Inr (c, ctx)"
  by (auto simp: get_context_def verify_mysocket_descriptor_def put_context_def andthen_eq_Inr need_eq_Inr deref_eq_Inr
      split: option.splits)

lemma get_context_put_queue [simp]: "get_context sd (put_queue a q w) = get_context sd w"
  by (rule get_context_cong) (simp_all add: put_queue_def)

lemma put_context_twice [simp]: "put_context c x (put_context c y w) = put_context c x w"
  by (simp add: put_context_def)

lemma ctx_mem_put [simp]: "ctx_mem (put_context c ctx w) = (ctx_mem w)(c \<mapsto> ctx)"
  by (simp add: put_context_def)

lemma lq_mem_put [simp]:
  "lq_mem (put_context c ctx w) = lq_mem w" "lq_mem (put_queue a q w) = (lq_mem w)(a \<mapsto> q)"
  "ctx_mem (put_queue a q w) = ctx_mem w"
  by (simp_all add: put_context_def put_queue_def)

text \<open>The context of an accepted connection.\<close>

definition accepted_context :: "conn_sock \<Rightarrow> conn_sock \<Rightarrow> int \<Rightarrow> int \<Rightarrow> sockaddr \<Rightarrow> nat \<Rightarrow> byte list \<Rightarrow> mysock_context" where
  "accepted_context s conn sd lsd peer len packet =
     (fresh_context s sd)\<lparr>listen_sd := lsd, transport_thread_started := True, network_recv_queue := [packet],
       network_state := \<lparr>local_addr = zero_addr, peer_addr = peer, peer_addr_len = len, peer_addr_valid = True,
         impl_data = Some \<lparr>recv_thread_started = True, socket = Some conn, new_socket = None, connected = True, pending = []\<rparr>,
         random_seed = 0x632A\<rparr>\<rparr>"

lemma establish_eq:
  assumes "get_context sd w = Inr (n, fresh_context s sd)" and "c \<noteq> n"
    and "ctx_mem w c = Some ctx" and "impl_data (network_state ctx) = Some io" and "new_socket io = Some conn"
  shows "establish sd c packet peer len w =
    Inr (put_context n (accepted_context s conn sd (my_sd ctx) peer len packet)
      (put_context c (ctx\<lparr>network_state := (network_state ctx)\<lparr>impl_data := Some (io\<lparr>new_socket := None\<rparr>)\<rparr>\<rparr>) w))"
  using assms get_context_put_same [OF get_context_put_other [OF assms(1,2)]]
  by (simp add: establish_def Let_def network_update_passive_state_def mysock_transport_init_def
      network_start_recv_thread_def fresh_context_def accepted_context_def enqueue_def)

lemma is_retransmission_new:
  "\<forall>r \<in> set rs. req_peer r \<noteq> peer \<and> (req_sd r \<noteq> - 1 \<longrightarrow> req_peer_len r = len) \<Longrightarrow> is_retransmission peer len rs = Inr False"
  by (induction rs) (auto simp: need_def)

text \<open>A new mysocket gets a context of its own, and leaves the other descriptors as they are.\<close>

lemma new_mysocket_beside:
  assumes "table_ok w" and "None \<in> set (global_ctx w)" and "get_context lsd w = Inr (c, ctx)"
  shows "\<exists>j m w1. new_mysocket (Some s) w = Inr (int j, w1) \<and> c \<noteq> m \<and>
    get_context (int j) w1 = Inr (m, fresh_context s (int j)) \<and> get_context lsd w1 = Inr (c, ctx)"
proof -
  have my: "ctx_mem w c = Some ctx" "global_ctx w ! nat lsd = Some c" "nat lsd < MAX_NUM_CONNECTIONS"
    using get_context_InrD [OF assms(3)] by auto
  obtain j where j: "first_free (global_ctx w) 0 = Some j"
    using assms(2) first_free_None [of "global_ctx w" 0] by auto
  have free: "j < MAX_NUM_CONNECTIONS" "global_ctx w ! j = None"
    using first_free_Some [OF j] table_ok_length [OF assms(1)] by auto
  define m where "m = ctx_brk w"
  define w1 where "w1 = w\<lparr>ctx_brk := m + 1, ctx_mem := (ctx_mem w)(m \<mapsto> fresh_context s (int j)),
    global_ctx := (global_ctx w)[j := Some m]\<rparr>"
  have "new_mysocket (Some s) w = Inr (int j, w1)"
    using new_mysocket_free [OF j] by (simp add: w1_def m_def)
  moreover have ok: "table_ok w1" unfolding w1_def m_def using assms(1) free(1) by (rule table_ok_new)
  moreover have cm: "c \<noteq> m" using assms(1) my(1) by (auto simp: table_ok_def m_def)
  moreover have "get_context (int j) w1 = Inr (m, fresh_context s (int j))"
    using get_context_eq [OF ok free(1), of m] free(1) table_ok_length [OF assms(1)] by (simp add: w1_def)
  moreover have "nat lsd \<noteq> j" using my(2) free(2) by auto
  then have "get_context lsd w1 = Inr (c, ctx)"
    using assms(3) my cm by (subst get_context_cong [of _ _ w]) (auto simp: w1_def)
  ultimately show ?thesis by blast
qed

text \<open>
  C19: a SYN packet that is not a retransmission, for a listening mysocket with room in its backlog
  and in the descriptor table, opens a connection: a new descriptor finds a passive context
  that belongs to the listening mysocket, has the address of the peer and the accepted TCP
  socket, both threads running and the SYN as its first received packet; the request occupies
  a slot of the queue, and the listening mysocket can take the next connection.
\<close>

theorem syn_opens_connection:
  assumes "table_ok w" and "None \<in> set (global_ctx w)"
    and "get_context lsd w = Inr (c, ctx)" and "listening ctx" and "bound ctx"
    and "impl_data (network_state ctx) = Some io" and "new_socket io = Some conn"
    and "hash_lookup_ptr listen_hash MAX_NUM_CONNECTIONS (listen_table w) lsd = Inr (Some a)"
    and "lq_mem w a = Some q" and "lq_ok n q" and "cur_len q < n"
    and "\<forall>r \<in> set (connection_queue q). req_peer r \<noteq> peer \<and> (req_sd r \<noteq> - 1 \<longrightarrow> req_peer_len r = 16)"
    and "20 \<le> length packet" and "packet ! 13 AND TH_SYN \<noteq> 0"
  shows "\<exists>sd m w' q'. enqueue_connection c packet peer 16 (Some s) w = Inr (True, w') \<and>
    get_context sd w' = Inr (m, accepted_context s conn sd lsd peer 16 packet) \<and>
    get_context lsd w' = Inr (c, ctx\<lparr>network_state := (network_state ctx)\<lparr>impl_data := Some (io\<lparr>new_socket := None\<rparr>)\<rparr>\<rparr>) \<and>
    lq_mem w' a = Some q' \<and> cur_len q' = cur_len q + 1 \<and>
    \<lparr>req_peer = peer, req_peer_len = 16, req_sd = sd\<rparr> \<in> set (connection_queue q')"
proof -
  have q: "max_len q = n" "length (connection_queue q) = n" using assms(10) by (simp_all add: lq_ok_def)
  obtain k where k: "claim_slot q = Inr (Some (k, q\<lparr>cur_len := cur_len q + 1\<rparr>))" "k < n"
    using claim_slot_ok [OF assms(10)] assms(11) by auto
  have retrans: "is_retransmission peer 16 (take n (connection_queue q)) = Inr False"
    using assms(12) by (intro is_retransmission_new) (auto dest: in_set_takeD)
  have my: "my_sd ctx = lsd" "ctx_mem w c = Some ctx"
    using get_context_InrD [OF assms(3)] by auto
  obtain j m w1 where new: "new_mysocket (Some s) w = Inr (int j, w1)" and cm: "c \<noteq> m"
    and sd: "get_context (int j) w1 = Inr (m, fresh_context s (int j))" and lsd: "get_context lsd w1 = Inr (c, ctx)"
    using new_mysocket_beside [OF assms(1-3)] by blast
  let ?r = "\<lparr>req_peer = peer, req_peer_len = 16, req_sd = int j\<rparr>"
  let ?q = "fill_slot k ?r (q\<lparr>cur_len := cur_len q + 1\<rparr>)"
  let ?acc = "accepted_context s conn (int j) lsd peer 16 packet"
  let ?ctx = "ctx\<lparr>network_state := (network_state ctx)\<lparr>impl_data := Some (io\<lparr>new_socket := None\<rparr>)\<rparr>\<rparr>"
  let ?w = "put_context m ?acc (put_context c ?ctx (put_queue a ?q w1))"
  have "ctx_mem (put_queue a ?q w1) c = Some ctx" using get_context_InrD [OF lsd] by simp
  then have est: "establish (int j) c packet peer 16 (put_queue a ?q w1) = Inr ?w"
    using establish_eq [of "int j" "put_queue a ?q w1" m s c ctx io conn packet peer 16] sd cm assms(6,7) my(1) by simp
  then have "enqueue_connection c packet peer 16 (Some s) w = Inr (True, ?w)"
    using assms(4,5,8,9,13,14) my retrans k new q
    by (simp add: enqueue_connection_def get_connection_queue_def with_queue_def)
  moreover have "get_context (int j) ?w = Inr (m, ?acc)"
    using sd cm by (intro get_context_put_same [OF get_context_put_other, of _ _ _ "fresh_context s (int j)"])
      (simp_all add: accepted_context_def fresh_context_def)
  moreover have "get_context lsd ?w = Inr (c, ?ctx)"
    using lsd cm by (intro get_context_put_other get_context_put_same) simp_all
  moreover have "lq_mem ?w a = Some ?q" by simp
  moreover have "cur_len ?q = cur_len q + 1" "?r \<in> set (connection_queue ?q)"
    using k(2) q(2) by (auto simp: fill_slot_def intro: set_update_memI)
  ultimately show ?thesis by blast
qed

definition demo_queue :: listen_queue where
  "demo_queue = \<lparr>local_port = 80, max_len = 2, cur_len = 0, connection_queue = replicate 2 invalid_request,
     queue_block = 1, completed_queue = []\<rparr>"

definition demo_request :: "int \<Rightarrow> connect_request" where
  "demo_request sd = \<lparr>req_peer = \<lparr>sa_family = AF_INET, sin_port = 0x5000, sin_addr = 0x0200007F\<rparr>, req_peer_len = 16, req_sd = sd\<rparr>"

definition demo_queue1 :: listen_queue where
  "demo_queue1 = demo_queue\<lparr>cur_len := 1, connection_queue := [demo_request 3, invalid_request]\<rparr>"

lemma demo_queue_fresh: "fresh_queue 2 demo_queue"
  by (simp add: fresh_queue_def demo_queue_def)

definition demo_listener :: mysock_context where
  "demo_listener = (fresh_context (demo_sock [] [] []) 0)\<lparr>bound := True, listening := True,
     network_state := (demo_io [] [] [])\<lparr>impl_data := Some \<lparr>recv_thread_started = True, socket = Some (demo_sock [] [] []),
       new_socket = Some (demo_sock [] [] []), connected = False, pending = []\<rparr>\<rparr>\<rparr>"

definition demo_demux :: demux where
  "demo_demux = \<lparr>ctx_mem = [0 \<mapsto> demo_listener], ctx_brk = 1, global_ctx = Some 0 # replicate 63 None, errno = 0,
     listen_table = (hash_empty 64)[0 := [(0, 0)]], lq_mem = [0 \<mapsto> demo_queue], lq_brk = 2\<rparr>"

definition demo_syn :: "byte list" where
  "demo_syn = [0, 80, 4, 0, 0, 0, 0, 1, 0, 0, 0, 0, 0x50, 2, 12, 0, 0, 0, 0, 0]"

theorem syn_opens_connection_witness:
  "\<exists>sd m w'. enqueue_connection 0 demo_syn (req_peer (demo_request 0)) 16 (Some (demo_sock [] [] [])) demo_demux = Inr (True, w') \<and>
     get_context sd w' = Inr (m, accepted_context (demo_sock [] [] []) (demo_sock [] [] []) sd 0 (req_peer (demo_request 0)) 16 demo_syn)"
proof -
  have "table_ok demo_demux"
    by (auto simp: table_ok_def MAX_NUM_CONNECTIONS_def demo_demux_def nth_Cons' demo_listener_def fresh_context_def)
  moreover have "get_context 0 demo_demux = Inr (0, demo_listener)"
    by (simp add: get_context_def verify_mysocket_descriptor_def MAX_NUM_CONNECTIONS_def fresh_context_def
        demo_demux_def demo_listener_def)
  moreover have "hash_lookup_ptr listen_hash MAX_NUM_CONNECTIONS (listen_table demo_demux) 0 = Inr (Some 0)"
    by (simp add: hash_lookup_ptr_def hash_get_entry_def MAX_NUM_CONNECTIONS_def demo_demux_def listen_hash_def hash_empty_def)
  moreover have "lq_ok 2 demo_queue" using demo_queue_fresh by (rule fresh_queue_ok)
  moreover have "None \<in> set (global_ctx demo_demux)" "lq_mem demo_demux 0 = Some demo_queue"
    by (simp_all add: demo_demux_def)
  moreover have "\<forall>r \<in> set (connection_queue demo_queue).
      req_peer r \<noteq> req_peer (demo_request 0) \<and> (req_sd r \<noteq> - 1 \<longrightarrow> req_peer_len r = 16)"
    by (simp add: demo_queue_def invalid_request_def demo_request_def zero_addr_def AF_INET_def)
  ultimately show ?thesis
    using syn_opens_connection [of demo_demux 0 0 demo_listener _ "demo_sock [] [] []" 0 demo_queue 2
        "req_peer (demo_request 0)" demo_syn "demo_sock [] [] []"]
    by (simp add: demo_listener_def demo_queue_def demo_syn_def TH_SYN_def) blast
qed

text \<open>
  In every state a listen queue with room for \<open>n\<close> connections can reach by operations that do not overlap, the counter is
  the number of occupied slots and at most \<open>n\<close>; a new request finds a free slot unless all \<open>n\<close> are occupied, when it
  is dropped; and the asserts and array accesses of arrival and acceptance cannot fail.
\<close>

theorem backlog_bounds_pending:
  assumes "fresh_queue n q0" and "reachable_from listen_step q0 q"
  shows "cur_len q = card (pending_slots q) \<and> cur_len q \<le> n \<and>
    (if cur_len q = n then claim_slot q = Inr None
     else \<exists>k q'. claim_slot q = Inr (Some (k, q')) \<and> k < n \<and> k \<notin> pending_slots q) \<and>
    (\<exists>r. take_completed q = Inr r)"
proof -
  have ok: "lq_ok n q" using pending_conns.reachable_inv [OF assms(2,1)] .
  then show ?thesis
    using claim_slot_ok [OF ok] take_completed_ok [OF ok] card_pending_le [of q] by (auto simp: lq_ok_def)
qed

lemma demo_arrives: "reachable_from listen_step demo_queue demo_queue1"
proof -
  have "claim_slot demo_queue = Inr (Some (0, demo_queue\<lparr>cur_len := 1\<rparr>))"
    by (simp add: claim_slot_def demo_queue_def invalid_request_def numeral_2_eq_2)
  then have "listen_step demo_queue (fill_slot 0 (demo_request 3) (demo_queue\<lparr>cur_len := 1\<rparr>))"
    by (rule listen_step.arrive) (auto simp: demo_request_def demo_queue_def invalid_request_def)
  then show ?thesis
    by (intro reachable_from.next_state [OF reachable_from.start])
      (simp add: fill_slot_def demo_queue_def demo_queue1_def numeral_2_eq_2)
qed

theorem backlog_bounds_pending_witness:
  "cur_len demo_queue1 = card (pending_slots demo_queue1) \<and> cur_len demo_queue1 = 1"
  using backlog_bounds_pending [OF demo_queue_fresh demo_arrives] by (simp add: demo_queue1_def)

text \<open>
  Connections are accepted in the order in which their handshakes completed: on a
  consistent queue, completing a handshake appends the descriptor to those waiting to be
  accepted, accepting returns the first of them and leaves the others, and with none
  waiting the accepting thread blocks.
\<close>

theorem accept_in_completion_order:
  assumes "lq_ok n q"
  shows "(\<forall>sd q'. complete_request sd q = Inr q' \<longrightarrow> sd \<ge> 0 \<longrightarrow> sd \<notin> set (completed_sds q) \<longrightarrow>
      completed_sds q' = completed_sds q @ [sd]) \<and>
    (case completed_sds q of
       [] \<Rightarrow> take_completed q = Inr None
     | sd # sds \<Rightarrow> \<exists>q'. take_completed q = Inr (Some (sd, q')) \<and> completed_sds q' = sds)"
  using complete_ok(2) [OF assms] take_completed_ok [OF assms] by (auto simp: completed_sds_def)

theorem accept_in_completion_order_witness:
  "\<exists>q'. complete_request 3 demo_queue1 = Inr q' \<and> completed_sds q' = [3]"
proof -
  have "complete_request 3 demo_queue1 = Inr (demo_queue1\<lparr>completed_queue := [(1, 0)]\<rparr>)"
    by (simp add: complete_request_def demo_queue1_def demo_queue_def demo_request_def)
  moreover have "completed_sds demo_queue1 = []" by (simp add: completed_sds_def demo_queue1_def demo_queue_def)
  ultimately show ?thesis
    using accept_in_completion_order [OF pending_conns.reachable_inv [OF demo_arrives demo_queue_fresh]] by auto
qed

text \<open>
  Calling \<^verbatim>\<open>mylisten\<close> again with a larger backlog while completed connections wait leaves
  the completed queue pointing into the old array: if \<^verbatim>\<open>realloc\<close> moves it, the next
  accept uses freed memory.
\<close>

theorem growing_backlog_dangles:
  assumes "lq_ok n q" and "completed_sds q \<noteq> []" and "n < m" and "fresh \<noteq> queue_block q"
  shows "take_completed (resize True fresh m q) = Inl Use_after_free"
proof -
  obtain b k rest where c: "completed_queue q = (b, k) # rest"
    using assms(2) by (cases "completed_queue q") (auto simp: completed_sds_def)
  then have "b = queue_block q" using assms(1) by (auto simp: lq_ok_def)
  then show ?thesis
    using assms c by (simp add: resize_def take_completed_def lq_ok_def)
qed

theorem growing_backlog_dangles_witness:
  "take_completed (resize True 9 5 (demo_queue1\<lparr>completed_queue := [(1, 0)]\<rparr>)) = Inl Use_after_free"
proof -
  have c: "complete_request 3 demo_queue1 = Inr (demo_queue1\<lparr>completed_queue := [(1, 0)]\<rparr>)"
    by (simp add: complete_request_def demo_queue1_def demo_queue_def demo_request_def)
  have n: "3 \<notin> set (completed_sds demo_queue1)" by (simp add: completed_sds_def demo_queue1_def demo_queue_def)
  have "lq_ok 2 (demo_queue1\<lparr>completed_queue := [(1, 0)]\<rparr>)"
    by (rule complete_ok(1) [OF pending_conns.reachable_inv [OF demo_arrives demo_queue_fresh] c _ n]) simp
  then show ?thesis
    by (rule growing_backlog_dangles) (simp_all add: completed_sds_def demo_queue1_def demo_queue_def)
qed

end
