(* ===== verification/Listen_Threads.thy ===== *)
theory Listen_Threads
  imports Connection_Demux
begin

text \<open>
  The threads at a listen queue (\<^verbatim>\<open>connection_demux.c\<close>). The receiving thread of the listening mysocket runs
  \<^verbatim>\<open>_mysock_enqueue_connection\<close>, the application \<^verbatim>\<open>_mysock_dequeue_connection\<close>, and the transport threads of the
  pending connections \<^verbatim>\<open>_mysock_passive_connection_complete\<close>. All take the read-write lock for reading only, and the receiving
  thread takes no other, so its accesses to the slots and to \<^verbatim>\<open>cur_len\<close> fall between those of the application. The steps here
  are these accesses: the search for a slot, the load and the store of each \<^verbatim>\<open>++\<close> and \<^verbatim>\<open>--\<close> of the counter, the
  \<^verbatim>\<open>memset\<close> and the assignment of \<^verbatim>\<open>INVALIDATE_CONNECT_REQUEST\<close>, and the filling of a slot. With
  \<open>indivisible\<close> no thread touches the counter between the load and the store of the other.

  The backlog is the one of a single call of \<^verbatim>\<open>mylisten\<close>, which takes the lock for writing.
  Descriptors of pending connections are not 0, the first one a process gets.
\<close>

section \<open>The pieces of the operations\<close>

text \<open>The test and the search of an arriving request, before the counter is changed.\<close>

definition find_slot :: "listen_queue \<Rightarrow> fault + nat option" where
  "find_slot q =
     (if cur_len q < max_len q then
        (case find_index (\<lambda>r. req_sd r < 0) 0 (take (max_len q) (connection_queue q)) of
           None \<Rightarrow> Inl Assert_failed
         | Some k \<Rightarrow> Inr (Some k))
      else Inr None)"

definition fill_claimed :: "nat \<Rightarrow> connect_request \<Rightarrow> listen_queue \<Rightarrow> fault + listen_queue" where
  "fill_claimed k r q = need (req_sd (connection_queue q ! k) = - 1) Assert_failed (Inr (fill_slot k r q))"

text \<open>A slot after the \<^verbatim>\<open>memset\<close>, and the removal of the first completed connection up to there.\<close>

definition zero_request :: connect_request where
  "zero_request = \<lparr>req_peer = zero_addr, req_peer_len = 0, req_sd = 0\<rparr>"

definition set_slot :: "nat \<Rightarrow> connect_request \<Rightarrow> listen_queue \<Rightarrow> listen_queue" where
  "set_slot k r q = q\<lparr>connection_queue := (connection_queue q)[k := r]\<rparr>"

definition pop_completed :: "listen_queue \<Rightarrow> fault + (nat \<times> listen_queue) option" where
  "pop_completed q =
     (case completed_queue q of
        [] \<Rightarrow> Inr None
      | (b, k) # rest \<Rightarrow>
          need (b = queue_block q) Use_after_free
            (need (k < length (connection_queue q)) Out_of_bounds
               (Inr (Some (k, set_slot k zero_request (q\<lparr>completed_queue := rest\<rparr>))))))"

definition load_positive :: "listen_queue \<Rightarrow> fault + nat" where
  "load_positive q = need (cur_len q > 0) Assert_failed (Inr (cur_len q))"

definition store_len :: "nat \<Rightarrow> listen_queue \<Rightarrow> listen_queue" where
  "store_len n q = q\<lparr>cur_len := n\<rparr>"

text \<open>Without other threads the pieces are the operations of \<open>Connection_Demux\<close>.\<close>

lemma pieces_enqueue:
  "claim_slot q = andthen (find_slot q) (\<lambda>s.
     case s of
       None \<Rightarrow> Inr None
     | Some k \<Rightarrow> need (req_sd (connection_queue q ! k) = - 1) Assert_failed (Inr (Some (k, store_len (cur_len q + 1) q))))"
  by (simp add: claim_slot_def find_slot_def store_len_def split: option.split)

lemma pieces_dequeue:
  "take_completed q = bindw (pop_completed q) (\<lambda>(k, q').
     andthen (load_positive q') (\<lambda>n. Inr (Some (req_sd (connection_queue q ! k), store_len (n - 1) (set_slot k invalid_request q')))))"
  by (auto simp: take_completed_def pop_completed_def load_positive_def store_len_def set_slot_def need_def split: list.split)

section \<open>The threads\<close>

text \<open>
  The receiving thread waits; has found a slot; has loaded the counter; has counted the request; or undoes this because no
  descriptor was left. The application waits; has cleared a slot; has marked it as free; or has loaded the counter.
\<close>

datatype receiving = Ready | Claimed nat | Loaded nat nat | Counted nat | Undoing | Undo_loaded nat
datatype accepting = Outside | Cleared nat | Freed | Down_loaded nat

record listen_threads =
  lq :: listen_queue
  rcv :: receiving
  acc :: accepting

definition rcv_loaded :: "listen_threads \<Rightarrow> bool" where
  "rcv_loaded s \<longleftrightarrow> (case rcv s of Loaded _ _ \<Rightarrow> True | Undo_loaded _ \<Rightarrow> True | _ \<Rightarrow> False)"

definition acc_loaded :: "listen_threads \<Rightarrow> bool" where
  "acc_loaded s \<longleftrightarrow> (case acc s of Down_loaded _ \<Rightarrow> True | _ \<Rightarrow> False)"

inductive queue_step :: "bool \<Rightarrow> listen_threads \<Rightarrow> listen_threads \<Rightarrow> bool" for indivisible where
  claim: "rcv s = Ready \<Longrightarrow> find_slot (lq s) = Inr (Some k) \<Longrightarrow> queue_step indivisible s (s\<lparr>rcv := Claimed k\<rparr>)"
| load: "rcv s = Claimed k \<Longrightarrow> \<not> (indivisible \<and> acc_loaded s) \<Longrightarrow> queue_step indivisible s (s\<lparr>rcv := Loaded k (cur_len (lq s))\<rparr>)"
| store: "rcv s = Loaded k n \<Longrightarrow> queue_step indivisible s (s\<lparr>lq := store_len (n + 1) (lq s), rcv := Counted k\<rparr>)"
| fill: "rcv s = Counted k \<Longrightarrow> req_sd r > 0 \<Longrightarrow> req_sd r \<notin> req_sd ` set (connection_queue (lq s)) \<Longrightarrow>
    fill_claimed k r (lq s) = Inr q \<Longrightarrow> queue_step indivisible s (s\<lparr>lq := q, rcv := Ready\<rparr>)"
| no_descriptor: "rcv s = Counted k \<Longrightarrow> queue_step indivisible s (s\<lparr>lq := set_slot k invalid_request (lq s), rcv := Undoing\<rparr>)"
| undo_load: "rcv s = Undoing \<Longrightarrow> \<not> (indivisible \<and> acc_loaded s) \<Longrightarrow> queue_step indivisible s (s\<lparr>rcv := Undo_loaded (cur_len (lq s))\<rparr>)"
| undo_store: "rcv s = Undo_loaded n \<Longrightarrow> queue_step indivisible s (s\<lparr>lq := store_len (n - 1) (lq s), rcv := Ready\<rparr>)"
| completes: "sd > 0 \<Longrightarrow> sd \<notin> set (completed_sds (lq s)) \<Longrightarrow> complete_request sd (lq s) = Inr q \<Longrightarrow> queue_step indivisible s (s\<lparr>lq := q\<rparr>)"
| pop: "acc s = Outside \<Longrightarrow> pop_completed (lq s) = Inr (Some (k, q)) \<Longrightarrow> queue_step indivisible s (s\<lparr>lq := q, acc := Cleared k\<rparr>)"
| free: "acc s = Cleared k \<Longrightarrow> queue_step indivisible s (s\<lparr>lq := set_slot k invalid_request (lq s), acc := Freed\<rparr>)"
| down_load: "acc s = Freed \<Longrightarrow> \<not> (indivisible \<and> rcv_loaded s) \<Longrightarrow> load_positive (lq s) = Inr n \<Longrightarrow>
    queue_step indivisible s (s\<lparr>acc := Down_loaded n\<rparr>)"
| down_store: "acc s = Down_loaded n \<Longrightarrow> queue_step indivisible s (s\<lparr>lq := store_len (n - 1) (lq s), acc := Outside\<rparr>)"

text \<open>The queue that \<^verbatim>\<open>_mysock_set_backlog\<close> sets up.\<close>

definition queue_of_backlog :: "uint16 \<Rightarrow> uint32 \<Rightarrow> nat \<Rightarrow> listen_queue" where
  "queue_of_backlog port backlog block =
     resize True block (unat (backlog + 1))
       \<lparr>local_port = port, max_len = 0, cur_len = 0, connection_queue = [], queue_block = 0, completed_queue = []\<rparr>"

definition listening_threads :: "uint16 \<Rightarrow> uint32 \<Rightarrow> nat \<Rightarrow> listen_threads" where
  "listening_threads port backlog block = \<lparr>lq = queue_of_backlog port backlog block, rcv = Ready, acc = Outside\<rparr>"

lemma queue_of_backlog_fresh: "fresh_queue (unat (backlog + 1)) (queue_of_backlog port backlog block)"
  by (simp add: fresh_queue_def queue_of_backlog_def resize_def)

section \<open>The invariant\<close>

text \<open>The queue as it is when the application has gone on, with the counter that belongs to its slots.\<close>

definition settled :: "listen_queue \<Rightarrow> listen_queue" where
  "settled q = store_len (card (pending_slots q)) q"

definition view :: "listen_threads \<Rightarrow> listen_queue" where
  "view s = (case acc s of Cleared k \<Rightarrow> set_slot k invalid_request (lq s) | _ \<Rightarrow> lq s)"

fun rcv_counted :: "receiving \<Rightarrow> nat" where
  "rcv_counted (Counted k) = 1"
| "rcv_counted Undoing = 1"
| "rcv_counted (Undo_loaded n) = 1"
| "rcv_counted _ = 0"

fun acc_counted :: "accepting \<Rightarrow> nat" where
  "acc_counted Outside = 0"
| "acc_counted _ = 1"

fun claimed_slot :: "receiving \<Rightarrow> nat option" where
  "claimed_slot (Claimed k) = Some k"
| "claimed_slot (Loaded k n) = Some k"
| "claimed_slot (Counted k) = Some k"
| "claimed_slot _ = None"

definition threads_ok :: "nat \<Rightarrow> listen_threads \<Rightarrow> bool" where
  "threads_ok n s \<longleftrightarrow>
     lq_ok n (settled (view s)) \<and>
     cur_len (lq s) = card (pending_slots (view s)) + rcv_counted (rcv s) + acc_counted (acc s) \<and> cur_len (lq s) \<le> n \<and>
     (\<forall>k. claimed_slot (rcv s) = Some k \<longrightarrow> k < n \<and> req_sd (connection_queue (lq s) ! k) = - 1) \<and>
     (\<forall>k. rcv s = Claimed k \<or> (\<exists>m. rcv s = Loaded k m) \<longrightarrow> cur_len (lq s) < n) \<and>
     (\<forall>k m. rcv s = Loaded k m \<longrightarrow> m = cur_len (lq s)) \<and> (\<forall>m. rcv s = Undo_loaded m \<longrightarrow> m = cur_len (lq s)) \<and>
     (\<forall>m. acc s = Down_loaded m \<longrightarrow> m = cur_len (lq s)) \<and> \<not> (rcv_loaded s \<and> acc_loaded s) \<and>
     (\<forall>k. acc s = Cleared k \<longrightarrow> k < n \<and> req_sd (connection_queue (lq s) ! k) = 0) \<and>
     (\<forall>k \<in> pending_slots (view s). req_sd (connection_queue (view s) ! k) > 0)"

lemma slot_simps [simp]:
  "connection_queue (store_len m q) = connection_queue q" "connection_queue (set_slot k r q) = (connection_queue q)[k := r]"
  "max_len (store_len m q) = max_len q" "max_len (set_slot k r q) = max_len q"
  "completed_queue (store_len m q) = completed_queue q" "completed_queue (set_slot k r q) = completed_queue q"
  "queue_block (store_len m q) = queue_block q" "queue_block (set_slot k r q) = queue_block q"
  "cur_len (store_len m q) = m" "cur_len (set_slot k r q) = cur_len q"
  "store_len m (store_len i q) = store_len m q" "store_len m (set_slot k r q) = set_slot k r (store_len m q)"
  by (simp_all add: store_len_def set_slot_def)

lemma invalid_sd [simp]: "req_sd invalid_request = - 1"
  by (simp add: invalid_request_def)

lemma pending_simps [simp]:
  "pending_slots (store_len m q) = pending_slots q" "pending_slots (set_slot k invalid_request q) = pending_slots q - {k}"
  using pending_remove [of q k] by (simp_all add: pending_slots_def set_slot_def)

lemma settled_simps [simp]:
  "settled (store_len m q) = settled q" "pending_slots (settled q) = pending_slots q"
  "connection_queue (settled q) = connection_queue q" "max_len (settled q) = max_len q" "completed_queue (settled q) = completed_queue q"
  by (simp_all add: settled_def)

lemma settled_ok: "lq_ok n q \<Longrightarrow> lq_ok n (settled q)"
  by (simp add: lq_ok_def settled_def)

lemma find_index_update:
  "\<not> P y \<Longrightarrow> \<not> P (xs ! k) \<Longrightarrow> find_index P i (xs[k := y]) = find_index P i xs"
proof (induction xs arbitrary: k i)
  case (Cons x xs)
  then show ?case by (cases k) auto
qed simp

text \<open>A slot that is not pending, or no longer, is marked as free.\<close>

lemma set_slot_ok:
  assumes "lq_ok n (settled q)" and "k \<notin> snd ` set (completed_queue q)"
  shows "lq_ok n (settled (set_slot k invalid_request q))"
proof -
  have "inj_on (\<lambda>j. req_sd ((connection_queue q)[k := invalid_request] ! j)) (pending_slots q - {k})"
    using inj_pending_update [OF assms(1), of "pending_slots q - {k}" k invalid_request] by simp
  then show ?thesis
    using assms unfolding lq_ok_def
    by (auto simp: settled_def image_iff dest!: set_list_updateD)
qed

lemma view_same: "(\<And>k. acc s \<noteq> Cleared k) \<Longrightarrow> view s = lq s"
  by (auto simp: view_def split: accepting.split)

lemma view_store [simp]: "view (s\<lparr>lq := store_len m (lq s), rcv := r\<rparr>) = store_len m (view s)"
  "view (s\<lparr>lq := store_len m (lq s)\<rparr>) = store_len m (view s)" "view (s\<lparr>rcv := r\<rparr>) = view s"
  by (auto simp: view_def split: accepting.split)

lemma loaded_simps [simp]:
  "rcv_loaded (s\<lparr>lq := q\<rparr>) = rcv_loaded s" "acc_loaded (s\<lparr>lq := q\<rparr>) = acc_loaded s"
  "acc_loaded (s\<lparr>lq := q, rcv := r\<rparr>) = acc_loaded s" "acc_loaded (s\<lparr>rcv := r\<rparr>) = acc_loaded s"
  "rcv_loaded (s\<lparr>lq := q, acc := a\<rparr>) = rcv_loaded s" "rcv_loaded (s\<lparr>acc := a\<rparr>) = rcv_loaded s"
  by (simp_all add: rcv_loaded_def acc_loaded_def)

lemma view_queue:
  assumes "threads_ok n s"
  shows "max_len (lq s) = n" "length (connection_queue (lq s)) = n" "\<forall>r \<in> set (connection_queue (lq s)). req_sd r \<ge> - 1"
proof -
  have v: "lq_ok n (settled (view s))" using assms by (simp add: threads_ok_def)
  show "max_len (lq s) = n" "length (connection_queue (lq s)) = n"
    using v by (auto simp: lq_ok_def view_def split: accepting.splits)
  show "\<forall>r \<in> set (connection_queue (lq s)). req_sd r \<ge> - 1"
  proof
    fix r assume "r \<in> set (connection_queue (lq s))"
    then obtain j where j: "j < n" "r = connection_queue (lq s) ! j"
      using \<open>length (connection_queue (lq s)) = n\<close> by (metis in_set_conv_nth)
    show "req_sd r \<ge> - 1"
    proof (cases "acc s = Cleared j")
      case True
      then show ?thesis using assms j by (auto simp: threads_ok_def)
    next
      case False
      then have "connection_queue (view s) ! j = r" using j by (auto simp: view_def split: accepting.split)
      moreover have "length (connection_queue (view s)) = n" using v by (simp add: lq_ok_def)
      ultimately have "r \<in> set (connection_queue (view s))" using j(1) by (metis nth_mem)
      then show ?thesis using v by (simp add: lq_ok_def)
    qed
  qed
qed

text \<open>The receiving thread.\<close>

lemma ok_claim:
  assumes "threads_ok n s" and "rcv s = Ready" and "find_slot (lq s) = Inr (Some k)"
  shows "threads_ok n (s\<lparr>rcv := Claimed k\<rparr>)"
proof -
  note q = view_queue [OF assms(1)]
  have "cur_len (lq s) < n" "find_index (\<lambda>r. req_sd r < 0) 0 (connection_queue (lq s)) = Some k"
    using assms(3) q by (auto simp: find_slot_def split: if_splits option.splits)
  moreover from this(2) have "k < n" "req_sd (connection_queue (lq s) ! k) < 0"
    using find_index_Some q(2) by fastforce+
  moreover from this have "req_sd (connection_queue (lq s) ! k) = - 1" using q(2,3) nth_mem by fastforce
  ultimately show ?thesis using assms(1,2) by (auto simp: threads_ok_def rcv_loaded_def)
qed

lemma ok_fill:
  assumes "threads_ok n s" and "rcv s = Counted k" and "req_sd r > 0" and "req_sd r \<notin> req_sd ` set (connection_queue (lq s))"
  shows "threads_ok n (s\<lparr>lq := fill_slot k r (lq s), rcv := Ready\<rparr>)"
proof -
  note q = view_queue [OF assms(1)]
  have k: "k < n" "req_sd (connection_queue (lq s) ! k) = - 1" and v: "lq_ok n (settled (view s))"
    using assms(1,2) by (simp_all add: threads_ok_def)
  have c: "req_sd (connection_queue (lq s) ! j) = 0" if "acc s = Cleared j" for j using assms(1) that by (simp add: threads_ok_def)
  have ne: "j \<noteq> k" if "acc s = Cleared j" for j using c [OF that] k(2) by auto
  have kv: "k \<notin> pending_slots (view s)" using k(2) ne by (auto simp: view_def pending_slots_def split: accepting.splits)
  have fresh: "req_sd r \<notin> req_sd ` set (connection_queue (view s))"
    using assms(3,4) by (auto simp: view_def split: accepting.splits dest!: set_list_updateD)
  let ?s = "s\<lparr>lq := fill_slot k r (lq s), rcv := Ready\<rparr>"
  have view: "view ?s = fill_slot k r (view s)"
    using ne by (auto simp: view_def fill_slot_def set_slot_def list_update_swap [of k] split: accepting.split)
  have "lq_ok n (fill_slot k r ((settled (view s))\<lparr>cur_len := cur_len (settled (view s)) + 1\<rparr>))"
    using fill_ok [OF v k(1)] kv fresh assms(3) by simp
  from settled_ok [OF this] have "lq_ok n (settled (view ?s))"
    unfolding view by (simp add: settled_def store_len_def fill_slot_def pending_slots_def)
  moreover have "length (connection_queue (view s)) = n" using v by (simp add: lq_ok_def)
  then have p: "pending_slots (view ?s) = insert k (pending_slots (view s))"
    unfolding view using pending_fill [of k "view s" r] k(1) assms(3) by simp
  moreover have "req_sd (connection_queue (view ?s) ! j) > 0" if "j \<in> pending_slots (view ?s)" for j
    using that assms(1,3) k(1) \<open>length (connection_queue (view s)) = n\<close> unfolding p unfolding view
    by (cases "j = k") (auto simp: threads_ok_def fill_slot_def)
  moreover have "req_sd (connection_queue (fill_slot k r (lq s)) ! j) = 0" if "acc s = Cleared j" for j
    using c [OF that] k by (cases "j = k") (simp_all add: fill_slot_def)
  ultimately show ?thesis
    using assms(1,2) kv by (auto simp: threads_ok_def rcv_loaded_def acc_loaded_def fill_slot_def)
qed

lemma ok_no_descriptor:
  assumes "threads_ok n s" and "rcv s = Counted k"
  shows "threads_ok n (s\<lparr>lq := set_slot k invalid_request (lq s), rcv := Undoing\<rparr>)"
proof -
  have k: "k < n" "req_sd (connection_queue (lq s) ! k) = - 1" and v: "lq_ok n (settled (view s))"
    using assms by (simp_all add: threads_ok_def)
  have c: "req_sd (connection_queue (lq s) ! j) = 0" if "acc s = Cleared j" for j using assms(1) that by (simp add: threads_ok_def)
  have ne: "j \<noteq> k" if "acc s = Cleared j" for j using c [OF that] k(2) by auto
  have kv: "k \<notin> pending_slots (view s)" using k(2) ne by (auto simp: view_def pending_slots_def split: accepting.splits)
  let ?s = "s\<lparr>lq := set_slot k invalid_request (lq s), rcv := Undoing\<rparr>"
  have view: "view ?s = set_slot k invalid_request (view s)"
    using ne by (auto simp: view_def set_slot_def list_update_swap [of k] split: accepting.split)
  have "k \<notin> snd ` set (completed_queue (view s))" using v kv by (auto simp: lq_ok_def)
  from set_slot_ok [OF v this] have "lq_ok n (settled (view ?s))" unfolding view .
  moreover have p: "pending_slots (view ?s) = pending_slots (view s)" unfolding view using kv by simp
  moreover have "req_sd (connection_queue (view ?s) ! j) > 0" if "j \<in> pending_slots (view ?s)" for j
    using that assms(1) kv unfolding p unfolding view by (cases "j = k") (auto simp: threads_ok_def)
  moreover have "req_sd ((connection_queue (lq s))[k := invalid_request] ! j) = 0" if "acc s = Cleared j" for j
    using c [OF that] k by (cases "j = k") simp_all
  ultimately show ?thesis
    using assms by (auto simp: threads_ok_def rcv_loaded_def acc_loaded_def)
qed

text \<open>The transport threads.\<close>

lemma complete_view:
  assumes "threads_ok n s" and "sd > 0" and "complete_request sd (lq s) = Inr q"
  shows "complete_request sd (settled (view s)) = Inr (settled (view (s\<lparr>lq := q\<rparr>)))"
    "connection_queue q = connection_queue (lq s)" "cur_len q = cur_len (lq s)"
proof -
  note vq = view_queue [OF assms(1)]
  obtain k where f: "find_index (\<lambda>r. req_sd r = sd) 0 (take (max_len (lq s)) (connection_queue (lq s))) = Some k"
    "q = (lq s)\<lparr>completed_queue := completed_queue (lq s) @ [(queue_block (lq s), k)]\<rparr>"
    using assms(3) by (auto simp: complete_request_def split: option.splits)
  then show "connection_queue q = connection_queue (lq s)" "cur_len q = cur_len (lq s)" by simp_all
  have "find_index (\<lambda>r. req_sd r = sd) 0 (connection_queue (view s)) = Some k"
    using f(1) vq assms(1,2) by (auto simp: view_def threads_ok_def find_index_update split: accepting.splits)
  moreover have "length (connection_queue (view s)) = n" "max_len (view s) = n"
    using assms(1) by (auto simp: threads_ok_def lq_ok_def)
  moreover have "view (s\<lparr>lq := q\<rparr>) = (view s)\<lparr>completed_queue := completed_queue (view s) @ [(queue_block (view s), k)]\<rparr>"
    by (auto simp: view_def f(2) set_slot_def split: accepting.split)
  ultimately show "complete_request sd (settled (view s)) = Inr (settled (view (s\<lparr>lq := q\<rparr>)))"
    by (simp add: complete_request_def) (simp add: settled_def store_len_def pending_slots_def)
qed

lemma completed_view:
  assumes "threads_ok n s"
  shows "completed_sds (settled (view s)) = completed_sds (lq s)"
proof (cases "acc s")
  case (Cleared k)
  then have "k \<notin> pending_slots (view s)" by (simp add: view_def)
  then have "k \<notin> snd ` set (completed_queue (lq s))"
    using assms Cleared by (auto simp: threads_ok_def lq_ok_def view_def)
  then have "(connection_queue (lq s))[k := invalid_request] ! snd e = connection_queue (lq s) ! snd e" if "e \<in> set (completed_queue (lq s))" for e
    using that by (metis image_eqI nth_list_update_neq)
  then show ?thesis using Cleared by (simp add: completed_sds_def view_def)
qed (simp_all add: view_def completed_sds_def)

lemma ok_completes:
  assumes "threads_ok n s" and "sd > 0" and "sd \<notin> set (completed_sds (lq s))" and "complete_request sd (lq s) = Inr q"
  shows "threads_ok n (s\<lparr>lq := q\<rparr>)"
proof -
  note c = complete_view [OF assms(1,2,4)]
  have "lq_ok n (settled (view s))" using assms(1) by (simp add: threads_ok_def)
  then have "lq_ok n (settled (view (s\<lparr>lq := q\<rparr>)))"
    using complete_ok(1) [OF _ c(1)] assms(2,3) completed_view [OF assms(1)] by simp
  moreover have v: "connection_queue (view (s\<lparr>lq := q\<rparr>)) = connection_queue (view s)"
    using c(2) by (auto simp: view_def split: accepting.split)
  moreover have "pending_slots (view (s\<lparr>lq := q\<rparr>)) = pending_slots (view s)" by (rule pending_cong [OF v])
  ultimately show ?thesis using assms(1) c(2,3) by (auto simp: threads_ok_def)
qed

text \<open>The application.\<close>

lemma ok_pop:
  assumes "threads_ok n s" and "acc s = Outside" and "pop_completed (lq s) = Inr (Some (k, q))"
  shows "threads_ok n (s\<lparr>lq := q, acc := Cleared k\<rparr>)"
proof -
  let ?s = "s\<lparr>lq := q, acc := Cleared k\<rparr>"
  have same: "view s = lq s" using assms(2) by (simp add: view_def)
  have v: "lq_ok n (settled (lq s))" using assms(1) same by (simp add: threads_ok_def)
  obtain b rest where c: "completed_queue (lq s) = (b, k) # rest" "q = set_slot k zero_request ((lq s)\<lparr>completed_queue := rest\<rparr>)"
    using assms(3) by (auto simp: pop_completed_def need_eq_Inr split: list.splits)
  have k: "k \<in> pending_slots (lq s)" "k < n" "k \<notin> snd ` set rest"
    using v c(1) pending_less [of k "lq s"] by (auto simp: lq_ok_def)
  have view: "view ?s = set_slot k invalid_request ((lq s)\<lparr>completed_queue := rest\<rparr>)"
    by (simp add: view_def c(2) set_slot_def)
  have rest: "pending_slots ((lq s)\<lparr>completed_queue := rest\<rparr>) = pending_slots (lq s)" by (simp add: pending_slots_def)
  have "lq_ok n (settled ((lq s)\<lparr>completed_queue := rest\<rparr>))"
    using v c(1) by (auto simp: lq_ok_def settled_def store_len_def pending_slots_def)
  from set_slot_ok [OF this, of k] have "lq_ok n (settled (view ?s))" unfolding view using k(3) by simp
  moreover have p: "pending_slots (view ?s) = pending_slots (lq s) - {k}" unfolding view using rest by simp
  moreover have "card (pending_slots (lq s)) > 0" using k(1) by (auto simp: card_gt_0_iff)
  moreover have "req_sd (connection_queue (view ?s) ! j) > 0" if "j \<in> pending_slots (view ?s)" for j
    using that assms(1) same unfolding p by (cases "j = k") (auto simp: view threads_ok_def)
  moreover have "req_sd (connection_queue q ! j) = - 1" if "req_sd (connection_queue (lq s) ! j) = - 1" for j
    using that k(1) by (cases "j = k") (auto simp: c(2) pending_slots_def)
  moreover have "req_sd (connection_queue q ! k) = 0"
    using pending_less [OF k(1)] by (simp add: c(2) zero_request_def)
  moreover have "cur_len q = cur_len (lq s)" by (simp add: c(2) set_slot_def)
  ultimately show ?thesis
    using assms(1,2) same k(1,2) by (auto simp: threads_ok_def acc_loaded_def card_Diff_singleton)
qed

lemma ok_free:
  assumes "threads_ok n s" and "acc s = Cleared k"
  shows "threads_ok n (s\<lparr>lq := set_slot k invalid_request (lq s), acc := Freed\<rparr>)"
proof -
  have "view (s\<lparr>lq := set_slot k invalid_request (lq s), acc := Freed\<rparr>) = view s"
    using assms(2) by (simp add: view_def)
  moreover have "req_sd ((connection_queue (lq s))[k := invalid_request] ! j) = - 1" if "req_sd (connection_queue (lq s) ! j) = - 1" for j
    using that view_queue(2) [OF assms(1)] assms by (cases "j = k") (auto simp: threads_ok_def)
  ultimately show ?thesis using assms by (auto simp: threads_ok_def acc_loaded_def)
qed

lemma ok_down_store:
  assumes "threads_ok n s" and "acc s = Down_loaded m"
  shows "threads_ok n (s\<lparr>lq := store_len (m - 1) (lq s), acc := Outside\<rparr>)"
proof -
  have "view (s\<lparr>lq := store_len (m - 1) (lq s), acc := Outside\<rparr>) = store_len (m - 1) (view s)"
    using assms(2) by (simp add: view_def)
  then show ?thesis
    using assms by (auto simp: threads_ok_def acc_loaded_def rcv_loaded_def)
qed

lemma ok_down_load:
  assumes "threads_ok n s" and "acc s = Freed" and "\<not> rcv_loaded s" and "load_positive (lq s) = Inr m"
  shows "threads_ok n (s\<lparr>acc := Down_loaded m\<rparr>)"
  using assms by (auto simp: threads_ok_def acc_loaded_def view_def load_positive_def need_eq_Inr)

lemma queue_step_ok: "queue_step True s s' \<Longrightarrow> threads_ok n s \<Longrightarrow> threads_ok n s'"
proof (induction rule: queue_step.induct)
  case (load s k)
  then show ?case by (auto simp: threads_ok_def rcv_loaded_def)
next
  case (store s k m)
  then show ?case by (auto simp: threads_ok_def rcv_loaded_def acc_loaded_def split: accepting.splits)
next
  case (undo_load s)
  then show ?case by (auto simp: threads_ok_def rcv_loaded_def)
next
  case (undo_store s m)
  then show ?case by (auto simp: threads_ok_def rcv_loaded_def acc_loaded_def split: accepting.splits)
next
  case (fill s k r q)
  then have "q = fill_slot k r (lq s)" by (simp add: fill_claimed_def need_eq_Inr)
  with fill show ?case by (simp add: ok_fill)
next
  case (down_store s m)
  then show ?case using ok_down_store by blast
qed (auto intro: ok_claim ok_no_descriptor ok_completes ok_pop ok_free ok_down_load)

lemma listening_ok: "threads_ok (unat (backlog + 1)) (listening_threads port backlog block)"
proof -
  let ?q = "queue_of_backlog port backlog block"
  have "pending_slots ?q = {}"
    using queue_of_backlog_fresh [of backlog port block] by (auto simp: fresh_queue_def pending_slots_def)
  then show ?thesis
    using fresh_queue_ok [OF queue_of_backlog_fresh, THEN settled_ok, of backlog port block] queue_of_backlog_fresh [of backlog port block]
    by (simp add: threads_ok_def listening_threads_def view_def rcv_loaded_def fresh_queue_def)
qed

interpretation listening: step_system "queue_step True"
  "\<lambda>s. \<exists>port block. s = listening_threads port backlog block" "threads_ok (unat (backlog + 1))" for backlog
  by unfold_locales (auto intro: listening_ok queue_step_ok)

section \<open>What the invariant gives\<close>

lemma pending_counted:
  assumes "threads_ok n s"
  shows "card (pending_slots (lq s)) \<le> cur_len (lq s)"
    "rcv s = Ready \<Longrightarrow> acc s = Outside \<Longrightarrow> card (pending_slots (lq s)) = cur_len (lq s)"
proof -
  have "card (pending_slots (lq s)) \<le> card (pending_slots (view s)) + acc_counted (acc s)"
  proof (cases "acc s")
    case (Cleared k)
    have "finite (pending_slots (lq s))" by (simp add: pending_slots_def)
    then have "card (pending_slots (lq s)) \<le> card (insert k (pending_slots (lq s) - {k}))"
      by (intro card_mono) auto
    also have "\<dots> \<le> Suc (card (pending_slots (lq s) - {k}))" by (rule card_insert_le_m1) simp_all
    finally show ?thesis using Cleared by (simp add: view_def)
  qed (simp_all add: view_def)
  then show "card (pending_slots (lq s)) \<le> cur_len (lq s)" using assms by (simp add: threads_ok_def)
  show "rcv s = Ready \<Longrightarrow> acc s = Outside \<Longrightarrow> card (pending_slots (lq s)) = cur_len (lq s)"
    using assms by (simp add: threads_ok_def view_def)
qed

lemma find_slot_safe:
  assumes "threads_ok n s"
  shows "if cur_len (lq s) = n then find_slot (lq s) = Inr None
    else \<exists>k < n. find_slot (lq s) = Inr (Some k) \<and> k \<notin> pending_slots (lq s)"
proof (cases "cur_len (lq s) = n")
  case True
  then show ?thesis using view_queue(1) [OF assms] by (simp add: find_slot_def)
next
  case False
  note q = view_queue [OF assms]
  have less: "cur_len (lq s) < n" using assms False by (simp add: threads_ok_def)
  have "pending_slots (lq s) \<noteq> {..<n}"
  proof
    assume "pending_slots (lq s) = {..<n}"
    then have "card (pending_slots (lq s)) = n" by simp
    then show False using pending_counted(1) [OF assms] less by linarith
  qed
  then obtain j where j: "j < n" "req_sd (connection_queue (lq s) ! j) = - 1" using q(2) by (auto simp: pending_slots_def)
  then have "connection_queue (lq s) ! j \<in> set (connection_queue (lq s))" using q(2) by simp
  with j(2) have "find_index (\<lambda>r. req_sd r < 0) 0 (connection_queue (lq s)) \<noteq> None"
    unfolding find_index_None by (intro notI) auto
  then obtain k where k: "find_index (\<lambda>r. req_sd r < 0) 0 (connection_queue (lq s)) = Some k" by blast
  then have "k < n" "req_sd (connection_queue (lq s) ! k) < 0" using find_index_Some [OF k] q(2) by simp_all
  moreover from this have "req_sd (connection_queue (lq s) ! k) \<ge> - 1" using q(2,3) by simp
  ultimately show ?thesis using False less q(1,2) k by (simp add: find_slot_def pending_slots_def)
qed

lemma pop_safe:
  assumes "threads_ok n s" and "acc s = Outside"
  shows "\<exists>r. pop_completed (lq s) = Inr r"
proof -
  have "lq_ok n (settled (lq s))" using assms by (simp add: threads_ok_def view_def)
  then show ?thesis
    by (auto simp: pop_completed_def lq_ok_def need_def settled_def store_len_def pending_slots_def split: list.split)
qed

lemma complete_safe:
  assumes "threads_ok n s" and "r \<in> set (connection_queue (lq s))"
  shows "\<exists>q. complete_request (req_sd r) (lq s) = Inr q"
proof -
  have "find_index (\<lambda>r'. req_sd r' = req_sd r) 0 (connection_queue (lq s)) \<noteq> None"
    using assms(2) by (auto simp: find_index_None)
  then show ?thesis using view_queue [OF assms(1)] by (auto simp: complete_request_def)
qed

section \<open>Runs\<close>

text \<open>The states of a queue with two slots, in the order of the steps that lead from one to the next.\<close>

definition run_state :: "connect_request \<Rightarrow> nat \<Rightarrow> (nat \<times> nat) list \<Rightarrow> receiving \<Rightarrow> accepting \<Rightarrow> listen_threads" where
  "run_state r n done a b =
     \<lparr>lq = \<lparr>local_port = 80, max_len = 2, cur_len = n, connection_queue = [r, invalid_request], queue_block = 7, completed_queue = done\<rparr>,
      rcv = a, acc = b\<rparr>"

lemma run_start: "listening_threads 80 1 7 = run_state invalid_request 0 [] Ready Outside"
proof -
  have "replicate 2 invalid_request = [invalid_request, invalid_request]" by (simp add: numeral_2_eq_2)
  then show ?thesis by (simp add: listening_threads_def queue_of_backlog_def resize_def run_state_def)
qed

lemma run_claim: "n < 2 \<Longrightarrow> queue_step b (run_state invalid_request n d Ready c) (run_state invalid_request n d (Claimed 0) c)"
  using queue_step.claim [of "run_state invalid_request n d Ready c" 0 b] by (simp add: run_state_def find_slot_def numeral_2_eq_2)

lemma run_load: "\<not> (b \<and> (\<exists>m. c = Down_loaded m)) \<Longrightarrow> queue_step b (run_state r n d (Claimed 0) c) (run_state r n d (Loaded 0 n) c)"
  using queue_step.load [of "run_state r n d (Claimed 0) c" 0 b] by (cases c) (simp_all add: run_state_def acc_loaded_def)

lemma run_store: "queue_step b (run_state r m d (Loaded 0 n) c) (run_state r (n + 1) d (Counted 0) c)"
  using queue_step.store [of "run_state r m d (Loaded 0 n) c" 0 n b] by (simp add: run_state_def store_len_def)

lemma run_fill: "sd > 0 \<Longrightarrow> queue_step b (run_state invalid_request n d (Counted 0) c) (run_state (demo_request sd) n d Ready c)"
  using queue_step.fill [of "run_state invalid_request n d (Counted 0) c" 0 "demo_request sd" _ b] by (simp add: run_state_def fill_claimed_def fill_slot_def demo_request_def)

lemma run_completes: "sd > 0 \<Longrightarrow> queue_step b (run_state (demo_request sd) n [] a c) (run_state (demo_request sd) n [(7, 0)] a c)"
  using queue_step.completes [of sd "run_state (demo_request sd) n [] a c" _ b] by (simp add: run_state_def complete_request_def completed_sds_def demo_request_def numeral_2_eq_2)

lemma run_pop: "queue_step b (run_state r n [(7, 0)] a Outside) (run_state zero_request n [] a (Cleared 0))"
  using queue_step.pop [of "run_state r n [(7, 0)] a Outside" 0 _ b] by (simp add: run_state_def pop_completed_def set_slot_def)

lemma run_free: "queue_step b (run_state r n d a (Cleared 0)) (run_state invalid_request n d a Freed)"
  using queue_step.free [of "run_state r n d a (Cleared 0)" 0 b] by (simp add: run_state_def set_slot_def)

lemma run_down_load: "n > 0 \<Longrightarrow> queue_step b (run_state r n d Ready Freed) (run_state r n d Ready (Down_loaded n))"
  using queue_step.down_load [of "run_state r n d Ready Freed" b n] by (simp add: run_state_def load_positive_def rcv_loaded_def)

lemma run_down_store: "queue_step b (run_state r m d a (Down_loaded n)) (run_state r (n - 1) d a Outside)"
  using queue_step.down_store [of "run_state r m d a (Down_loaded n)" n b] by (simp add: run_state_def store_len_def)

text \<open>A request arrives; its connection is completed and taken by the application up to the \<^verbatim>\<open>memset\<close>.\<close>

lemma run_arrive:
  assumes "reachable_from (queue_step b) s0 (run_state invalid_request n d Ready c)" and "n < 2"
    and "\<not> (b \<and> (\<exists>m. c = Down_loaded m))" and "sd > 0"
  shows "reachable_from (queue_step b) s0 (run_state (demo_request sd) (n + 1) d Ready c)"
proof -
  note 1 = reachable_from.next_state [OF assms(1) run_claim [OF assms(2)]]
  note 2 = reachable_from.next_state [OF 1 run_load [OF assms(3)]]
  note 3 = reachable_from.next_state [OF 2 run_store]
  show ?thesis by (rule reachable_from.next_state [OF 3 run_fill [OF assms(4)]])
qed

lemma run_cleared:
  assumes "reachable_from (queue_step b) s0 (run_state (demo_request sd) n [] Ready Outside)" and "sd > 0"
  shows "reachable_from (queue_step b) s0 (run_state zero_request n [] Ready (Cleared 0))"
  by (rule reachable_from.next_state [OF reachable_from.next_state [OF assms(1) run_completes [OF assms(2)]] run_pop])

lemma run_first: "reachable_from (queue_step b) (listening_threads 80 1 7) (run_state (demo_request 3) 1 [] Ready Outside)"
  using run_arrive [of b "listening_threads 80 1 7" 0 "[]" Outside 3] reachable_from.start [of "queue_step b" "listening_threads 80 1 7"]
  by (simp add: run_start)

text \<open>
  A request that arrives between the load and the store of the application: its count is lost, and the counter is 0
  when the application has taken this connection too.
\<close>

lemma run_lost: "reachable_from (queue_step False) (listening_threads 80 1 7) (run_state invalid_request 0 [] Ready Freed)"
proof -
  let ?reach = "reachable_from (queue_step False) (listening_threads 80 1 7)"
  have "?reach (run_state invalid_request 1 [] Ready Freed)"
    by (rule reachable_from.next_state [OF run_cleared [OF run_first] run_free]) simp
  then have "?reach (run_state invalid_request 1 [] Ready (Down_loaded 1))"
    by (rule reachable_from.next_state) (simp add: run_down_load)
  then have "?reach (run_state (demo_request 4) 2 [] Ready (Down_loaded 1))"
    using run_arrive [of False _ 1 "[]" "Down_loaded 1" 4] by (simp add: numeral_2_eq_2)
  then have "?reach (run_state (demo_request 4) 0 [] Ready Outside)"
    by (rule reachable_from.next_state) (use run_down_store [of False "demo_request 4" 2 "[]" Ready 1] in simp)
  then show ?thesis
    by (intro reachable_from.next_state [OF run_cleared [where sd = 4] run_free]) simp_all
qed

section \<open>Properties\<close>

text \<open>
  C24: the backlog of a listening mysocket, and what its bound rests on. Let the receiving thread, the application
  and the transport threads of the pending connections interleave in any way in which no thread changes \<^verbatim>\<open>cur_len\<close> between
  the load and the store of the other's \<^verbatim>\<open>++\<close> or \<^verbatim>\<open>--\<close>. Then in every state the occupied slots are counted and
  the count is at most backlog + 1, and exactly the number of occupied slots between the operations; a request that arrives
  finds a free slot unless the count is backlog + 1, when it is dropped; and the asserts on the slot, on the counter and on the
  request of a completed connection hold. (Pending connections have descriptors other than 0, and \<^verbatim>\<open>mylisten\<close> was called
  once.) The code does not enforce the condition, as the receiving thread does not take
  \<^verbatim>\<open>connection_lock\<close>: with the loads and stores interleaved freely, a backlog of 1 suffices for a run in which the assert
  on the counter fails in \<^verbatim>\<open>_mysock_dequeue_connection\<close>.
\<close>

theorem backlog_enforced:
  "(\<forall>s. reachable_from (queue_step True) (listening_threads port backlog block) s \<longrightarrow>
     card (pending_slots (lq s)) \<le> cur_len (lq s) \<and> cur_len (lq s) \<le> unat (backlog + 1) \<and>
     (rcv s = Ready \<and> acc s = Outside \<longrightarrow> cur_len (lq s) = card (pending_slots (lq s))) \<and>
     (if cur_len (lq s) = unat (backlog + 1) then find_slot (lq s) = Inr None
      else \<exists>k < unat (backlog + 1). find_slot (lq s) = Inr (Some k) \<and> k \<notin> pending_slots (lq s)) \<and>
     (\<forall>k r. rcv s = Counted k \<longrightarrow> fill_claimed k r (lq s) = Inr (fill_slot k r (lq s))) \<and>
     (acc s = Outside \<longrightarrow> (\<exists>r. pop_completed (lq s) = Inr r)) \<and>
     (acc s = Freed \<longrightarrow> (\<exists>n. load_positive (lq s) = Inr n)) \<and>
     (\<forall>r \<in> set (connection_queue (lq s)). \<exists>q. complete_request (req_sd r) (lq s) = Inr q)) \<and>
   (\<exists>s. reachable_from (queue_step False) (listening_threads 80 1 7) s \<and> acc s = Freed \<and> load_positive (lq s) = Inl Assert_failed)"
proof (intro conjI [rotated] allI impI)
  show "\<exists>s. reachable_from (queue_step False) (listening_threads 80 1 7) s \<and> acc s = Freed \<and> load_positive (lq s) = Inl Assert_failed"
    using run_lost by (intro exI [of _ "run_state invalid_request 0 [] Ready Freed"]) (simp add: run_state_def load_positive_def)
next
  fix s assume "reachable_from (queue_step True) (listening_threads port backlog block) s"
  from listening.reachable_inv [OF this] have ok: "threads_ok (unat (backlog + 1)) s" by blast
  show "card (pending_slots (lq s)) \<le> cur_len (lq s)"
    "rcv s = Ready \<and> acc s = Outside \<Longrightarrow> cur_len (lq s) = card (pending_slots (lq s))"
    using pending_counted [OF ok] by simp_all
  show "cur_len (lq s) \<le> unat (backlog + 1)"
    "acc s = Freed \<Longrightarrow> \<exists>n. load_positive (lq s) = Inr n"
    "\<And>k r. rcv s = Counted k \<Longrightarrow> fill_claimed k r (lq s) = Inr (fill_slot k r (lq s))"
    using ok by (simp_all add: threads_ok_def load_positive_def fill_claimed_def)
  show "if cur_len (lq s) = unat (backlog + 1) then find_slot (lq s) = Inr None
    else \<exists>k < unat (backlog + 1). find_slot (lq s) = Inr (Some k) \<and> k \<notin> pending_slots (lq s)"
    by (rule find_slot_safe [OF ok])
  show "acc s = Outside \<Longrightarrow> \<exists>r. pop_completed (lq s) = Inr r" by (rule pop_safe [OF ok])
  show "\<forall>r \<in> set (connection_queue (lq s)). \<exists>q. complete_request (req_sd r) (lq s) = Inr q"
    using complete_safe [OF ok] by blast
qed

theorem backlog_enforced_witness:
  "let s = run_state zero_request 1 [] Ready (Cleared 0) in cur_len (lq s) \<le> 2 \<and> (\<exists>k < 2. find_slot (lq s) = Inr (Some k))"
proof -
  have "reachable_from (queue_step True) (listening_threads 80 1 7) (run_state zero_request 1 [] Ready (Cleared 0))"
    by (rule run_cleared [OF run_first]) simp
  moreover have "unat (1 + 1 :: uint32) = 2" by simp
  ultimately show ?thesis
    using conjunct1 [OF backlog_enforced [of 80 1 7], rule_format, of "run_state zero_request 1 [] Ready (Cleared 0)"]
    by (simp add: run_state_def Let_def) blast
qed

text \<open>
  Between the \<^verbatim>\<open>memset\<close> of a slot and the assignment of -1 to it, the search for retransmissions sees descriptor 0 with
  an address of length 0, and its assert fails: the process ends when a SYN arrives while \<^verbatim>\<open>myaccept\<close> is at this point.
\<close>

theorem cleared_slot_seen:
  "\<exists>s. reachable_from (queue_step True) (listening_threads 80 1 7) s \<and> rcv s = Ready \<and>
     is_retransmission peer 16 (connection_queue (lq s)) = Inl Assert_failed"
  using run_cleared [OF run_first [of True]]
  by (intro exI [of _ "run_state zero_request 1 [] Ready (Cleared 0)"]) (simp add: run_state_def zero_request_def)

end
