(* ===== verification/Tcp_Sum.thy ===== *)
theory Tcp_Sum
  imports Inet_Cksum
begin

text \<open>
  The checksum of STCP segments (\<^verbatim>\<open>tcp_sum.c\<close>): the pseudo header, the loop over the 16-bit
  words that leaves out the checksum field, the two-step fold, and the setting and
  verifying of the field. The words are read as the little-endian host reads them. The
  sum is an \<^verbatim>\<open>int32_t\<close>; for packets of at most 1500 bytes (\<^verbatim>\<open>MAX_IP_PAYLOAD_LEN\<close>) it stays far
  below \<open>2 ^ 31\<close>, so the signed shift is the logical one. The address of the packet, which an
  assert inspects, is not modelled.
\<close>

section \<open>The code\<close>

definition th_sum :: nat where
  "th_sum = 16"

definition pseudo_header :: "uint32 \<Rightarrow> uint32 \<Rightarrow> nat \<Rightarrow> byte list" where
  "pseudo_header src_addr dst_addr len =
     bytes32 src_addr @ bytes32 dst_addr @ [0, 6] @ bytes16 (htons (word_of_nat len))"

text \<open>The loops; \<open>k\<close> is the index of the next word and \<open>skip\<close> the index left out, if any.\<close>

fun sum_words :: "nat option \<Rightarrow> nat \<Rightarrow> uint32 \<Rightarrow> byte list \<Rightarrow> uint32" where
  "sum_words skip k acc (a # b # packet) =
     sum_words skip (Suc k) (if skip = Some k then acc else acc + ucast (le16 [a, b])) packet"
| "sum_words skip k acc [a] = acc + ucast (le16 [a, 0])"
| "sum_words skip k acc [] = acc"

definition mysock_tcp_checksum :: "uint32 \<Rightarrow> uint32 \<Rightarrow> byte list \<Rightarrow> fault + uint16" where
  "mysock_tcp_checksum src_addr dst_addr packet =
     need (20 \<le> length packet) Assert_failed
       (need (src_addr > 0 \<and> dst_addr > 0) Assert_failed
          (let acc = sum_words None 0 0 (pseudo_header src_addr dst_addr (length packet));
               acc = sum_words (Some (th_sum div 2)) 0 acc packet;
               acc = drop_bit 16 acc + (acc AND 0xFFFF);
               acc = acc + drop_bit 16 acc
           in Inr (ucast (NOT acc))))"

definition mysock_set_checksum :: "uint32 \<Rightarrow> uint32 \<Rightarrow> byte list \<Rightarrow> fault + byte list" where
  "mysock_set_checksum local_addr peer_addr packet =
     andthen (mysock_tcp_checksum local_addr peer_addr packet) (\<lambda>s. Inr (st16 th_sum s packet))"

definition mysock_verify_checksum :: "uint32 \<Rightarrow> uint32 \<Rightarrow> byte list \<Rightarrow> fault + bool" where
  "mysock_verify_checksum local_addr peer_addr packet =
     andthen (mysock_tcp_checksum peer_addr local_addr packet) (\<lambda>my_sum. Inr (my_sum = ld16 th_sum packet))"

section \<open>The sum\<close>

fun le_sum :: "nat option \<Rightarrow> nat \<Rightarrow> byte list \<Rightarrow> nat" where
  "le_sum skip k (a # b # p) = (if skip = Some k then 0 else unat a + 256 * unat b) + le_sum skip (Suc k) p"
| "le_sum skip k [a] = unat a"
| "le_sum skip k [] = 0"

lemma le_sum_bound: "le_sum skip k p \<le> 65535 * ((length p + 1) div 2)"
proof (induction skip k p rule: le_sum.induct)
  case (1 skip k a b p)
  then show ?case using unat_lt_256 [of a] unat_lt_256 [of b] by auto
next
  case (2 skip k a)
  then show ?case using unat_lt_256 [of a] by simp
qed simp

lemma unat_ucast16: "unat (ucast (w :: uint16) :: uint32) = unat w"
proof -
  have "unat w < 2 ^ 32" using unat_lt_65536 [of w] by simp
  then show ?thesis by (simp add: unsigned_ucast_eq take_bit_eq_mod)
qed

lemma unat_sum_words:
  "unat acc + le_sum skip k p < 4294967296 \<Longrightarrow> unat (sum_words skip k acc p) = unat acc + le_sum skip k p"
proof (induction skip k acc p rule: sum_words.induct)
  case (1 skip k acc a b p)
  show ?case
  proof (cases "skip = Some k")
    case False
    have "unat (acc + ucast (le16 [a, b])) = unat acc + (unat a + 256 * unat b)"
      using "1.prems" False by (simp add: unat_add_no_wrap unat_ucast16 unat_le16)
    with 1 False show ?thesis by simp
  qed (use 1 in simp)
next
  case (2 skip k acc a)
  then show ?case by (simp add: unat_add_no_wrap unat_ucast16 unat_le16)
qed simp

lemma unat_not_mod: "unat (ucast (NOT s) :: uint16) = 65535 - unat (s :: uint32) mod 65536"
proof -
  have "ucast (NOT s) = (NOT (ucast s) :: uint16)"
    by (rule bit_word_eqI) (auto simp: bit_simps)
  moreover have "unat (ucast s :: uint16) = unat s mod 65536"
    by (simp add: unsigned_ucast_eq take_bit_eq_mod)
  ultimately show ?thesis
    by (simp add: unat_sub not_eq_complement minus_diff_commute word_order.extremum
        unsigned_minus_1_eq_mask mask_eq_exp_minus_1)
qed

lemma oc_fold_step_le: "oc_fold (n div 65536 + n mod 65536) = oc_fold n"
  by (cases "n > 65535") (simp_all add: oc_fold_step)

text \<open>The two-step fold of a sum below \<open>2 ^ 31\<close>, and the complement.\<close>

lemma two_step_nat:
  assumes "S < 2147483648"
  defines "n \<equiv> S div 65536 + S mod 65536"
  shows "(n + n div 65536) mod 65536 = oc_fold S" and "n + n div 65536 < 4294967296"
proof -
  have "S div 65536 < 32768" using assms(1) by (simp add: less_mult_imp_div_less)
  moreover have "S mod 65536 < 65536" by simp
  ultimately have n: "n < 98304" by (simp add: n_def)
  have fold: "oc_fold S = oc_fold n" unfolding n_def by (rule oc_fold_step_le [symmetric])
  show "(n + n div 65536) mod 65536 = oc_fold S"
  proof (cases "n < 65536")
    case True
    then show ?thesis using fold by (simp add: oc_fold_small)
  next
    case False
    then obtain r where r: "n = 65536 + r" by (metis le_Suc_ex not_less)
    with n have "n div 65536 = 1" "n mod 65536 = r" "r < 32768" by simp_all
    moreover have "oc_fold n = oc_fold (1 + r)"
      using oc_fold_step_le [of n] calculation by simp
    moreover have "(65536 + Suc r) mod 65536 = Suc r mod 65536" by (rule mod_add_self1)
    moreover have "65536 + r + 1 = 65536 + Suc r" by simp
    ultimately show ?thesis using fold r by (simp add: oc_fold_small)
  qed
  have "n div 65536 \<le> n" by simp
  with n show "n + n div 65536 < 4294967296" by linarith
qed

lemma two_step_fold:
  fixes s :: uint32
  assumes "unat s < 2147483648"
  defines "s1 \<equiv> drop_bit 16 s + (s AND 0xFFFF)"
  shows "unat (ucast (NOT (s1 + drop_bit 16 s1)) :: uint16) = 65535 - oc_fold (unat s)"
proof -
  have s1: "unat s1 = unat s div 65536 + unat s mod 65536"
    unfolding s1_def by (rule unat_fold_step)
  have "unat (drop_bit 16 s1) = unat s1 div 65536"
    by (simp only: unat_drop_bit_eq) (simp add: drop_bit_eq_div)
  then have "unat (s1 + drop_bit 16 s1) = unat s1 + unat s1 div 65536"
    using two_step_nat(2) [OF assms(1)] s1 by (simp add: unat_add_no_wrap)
  then show ?thesis
    using two_step_nat(1) [OF assms(1)] s1 by (simp only: unat_not_mod)
qed

definition segment_sum :: "uint32 \<Rightarrow> uint32 \<Rightarrow> byte list \<Rightarrow> nat" where
  "segment_sum src dst p = le_sum None 0 (pseudo_header src dst (length p)) + le_sum (Some 8) 0 p"

lemma length_pseudo_header [simp]: "length (pseudo_header s d n) = 12"
  by (simp add: pseudo_header_def)

lemma segment_sum_less: "length p \<le> 1500 \<Longrightarrow> segment_sum s d p < 2147483648"
proof -
  assume "length p \<le> 1500"
  then have "(length p + 1) div 2 \<le> 750" by linarith
  then have "le_sum (Some 8) 0 p \<le> 65535 * 750"
    using le_sum_bound [of "Some 8" 0 p] by (meson le_trans mult_le_mono2)
  moreover have "le_sum None 0 (pseudo_header s d (length p)) \<le> 65535 * 6"
    using le_sum_bound [of None 0 "pseudo_header s d (length p)"] by simp
  ultimately show ?thesis unfolding segment_sum_def by linarith
qed

lemma checksum_value:
  assumes "20 \<le> length p" and "length p \<le> 1500" and "s > 0" and "d > 0"
  shows "\<exists>c. mysock_tcp_checksum s d p = Inr c \<and> unat c = 65535 - oc_fold (segment_sum s d p)"
proof -
  let ?acc = "sum_words None 0 0 (pseudo_header s d (length p))"
  have "unat ?acc = le_sum None 0 (pseudo_header s d (length p))"
    using segment_sum_less [OF assms(2), of s d] by (subst unat_sum_words) (simp_all add: segment_sum_def)
  then have "unat (sum_words (Some 8) 0 ?acc p) = segment_sum s d p"
    using segment_sum_less [OF assms(2), of s d] by (subst unat_sum_words) (simp_all add: segment_sum_def)
  then show ?thesis
    using assms two_step_fold [of "sum_words (Some 8) 0 ?acc p"] segment_sum_less [OF assms(2), of s d]
    by (simp add: mysock_tcp_checksum_def Let_def th_sum_def)
qed

section \<open>Setting the field\<close>

lemma le_sum_append:
  "even (length p) \<Longrightarrow> le_sum skip k (p @ q) = le_sum skip k p + le_sum skip (k + length p div 2) q"
  by (induction skip k p rule: le_sum.induct) auto

lemma le_sum_None: "le_sum None k p = le_sum None 0 p"
proof (induction p arbitrary: k rule: be_sum.induct)
  case (1 a b p)
  show ?case using "1.IH" [of "Suc k"] "1.IH" [of "Suc 0"] by simp
qed simp_all

lemma le_sum_beyond: "j < k \<Longrightarrow> le_sum (Some j) k p = le_sum None k p"
  by (induction p arbitrary: k rule: be_sum.induct) auto

lemma le_sum_before: "k + length p div 2 \<le> j \<Longrightarrow> le_sum (Some j) k p = le_sum None k p"
  by (induction p arbitrary: k rule: be_sum.induct) auto

text \<open>A packet is what precedes the checksum field, the field and the rest.\<close>

lemma le_sum_parts:
  assumes "20 \<le> length p"
  shows "le_sum (Some 8) 0 p = le_sum None 0 (take 16 p) + le_sum None 0 (drop 18 p)"
    and "le_sum None 0 p = le_sum (Some 8) 0 p + unat (ld16 16 p)"
proof -
  have "length (rd 16 2 p) = 2" using assms by simp
  then obtain x y where xy: "rd 16 2 p = [x, y]"
    by (cases "rd 16 2 p"; cases "tl (rd 16 2 p)") (auto simp del: length_rd)
  have p: "p = take 16 p @ [x, y] @ drop 18 p"
    using append_take_drop_id [of 16 p] append_take_drop_id [of 2 "drop 16 p"] xy
    by (simp add: rd_def)
  have t: "length (take 16 p) = 16" using assms by simp
  have "le_sum (Some 8) 0 (take 16 p @ [x, y] @ drop 18 p) =
      le_sum None 0 (take 16 p) + le_sum None 0 (drop 18 p)"
    using t le_sum_None [of 9 "drop 18 p"]
    by (subst le_sum_append) (simp_all add: le_sum_before le_sum_beyond)
  then show field: "le_sum (Some 8) 0 p = le_sum None 0 (take 16 p) + le_sum None 0 (drop 18 p)"
    using p by simp
  have "le_sum None 0 (take 16 p @ [x, y] @ drop 18 p) =
      le_sum None 0 (take 16 p) + (unat x + 256 * unat y + le_sum None 0 (drop 18 p))"
    using t le_sum_None [of 9 "drop 18 p"] by (subst le_sum_append) simp_all
  then show "le_sum None 0 p = le_sum (Some 8) 0 p + unat (ld16 16 p)"
    using p field xy by (simp add: unat_le16)
qed

lemma le_sum_field:
  "20 \<le> length p \<Longrightarrow> le_sum (Some 8) 0 (upd 16 (bytes16 w) p) = le_sum (Some 8) 0 p"
  by (simp add: le_sum_parts(1) upd_def)

lemma segment_sum_field: "20 \<le> length p \<Longrightarrow> segment_sum s d (upd 16 (bytes16 w) p) = segment_sum s d p"
  by (simp add: segment_sum_def le_sum_field)

text \<open>The host order sum is the network order sum up to the factor 256.\<close>

lemma le_be_sum: "(256 * le_sum None k p) mod 65535 = be_sum p mod 65535"
proof -
  have "\<exists>c. 256 * le_sum None k p = be_sum p + 65535 * c"
  proof (induction p arbitrary: k rule: be_sum.induct)
    case (1 a b p)
    then obtain c where "256 * le_sum None (Suc k) p = be_sum p + 65535 * c" by blast
    then have "256 * le_sum None k (a # b # p) = be_sum (a # b # p) + 65535 * (c + unat b)" by simp
    then show ?case by blast
  qed simp_all
  then show ?thesis by (metis mod_mult_self2)
qed

lemma complement_sum: "(n + (65535 - oc_fold n)) mod 65535 = 0"
proof (cases n)
  case (Suc m)
  define r q where "r = m mod 65535" and "q = m div 65535"
  then have "m = q * 65535 + r" and "r < 65535" by simp_all
  then have "n + (65535 - oc_fold n) = 65535 * (q + 1)"
    using Suc by (simp add: oc_fold_def r_def [symmetric])
  then show ?thesis by (metis mod_mult_self1_is_0)
qed (simp add: oc_fold_def)

lemma mod_zero_scaled: "(m :: nat) mod k = 0 \<Longrightarrow> (c * m) mod k = n mod k \<Longrightarrow> n mod k = 0"
  by (metis mod_mult_right_eq mult_0_right mod_0)

text \<open>The effect of one byte.\<close>

lemma le_sum_byte:
  "i < length p \<Longrightarrow> skip \<noteq> Some (k + i div 2) \<Longrightarrow>
    le_sum skip k (p[i := b]) + (if even i then 1 else 256) * unat (p ! i) =
    le_sum skip k p + (if even i then 1 else 256) * unat b"
proof (induction p arbitrary: i k rule: be_sum.induct)
  case (1 x y data)
  consider "i = 0" | "i = 1" | j where "i = Suc (Suc j)"
    by (metis One_nat_def not0_implies_Suc)
  then show ?case
  proof cases
    case 3
    then show ?thesis using "1.IH" [of j "Suc k"] "1.prems" by simp
  qed (use "1.prems" in simp_all)
qed simp_all

lemma set_checksum_eq:
  assumes "20 \<le> length p" and "length p \<le> 1500" and "s > 0" and "d > 0"
  obtains c where "mysock_set_checksum s d p = Inr (st16 16 c p)"
    and "unat c = 65535 - oc_fold (segment_sum s d p)"
  using checksum_value [OF assms] by (auto simp: mysock_set_checksum_def andthen_def th_sum_def)

lemma verify_eq:
  assumes "20 \<le> length p" and "length p \<le> 1500" and "s > 0" and "d > 0"
  shows "mysock_verify_checksum d s p = Inr (unat (ld16 16 p) = 65535 - oc_fold (segment_sum s d p))"
  using checksum_value [OF assms]
  by (auto simp: mysock_verify_checksum_def andthen_def th_sum_def) (metis unsigned_word_eqI)

lemma nth_ld16:
  "off + 2 \<le> length p \<Longrightarrow> unat (ld16 off p) = unat (p ! off) + 256 * unat (p ! Suc off)"
proof -
  assume "off + 2 \<le> length p"
  then have "rd off 2 p = [p ! off, p ! Suc off]"
    by (simp add: rd_def Cons_nth_drop_Suc [symmetric] numeral_2_eq_2)
  then show ?thesis by (simp add: unat_le16)
qed

lemma set_checksum_verifies:
  assumes "20 \<le> length p" and "length p \<le> 1500" and "la > 0" and "pa > 0"
  shows "\<exists>c. mysock_set_checksum la pa p = Inr (st16 16 c p) \<and> mysock_verify_checksum pa la (st16 16 c p) = Inr True"
proof -
  obtain c where set: "mysock_set_checksum la pa p = Inr (st16 16 c p)"
    and c: "unat c = 65535 - oc_fold (segment_sum la pa p)"
    using set_checksum_eq [OF assms] by metis
  have "ld16 16 (st16 16 c p) = c" using assms(1) by (simp add: buffer_simps)
  then have "mysock_verify_checksum pa la (st16 16 c p) = Inr True"
    using verify_eq [of "st16 16 c p" la pa] assms c segment_sum_field [OF assms(1)] by simp
  with set show ?thesis by blast
qed

section \<open>Properties\<close>

text \<open>
  C23: for every segment of at most 1500 bytes, setting the checksum on one side and
  verifying on the other (whose local and peer address are exchanged) succeeds; the pseudo
  header followed by the segment then has a one's-complement sum of zero in the sense of
  RFC 1071 (big-endian words, although the host sums little-endian ones); no byte outside
  the field is touched.
\<close>

theorem checksum_roundtrip:
  assumes "20 \<le> length p" and "length p \<le> 1500" and "la > 0" and "pa > 0"
  shows "\<exists>p'. mysock_set_checksum la pa p = Inr p' \<and>
     mysock_verify_checksum pa la p' = Inr True \<and>
     be_sum (pseudo_header la pa (length p) @ p') mod 65535 = 0 \<and>
     take 16 p' = take 16 p \<and> drop 18 p' = drop 18 p"
proof -
  obtain c where set: "mysock_set_checksum la pa p = Inr (st16 16 c p)"
    and c: "unat c = 65535 - oc_fold (segment_sum la pa p)"
    using set_checksum_eq [OF assms] by metis
  let ?p = "st16 16 c p" and ?h = "pseudo_header la pa (length p)"
  have field: "ld16 16 ?p = c" using assms(1) by (simp add: buffer_simps)
  have "le_sum None 0 (?h @ ?p) = segment_sum la pa ?p + unat c"
    using assms(1) field le_sum_None [of 6 ?p]
    by (simp add: le_sum_append le_sum_parts(2) segment_sum_def)
  then have "le_sum None 0 (?h @ ?p) mod 65535 = 0"
    using complement_sum [of "segment_sum la pa p"] c assms(1) by (simp only: segment_sum_field)
  then have "be_sum (?h @ ?p) mod 65535 = 0"
    using le_be_sum [of 0 "?h @ ?p"] by (rule mod_zero_scaled)
  moreover have "mysock_verify_checksum pa la ?p = Inr True"
    using set_checksum_verifies [OF assms] set by auto
  moreover have "take 16 ?p = take 16 p" "drop 18 ?p = drop 18 p"
    using assms(1) by (simp_all add: upd_def)
  ultimately show ?thesis by (intro exI [of _ ?p] conjI set)
qed

definition demo_segment :: "byte list" where
  "demo_segment = [0, 80, 4, 0, 0, 0, 0, 1, 0, 0, 0, 0, 0x50, 2, 12, 0, 0, 0, 0, 0, 72, 105, 33]"

theorem checksum_roundtrip_witness:
  "\<exists>p'. mysock_set_checksum 0x0100007F 0x0200007F demo_segment = Inr p' \<and>
     mysock_verify_checksum 0x0200007F 0x0100007F p' = Inr True"
  using checksum_roundtrip [of demo_segment "0x0100007F" "0x0200007F"] by (auto simp: demo_segment_def)

text \<open>
  C30: a segment that verifies and of which any one byte is then changed, in the header, the
  checksum field or the payload, no longer verifies.
\<close>

theorem corruption_detected:
  assumes "20 \<le> length p" and "length p \<le> 1500" and "la > 0" and "pa > 0"
    and "mysock_verify_checksum la pa p = Inr True" and "i < length p" and "b \<noteq> p ! i"
  shows "mysock_verify_checksum la pa (p[i := b]) = Inr False"
proof -
  have old: "unat (ld16 16 p) = 65535 - oc_fold (segment_sum pa la p)"
    using assms verify_eq [of p pa la] by simp
  have new: "mysock_verify_checksum la pa (p[i := b]) =
      Inr (unat (ld16 16 (p[i := b])) = 65535 - oc_fold (segment_sum pa la (p[i := b])))"
    using assms by (subst verify_eq) simp_all
  have ub: "unat b \<noteq> unat (p ! i)" using assms(7) by (metis unsigned_word_eqI)
  show ?thesis
  proof (cases "i = 16 \<or> i = 17")
    case True
    then have "take 16 (p[i := b]) = take 16 p" "drop 18 (p[i := b]) = drop 18 p" by auto
    then have "segment_sum pa la (p[i := b]) = segment_sum pa la p"
      using assms(1) by (simp add: segment_sum_def le_sum_parts(1))
    moreover have "unat (ld16 16 (p[i := b])) \<noteq> unat (ld16 16 p)"
      using True ub assms(1,6) by (auto simp: nth_ld16)
    ultimately show ?thesis using old new by simp
  next
    case False
    then have "i div 2 \<noteq> 8" by auto
    then have "segment_sum pa la (p[i := b]) + (if even i then 1 else 256) * unat (p ! i) =
        segment_sum pa la p + (if even i then 1 else 256) * unat b"
      using le_sum_byte [of i p "Some 8" 0 b] assms(6) by (simp add: segment_sum_def)
    from mod_65535_cancel [OF this] ub
    have "oc_fold (segment_sum pa la (p[i := b])) \<noteq> oc_fold (segment_sum pa la p)"
      by (auto simp: oc_fold_eq_iff unat_lt_256)
    moreover have "unat (ld16 16 (p[i := b])) = unat (ld16 16 p)"
      using False assms(1) by (simp add: nth_ld16)
    ultimately show ?thesis
      using old new oc_fold_le [of "segment_sum pa la (p[i := b])"]
        oc_fold_le [of "segment_sum pa la p"] by auto
  qed
qed

theorem corruption_detected_witness:
  "mysock_verify_checksum 0x0200007F 0x0100007F (demo_segment[16 := 56, 17 := 34, 21 := 104]) = Inr False"
proof -
  have "mysock_verify_checksum 0x0200007F 0x0100007F (demo_segment[16 := 56, 17 := 34]) = Inr True"
    by code_simp
  then show ?thesis
    using corruption_detected [of "demo_segment[16 := 56, 17 := 34]" "0x0200007F" "0x0100007F" 21 104]
    by (simp add: demo_segment_def)
qed

end
