(* ===== verification/Stcp_Api.thy ===== *)
theory Stcp_Api
  imports Connection_Demux Tcp_Sum
begin

text \<open>
  The interface of the transport layer to its mysocket (\<^verbatim>\<open>stcp_api.c\<close>, with \<^verbatim>\<open>network.c\<close> below it).
  The calls of the transport thread act on the context of its own descriptor, which is
  therefore an argument and a result here; only unblocking the application goes through the
  descriptor table.

  \<open>if_ip\<close> is the address of the host. Looking it up clears \<^verbatim>\<open>errno\<close>, so sending and receiving
  return the \<^verbatim>\<open>errno\<close> they leave behind. A receive from an empty queue blocks (\<open>None\<close>).
\<close>

section \<open>Waiting\<close>

definition APP_DATA :: uint32 where "APP_DATA = 1"
definition NETWORK_DATA :: uint32 where "NETWORK_DATA = 2"
definition APP_CLOSE_REQUESTED :: uint32 where "APP_CLOSE_REQUESTED = 4"
definition ANY_EVENT :: uint32 where "ANY_EVENT = 7"

text \<open>
  \<^verbatim>\<open>stcp_wait_for_event\<close>: \<open>expires\<close> says that a deadline was given and passes before anything happens.
\<close>

definition stcp_wait_for_event :: "uint32 \<Rightarrow> bool \<Rightarrow> mysock_context \<Rightarrow> (uint32 \<times> mysock_context) option" where
  "stcp_wait_for_event flags expires ctx =
     (let rc = 0;
          rc = (if flags AND APP_DATA \<noteq> 0 \<and> app_recv_queue ctx \<noteq> [] then rc OR APP_DATA else rc);
          rc = (if flags AND NETWORK_DATA \<noteq> 0 \<and> network_recv_queue ctx \<noteq> [] then rc OR NETWORK_DATA else rc);
          close = (close_requested ctx \<and> app_recv_queue ctx = []);
          rc = (if close then rc OR APP_CLOSE_REQUESTED else rc);
          ctx = (if close then ctx\<lparr>close_requested := False\<rparr> else ctx)
      in if rc \<noteq> 0 then Some (rc, ctx)
         else if expires then Some (0, ctx)
         else None)"

section \<open>The network\<close>

definition network_recv :: "mysock_context \<Rightarrow> nat \<Rightarrow> (byte list \<times> nat \<times> mysock_context) option" where
  "network_recv ctx maxlen =
     map_option (\<lambda>(bs, len, q). (bs, len, ctx\<lparr>network_recv_queue := q\<rparr>))
       (dequeue (network_recv_queue ctx) maxlen False)"

text \<open>
  The addresses of the checksum, with the asserts of \<^verbatim>\<open>_mysock_set_checksum\<close>,
  \<^verbatim>\<open>_mysock_verify_checksum\<close> and \<^verbatim>\<open>_network_get_local_addr\<close>.
\<close>

definition checksum_addrs :: "uint32 \<Rightarrow> mysock_context \<Rightarrow> fault + uint32 \<times> uint32" where
  "checksum_addrs if_ip ctx =
     need (sa_family (peer_addr (network_state ctx)) = AF_INET) Assert_failed
       (andthen (network_get_local_addr if_ip (network_state ctx)) (\<lambda>local_ip.
          Inr (local_ip, sin_addr (peer_addr (network_state ctx)))))"

text \<open>\<^verbatim>\<open>stcp_network_recv\<close> into the buffer \<open>dst\<close>: the length, the buffer, \<^verbatim>\<open>errno\<close> and the context.\<close>

definition stcp_network_recv ::
  "uint32 \<Rightarrow> mysock_context \<Rightarrow> int \<Rightarrow> byte list \<Rightarrow> fault + (nat \<times> byte list \<times> int \<times> mysock_context) option" where
  "stcp_network_recv if_ip ctx err dst =
     (case network_recv ctx (length dst) of
        None \<Rightarrow> Inr None
      | Some (bs, len, ctx) \<Rightarrow>
          let dst = upd 0 bs dst
          in if len = 0 then Inr (Some (len, dst, err, ctx))
             else
               need (len \<ge> 20) Assert_failed
                 (andthen (checksum_addrs if_ip ctx) (\<lambda>(local_ip, peer_ip).
                    need (len \<le> length dst) Out_of_bounds
                      (andthen (mysock_verify_checksum local_ip peer_ip (take len dst)) (\<lambda>ok.
                         need ok Assert_failed (Inr (Some (len, dst, 0, ctx))))))))"

fun append_bufs :: "byte list \<Rightarrow> byte list list \<Rightarrow> fault + byte list" where
  "append_bufs packet [] = Inr packet"
| "append_bufs packet (b # bs) =
     need (length packet + length b \<le> MAX_IP_PAYLOAD_LEN) Assert_failed (append_bufs (packet @ b) bs)"

text \<open>The header fields the interface fills in.\<close>

definition seal_packet :: "uint32 \<Rightarrow> mysock_context \<Rightarrow> byte list \<Rightarrow> fault + byte list" where
  "seal_packet if_ip ctx packet =
     need (length packet \<ge> 20) Assert_failed
       (andthen (network_get_port (network_state ctx)) (\<lambda>port.
          let packet = st16 0 port packet
          in need (sa_family (peer_addr (network_state ctx)) = AF_INET) Assert_failed
            (let dport = sin_port (peer_addr (network_state ctx)); packet = st16 2 dport packet
             in need (dport > 0) Assert_failed
               (let packet = st16 18 0 (st16 16 0 packet)
                in andthen (checksum_addrs if_ip ctx) (\<lambda>(local_ip, peer_ip).
                     mysock_set_checksum local_ip peer_ip packet)))))"

text \<open>\<^verbatim>\<open>stcp_network_send\<close>: the return value, \<^verbatim>\<open>errno\<close> and the context.\<close>

definition sock_errno :: "network_context \<Rightarrow> int" where
  "sock_errno net = (case impl_data net of None \<Rightarrow> 0 | Some io \<Rightarrow>
     (case socket io of None \<Rightarrow> 0 | Some s \<Rightarrow> so_errno s))"

definition stcp_network_send ::
  "uint32 \<Rightarrow> mysock_context \<Rightarrow> byte list \<Rightarrow> byte list list \<Rightarrow> fault + (int \<times> int \<times> mysock_context) option" where
  "stcp_network_send if_ip ctx src bufs =
     need (length src \<le> MAX_IP_PAYLOAD_LEN) Assert_failed
       (andthen (append_bufs src bufs) (\<lambda>packet.
          andthen (seal_packet if_ip ctx packet) (\<lambda>packet.
            bindw (network_send_packet (network_state ctx) packet) (\<lambda>(rc, net).
              Inr (Some (rc, if rc < 0 then sock_errno net else 0, ctx\<lparr>network_state := net\<rparr>))))))"

section \<open>The application\<close>

definition stcp_app_recv :: "mysock_context \<Rightarrow> nat \<Rightarrow> (byte list \<times> nat \<times> mysock_context) option" where
  "stcp_app_recv ctx maxlen =
     map_option (\<lambda>(bs, len, q). (bs, len, ctx\<lparr>app_recv_queue := q\<rparr>))
       (dequeue (app_recv_queue ctx) maxlen True)"

definition stcp_app_send :: "mysock_context \<Rightarrow> byte list \<Rightarrow> mysock_context" where
  "stcp_app_send ctx src =
     (if length src > 0 then ctx\<lparr>app_send_queue := enqueue (app_send_queue ctx) src\<rparr> else ctx)"

definition stcp_fin_received :: "mysock_context \<Rightarrow> mysock_context" where
  "stcp_fin_received ctx = ctx\<lparr>app_send_queue := enqueue (app_send_queue ctx) []\<rparr>"

definition stcp_unblock_application :: "int \<Rightarrow> int \<Rightarrow> demux \<Rightarrow> fault + demux" where
  "stcp_unblock_application sd err w =
     andthen (get_context sd w) (\<lambda>(c, ctx).
       need (blocking ctx) Assert_failed
         (let ctx = ctx\<lparr>blocking := False, stcp_errno := (if err = EINTR then 0 else err)\<rparr>;
              w = put_context c ctx w
          in if \<not> is_active ctx then passive_connection_complete c w else Inr w))"

section \<open>Sending on an established connection\<close>

definition peer_ip :: "mysock_context \<Rightarrow> uint32" where
  "peer_ip ctx = sin_addr (peer_addr (network_state ctx))"

definition peer_port :: "mysock_context \<Rightarrow> uint16" where
  "peer_port ctx = sin_port (peer_addr (network_state ctx))"

definition stcp_ready :: "uint32 \<Rightarrow> mysock_context \<Rightarrow> conn_sock \<Rightarrow> bool" where
  "stcp_ready if_ip ctx s \<longleftrightarrow> open_conn (network_state ctx) s \<and> writable s \<and>
     sa_family (peer_addr (network_state ctx)) = AF_INET \<and> peer_addr_valid (network_state ctx) \<and>
     peer_port ctx > 0 \<and> peer_ip ctx > 0 \<and> if_ip > 0"

text \<open>The same without a promise about the coming writes.\<close>

definition stcp_addr :: "uint32 \<Rightarrow> mysock_context \<Rightarrow> conn_sock \<Rightarrow> bool" where
  "stcp_addr if_ip ctx s \<longleftrightarrow> open_conn (network_state ctx) s \<and>
     sa_family (peer_addr (network_state ctx)) = AF_INET \<and> peer_addr_valid (network_state ctx) \<and>
     peer_port ctx > 0 \<and> peer_ip ctx > 0 \<and> if_ip > 0"

lemma stcp_ready_addr: "stcp_ready if_ip ctx s \<Longrightarrow> stcp_addr if_ip ctx s"
  by (simp add: stcp_ready_def stcp_addr_def)

text \<open>The context after a packet has been written to its socket.\<close>

definition sent :: "mysock_context \<Rightarrow> conn_sock \<Rightarrow> mysock_context" where
  "sent ctx s = ctx\<lparr>network_state := set_socket (network_state ctx) s\<rparr>"

lemma sent_simps [simp]:
  "network_recv_queue (sent ctx s) = network_recv_queue ctx" "app_send_queue (sent ctx s) = app_send_queue ctx"
  "app_recv_queue (sent ctx s) = app_recv_queue ctx" "close_requested (sent ctx s) = close_requested ctx"
  "peer_ip (sent ctx s) = peer_ip ctx" "peer_port (sent ctx s) = peer_port ctx"
  by (simp_all add: sent_def set_socket_def peer_ip_def peer_port_def)

lemma set_socket_twice [simp]: "set_socket (set_socket net s) t = set_socket net t"
  by (cases "impl_data net") (simp_all add: set_socket_def)

lemma sent_twice [simp]: "sent (sent ctx s) t = sent ctx t"
  by (simp add: sent_def)

lemma stcp_ready_sent: "stcp_ready if_ip ctx s \<Longrightarrow> writable t \<Longrightarrow> stcp_ready if_ip (sent ctx t) t"
  by (auto simp: stcp_ready_def sent_def peer_ip_def peer_port_def open_conn_def set_socket_def)

lemma stcp_ready_queues:
  "stcp_ready if_ip (ctx\<lparr>network_recv_queue := q\<rparr>) s = stcp_ready if_ip ctx s"
  "stcp_ready if_ip (ctx\<lparr>app_recv_queue := q\<rparr>) s = stcp_ready if_ip ctx s"
  "stcp_ready if_ip (ctx\<lparr>app_send_queue := q\<rparr>) s = stcp_ready if_ip ctx s"
  "stcp_ready if_ip (ctx\<lparr>close_requested := b\<rparr>) s = stcp_ready if_ip ctx s"
  by (simp_all add: stcp_ready_def peer_ip_def peer_port_def)

lemma checksum_addrs_ready: "stcp_addr if_ip ctx s \<Longrightarrow> checksum_addrs if_ip ctx = Inr (if_ip, peer_ip ctx)"
  by (auto simp: stcp_addr_def checksum_addrs_def network_get_local_addr_def open_conn_def peer_ip_def)

lemma append_bufs_eq:
  "length p + length (concat bufs) \<le> MAX_IP_PAYLOAD_LEN \<Longrightarrow> append_bufs p bufs = Inr (p @ concat bufs)"
  by (induction p bufs rule: append_bufs.induct) (auto simp: need_def)

text \<open>What the interface adds to a packet: the ports and a checksum that verifies at the peer.\<close>

definition sealed :: "uint32 \<Rightarrow> mysock_context \<Rightarrow> conn_sock \<Rightarrow> byte list \<Rightarrow> byte list \<Rightarrow> bool" where
  "sealed if_ip ctx s packet p \<longleftrightarrow> length p = length packet \<and> rd 4 12 p = rd 4 12 packet \<and>
     drop 20 p = drop 20 packet \<and> ld16 0 p = sock_port s \<and> ld16 2 p = peer_port ctx \<and>
     mysock_verify_checksum (peer_ip ctx) if_ip p = Inr True"

lemma drop_upd_header: "off + length bs \<le> n \<Longrightarrow> drop n (upd off bs p) = drop n p"
  by (auto simp: upd_def min_def)

lemma seal_packet_ready:
  assumes "stcp_addr if_ip ctx s" and "20 \<le> length packet" and "length packet \<le> 1500"
  shows "\<exists>p. seal_packet if_ip ctx packet = Inr p \<and> sealed if_ip ctx s packet p"
proof -
  let ?p = "st16 18 0 (st16 16 0 (st16 2 (peer_port ctx) (st16 0 (sock_port s) packet)))"
  have port: "network_get_port (network_state ctx) = Inr (sock_port s)"
    using assms(1) by (auto simp: stcp_addr_def open_conn_def network_get_port_def with_socket_def)
  obtain c where set: "mysock_set_checksum if_ip (peer_ip ctx) ?p = Inr (st16 16 c ?p)"
    and v: "mysock_verify_checksum (peer_ip ctx) if_ip (st16 16 c ?p) = Inr True"
    using set_checksum_verifies [of ?p if_ip "peer_ip ctx"] assms by (auto simp: stcp_addr_def)
  have "seal_packet if_ip ctx packet = Inr (st16 16 c ?p)"
    using assms set port checksum_addrs_ready [OF assms(1)]
    by (simp add: seal_packet_def Let_def stcp_addr_def peer_port_def)
  moreover have "sealed if_ip ctx s packet (st16 16 c ?p)"
    using assms(2) v by (simp add: sealed_def buffer_simps drop_upd_header)
  ultimately show ?thesis by blast
qed

lemma send_ready:
  assumes "stcp_ready if_ip ctx s" and "20 \<le> length (hdr @ concat bufs)" and "length (hdr @ concat bufs) \<le> 1500"
  shows "\<exists>p es. stcp_network_send if_ip ctx hdr bufs =
      Inr (Some (int (length (hdr @ concat bufs)), 0, sent ctx (s\<lparr>tx := tx s @ dgram p, tx_events := es\<rparr>))) \<and>
    sealed if_ip ctx s (hdr @ concat bufs) p \<and>
    stcp_ready if_ip (sent ctx (s\<lparr>tx := tx s @ dgram p, tx_events := es\<rparr>)) (s\<lparr>tx := tx s @ dgram p, tx_events := es\<rparr>)"
proof -
  obtain p where p: "seal_packet if_ip ctx (hdr @ concat bufs) = Inr p" "sealed if_ip ctx s (hdr @ concat bufs) p"
    using seal_packet_ready [OF stcp_ready_addr [OF assms(1)] assms(2,3)] by blast
  have "open_conn (network_state ctx) s" "writable s" using assms(1) by (simp_all add: stcp_ready_def)
  then obtain es where net: "network_send_packet (network_state ctx) p =
      Inr (Some (int (length p), set_socket (network_state ctx) (s\<lparr>tx := tx s @ dgram p, tx_events := es\<rparr>)))"
    and w: "writable (s\<lparr>tx := tx s @ dgram p, tx_events := es\<rparr>)"
    using send_packet_open by blast
  have "length p = length (hdr @ concat bufs)" using p(2) by (simp only: sealed_def)
  then have "stcp_network_send if_ip ctx hdr bufs =
      Inr (Some (int (length (hdr @ concat bufs)), 0, sent ctx (s\<lparr>tx := tx s @ dgram p, tx_events := es\<rparr>)))"
    using assms(3) p(1) net append_bufs_eq [of hdr bufs]
    by (simp add: stcp_network_send_def sent_def MAX_IP_PAYLOAD_LEN_def)
  then show ?thesis using p(2) stcp_ready_sent [OF assms(1) w] by blast
qed

section \<open>Receiving\<close>

lemma recv_ready:
  assumes "stcp_ready if_ip ctx s" and "network_recv_queue ctx = p # rest"
    and "20 \<le> length p" and "length p \<le> n" and "n \<le> 1500" and "mysock_verify_checksum if_ip (peer_ip ctx) p = Inr True"
  shows "stcp_network_recv if_ip ctx err (replicate n 0) =
    Inr (Some (length p, p @ replicate (n - length p) 0, 0, ctx\<lparr>network_recv_queue := rest\<rparr>))"
proof -
  have "upd 0 (take n p) (replicate n 0) = p @ replicate (n - length p) 0"
    using assms(4) by (simp add: upd_def)
  moreover have "checksum_addrs if_ip (ctx\<lparr>network_recv_queue := rest\<rparr>) = Inr (if_ip, peer_ip ctx)"
    using checksum_addrs_ready [of if_ip "ctx\<lparr>network_recv_queue := rest\<rparr>" s] stcp_ready_addr [OF assms(1)]
    by (simp add: stcp_addr_def peer_ip_def peer_port_def)
  moreover have "p \<noteq> []" using assms(3) by auto
  ultimately show ?thesis
    using assms by (simp add: stcp_network_recv_def network_recv_def dequeue_def Let_def)
qed

end
