(* ===== verification/Stcp_Transport.thy ===== *)
theory Stcp_Transport
  imports Stcp_Api
begin

text \<open>
  The STCP transport layer (\<^verbatim>\<open>transport.c\<close>, with the header of \<^verbatim>\<open>transport.h\<close>): the choice of the
  initial sequence number, the handshake of \<^verbatim>\<open>transport_init\<close> on both sides, and one iteration of
  \<^verbatim>\<open>control_loop\<close>, which \<open>control_loop\<close> repeats.

  The received packets a thread waits for are those of the queue of its context, so the queue
  given to the handshake holds what arrives during it; a wait for more has the value \<open>None\<close>.
  \<open>rnd\<close> is the result of \<^verbatim>\<open>rand()\<close>. The variable \<^verbatim>\<open>current_sender_window\<close> is never assigned:
  its value, converted to \<^verbatim>\<open>size_t\<close>, is the argument \<open>window\<close>. The inner loop that sends a
  payload need not end when the connection fails, so it has a bound on its iterations
  (\<open>Diverges\<close> when it is used up); one iteration per started segment is enough when sending
  succeeds, at most six for a payload buffer of 3072 bytes.
\<close>

section \<open>The code\<close>

datatype cstate =
    CSTATE_ESTABLISHED | CSTATE_CLOSED | CSTATE_LISTEN | CSTATE_SYN_SENT | CSTATE_SYN_RECEIVED
  | CSTATE_FIN_WAIT_1 | CSTATE_FIN_WAIT_2 | CSTATE_CLOSE_WAIT | CSTATE_LAST_ACK | CSTATE_TIME_WAIT

record context_t =
  is_done :: bool
  connection_state :: cstate
  initial_sequence_num :: uint32
  opp_sequence_num :: uint32
  ack_num :: uint32
  opp_window_size :: int
  current_sequence_num :: uint32
  fin_ack_sequence_num :: uint32

definition calloc_context :: context_t where
  "calloc_context = \<lparr>is_done = False, connection_state = CSTATE_ESTABLISHED, initial_sequence_num = 0, opp_sequence_num = 0,
     ack_num = 0, opp_window_size = 0, current_sequence_num = 0, fin_ack_sequence_num = 0\<rparr>"

definition STCP_MSS :: nat where "STCP_MSS = 536"
definition RECEIVER_WINDOW :: uint16 where "RECEIVER_WINDOW = 3072"
definition SENDER_WINDOW :: nat where "SENDER_WINDOW = 3072"
definition TH_FIN :: byte where "TH_FIN = 1"
definition TH_ACK :: byte where "TH_ACK = 16"

lemmas flag_defs = TH_FIN_def TH_SYN_def TH_ACK_def

text \<open>
  The fields of \<^verbatim>\<open>STCPHeader\<close> the code sets, in a zeroed header; \<^verbatim>\<open>th_off\<close> is the upper half of byte
  12 on a little-endian host.
\<close>

definition stcp_header :: "uint32 \<Rightarrow> uint32 \<Rightarrow> byte \<Rightarrow> byte list" where
  "stcp_header seq ack flags =
     st16 14 (htons RECEIVER_WINDOW) (st8 13 flags (st8 12 0x50
       (st32 8 (htonl ack) (st32 4 (htonl seq) (replicate 20 0)))))"

definition th_seq :: "byte list \<Rightarrow> uint32" where "th_seq p = ntohl (ld32 4 p)"
definition th_ack :: "byte list \<Rightarrow> uint32" where "th_ack p = ld32 8 p"
definition th_flags :: "byte list \<Rightarrow> byte" where "th_flags p = ld8 13 p"
definition th_win :: "byte list \<Rightarrow> uint16" where "th_win p = ntohs (ld16 14 p)"

definition generate_initial_seq_num :: "int \<Rightarrow> context_t \<Rightarrow> context_t" where
  "generate_initial_seq_num rnd t =
     (let r = word_of_int (rnd mod 256)
      in t\<lparr>initial_sequence_num := r, current_sequence_num := r\<rparr>)"

text \<open>The peer's sequence number and window, taken from a packet.\<close>

definition note_peer :: "byte list \<Rightarrow> context_t \<Rightarrow> context_t" where
  "note_peer p t = t\<lparr>opp_sequence_num := th_seq p, opp_window_size := int (unat (th_win p))\<rparr>"

definition next_seq :: "context_t \<Rightarrow> context_t" where
  "next_seq t = t\<lparr>current_sequence_num := current_sequence_num t + 1\<rparr>"

definition active_open ::
  "uint32 \<Rightarrow> context_t \<Rightarrow> mysock_context \<Rightarrow> fault + (context_t \<times> int \<times> mysock_context) option" where
  "active_open if_ip t ctx =
     (let hdr = stcp_header (initial_sequence_num t) 0 TH_SYN; t = next_seq t
      in bindw (stcp_network_send if_ip ctx hdr []) (\<lambda>(_, err, ctx).
           bindw (stcp_network_recv if_ip ctx err (replicate 20 0)) (\<lambda>(_, p, err, ctx).
             let good = (th_flags p AND TH_ACK \<noteq> 0 \<and> th_flags p AND TH_SYN \<noteq> 0 \<and>
                   ntohl (th_ack p) = current_sequence_num t);
                 t = (if good then note_peer p t else t);
                 err = (if good then err else ECONNREFUSED);
                 t = t\<lparr>connection_state := CSTATE_SYN_SENT\<rparr>;
                 hdr = stcp_header (current_sequence_num t) (opp_sequence_num t + 1) TH_ACK;
                 t = next_seq t
             in bindw (stcp_network_send if_ip ctx hdr []) (\<lambda>(_, err, ctx). Inr (Some (t, err, ctx))))))"

definition passive_open ::
  "uint32 \<Rightarrow> context_t \<Rightarrow> int \<Rightarrow> mysock_context \<Rightarrow> fault + (context_t \<times> int \<times> mysock_context) option" where
  "passive_open if_ip t err ctx =
     bindw (stcp_network_recv if_ip ctx err (replicate 20 0)) (\<lambda>(_, p, err, ctx).
       let good = (th_flags p AND TH_SYN \<noteq> 0);
           t = (if good then note_peer p t else t);
           err = (if good then err else ECONNREFUSED);
           t = t\<lparr>connection_state := CSTATE_SYN_RECEIVED\<rparr>;
           hdr = stcp_header (current_sequence_num t) (opp_sequence_num t + 1) (TH_SYN OR TH_ACK);
           t = next_seq t
       in bindw (stcp_network_send if_ip ctx hdr []) (\<lambda>(_, err, ctx).
            bindw (stcp_network_recv if_ip ctx err (replicate 20 0)) (\<lambda>(_, p, err, ctx).
              let t = (if th_flags p AND TH_ACK \<noteq> 0 \<and> th_ack p = current_sequence_num t then note_peer p t else t)
              in Inr (Some (t, err, ctx)))))"

definition handshake ::
  "uint32 \<Rightarrow> bool \<Rightarrow> int \<Rightarrow> mysock_context \<Rightarrow> fault + (context_t \<times> int \<times> mysock_context) option" where
  "handshake if_ip active rnd ctx =
     (let t = generate_initial_seq_num rnd calloc_context
      in bindw (if active then active_open if_ip t ctx else passive_open if_ip t 0 ctx) (\<lambda>(t, err, ctx).
           Inr (Some (t\<lparr>connection_state := CSTATE_ESTABLISHED\<rparr>, err, ctx))))"

section \<open>The control loop\<close>

text \<open>The loop over the segments of a payload: \<open>off\<close> and \<open>size\<close> are \<^verbatim>\<open>payload\<close> and \<^verbatim>\<open>payload_size\<close>.\<close>

fun send_loop ::
  "nat \<Rightarrow> uint32 \<Rightarrow> byte list \<Rightarrow> int \<Rightarrow> int \<Rightarrow> uint32 \<Rightarrow> mysock_context \<Rightarrow> fault + (uint32 \<times> mysock_context) option" where
  "send_loop fuel if_ip payload off payload_size seq ctx =
     (if payload_size \<le> 0 then Inr (Some (seq, ctx))
      else case fuel of
             0 \<Rightarrow> Inl Diverges
           | Suc fuel \<Rightarrow>
               let n = (if payload_size > int STCP_MSS then int STCP_MSS else payload_size)
               in need (0 \<le> off \<and> off + n \<le> int (length payload)) Out_of_bounds
                    (bindw (stcp_network_send if_ip ctx (stcp_header seq 0 0) [rd (nat off) (nat n) payload])
                      (\<lambda>(rc, _, ctx).
                         let pkt_size = (if payload_size > int STCP_MSS then int STCP_MSS else rc - 20)
                         in send_loop fuel if_ip payload (off + pkt_size) (payload_size - pkt_size)
                              (seq + word_of_int pkt_size) ctx)))"

declare send_loop.simps [simp del]

definition on_app_data ::
  "nat \<Rightarrow> uint32 \<Rightarrow> nat \<Rightarrow> context_t \<Rightarrow> mysock_context \<Rightarrow> fault + (context_t \<times> mysock_context) option" where
  "on_app_data fuel if_ip window t ctx =
     (case stcp_app_recv ctx window of
        None \<Rightarrow> Inr None
      | Some (bs, payload_size, ctx) \<Rightarrow>
          need (length bs \<le> SENDER_WINDOW) Out_of_bounds
            (bindw (send_loop fuel if_ip (bs @ replicate (SENDER_WINDOW - length bs) 0) 0 (int payload_size)
                (current_sequence_num t) ctx)
              (\<lambda>(seq, ctx). Inr (Some (t\<lparr>current_sequence_num := seq\<rparr>, ctx)))))"

text \<open>
  The branches for a packet with an acknowledgement, with the end of the stream, and with data.
  A data length of \<open>len - 20 < 0\<close> becomes a huge \<^verbatim>\<open>size_t\<close>, for which \<^verbatim>\<open>malloc\<close> fails and an assert aborts.
\<close>

definition on_ack :: "byte list \<Rightarrow> context_t \<Rightarrow> context_t" where
  "on_ack p t =
     (let t = t\<lparr>ack_num := ntohl (th_ack p), opp_window_size := int (unat (th_win p))\<rparr>
      in if ntohl (th_ack p) = fin_ack_sequence_num t \<and> connection_state t = CSTATE_FIN_WAIT_1
         then t\<lparr>connection_state := CSTATE_FIN_WAIT_2\<rparr> else t)"

definition on_fin ::
  "uint32 \<Rightarrow> byte list \<Rightarrow> nat \<Rightarrow> context_t \<Rightarrow> mysock_context \<Rightarrow> fault + (context_t \<times> mysock_context) option" where
  "on_fin if_ip p pkt_size t ctx =
     (let ctx = stcp_fin_received ctx;
          t = note_peer p t;
          ctx = (if pkt_size > 20 then stcp_app_send ctx (rd 20 (pkt_size - 20) p) else ctx)
      in bindw (stcp_network_send if_ip ctx (stcp_header 0 (opp_sequence_num t + 1) TH_ACK) []) (\<lambda>(_, _, ctx).
           Inr (Some
             (if connection_state t = CSTATE_ESTABLISHED then t\<lparr>connection_state := CSTATE_CLOSE_WAIT\<rparr>
              else if connection_state t = CSTATE_FIN_WAIT_2 then t\<lparr>connection_state := CSTATE_CLOSED, is_done := True\<rparr>
              else t, ctx))))"

definition on_data ::
  "uint32 \<Rightarrow> byte list \<Rightarrow> nat \<Rightarrow> context_t \<Rightarrow> mysock_context \<Rightarrow> fault + (context_t \<times> mysock_context) option" where
  "on_data if_ip p pkt_size t ctx =
     (let t = note_peer p t; payload_size = int pkt_size - 20
      in need (payload_size \<ge> 0) Assert_failed
           (let ctx = stcp_app_send ctx (rd 20 (nat payload_size) p)
            in bindw (stcp_network_send if_ip ctx
                   (stcp_header 0 (opp_sequence_num t + word_of_int payload_size) TH_ACK) []) (\<lambda>(_, _, ctx).
                 Inr (Some (t, ctx)))))"

definition on_network_data ::
  "uint32 \<Rightarrow> context_t \<Rightarrow> mysock_context \<Rightarrow> fault + (context_t \<times> mysock_context) option" where
  "on_network_data if_ip t ctx =
     bindw (stcp_network_recv if_ip ctx 0 (replicate (STCP_MSS + 20) 0)) (\<lambda>(pkt_size, p, _, ctx).
       if th_flags p AND TH_ACK \<noteq> 0 then Inr (Some (on_ack p t, ctx))
       else if th_flags p AND TH_FIN \<noteq> 0 then on_fin if_ip p pkt_size t ctx
       else on_data if_ip p pkt_size t ctx)"

definition on_close ::
  "uint32 \<Rightarrow> context_t \<Rightarrow> mysock_context \<Rightarrow> fault + (context_t \<times> mysock_context) option" where
  "on_close if_ip t ctx =
     (let hdr = stcp_header (current_sequence_num t) 0 TH_FIN; t = next_seq t
      in bindw (stcp_network_send if_ip ctx hdr []) (\<lambda>(_, _, ctx).
           let t = (if connection_state t = CSTATE_ESTABLISHED then t\<lparr>connection_state := CSTATE_FIN_WAIT_1\<rparr>
                    else t\<lparr>is_done := True, connection_state := CSTATE_CLOSED\<rparr>)
           in Inr (Some (t\<lparr>fin_ack_sequence_num := current_sequence_num t\<rparr>, ctx))))"

definition control_step ::
  "nat \<Rightarrow> uint32 \<Rightarrow> nat \<Rightarrow> context_t \<times> mysock_context \<Rightarrow> fault + (context_t \<times> mysock_context) option" where
  "control_step fuel if_ip window s =
     (case stcp_wait_for_event ANY_EVENT False (snd s) of
        None \<Rightarrow> Inr None
      | Some (event, ctx) \<Rightarrow>
          bindw (if event AND APP_DATA \<noteq> 0 \<and> connection_state (fst s) = CSTATE_ESTABLISHED
                 then on_app_data fuel if_ip window (fst s) ctx else Inr (Some (fst s, ctx))) (\<lambda>(t, ctx).
            bindw (if event AND NETWORK_DATA \<noteq> 0 \<and> connection_state t = CSTATE_ESTABLISHED
                   then on_network_data if_ip t ctx else Inr (Some (t, ctx))) (\<lambda>(t, ctx).
              if event AND APP_CLOSE_REQUESTED \<noteq> 0 then on_close if_ip t ctx else Inr (Some (t, ctx)))))"

fun control_loop ::
  "nat \<Rightarrow> nat \<Rightarrow> uint32 \<Rightarrow> nat \<Rightarrow> context_t \<times> mysock_context \<Rightarrow> fault + (context_t \<times> mysock_context) option" where
  "control_loop n fuel if_ip window s =
     (if is_done (fst s) then Inr (Some s)
      else case n of
             0 \<Rightarrow> Inl Diverges
           | Suc n \<Rightarrow> bindw (control_step fuel if_ip window s) (control_loop n fuel if_ip window))"

declare control_loop.simps [simp del]

text \<open>\<^verbatim>\<open>transport_init\<close>: the handshake, the unblocking of the application, the control loop.\<close>

definition transport_open ::
  "uint32 \<Rightarrow> int \<Rightarrow> bool \<Rightarrow> int \<Rightarrow> demux \<Rightarrow> fault + (context_t \<times> demux) option" where
  "transport_open if_ip sd active rnd w =
     andthen (get_context sd w) (\<lambda>(c, ctx).
       bindw (handshake if_ip active rnd ctx) (\<lambda>(t, err, ctx).
         andthen (stcp_unblock_application sd err (put_context c ctx w)) (\<lambda>w. Inr (Some (t, w)))))"

definition transport_init ::
  "nat \<Rightarrow> nat \<Rightarrow> uint32 \<Rightarrow> nat \<Rightarrow> int \<Rightarrow> bool \<Rightarrow> int \<Rightarrow> demux \<Rightarrow> fault + demux option" where
  "transport_init n fuel if_ip window sd active rnd w =
     bindw (transport_open if_ip sd active rnd w) (\<lambda>(t, w).
       andthen (get_context sd w) (\<lambda>(c, ctx).
         bindw (control_loop n fuel if_ip window (t, ctx)) (\<lambda>(_, ctx).
           Inr (Some (put_context c ctx w)))))"

end
