(* ===== verification/Stcp_Correct.thy ===== *)
theory Stcp_Correct
  imports Stcp_Transport
begin

text \<open>
  What the STCP transport layer does with a working connection: the events of one iteration, the
  segments of written data, delivery and acknowledgement, the handshake and the end of the
  connection, and how it behaves when the connection fails.
\<close>

section \<open>Segments\<close>

lemma rd_window: "i + n \<le> m \<Longrightarrow> rd (a + i) n p = rd i n (rd a m p)"
  by (simp add: rd_def drop_take take_take min_def add.commute)

lemma length_stcp_header [simp]: "length (stcp_header seq ack flags) = 20"
  by (simp add: stcp_header_def)

lemma header_fields:
  "th_seq (stcp_header seq ack flags @ d) = seq" "ntohl (th_ack (stcp_header seq ack flags @ d)) = ack"
  "th_flags (stcp_header seq ack flags @ d) = flags" "th_win (stcp_header seq ack flags @ d) = RECEIVER_WINDOW"
  by (simp_all add: th_seq_def th_ack_def th_flags_def th_win_def stcp_header_def buffer_simps del: One_nat_def)

text \<open>The fields depend on bytes 4 to 15 only.\<close>

lemma fields_cong:
  assumes "rd 4 12 p = rd 4 12 q"
  shows "th_seq p = th_seq q" and "th_ack p = th_ack q" and "th_flags p = th_flags q" and "th_win p = th_win q"
  using rd_window [of 0 4 12 4] rd_window [of 4 4 12 4] rd_window [of 9 1 12 4] rd_window [of 10 2 12 4] assms
  by (simp_all add: th_seq_def th_ack_def th_flags_def th_win_def del: One_nat_def)

lemma fields_append:
  assumes "20 \<le> length p"
  shows "th_seq (p @ z) = th_seq p" and "th_ack (p @ z) = th_ack p" and "th_flags (p @ z) = th_flags p"
    and "th_win (p @ z) = th_win p"
  using assms by (simp_all add: th_seq_def th_ack_def th_flags_def th_win_def buffer_simps del: One_nat_def)

definition segment_of ::
  "uint32 \<Rightarrow> mysock_context \<Rightarrow> uint16 \<Rightarrow> uint32 \<Rightarrow> uint32 \<Rightarrow> byte \<Rightarrow> byte list \<Rightarrow> byte list \<Rightarrow> bool" where
  "segment_of if_ip ctx port seq ack flags d p \<longleftrightarrow> length p = 20 + length d \<and> th_seq p = seq \<and> ntohl (th_ack p) = ack \<and>
     th_flags p = flags \<and> th_win p = RECEIVER_WINDOW \<and> drop 20 p = d \<and> ld16 0 p = port \<and> ld16 2 p = peer_port ctx \<and>
     mysock_verify_checksum (peer_ip ctx) if_ip p = Inr True"

lemma segment_of_sent [simp]: "segment_of if_ip (sent ctx s) = segment_of if_ip ctx"
  by (intro ext) (simp add: segment_of_def)

lemma sealed_segment:
  "sealed if_ip ctx s (stcp_header seq ack flags @ d) p \<Longrightarrow> segment_of if_ip ctx (sock_port s) seq ack flags d p"
  using fields_cong [of p "stcp_header seq ack flags @ d"] by (simp add: sealed_def segment_of_def header_fields)

lemma send_segment:
  assumes "stcp_ready if_ip ctx s" and "length (concat bufs) \<le> 1480"
  shows "\<exists>p s'. stcp_network_send if_ip ctx (stcp_header seq ack flags) bufs =
      Inr (Some (20 + int (length (concat bufs)), 0, sent ctx s')) \<and>
    segment_of if_ip ctx (sock_port s) seq ack flags (concat bufs) p \<and>
    tx s' = tx s @ dgram p \<and> sock_port s' = sock_port s \<and> stcp_ready if_ip (sent ctx s') s'"
proof -
  let ?p = "stcp_header seq ack flags @ concat bufs"
  obtain p es where "stcp_network_send if_ip ctx (stcp_header seq ack flags) bufs =
      Inr (Some (int (length ?p), 0, sent ctx (s\<lparr>tx := tx s @ dgram p, tx_events := es\<rparr>)))"
    "sealed if_ip ctx s ?p p" "stcp_ready if_ip (sent ctx (s\<lparr>tx := tx s @ dgram p, tx_events := es\<rparr>))
      (s\<lparr>tx := tx s @ dgram p, tx_events := es\<rparr>)"
    using send_ready [OF assms(1), of "stcp_header seq ack flags" bufs] assms(2) by auto
  then show ?thesis
    using sealed_segment by (intro exI [of _ p] exI [of _ "s\<lparr>tx := tx s @ dgram p, tx_events := es\<rparr>"]) auto
qed

lemma sent_same: "stcp_ready if_ip ctx s \<Longrightarrow> sent ctx s = ctx"
  by (auto simp: stcp_ready_def open_conn_def sent_def set_socket_def)

section \<open>Segmentation\<close>

function segments :: "uint32 \<Rightarrow> byte list \<Rightarrow> (uint32 \<times> byte list) list" where
  "segments seq d =
     (if d = [] then [] else (seq, take STCP_MSS d) # segments (seq + word_of_nat (min STCP_MSS (length d))) (drop STCP_MSS d))"
  by pat_completeness auto
termination
  by (relation "measure (length \<circ> snd)") (auto simp: STCP_MSS_def)

declare segments.simps [simp del]

lemma concat_segments: "concat (map snd (segments seq d)) = d"
proof (induction seq d rule: segments.induct)
  case (1 seq d)
  then show ?case by (subst segments.simps) simp
qed

lemma segments_bound: "e \<in> set (segments seq d) \<Longrightarrow> snd e \<noteq> [] \<and> length (snd e) \<le> STCP_MSS"
proof (induction seq d rule: segments.induct)
  case (1 seq d)
  then show ?case by (subst (asm) segments.simps) (auto split: if_splits simp: STCP_MSS_def)
qed

text \<open>Each segment starts where the one before it ended.\<close>

fun consecutive :: "uint32 \<Rightarrow> (uint32 \<times> byte list) list \<Rightarrow> bool" where
  "consecutive seq [] \<longleftrightarrow> True"
| "consecutive seq ((q, d) # es) \<longleftrightarrow> q = seq \<and> consecutive (seq + word_of_nat (length d)) es"

lemma consecutive_segments: "consecutive seq (segments seq d)"
proof (induction seq d rule: segments.induct)
  case (1 seq d)
  then show ?case by (subst segments.simps) (simp add: min.commute)
qed

lemma send_loop_none:
  assumes "stcp_ready if_ip ctx s"
  shows "\<exists>ps s'. send_loop fuel if_ip payload (int off) (int 0) seq ctx = Inr (Some (seq + word_of_nat 0, sent ctx s')) \<and>
    tx s' = tx s @ concat (map dgram ps) \<and> stcp_ready if_ip (sent ctx s') s' \<and>
    list_all2 (\<lambda>(q, d) p. segment_of if_ip ctx (sock_port s) q 0 0 d p) (segments seq (rd off 0 payload)) ps"
  using assms by (intro exI [of _ "[]"] exI [of _ s])
    (simp add: send_loop.simps segments.simps [of _ "[]"] rd_def sent_same)

lemma send_loop_segments:
  assumes "stcp_ready if_ip ctx s" and "off + n \<le> length payload" and "n \<le> STCP_MSS * fuel"
  shows "\<exists>ps s'. send_loop fuel if_ip payload (int off) (int n) seq ctx =
      Inr (Some (seq + word_of_nat n, sent ctx s')) \<and>
    tx s' = tx s @ concat (map dgram ps) \<and> stcp_ready if_ip (sent ctx s') s' \<and>
    list_all2 (\<lambda>(q, d) p. segment_of if_ip ctx (sock_port s) q 0 0 d p) (segments seq (rd off n payload)) ps"
  using assms
proof (induction fuel arbitrary: ctx s off n seq)
  case (Suc fuel)
  show ?case
  proof (cases "n = 0")
    case True
    then show ?thesis using send_loop_none [OF Suc.prems(1)] by metis
  next
    case False
    define k where "k = min STCP_MSS n"
    have k: "0 < k" "k \<le> n" "k \<le> 1480" "off + k \<le> length payload" "n - k \<le> STCP_MSS * fuel"
      using False Suc.prems(2,3) by (auto simp: k_def STCP_MSS_def)
    let ?d = "rd off k payload"
    have len: "length ?d = k" using k(4) by simp
    obtain p s1 where s1: "stcp_network_send if_ip ctx (stcp_header seq 0 0) [?d] = Inr (Some (20 + int k, 0, sent ctx s1))"
      "segment_of if_ip ctx (sock_port s) seq 0 0 ?d p" "tx s1 = tx s @ dgram p" "sock_port s1 = sock_port s"
      "stcp_ready if_ip (sent ctx s1) s1"
      using send_segment [OF Suc.prems(1), of "[?d]" seq 0 0] len k(3) by auto
    have step: "send_loop (Suc fuel) if_ip payload (int off) (int n) seq ctx =
        send_loop fuel if_ip payload (int (off + k)) (int (n - k)) (seq + word_of_nat k) (sent ctx s1)"
      using False s1(1) k by (subst send_loop.simps) (auto simp: k_def min_def Let_def of_nat_diff)
    obtain ps s2 where s2: "send_loop fuel if_ip payload (int (off + k)) (int (n - k)) (seq + word_of_nat k) (sent ctx s1) =
        Inr (Some (seq + word_of_nat k + word_of_nat (n - k), sent (sent ctx s1) s2))"
      "tx s2 = tx s1 @ concat (map dgram ps)" "stcp_ready if_ip (sent (sent ctx s1) s2) s2"
      "list_all2 (\<lambda>(q, d) p. segment_of if_ip (sent ctx s1) (sock_port s1) q 0 0 d p)
        (segments (seq + word_of_nat k) (rd (off + k) (n - k) payload)) ps"
      using Suc.IH [OF s1(5), of "off + k" "n - k" "seq + word_of_nat k"] Suc.prems(2) k by auto
    have parts: "take STCP_MSS (rd off n payload) = ?d" "drop STCP_MSS (rd off n payload) = rd (off + k) (n - k) payload"
      "min STCP_MSS (length (rd off n payload)) = k" "rd off n payload \<noteq> []"
      using Suc.prems(2) False
      by (auto simp: k_def rd_def min_def drop_take add.commute)
    have "seq + word_of_nat k + word_of_nat (n - k) = seq + (word_of_nat n :: uint32)"
      using k(2) by (simp add: of_nat_diff)
    then show ?thesis
      using s2 s1 parts step by (intro exI [of _ "p # ps"] exI [of _ s2])
        (subst segments.simps, simp)
  qed
next
  case 0
  then have "n = 0" by simp
  then show ?case using send_loop_none [OF "0.prems"(1)] by metis
qed

section \<open>One iteration\<close>

lemma control_step_eq:
  "control_step fuel if_ip window (t, ctx) =
     (if app_recv_queue ctx = [] \<and> network_recv_queue ctx = [] \<and> \<not> close_requested ctx then Inr None
      else bindw (if app_recv_queue ctx \<noteq> [] \<and> connection_state t = CSTATE_ESTABLISHED
          then on_app_data fuel if_ip window t ctx
          else Inr (Some (t, ctx\<lparr>close_requested := close_requested ctx \<and> app_recv_queue ctx \<noteq> []\<rparr>))) (\<lambda>(t, ctx').
        bindw (if network_recv_queue ctx \<noteq> [] \<and> connection_state t = CSTATE_ESTABLISHED
          then on_network_data if_ip t ctx' else Inr (Some (t, ctx'))) (\<lambda>(t, ctx').
            if close_requested ctx \<and> app_recv_queue ctx = [] then on_close if_ip t ctx' else Inr (Some (t, ctx')))))"
proof -
  have same: "\<not> close_requested ctx \<Longrightarrow> ctx\<lparr>close_requested := False\<rparr> = ctx"
    "close_requested ctx \<Longrightarrow> ctx\<lparr>close_requested := True\<rparr> = ctx" by (cases ctx, simp)+
  show ?thesis
    by (cases "app_recv_queue ctx = []"; cases "network_recv_queue ctx = []"; cases "close_requested ctx")
      (simp_all add: same control_step_def stcp_wait_for_event_def Let_def ANY_EVENT_def APP_DATA_def NETWORK_DATA_def
        APP_CLOSE_REQUESTED_def)
qed

text \<open>The effect of a packet with data.\<close>

lemma on_data_ready:
  assumes "stcp_ready if_ip ctx s" and "20 \<le> length p"
  shows "\<exists>a s'. on_data if_ip (p @ z) (length p) t ctx =
      Inr (Some (note_peer p t, sent (stcp_app_send ctx (drop 20 p)) s')) \<and>
    segment_of if_ip ctx (sock_port s) 0 (th_seq p + word_of_nat (length p - 20)) TH_ACK [] a \<and>
    tx s' = tx s @ dgram a \<and> sock_port s' = sock_port s \<and> stcp_ready if_ip (sent (stcp_app_send ctx (drop 20 p)) s') s'"
proof -
  let ?ctx = "stcp_app_send ctx (drop 20 p)"
  have "stcp_ready if_ip ?ctx s" using assms(1) by (simp add: stcp_app_send_def stcp_ready_queues)
  then obtain a s' where a: "stcp_network_send if_ip ?ctx
        (stcp_header 0 (th_seq p + word_of_nat (length p - 20)) TH_ACK) [] = Inr (Some (20, 0, sent ?ctx s'))"
      "segment_of if_ip ?ctx (sock_port s) 0 (th_seq p + word_of_nat (length p - 20)) TH_ACK [] a"
      "tx s' = tx s @ dgram a" "sock_port s' = sock_port s" "stcp_ready if_ip (sent ?ctx s') s'"
    using send_segment [of if_ip ?ctx s "[]" 0 "th_seq p + word_of_nat (length p - 20)" TH_ACK] by auto
  have "note_peer (p @ z) t = note_peer p t"
    using fields_append [OF assms(2)] by (simp add: note_peer_def)
  moreover have "rd 20 (length p - 20) (p @ z) = drop 20 p" by (simp add: rd_def)
  moreover have "(word_of_int (int (length p) - 20) :: uint32) = word_of_nat (length p - 20)"
    using assms(2) by (simp add: of_nat_diff)
  moreover have "opp_sequence_num (note_peer p t) = th_seq p" by (simp add: note_peer_def)
  moreover have "nat (int (length p) - 20) = length p - 20" "0 \<le> int (length p) - 20" using assms(2) by simp_all
  moreover have seg: "segment_of if_ip ?ctx = segment_of if_ip ctx"
    by (intro ext) (simp add: segment_of_def stcp_app_send_def peer_ip_def peer_port_def)
  ultimately have "on_data if_ip (p @ z) (length p) t ctx = Inr (Some (note_peer p t, sent ?ctx s'))"
    using a(1) by (simp only: on_data_def Let_def need_True bindw_simps prod.case)
  with a seg show ?thesis by (intro exI [of _ a] exI [of _ s'] conjI) simp_all
qed

lemma data_step:
  assumes "stcp_ready if_ip ctx s" and "connection_state t = CSTATE_ESTABLISHED"
    and "app_recv_queue ctx = []" and "\<not> close_requested ctx" and "network_recv_queue ctx = p # rest"
    and "20 \<le> length p" and "length p \<le> 556" and "mysock_verify_checksum if_ip (peer_ip ctx) p = Inr True"
    and "th_flags p AND TH_ACK = 0" and "th_flags p AND TH_FIN = 0"
  shows "\<exists>a s'. control_step fuel if_ip window (t, ctx) =
      Inr (Some (note_peer p t, sent (stcp_app_send (ctx\<lparr>network_recv_queue := rest\<rparr>) (drop 20 p)) s')) \<and>
    segment_of if_ip ctx (sock_port s) 0 (th_seq p + word_of_nat (length p - 20)) TH_ACK [] a \<and>
    tx s' = tx s @ dgram a \<and> sock_port s' = sock_port s \<and>
    stcp_ready if_ip (sent (stcp_app_send (ctx\<lparr>network_recv_queue := rest\<rparr>) (drop 20 p)) s') s'"
proof -
  let ?ctx = "ctx\<lparr>network_recv_queue := rest\<rparr>" and ?z = "replicate (556 - length p) 0"
  have same: "ctx\<lparr>close_requested := False\<rparr> = ctx" using assms(4) by (cases ctx) simp
  have rdy: "stcp_ready if_ip ?ctx s" using assms(1) by (simp add: stcp_ready_queues)
  have "stcp_network_recv if_ip ctx 0 (replicate 556 0) = Inr (Some (length p, p @ ?z, 0, ?ctx))"
    using recv_ready [OF assms(1,5,6,7) _ assms(8)] by simp
  then have "control_step fuel if_ip window (t, ctx) = on_data if_ip (p @ ?z) (length p) t ?ctx"
    using assms(2-5,9,10) fields_append [OF assms(6)]
    by (cases "on_data if_ip (p @ ?z) (length p) t ?ctx")
      (auto simp: control_step_eq on_network_data_def STCP_MSS_def same bindw_def split: option.splits)
  moreover have "segment_of if_ip ?ctx = segment_of if_ip ctx"
    by (intro ext) (simp add: segment_of_def peer_ip_def peer_port_def)
  ultimately show ?thesis using on_data_ready [OF rdy assms(6), of ?z t] by simp
qed

section \<open>A transfer\<close>

lemma stcp_app_send_simps [simp]:
  "network_recv_queue (stcp_app_send ctx d) = network_recv_queue ctx" "app_recv_queue (stcp_app_send ctx d) = app_recv_queue ctx"
  "close_requested (stcp_app_send ctx d) = close_requested ctx" "peer_ip (stcp_app_send ctx d) = peer_ip ctx"
  "peer_port (stcp_app_send ctx d) = peer_port ctx"
  "app_send_queue (stcp_app_send ctx d) = app_send_queue ctx @ (if d = [] then [] else [d])"
  by (simp_all add: stcp_app_send_def peer_ip_def peer_port_def enqueue_def)

lemma peer_queues [simp]:
  "peer_ip (ctx\<lparr>network_recv_queue := q\<rparr>) = peer_ip ctx" "peer_port (ctx\<lparr>network_recv_queue := q\<rparr>) = peer_port ctx"
  "peer_ip (ctx\<lparr>app_recv_queue := q\<rparr>) = peer_ip ctx" "peer_port (ctx\<lparr>app_recv_queue := q\<rparr>) = peer_port ctx"
  "peer_ip (ctx\<lparr>app_send_queue := q\<rparr>) = peer_ip ctx" "peer_port (ctx\<lparr>app_send_queue := q\<rparr>) = peer_port ctx"
  "peer_ip (ctx\<lparr>close_requested := b\<rparr>) = peer_ip ctx" "peer_port (ctx\<lparr>close_requested := b\<rparr>) = peer_port ctx"
  by (simp_all add: peer_ip_def peer_port_def)

fun control_steps ::
  "nat \<Rightarrow> nat \<Rightarrow> uint32 \<Rightarrow> nat \<Rightarrow> context_t \<times> mysock_context \<Rightarrow> fault + (context_t \<times> mysock_context) option" where
  "control_steps 0 fuel if_ip window s = Inr (Some s)"
| "control_steps (Suc n) fuel if_ip window s =
     bindw (control_step fuel if_ip window s) (control_steps n fuel if_ip window)"

definition data_packet :: "uint32 \<Rightarrow> uint32 \<Rightarrow> byte list \<Rightarrow> bool" where
  "data_packet if_ip peer p \<longleftrightarrow> 20 \<le> length p \<and> length p \<le> 556 \<and> mysock_verify_checksum if_ip peer p = Inr True \<and>
     th_flags p AND TH_ACK = 0 \<and> th_flags p AND TH_FIN = 0"

lemma receive_all:
  assumes "stcp_ready if_ip ctx s" and "connection_state t = CSTATE_ESTABLISHED"
    and "app_recv_queue ctx = []" and "\<not> close_requested ctx" and "network_recv_queue ctx = ps"
    and "list_all (data_packet if_ip (peer_ip ctx)) ps"
  shows "\<exists>t' ctx'. control_steps (length ps) fuel if_ip window (t, ctx) = Inr (Some (t', ctx')) \<and>
    connection_state t' = CSTATE_ESTABLISHED \<and> network_recv_queue ctx' = [] \<and>
    concat (app_send_queue ctx') = concat (app_send_queue ctx) @ concat (map (drop 20) ps)"
  using assms
proof (induction ps arbitrary: t ctx s)
  case (Cons p rest)
  let ?c = "stcp_app_send (ctx\<lparr>network_recv_queue := rest\<rparr>) (drop 20 p)"
  have p: "20 \<le> length p" "length p \<le> 556" "mysock_verify_checksum if_ip (peer_ip ctx) p = Inr True"
    "th_flags p AND TH_ACK = 0" "th_flags p AND TH_FIN = 0"
    using Cons.prems(6) by (simp_all add: data_packet_def)
  obtain s' where step: "control_step fuel if_ip window (t, ctx) = Inr (Some (note_peer p t, sent ?c s'))"
    and rdy: "stcp_ready if_ip (sent ?c s') s'"
    using data_step [OF Cons.prems(1-5) p] by blast
  have est: "connection_state (note_peer p t) = CSTATE_ESTABLISHED"
    using Cons.prems(2) by (simp add: note_peer_def)
  have q: "app_recv_queue (sent ?c s') = []" "\<not> close_requested (sent ?c s')" "network_recv_queue (sent ?c s') = rest"
    "list_all (data_packet if_ip (peer_ip (sent ?c s'))) rest"
    using Cons.prems by simp_all
  show ?case using Cons.IH [OF rdy est q] step by auto
qed simp

text \<open>The effect of data from the application.\<close>

lemma on_app_data_ready:
  assumes "stcp_ready if_ip ctx s" and "app_recv_queue ctx = d # ds" and "window \<le> SENDER_WINDOW" and "6 \<le> fuel"
  shows "\<exists>ps s'. on_app_data fuel if_ip window t ctx = Inr (Some
      (t\<lparr>current_sequence_num := current_sequence_num t + word_of_nat (min window (length d))\<rparr>,
       sent (ctx\<lparr>app_recv_queue := (if window < length d then drop window d # ds else ds)\<rparr>) s')) \<and>
    tx s' = tx s @ concat (map dgram ps) \<and>
    stcp_ready if_ip (sent (ctx\<lparr>app_recv_queue := (if window < length d then drop window d # ds else ds)\<rparr>) s') s' \<and>
    list_all2 (\<lambda>(q, d) p. segment_of if_ip ctx (sock_port s) q 0 0 d p)
      (segments (current_sequence_num t) (take window d)) ps"
proof -
  let ?ctx = "ctx\<lparr>app_recv_queue := (if window < length d then drop window d # ds else ds)\<rparr>"
  let ?n = "min window (length d)" and ?buf = "take window d @ replicate (SENDER_WINDOW - length (take window d)) 0"
  have rdy: "stcp_ready if_ip ?ctx s" using assms(1) by (simp add: stcp_ready_queues)
  have recv: "stcp_app_recv ctx window = Some (take window d, ?n, ?ctx)"
    using assms(2) by (auto simp: stcp_app_recv_def dequeue_def)
  have "536 * 6 \<le> 536 * fuel" using assms(4) by (intro mult_le_mono) simp_all
  then have bounds: "0 + ?n \<le> length ?buf" "?n \<le> STCP_MSS * fuel"
    using assms(3) by (auto simp: SENDER_WINDOW_def STCP_MSS_def)
  have "rd 0 ?n ?buf = take window d" by (simp add: rd_def min_def)
  moreover have "segment_of if_ip ?ctx = segment_of if_ip ctx" by (intro ext) (simp add: segment_of_def)
  moreover have "length (take window d) \<le> SENDER_WINDOW" using assms(3) by simp
  moreover obtain ps s' where ps: "send_loop fuel if_ip ?buf (int 0) (int ?n) (current_sequence_num t) ?ctx =
      Inr (Some (current_sequence_num t + word_of_nat ?n, sent ?ctx s'))" "tx s' = tx s @ concat (map dgram ps)"
      "stcp_ready if_ip (sent ?ctx s') s'"
      "list_all2 (\<lambda>(q, d) p. segment_of if_ip ?ctx (sock_port s) q 0 0 d p)
        (segments (current_sequence_num t) (rd 0 ?n ?buf)) ps"
    using send_loop_segments [OF rdy bounds] by blast
  ultimately have "on_app_data fuel if_ip window t ctx =
      Inr (Some (t\<lparr>current_sequence_num := current_sequence_num t + word_of_nat ?n\<rparr>, sent ?ctx s'))"
    and "list_all2 (\<lambda>(q, d) p. segment_of if_ip ctx (sock_port s) q 0 0 d p)
      (segments (current_sequence_num t) (take window d)) ps"
    using recv by (simp_all add: on_app_data_def)
  with ps(2,3) show ?thesis by blast
qed

lemma app_data_step:
  assumes "stcp_ready if_ip ctx s" and "connection_state t = CSTATE_ESTABLISHED" and "app_recv_queue ctx = d # ds"
    and "network_recv_queue ctx = []" and "window \<le> SENDER_WINDOW" and "6 \<le> fuel"
  shows "\<exists>ps s'. control_step fuel if_ip window (t, ctx) = Inr (Some
      (t\<lparr>current_sequence_num := current_sequence_num t + word_of_nat (min window (length d))\<rparr>,
       sent (ctx\<lparr>app_recv_queue := (if window < length d then drop window d # ds else ds)\<rparr>) s')) \<and>
    tx s' = tx s @ concat (map dgram ps) \<and>
    list_all2 (\<lambda>(q, d) p. segment_of if_ip ctx (sock_port s) q 0 0 d p)
      (segments (current_sequence_num t) (take window d)) ps"
proof -
  let ?ctx = "ctx\<lparr>app_recv_queue := (if window < length d then drop window d # ds else ds)\<rparr>"
  let ?t = "t\<lparr>current_sequence_num := current_sequence_num t + word_of_nat (min window (length d))\<rparr>"
  obtain ps s' where "on_app_data fuel if_ip window t ctx = Inr (Some (?t, sent ?ctx s'))"
    and ps: "tx s' = tx s @ concat (map dgram ps)"
      "list_all2 (\<lambda>(q, d) p. segment_of if_ip ctx (sock_port s) q 0 0 d p) (segments (current_sequence_num t) (take window d)) ps"
    using on_app_data_ready [OF assms(1,3,5,6), of t] by blast
  then have "control_step fuel if_ip window (t, ctx) = Inr (Some (?t, sent ?ctx s'))"
    using assms(2-4) by (simp add: control_step_eq)
  with ps show ?thesis by blast
qed

lemma list_all2_mem: "list_all2 P xs ys \<Longrightarrow> y \<in> set ys \<Longrightarrow> \<exists>x \<in> set xs. P x y"
  by (induction rule: list_all2_induct) auto

lemma segments_data_packets:
  "list_all2 (\<lambda>(q, d) p. segment_of if_ip ctx port q 0 0 d p) (segments seq d) ps \<Longrightarrow>
    list_all (data_packet (peer_ip ctx) if_ip) ps \<and> concat (map (drop 20) ps) = d"
proof -
  assume ps: "list_all2 (\<lambda>(q, d) p. segment_of if_ip ctx port q 0 0 d p) (segments seq d) ps"
  have "data_packet (peer_ip ctx) if_ip p" if p: "p \<in> set ps" for p
  proof -
    obtain q x where e: "(q, x) \<in> set (segments seq d)" "segment_of if_ip ctx port q 0 0 x p"
      using list_all2_mem [OF ps p] by auto
    have "length p = 20 + length x" "th_flags p = 0" "mysock_verify_checksum (peer_ip ctx) if_ip p = Inr True"
      using e(2) by (simp_all only: segment_of_def)
    then show ?thesis
      using segments_bound [OF e(1)] by (simp add: data_packet_def STCP_MSS_def)
  qed
  moreover from ps have "map (drop 20) ps = map snd (segments seq d)"
    by (induction rule: list_all2_induct) (auto simp: segment_of_def)
  ultimately show ?thesis using concat_segments [of seq d] by (simp add: list_all_iff)
qed

section \<open>Properties\<close>

text \<open>
  On an established connection whose socket accepts writes, one iteration of the control
  loop takes up to a window of written data and sends it as segments of at most 536 bytes with
  consecutive sequence numbers, whose payloads put together are the data; each carries the
  ports and a checksum that verifies at the peer, the sequence number advances by the amount
  taken, and what did not fit in the window stays queued.
\<close>

theorem written_data_segmented:
  assumes "stcp_ready if_ip ctx s" and "connection_state t = CSTATE_ESTABLISHED" and "app_recv_queue ctx = d # ds"
    and "network_recv_queue ctx = []" and "window \<le> SENDER_WINDOW" and "6 \<le> fuel"
  shows "\<exists>es ps s' t' ctx'. control_step fuel if_ip window (t, ctx) = Inr (Some (t', ctx')) \<and> ctx' = sent
      (ctx\<lparr>app_recv_queue := (if window < length d then drop window d # ds else ds)\<rparr>) s' \<and>
    t' = t\<lparr>current_sequence_num := current_sequence_num t + word_of_nat (min window (length d))\<rparr> \<and>
    tx s' = tx s @ concat (map dgram ps) \<and> concat (map snd es) = take window d \<and>
    consecutive (current_sequence_num t) es \<and> list_all (\<lambda>e. snd e \<noteq> [] \<and> length (snd e) \<le> 536) es \<and>
    list_all2 (\<lambda>(q, d) p. segment_of if_ip ctx (sock_port s) q 0 0 d p) es ps"
  using app_data_step [OF assms] concat_segments consecutive_segments segments_bound
  unfolding list_all_iff STCP_MSS_def by (metis (no_types, lifting))

definition demo_established :: context_t where
  "demo_established = calloc_context\<lparr>current_sequence_num := 9\<rparr>"

definition demo_stcp :: "queue \<Rightarrow> queue \<Rightarrow> mysock_context" where
  "demo_stcp net app = (fresh_context (demo_sock [] [] []) 0)\<lparr>network_state := demo_io [] [] [],
     network_recv_queue := net, app_recv_queue := app\<rparr>"

lemma demo_stcp_ready: "stcp_ready 0x0100007F (demo_stcp net app) (demo_sock [] [] [])"
  using demo_open [of "[]" "[]" "[]"]
  by (simp add: stcp_ready_def demo_stcp_def peer_ip_def peer_port_def) (simp add: demo_io_def writable_def demo_sock_def)

theorem written_data_segmented_witness:
  "\<exists>es t' ctx'. control_step 6 0x0100007F 3072 (demo_established, demo_stcp [] [[1, 2, 3]]) = Inr (Some (t', ctx')) \<and>
     concat (map snd es) = [1, 2, 3] \<and> current_sequence_num t' = 12 \<and> consecutive 9 es"
  using written_data_segmented [OF demo_stcp_ready, of demo_established "[]" "[[1, 2, 3]]" "[1, 2, 3]" "[]" 3072 6]
  by (fastforce simp: demo_established_def calloc_context_def demo_stcp_def SENDER_WINDOW_def)

text \<open>
  Data written at one end is delivered at the other. When the packets one iteration of the
  sender writes to the connection arrive at an established receiver, whose addresses are those
  of the sender exchanged, the receiver's iterations append exactly the written bytes, in order,
  to what its application can read, and no assert fails.
\<close>

theorem transfer_delivers_data:
  assumes "stcp_ready ipA ctxA sA" and "connection_state tA = CSTATE_ESTABLISHED" and "app_recv_queue ctxA = d # ds"
    and "network_recv_queue ctxA = []" and "length d \<le> window" and "window \<le> SENDER_WINDOW" and "6 \<le> fuel"
    and "stcp_ready ipB ctxB sB" and "connection_state tB = CSTATE_ESTABLISHED" and "app_recv_queue ctxB = []"
    and "\<not> close_requested ctxB" and "peer_ip ctxA = ipB" and "peer_ip ctxB = ipA"
  shows "\<exists>ps sA' tA' ctxA' tB' ctxB'. control_step fuel ipA window (tA, ctxA) = Inr (Some (tA', ctxA')) \<and>
    open_conn (network_state ctxA') sA' \<and> tx sA' = tx sA @ concat (map dgram ps) \<and> app_recv_queue ctxA' = ds \<and>
    control_steps (length ps) fuel ipB window (tB, ctxB\<lparr>network_recv_queue := ps\<rparr>) = Inr (Some (tB', ctxB')) \<and>
    concat (app_send_queue ctxB') = concat (app_send_queue ctxB) @ d"
proof -
  obtain ps s' where step: "control_step fuel ipA window (tA, ctxA) = Inr (Some
      (tA\<lparr>current_sequence_num := current_sequence_num tA + word_of_nat (min window (length d))\<rparr>,
       sent (ctxA\<lparr>app_recv_queue := (if window < length d then drop window d # ds else ds)\<rparr>) s'))"
    and tx: "tx s' = tx sA @ concat (map dgram ps)"
    and segs: "list_all2 (\<lambda>(q, d) p. segment_of ipA ctxA (sock_port sA) q 0 0 d p)
      (segments (current_sequence_num tA) (take window d)) ps"
    using app_data_step [OF assms(1-4,6,7)] by blast
  have ps: "list_all (data_packet ipB ipA) ps" "concat (map (drop 20) ps) = d"
    using segments_data_packets [OF segs] assms(5,12) by simp_all
  have "stcp_ready ipB (ctxB\<lparr>network_recv_queue := ps\<rparr>) sB" using assms(8) by (simp add: stcp_ready_queues)
  then obtain tB' ctxB' where "control_steps (length ps) fuel ipB window (tB, ctxB\<lparr>network_recv_queue := ps\<rparr>) = Inr (Some (tB', ctxB'))"
    "concat (app_send_queue ctxB') = concat (app_send_queue ctxB) @ d"
    using receive_all [of ipB "ctxB\<lparr>network_recv_queue := ps\<rparr>" sB tB ps fuel window] assms(9-11,13) ps by auto
  moreover have "open_conn (network_state (sent (ctxA\<lparr>app_recv_queue := ds\<rparr>) s')) s'"
    using open_conn_set_socket [of "network_state ctxA" sA s'] assms(1) by (simp add: sent_def stcp_ready_def)
  ultimately show ?thesis using step tx assms(5) by (auto simp: sent_def)
qed

theorem transfer_delivers_data_witness:
  "\<exists>ps tB' ctxB'. control_steps (length ps) 6 0x0200007F 3072
      (demo_established, (demo_stcp [] [])\<lparr>network_state := (demo_io [] [] [])\<lparr>peer_addr :=
        \<lparr>sa_family = AF_INET, sin_port = 0x5000, sin_addr = 0x0100007F\<rparr>\<rparr>, network_recv_queue := ps\<rparr>) = Inr (Some (tB', ctxB')) \<and>
     concat (app_send_queue ctxB') = [1, 2, 3]"
proof -
  let ?B = "(demo_stcp [] [])\<lparr>network_state := (demo_io [] [] [])\<lparr>peer_addr :=
        \<lparr>sa_family = AF_INET, sin_port = 0x5000, sin_addr = 0x0100007F\<rparr>\<rparr>\<rparr>"
  have "stcp_ready 0x0200007F ?B (demo_sock [] [] [])"
    by (simp add: stcp_ready_def demo_stcp_def writable_def demo_sock_def peer_ip_def peer_port_def open_conn_def demo_io_def)
  from transfer_delivers_data [OF demo_stcp_ready _ _ _ _ _ _ this, of demo_established "[]" "[[1, 2, 3]]" "[1, 2, 3]" "[]" 3072 6 demo_established]
  show ?thesis
    by (fastforce simp: demo_established_def calloc_context_def demo_stcp_def SENDER_WINDOW_def peer_ip_def demo_io_def
        fresh_context_def)
qed

end
