(* ===== verification/Stcp_Lifecycle.thy ===== *)
theory Stcp_Lifecycle
  imports Stcp_Correct
begin

text \<open>
  The life of an STCP connection: the three-way handshake between two ends, what the application
  learns of a refused connection, the states the control loop goes through, and the ways in which
  it does not come to an end.
\<close>

section \<open>The handshake\<close>

text \<open>Sending does not look at the queue of received packets.\<close>

lemma seal_other_queue [simp]: "seal_packet if_ip (ctx\<lparr>network_recv_queue := q\<rparr>) = seal_packet if_ip ctx"
  by (rule ext) (simp add: seal_packet_def checksum_addrs_def)

lemma send_other_queue:
  assumes "stcp_network_send if_ip ctx h bufs = Inr (Some (rc, e, c))"
  shows "stcp_network_send if_ip (ctx\<lparr>network_recv_queue := q\<rparr>) h bufs = Inr (Some (rc, e, c\<lparr>network_recv_queue := q\<rparr>))"
proof -
  obtain packet p r where "length h \<le> MAX_IP_PAYLOAD_LEN" "append_bufs h bufs = Inr packet" "seal_packet if_ip ctx packet = Inr p"
    "network_send_packet (network_state ctx) p = Inr (Some (rc, r))" "e = (if rc < 0 then sock_errno r else 0)"
    "c = ctx\<lparr>network_state := r\<rparr>"
    using assms by (auto simp: stcp_network_send_def bindw_def andthen_eq_Inr need_eq_Inr split: option.splits)
  then show ?thesis by (simp add: stcp_network_send_def)
qed

lemma sent_other_queue: "(sent ctx s)\<lparr>network_recv_queue := q\<rparr> = sent (ctx\<lparr>network_recv_queue := q\<rparr>) s"
  by (simp add: sent_def)

lemma sent_other_queue2 [simp]:
  "(sent (ctx\<lparr>network_recv_queue := q\<rparr>) s)\<lparr>network_recv_queue := q'\<rparr> = sent (ctx\<lparr>network_recv_queue := q'\<rparr>) s"
  by (simp add: sent_def)

text \<open>The reply to a header-sized receive: a packet of 20 bytes, or nothing from a closed connection.\<close>

definition reply_ok :: "uint32 \<Rightarrow> uint32 \<Rightarrow> byte list \<Rightarrow> bool" where
  "reply_ok if_ip peer p \<longleftrightarrow> p = [] \<or> length p = 20 \<and> mysock_verify_checksum if_ip peer p = Inr True"

lemma recv_reply:
  assumes "stcp_ready if_ip ctx s" and "network_recv_queue ctx = p # rest" and "reply_ok if_ip (peer_ip ctx) p"
  shows "\<exists>n e. stcp_network_recv if_ip ctx err (replicate 20 0) =
    Inr (Some (n, if p = [] then replicate 20 0 else p, e, ctx\<lparr>network_recv_queue := rest\<rparr>))"
proof (cases "p = []")
  case True
  then show ?thesis
    using assms(2) by (simp add: stcp_network_recv_def network_recv_def dequeue_def upd_def)
next
  case False
  then show ?thesis
    using recv_ready [OF assms(1,2), of 20 err] assms(3) by (simp add: reply_ok_def)
qed

text \<open>The packets a ready context sends, as functions of their fields.\<close>

lemma control_packets:
  assumes "stcp_ready if_ip ctx s"
  obtains pkt sock where
    "\<And>seq ack flags. stcp_network_send if_ip ctx (stcp_header seq ack flags) [] = Inr (Some (20, 0, sent ctx (sock seq ack flags)))"
    and "\<And>seq ack flags. segment_of if_ip ctx (sock_port s) seq ack flags [] (pkt seq ack flags)"
    and "\<And>seq ack flags. tx (sock seq ack flags) = tx s @ dgram (pkt seq ack flags)"
    and "\<And>seq ack flags. sock_port (sock seq ack flags) = sock_port s"
    and "\<And>seq ack flags. stcp_ready if_ip (sent ctx (sock seq ack flags)) (sock seq ack flags)"
proof -
  have "\<forall>f. \<exists>r. stcp_network_send if_ip ctx (stcp_header (fst f) (fst (snd f)) (snd (snd f))) [] =
      Inr (Some (20, 0, sent ctx (snd r))) \<and>
      segment_of if_ip ctx (sock_port s) (fst f) (fst (snd f)) (snd (snd f)) [] (fst r) \<and>
      tx (snd r) = tx s @ dgram (fst r) \<and> sock_port (snd r) = sock_port s \<and> stcp_ready if_ip (sent ctx (snd r)) (snd r)"
    using send_segment [OF assms, of "[]"] by auto
  from choice [OF this] obtain g where g: "\<forall>f. stcp_network_send if_ip ctx (stcp_header (fst f) (fst (snd f)) (snd (snd f))) [] =
      Inr (Some (20, 0, sent ctx (snd (g f)))) \<and>
      segment_of if_ip ctx (sock_port s) (fst f) (fst (snd f)) (snd (snd f)) [] (fst (g f)) \<and>
      tx (snd (g f)) = tx s @ dgram (fst (g f)) \<and> sock_port (snd (g f)) = sock_port s \<and>
      stcp_ready if_ip (sent ctx (snd (g f))) (snd (g f))" by blast
  show thesis
    by (rule that [of "\<lambda>q a fl. snd (g (q, a, fl))" "\<lambda>q a fl. fst (g (q, a, fl))"]) (use g in auto)
qed

lemma active_open_ready:
  assumes "stcp_ready if_ip ctx s" and "network_recv_queue ctx = p # rest" and "reply_ok if_ip (peer_ip ctx) p"
  shows "\<exists>t' s'. active_open if_ip t ctx = Inr (Some (t', 0, sent (ctx\<lparr>network_recv_queue := rest\<rparr>) s'))"
proof -
  obtain sock1 where s1: "\<And>q a f. stcp_network_send if_ip ctx (stcp_header q a f) [] = Inr (Some (20, 0, sent ctx (sock1 q a f)))"
    "\<And>q a f. stcp_ready if_ip (sent ctx (sock1 q a f)) (sock1 q a f)"
    using control_packets [OF assms(1)] by metis
  let ?s = "sock1 (initial_sequence_num t) 0 TH_SYN" and ?p = "if p = [] then replicate 20 0 else p"
  let ?c = "sent (ctx\<lparr>network_recv_queue := rest\<rparr>) ?s"
  obtain n e where r: "stcp_network_recv if_ip (sent ctx ?s) 0 (replicate 20 0) = Inr (Some (n, ?p, e, ?c))"
    using recv_reply [OF s1(2) [of "initial_sequence_num t" 0 TH_SYN], of p rest 0] assms(2,3) by (auto simp: sent_other_queue)
  have "stcp_ready if_ip ?c ?s"
    using s1(2) by (simp add: stcp_ready_queues sent_other_queue [symmetric])
  then obtain sock2 where "\<And>q a f. stcp_network_send if_ip ?c (stcp_header q a f) [] = Inr (Some (20, 0, sent ?c (sock2 q a f)))"
    using control_packets by metis
  then show ?thesis using s1(1) r by (simp add: active_open_def Let_def) blast
qed

section \<open>Properties of the handshake\<close>

text \<open>
  A refused connection is reported as established. Whatever the peer answers to the SYN (any
  packet of 20 bytes with a correct checksum, or the end of the stream), the active side sends its
  acknowledgement, whose checksum clears \<^verbatim>\<open>errno\<close>, and unblocks the application with success:
  \<^verbatim>\<open>myconnect\<close> returns 0 and the connection counts as established.
\<close>

theorem refusal_not_reported:
  assumes "get_context sd w = Inr (c, ctx)" and "blocking ctx" and "is_active ctx" and "stcp_ready if_ip ctx s"
    and "network_recv_queue ctx = p # rest" and "reply_ok if_ip (peer_ip ctx) p"
  shows "\<exists>t w' ctx'. transport_open if_ip sd True rnd w = Inr (Some (t, w')) \<and>
    connection_state t = CSTATE_ESTABLISHED \<and> get_context sd w' = Inr (c, ctx') \<and> wait_for_connection ctx' = Some (0, 0)"
proof -
  obtain t s' where h: "active_open if_ip (generate_initial_seq_num rnd calloc_context) ctx =
      Inr (Some (t, 0, sent (ctx\<lparr>network_recv_queue := rest\<rparr>) s'))"
    using active_open_ready [OF assms(4-6)] by blast
  let ?c = "sent (ctx\<lparr>network_recv_queue := rest\<rparr>) s'"
  have g: "get_context sd (put_context c ?c w) = Inr (c, ?c)"
    using get_context_put_same [OF assms(1)] by (simp add: sent_def)
  have b: "blocking ?c" "is_active ?c" using assms(2,3) by (simp_all add: sent_def)
  let ?d = "?c\<lparr>blocking := False, stcp_errno := 0\<rparr>"
  have "transport_open if_ip sd True rnd w =
      Inr (Some (t\<lparr>connection_state := CSTATE_ESTABLISHED\<rparr>, put_context c ?d (put_context c ?c w)))"
    using assms(1) h g b by (simp add: transport_open_def handshake_def stcp_unblock_application_def Let_def EINTR_def)
  moreover have "get_context sd (put_context c ?d (put_context c ?c w)) = Inr (c, ?d)"
    using get_context_put_same [OF g] by simp
  ultimately show ?thesis by (simp add: wait_for_connection_def)
qed

definition demo_client :: demux where
  "demo_client = \<lparr>ctx_mem = [0 \<mapsto> (demo_stcp [[]] [])\<lparr>is_active := True\<rparr>], ctx_brk = 1,
     global_ctx = Some 0 # replicate 63 None, errno = 0, listen_table = hash_empty 64, lq_mem = Map.empty, lq_brk = 0\<rparr>"

theorem refusal_not_reported_witness:
  "\<exists>t w' c ctx'. transport_open 0x0100007F 0 True 77 demo_client = Inr (Some (t, w')) \<and>
    connection_state t = CSTATE_ESTABLISHED \<and> get_context 0 w' = Inr (c, ctx') \<and> wait_for_connection ctx' = Some (0, 0)"
proof -
  let ?ctx = "(demo_stcp [[]] [])\<lparr>is_active := True\<rparr>"
  have get: "get_context 0 demo_client = Inr (0, ?ctx)"
    by (simp add: get_context_def verify_mysocket_descriptor_def MAX_NUM_CONNECTIONS_def demo_client_def demo_stcp_def
        fresh_context_def)
  have "stcp_ready 0x0100007F ?ctx (demo_sock [] [] [])"
    using demo_stcp_ready [of "[[]]" "[]"] by (simp add: stcp_ready_def peer_ip_def peer_port_def)
  from refusal_not_reported [OF get _ _ this, of "[]" "[]" 77] show ?thesis
    by (simp add: reply_ok_def demo_stcp_def fresh_context_def) blast
qed

text \<open>The server compares the acknowledgement without converting it, which never matches.\<close>

lemma initial_seq_bound: "\<exists>n < 256. generate_initial_seq_num rnd t = t\<lparr>initial_sequence_num := word_of_nat n, current_sequence_num := word_of_nat n\<rparr>"
proof -
  have "nat (rnd mod 256) < 256" by (simp add: nat_less_iff)
  moreover have "(word_of_int (rnd mod 256) :: uint32) = word_of_nat (nat (rnd mod 256))" by simp
  ultimately show ?thesis by (auto simp: generate_initial_seq_num_def Let_def)
qed

lemma swapped_ack:
  assumes "0 < n" and "n \<le> 256"
  shows "htonl (word_of_nat n) \<noteq> word_of_nat n"
proof
  assume eq: "htonl (word_of_nat n) = word_of_nat n"
  have n: "unat (word_of_nat n :: uint32) = n" using assms(2) by (intro unat_word_of_nat32) simp
  have "n div 256 mod 256 = n div 256" "n div 256 div 256 = 0" using assms(2) by (auto simp: div_less)
  then have "unat (htonl (word_of_nat n)) = 65536 * (n div 256) + 16777216 * (n mod 256)"
    unfolding htonl_def bytes32_def n by (simp add: unat_le32 unat_word_of_nat8)
  with eq n have "65536 * (n div 256) + 16777216 * (n mod 256) = n" by simp
  moreover have "n = 256 * (n div 256) + n mod 256" by simp
  ultimately have "n div 256 = 0" "n mod 256 = 0" by linarith+
  with assms(1) show False by (metis div_mult_mod_eq mult_0 add_0 less_irrefl)
qed

lemma segment_length: "segment_of if_ip ctx port seq ack flags [] p \<Longrightarrow> length p = 20 \<and> p \<noteq> []"
  by (auto simp: segment_of_def)

lemma recv_segment:
  assumes "stcp_ready if_ip ctx s" and "network_recv_queue ctx = p # rest" and "segment_of (peer_ip ctx) pctx port seq ack flags [] p"
    and "peer_ip pctx = if_ip"
  shows "\<exists>n e. stcp_network_recv if_ip ctx err (replicate 20 0) = Inr (Some (n, p, e, ctx\<lparr>network_recv_queue := rest\<rparr>))"
  using recv_reply [OF assms(1,2), of err] segment_length [OF assms(3)] assms(3,4)
  by (simp add: reply_ok_def segment_of_def)

lemma note_segment:
  "segment_of if_ip ctx port seq ack flags d p \<Longrightarrow> note_peer p t = t\<lparr>opp_sequence_num := seq, opp_window_size := 3072\<rparr>"
  by (simp add: note_peer_def segment_of_def RECEIVER_WINDOW_def)

lemma active_open_eq:
  assumes "stcp_network_send ip ctx (stcp_header a 0 TH_SYN) [] = Inr (Some (20, 0, sent ctx s1))" and "stcp_ready ip (sent ctx s1) s1"
    and seg: "segment_of (peer_ip ctx) pctx port b (a + 1) (TH_SYN OR TH_ACK) [] synack" and "peer_ip pctx = ip"
    and "stcp_network_send ip (sent ctx s1) (stcp_header (a + 1) (b + 1) TH_ACK) [] = Inr (Some (20, 0, sent ctx s2))"
    and t: "initial_sequence_num t = a" "current_sequence_num t = a"
  shows "active_open ip t (ctx\<lparr>network_recv_queue := [synack]\<rparr>) = Inr (Some
    (t\<lparr>opp_sequence_num := b, opp_window_size := 3072, connection_state := CSTATE_SYN_SENT, current_sequence_num := a + 1 + 1\<rparr>,
     0, sent (ctx\<lparr>network_recv_queue := []\<rparr>) s2))"
proof -
  let ?c = "sent (ctx\<lparr>network_recv_queue := [synack]\<rparr>) s1"
  have send1: "stcp_network_send ip (ctx\<lparr>network_recv_queue := [synack]\<rparr>) (stcp_header a 0 TH_SYN) [] = Inr (Some (20, 0, ?c))"
    using send_other_queue [OF assms(1)] by (simp add: sent_other_queue)
  have "stcp_ready ip ?c s1" using assms(2) by (simp add: stcp_ready_queues sent_other_queue [symmetric])
  then obtain n e where recv: "stcp_network_recv ip ?c 0 (replicate 20 0) =
      Inr (Some (n, synack, e, sent (ctx\<lparr>network_recv_queue := []\<rparr>) s1))"
    using recv_segment [of ip ?c s1 synack "[]" pctx port b "a + 1" "TH_SYN OR TH_ACK" 0] seg assms(4) by auto
  have send2: "stcp_network_send ip (sent (ctx\<lparr>network_recv_queue := []\<rparr>) s1) (stcp_header (a + 1) (b + 1) TH_ACK) [] =
      Inr (Some (20, 0, sent (ctx\<lparr>network_recv_queue := []\<rparr>) s2))"
    using send_other_queue [OF assms(5)] by (simp add: sent_other_queue)
  have "th_flags synack = TH_SYN OR TH_ACK" "ntohl (th_ack synack) = a + 1" using seg by (simp_all only: segment_of_def)
  then have "th_flags synack AND TH_ACK \<noteq> 0 \<and> th_flags synack AND TH_SYN \<noteq> 0 \<and>
      ntohl (th_ack synack) = current_sequence_num (next_seq t)"
    using t by (simp add: next_seq_def flag_defs)
  then show ?thesis
    using send1 recv send2 t note_segment [OF seg] by (simp add: active_open_def Let_def next_seq_def)
qed

lemma recv_errno: "stcp_network_recv ip ctx 0 dst = Inr (Some (n, p, e, c)) \<Longrightarrow> e = 0"
  by (auto simp: stcp_network_recv_def Let_def andthen_eq_Inr need_eq_Inr split: option.splits if_splits)

lemma passive_open_eq:
  assumes "stcp_ready ip ctx s" and syn: "segment_of (peer_ip ctx) pctx port a 0 TH_SYN [] syn"
    and "stcp_network_send ip ctx (stcp_header b (a + 1) (TH_SYN OR TH_ACK)) [] = Inr (Some (20, 0, sent ctx s3))"
    and "stcp_ready ip (sent ctx s3) s3"
    and ack: "segment_of (peer_ip ctx) pctx port' (a + 1) (b + 1) TH_ACK [] ack" and "peer_ip pctx = ip"
    and t: "current_sequence_num t = b" and "htonl (b + 1) \<noteq> b + 1"
  shows "passive_open ip t 0 (ctx\<lparr>network_recv_queue := [syn, ack]\<rparr>) = Inr (Some
    (t\<lparr>opp_sequence_num := a, opp_window_size := 3072, connection_state := CSTATE_SYN_RECEIVED, current_sequence_num := b + 1\<rparr>,
     0, sent (ctx\<lparr>network_recv_queue := []\<rparr>) s3))"
proof -
  have "stcp_ready ip (ctx\<lparr>network_recv_queue := [syn, ack]\<rparr>) s" using assms(1) by (simp add: stcp_ready_queues)
  then obtain n e where recv1: "stcp_network_recv ip (ctx\<lparr>network_recv_queue := [syn, ack]\<rparr>) 0 (replicate 20 0) =
      Inr (Some (n, syn, e, ctx\<lparr>network_recv_queue := [ack]\<rparr>))"
    using recv_segment [of ip "ctx\<lparr>network_recv_queue := [syn, ack]\<rparr>" s syn "[ack]" pctx port a 0 TH_SYN 0] syn assms(6) by auto
  let ?c = "sent (ctx\<lparr>network_recv_queue := [ack]\<rparr>) s3"
  have send: "stcp_network_send ip (ctx\<lparr>network_recv_queue := [ack]\<rparr>) (stcp_header b (a + 1) (TH_SYN OR TH_ACK)) [] = Inr (Some (20, 0, ?c))"
    using send_other_queue [OF assms(3)] by (simp add: sent_other_queue)
  have "stcp_ready ip ?c s3" using assms(4) by (simp add: stcp_ready_queues sent_other_queue [symmetric])
  then obtain m e' where recv2: "stcp_network_recv ip ?c 0 (replicate 20 0) =
      Inr (Some (m, ack, e', sent (ctx\<lparr>network_recv_queue := []\<rparr>) s3))"
    using recv_segment [of ip ?c s3 ack "[]" pctx port' "a + 1" "b + 1" TH_ACK 0] ack assms(6) by auto
  have "ntohl (th_ack ack) = b + 1" using ack by (simp only: segment_of_def)
  then have "th_ack ack = htonl (b + 1)" by (metis ntohl_htonl(2))
  then have "th_ack ack \<noteq> b + 1" using assms(8) by simp
  moreover have "th_flags syn AND TH_SYN \<noteq> 0" using syn by (simp add: segment_of_def flag_defs)
  ultimately show ?thesis
    using recv1 send recv2 recv_errno [OF recv2] t note_segment [OF syn] by (simp add: passive_open_def Let_def next_seq_def)
qed

text \<open>
  Two ends exchange their handshakes. There are packets SYN, SYN-ACK and ACK, each acknowledging the number after that of the
  packet before it, such that the active side, receiving the SYN-ACK, sends exactly SYN and ACK, the passive side, receiving SYN
  and ACK, sends exactly the SYN-ACK, and both end established and able to send without an error. Each has recorded the number of the
  other's SYN and its window; the passive side does not accept the ACK, which would set it to the next number. The SYN of
  each side has used up one sequence number and the ACK of the active side another.
\<close>

theorem three_way_handshake:
  assumes "stcp_ready ipA ctxA sA" and "stcp_ready ipB ctxB sB" and "peer_ip ctxA = ipB" and "peer_ip ctxB = ipA"
  shows "\<exists>syn synack ack tA tB sA' sB'.
    handshake ipA True rA (ctxA\<lparr>network_recv_queue := [synack]\<rparr>) =
      Inr (Some (tA, 0, sent (ctxA\<lparr>network_recv_queue := []\<rparr>) sA')) \<and>
    tx sA' = tx sA @ dgram syn @ dgram ack \<and>
    handshake ipB False rB (ctxB\<lparr>network_recv_queue := [syn, ack]\<rparr>) =
      Inr (Some (tB, 0, sent (ctxB\<lparr>network_recv_queue := []\<rparr>) sB')) \<and>
    tx sB' = tx sB @ dgram synack \<and>
    connection_state tA = CSTATE_ESTABLISHED \<and> connection_state tB = CSTATE_ESTABLISHED \<and>
    opp_sequence_num tA = initial_sequence_num tB \<and> opp_sequence_num tB = initial_sequence_num tA \<and>
    opp_window_size tA = 3072 \<and> opp_window_size tB = 3072 \<and>
    segment_of ipA ctxA (sock_port sA) (initial_sequence_num tA) 0 TH_SYN [] syn \<and>
    segment_of ipB ctxB (sock_port sB) (initial_sequence_num tB) (initial_sequence_num tA + 1) (TH_SYN OR TH_ACK) [] synack \<and>
    segment_of ipA ctxA (sock_port sA) (initial_sequence_num tA + 1) (initial_sequence_num tB + 1) TH_ACK [] ack \<and>
    current_sequence_num tA = initial_sequence_num tA + 2 \<and> current_sequence_num tB = initial_sequence_num tB + 1 \<and>
    stcp_ready ipA (sent (ctxA\<lparr>network_recv_queue := []\<rparr>) sA') sA' \<and> stcp_ready ipB (sent (ctxB\<lparr>network_recv_queue := []\<rparr>) sB') sB'"
proof -
  obtain nA where nA: "nA < 256" "generate_initial_seq_num rA calloc_context =
      calloc_context\<lparr>initial_sequence_num := word_of_nat nA, current_sequence_num := word_of_nat nA\<rparr>"
    using initial_seq_bound by blast
  obtain nB where nB: "nB < 256" "generate_initial_seq_num rB calloc_context =
      calloc_context\<lparr>initial_sequence_num := word_of_nat nB, current_sequence_num := word_of_nat nB\<rparr>"
    using initial_seq_bound by blast
  define a where "a = (word_of_nat nA :: uint32)"
  define b where "b = (word_of_nat nB :: uint32)"
  obtain syn s1 where syn: "stcp_network_send ipA ctxA (stcp_header a 0 TH_SYN) [] = Inr (Some (20, 0, sent ctxA s1))"
    "segment_of ipA ctxA (sock_port sA) a 0 TH_SYN [] syn" "tx s1 = tx sA @ dgram syn" "stcp_ready ipA (sent ctxA s1) s1"
    "sock_port s1 = sock_port sA"
    using send_segment [OF assms(1), of "[]" a 0 TH_SYN] by auto
  obtain ack s2 where ack: "stcp_network_send ipA (sent ctxA s1) (stcp_header (a + 1) (b + 1) TH_ACK) [] =
      Inr (Some (20, 0, sent ctxA s2))"
    "segment_of ipA ctxA (sock_port s1) (a + 1) (b + 1) TH_ACK [] ack" "tx s2 = tx s1 @ dgram ack" "stcp_ready ipA (sent ctxA s2) s2"
    using send_segment [OF syn(4), of "[]" "a + 1" "b + 1" TH_ACK] by auto
  obtain synack s3 where synack: "stcp_network_send ipB ctxB (stcp_header b (a + 1) (TH_SYN OR TH_ACK)) [] =
      Inr (Some (20, 0, sent ctxB s3))"
    "segment_of ipB ctxB (sock_port sB) b (a + 1) (TH_SYN OR TH_ACK) [] synack" "tx s3 = tx sB @ dgram synack"
    "stcp_ready ipB (sent ctxB s3) s3"
    using send_segment [OF assms(2), of "[]" b "a + 1" "TH_SYN OR TH_ACK"] by auto
  have "htonl (b + 1) \<noteq> b + 1"
    using swapped_ack [of "nB + 1"] nB(1) by (simp add: b_def add.commute)
  then have server: "passive_open ipB (generate_initial_seq_num rB calloc_context) 0 (ctxB\<lparr>network_recv_queue := [syn, ack]\<rparr>) = Inr (Some
    ((generate_initial_seq_num rB calloc_context)\<lparr>opp_sequence_num := a, opp_window_size := 3072,
      connection_state := CSTATE_SYN_RECEIVED, current_sequence_num := b + 1\<rparr>, 0, sent (ctxB\<lparr>network_recv_queue := []\<rparr>) s3))"
    using passive_open_eq [OF assms(2) _ synack(1,4), of ctxA "sock_port sA" syn "sock_port s1" ack] syn(2) ack(2) assms(3,4) nB(2)
    by (simp add: b_def)
  have client: "active_open ipA (generate_initial_seq_num rA calloc_context) (ctxA\<lparr>network_recv_queue := [synack]\<rparr>) = Inr (Some
    ((generate_initial_seq_num rA calloc_context)\<lparr>opp_sequence_num := b, opp_window_size := 3072,
      connection_state := CSTATE_SYN_SENT, current_sequence_num := a + 1 + 1\<rparr>, 0, sent (ctxA\<lparr>network_recv_queue := []\<rparr>) s2))"
    using active_open_eq [OF syn(1,4) _ _ ack(1), of ctxB "sock_port sB" synack] synack(2) assms(3,4) nA(2) by (simp add: a_def)
  let ?tA = "(generate_initial_seq_num rA calloc_context)\<lparr>opp_sequence_num := b, opp_window_size := 3072,
      connection_state := CSTATE_ESTABLISHED, current_sequence_num := a + 1 + 1\<rparr>"
  let ?tB = "(generate_initial_seq_num rB calloc_context)\<lparr>opp_sequence_num := a, opp_window_size := 3072,
      connection_state := CSTATE_ESTABLISHED, current_sequence_num := b + 1\<rparr>"
  have "stcp_ready ipA (sent (ctxA\<lparr>network_recv_queue := []\<rparr>) s2) s2" "stcp_ready ipB (sent (ctxB\<lparr>network_recv_queue := []\<rparr>) s3) s3"
    using ack(4) synack(4) by (simp_all add: sent_other_queue [symmetric] stcp_ready_queues)
  note ready = this
  have segs: "segment_of ipA ctxA (sock_port sA) a 0 TH_SYN [] syn" "segment_of ipB ctxB (sock_port sB) b (a + 1) (TH_SYN OR TH_ACK) [] synack"
    "segment_of ipA ctxA (sock_port sA) (a + 1) (b + 1) TH_ACK [] ack"
    using syn(2,5) synack(2) ack(2) by simp_all
  show ?thesis
    by (rule exI [of _ syn], rule exI [of _ synack], rule exI [of _ ack], rule exI [of _ ?tA], rule exI [of _ ?tB],
        rule exI [of _ s2], rule exI [of _ s3])
      (use ready client server segs syn(3) ack(3) synack(3) nA(2) nB(2) in \<open>simp add: handshake_def Let_def a_def b_def\<close>)
qed

theorem three_way_handshake_witness:
  "\<exists>ps tB sB'. handshake 0x0100007F False 200 ((demo_stcp [] [])\<lparr>network_recv_queue := ps\<rparr>) =
      Inr (Some (tB, 0, sent ((demo_stcp [] [])\<lparr>network_recv_queue := []\<rparr>) sB')) \<and> connection_state tB = CSTATE_ESTABLISHED"
proof -
  let ?A = "(demo_stcp [] [])\<lparr>network_state := (demo_io [] [] [])\<lparr>peer_addr :=
        \<lparr>sa_family = AF_INET, sin_port = 0x5000, sin_addr = 0x0100007F\<rparr>\<rparr>\<rparr>"
  have "stcp_ready 0x0200007F ?A (demo_sock [] [] [])"
    by (simp add: stcp_ready_def demo_stcp_def writable_def demo_sock_def peer_ip_def peer_port_def open_conn_def demo_io_def)
  moreover have "peer_ip ?A = 0x0100007F" "peer_ip (demo_stcp [] []) = 0x0200007F"
    by (simp_all add: peer_ip_def demo_stcp_def demo_io_def)
  ultimately show ?thesis
    using three_way_handshake [OF _ demo_stcp_ready, of "0x0200007F" ?A "demo_sock [] [] []" "[]" "[]" 100 200] by blast
qed

section \<open>The states of a connection\<close>

text \<open>
  What happens to a connection: an iteration of its control loop, a packet that arrives, data the
  application writes or reads, and, if \<open>may_close\<close>, a call of \<^verbatim>\<open>myclose\<close>.
\<close>

inductive stcp_step :: "nat \<Rightarrow> uint32 \<Rightarrow> nat \<Rightarrow> bool \<Rightarrow> context_t \<times> mysock_context \<Rightarrow> context_t \<times> mysock_context \<Rightarrow> bool"
  for fuel if_ip window may_close where
  iterate: "\<not> is_done t \<Longrightarrow> control_step fuel if_ip window (t, ctx) = Inr (Some s) \<Longrightarrow>
    stcp_step fuel if_ip window may_close (t, ctx) s"
| packet: "stcp_step fuel if_ip window may_close (t, ctx) (t, ctx\<lparr>network_recv_queue := enqueue (network_recv_queue ctx) p\<rparr>)"
| written: "stcp_step fuel if_ip window may_close (t, ctx) (t, ctx\<lparr>app_recv_queue := enqueue (app_recv_queue ctx) d\<rparr>)"
| reading: "stcp_step fuel if_ip window may_close (t, ctx) (t, ctx\<lparr>app_send_queue := q\<rparr>)"
| closing: "may_close \<Longrightarrow> stcp_step fuel if_ip window may_close (t, ctx) (t, ctx\<lparr>close_requested := True\<rparr>)"

lemma bindw_SomeD: "bindw m k = Inr (Some y) \<Longrightarrow> \<exists>x. m = Inr (Some x) \<and> k x = Inr (Some y)"
  by (cases m) (auto simp: bindw_def split: option.splits)

lemma app_data_state:
  "on_app_data fuel if_ip window t ctx = Inr (Some (t', c)) \<Longrightarrow>
    connection_state t' = connection_state t \<and> is_done t' = is_done t"
  by (auto simp: on_app_data_def stcp_app_recv_def need_eq_Inr split: option.splits dest!: bindw_SomeD)

lemma network_data_state:
  assumes "connection_state t = CSTATE_ESTABLISHED" and "on_network_data if_ip t ctx = Inr (Some (t', c))"
  shows "connection_state t' \<in> {CSTATE_ESTABLISHED, CSTATE_CLOSE_WAIT} \<and> is_done t' = is_done t"
  using assms
  by (auto simp: on_network_data_def on_ack_def on_fin_def on_data_def note_peer_def Let_def need_eq_Inr
      split: if_splits dest!: bindw_SomeD)

lemma close_state:
  "on_close if_ip t ctx = Inr (Some (t', c)) \<Longrightarrow>
    (if connection_state t = CSTATE_ESTABLISHED then connection_state t' = CSTATE_FIN_WAIT_1 \<and> is_done t' = is_done t
     else connection_state t' = CSTATE_CLOSED \<and> is_done t')"
  by (auto simp: on_close_def next_seq_def Let_def split: if_splits dest!: bindw_SomeD)

definition stcp_inv :: "context_t \<times> mysock_context \<Rightarrow> bool" where
  "stcp_inv s \<longleftrightarrow> connection_state (fst s) \<in> {CSTATE_ESTABLISHED, CSTATE_FIN_WAIT_1, CSTATE_CLOSE_WAIT, CSTATE_CLOSED} \<and>
     (is_done (fst s) \<longleftrightarrow> connection_state (fst s) = CSTATE_CLOSED)"

definition stcp_start :: "context_t \<times> mysock_context \<Rightarrow> bool" where
  "stcp_start s \<longleftrightarrow> connection_state (fst s) = CSTATE_ESTABLISHED \<and> \<not> is_done (fst s)"

lemma control_step_inv:
  assumes "stcp_inv (t, ctx)" and "\<not> is_done t" and "control_step fuel if_ip window (t, ctx) = Inr (Some s)"
  shows "stcp_inv s"
proof -
  have "\<not> (app_recv_queue ctx = [] \<and> network_recv_queue ctx = [] \<and> \<not> close_requested ctx)"
  proof
    assume "app_recv_queue ctx = [] \<and> network_recv_queue ctx = [] \<and> \<not> close_requested ctx"
    with assms(3) show False by (simp add: control_step_eq)
  qed
  note eq = trans [OF control_step_eq if_not_P [OF this]]
  obtain t1 c1 where
    1: "(if app_recv_queue ctx \<noteq> [] \<and> connection_state t = CSTATE_ESTABLISHED then on_app_data fuel if_ip window t ctx
        else Inr (Some (t, ctx\<lparr>close_requested := close_requested ctx \<and> app_recv_queue ctx \<noteq> []\<rparr>))) = Inr (Some (t1, c1))"
    and b: "bindw (if network_recv_queue ctx \<noteq> [] \<and> connection_state t1 = CSTATE_ESTABLISHED
        then on_network_data if_ip t1 c1 else Inr (Some (t1, c1))) (\<lambda>(t, c).
          if close_requested ctx \<and> app_recv_queue ctx = [] then on_close if_ip t c else Inr (Some (t, c))) = Inr (Some s)"
    using bindw_SomeD [OF assms(3) [unfolded eq]] by (auto simp del: if_split)
  obtain t2 c2 where
    2: "(if network_recv_queue ctx \<noteq> [] \<and> connection_state t1 = CSTATE_ESTABLISHED
        then on_network_data if_ip t1 c1 else Inr (Some (t1, c1))) = Inr (Some (t2, c2))"
    and 3: "(if close_requested ctx \<and> app_recv_queue ctx = [] then on_close if_ip t2 c2 else Inr (Some (t2, c2))) = Inr (Some s)"
    using bindw_SomeD [OF b] by (auto simp del: if_split)
  have "connection_state t1 = connection_state t" "\<not> is_done t1"
    using 1 assms(2) by (auto split: if_splits dest: app_data_state)
  then have "stcp_inv (t2, c2)" "\<not> is_done t2"
    using 2 assms(1,2) by (auto simp: stcp_inv_def split: if_splits dest: network_data_state)
  then show ?thesis
    using 3 by (cases s) (auto simp: stcp_inv_def split: if_splits dest: close_state)
qed

interpretation conn: step_system "stcp_step fuel if_ip window may_close" stcp_start stcp_inv for fuel if_ip window may_close
proof (unfold_locales, goal_cases)
  case (1 s)
  then show ?case by (simp add: stcp_start_def stcp_inv_def)
next
  case (2 s t)
  from 2(2,1) show ?case
  proof (cases rule: stcp_step.cases)
    case (iterate u ctx)
    with 2(1) control_step_inv show ?thesis by blast
  qed (simp_all add: stcp_inv_def)
qed

text \<open>Once its own FIN has been sent, an iteration changes nothing.\<close>

lemma not_established_idle:
  assumes "connection_state t \<noteq> CSTATE_ESTABLISHED" and "\<not> close_requested ctx \<or> app_recv_queue ctx \<noteq> []"
    and "app_recv_queue ctx \<noteq> [] \<or> network_recv_queue ctx \<noteq> []"
  shows "control_step fuel if_ip window (t, ctx) = Inr (Some (t, ctx))"
proof -
  have "ctx\<lparr>close_requested := close_requested ctx \<and> app_recv_queue ctx \<noteq> []\<rparr> = ctx"
    using assms(2) by (cases ctx) auto
  with assms show ?thesis by (auto simp: control_step_eq)
qed

definition fin_sent :: "context_t \<times> mysock_context \<Rightarrow> bool" where
  "fin_sent s \<longleftrightarrow> connection_state (fst s) = CSTATE_FIN_WAIT_1 \<and> \<not> is_done (fst s) \<and> \<not> close_requested (snd s)"

lemma fin_sent_step: "fin_sent s \<Longrightarrow> stcp_step fuel if_ip window False s s' \<Longrightarrow> fin_sent s'"
proof -
  assume f: "fin_sent s" and st: "stcp_step fuel if_ip window False s s'"
  from st f show ?thesis
  proof (cases rule: stcp_step.cases)
    case (iterate t ctx)
    have "app_recv_queue ctx \<noteq> [] \<or> network_recv_queue ctx \<noteq> []"
      using iterate f by (auto simp: control_step_eq fin_sent_def)
    then show ?thesis using iterate f not_established_idle [of t ctx fuel if_ip window] by (simp add: fin_sent_def)
  qed (auto simp: fin_sent_def)
qed

interpretation half_closed: step_system "stcp_step fuel if_ip window False" fin_sent fin_sent for fuel if_ip window
  by unfold_locales (auto intro: fin_sent_step)

section \<open>Closing\<close>

lemma control_loop_idle:
  assumes "control_step fuel if_ip window s = Inr (Some s)" and "\<not> is_done (fst s)"
  shows "control_loop n fuel if_ip window s = Inl Diverges"
  using assms by (induction n) (simp_all add: control_loop.simps)

lemma close_step:
  assumes "stcp_ready if_ip ctx s" and "app_recv_queue ctx = []" and "close_requested ctx"
    and "network_recv_queue ctx = [] \<or> connection_state t \<noteq> CSTATE_ESTABLISHED"
  shows "\<exists>p s' t'. control_step fuel if_ip window (t, ctx) = Inr (Some (t', sent (ctx\<lparr>close_requested := False\<rparr>) s')) \<and>
    segment_of if_ip ctx (sock_port s) (current_sequence_num t) 0 TH_FIN [] p \<and> tx s' = tx s @ dgram p \<and>
    (if connection_state t = CSTATE_ESTABLISHED then connection_state t' = CSTATE_FIN_WAIT_1 \<and> is_done t' = is_done t
     else connection_state t' = CSTATE_CLOSED \<and> is_done t')"
proof -
  let ?c = "ctx\<lparr>close_requested := False\<rparr>"
  have "stcp_ready if_ip ?c s" using assms(1) by (simp add: stcp_ready_queues)
  then obtain p s' where p: "stcp_network_send if_ip ?c (stcp_header (current_sequence_num t) 0 TH_FIN) [] = Inr (Some (20, 0, sent ?c s'))"
    "segment_of if_ip ?c (sock_port s) (current_sequence_num t) 0 TH_FIN [] p" "tx s' = tx s @ dgram p"
    using send_segment [of if_ip ?c s "[]" "current_sequence_num t" 0 TH_FIN] by auto
  have "control_step fuel if_ip window (t, ctx) = on_close if_ip t ?c"
    using assms(2-4) by (auto simp: control_step_eq)
  moreover obtain t' where t': "on_close if_ip t ?c = Inr (Some (t', sent ?c s'))"
    using p(1) by (simp add: on_close_def Let_def)
  moreover have "segment_of if_ip ?c = segment_of if_ip ctx" by (intro ext) (simp add: segment_of_def)
  ultimately show ?thesis using p close_state [OF t'] by (metis (no_types, lifting))
qed

section \<open>Properties of the control loop\<close>

text \<open>
  Whatever packets arrive, data is written and read, and closes are requested, a connection is
  established, in \<^verbatim>\<open>FIN_WAIT_1\<close>, in \<^verbatim>\<open>CLOSE_WAIT\<close> or closed, and it is marked done exactly when it
  is closed; the other states of the protocol, \<^verbatim>\<open>FIN_WAIT_2\<close>, \<^verbatim>\<open>LAST_ACK\<close> and \<^verbatim>\<open>TIME_WAIT\<close>, are never
  entered.
\<close>

theorem connection_states:
  assumes "connection_state t0 = CSTATE_ESTABLISHED" and "\<not> is_done t0"
    and "reachable_from (stcp_step fuel if_ip window True) (t0, ctx0) (t, ctx)"
  shows "connection_state t \<in> {CSTATE_ESTABLISHED, CSTATE_FIN_WAIT_1, CSTATE_CLOSE_WAIT, CSTATE_CLOSED} \<and>
    (is_done t \<longleftrightarrow> connection_state t = CSTATE_CLOSED)"
  using conn.reachable_inv [OF assms(3)] assms(1,2) by (simp add: stcp_start_def stcp_inv_def)

theorem connection_states_witness:
  "connection_state demo_established \<in> {CSTATE_ESTABLISHED, CSTATE_FIN_WAIT_1, CSTATE_CLOSE_WAIT, CSTATE_CLOSED}"
  using connection_states [of demo_established 6 1 1 "demo_stcp [] []" demo_established "demo_stcp [] []"] reachable_from.start
  by (simp add: demo_established_def calloc_context_def)

text \<open>
  C34: an active close never ends. Closing an established connection sends one FIN; from then on,
  whatever arrives or is written, the connection stays in \<^verbatim>\<open>FIN_WAIT_1\<close> and is not done, since
  packets are looked at in the established state only; and as soon as one packet has arrived,
  the control loop repeats an iteration that does nothing, for ever. So \<^verbatim>\<open>myclose\<close>, which waits for
  the transport thread, does not return.
\<close>

theorem active_close_never_ends:
  assumes "stcp_ready if_ip ctx s" and "connection_state t = CSTATE_ESTABLISHED" and "\<not> is_done t"
    and "app_recv_queue ctx = []" and "network_recv_queue ctx = []" and "close_requested ctx"
  shows "\<exists>p sock t' ctx'. control_step fuel if_ip window (t, ctx) = Inr (Some (t', ctx')) \<and>
    open_conn (network_state ctx') sock \<and> tx sock = tx s @ dgram p \<and> th_flags p = TH_FIN \<and>
    (\<forall>u c. reachable_from (stcp_step fuel if_ip window False) (t', ctx') (u, c) \<longrightarrow>
       connection_state u = CSTATE_FIN_WAIT_1 \<and> \<not> is_done u \<and>
       (network_recv_queue c \<noteq> [] \<longrightarrow> (\<forall>n. control_loop n fuel if_ip window (u, c) = Inl Diverges)))"
proof -
  let ?c = "ctx\<lparr>close_requested := False\<rparr>"
  obtain p sock t' where st: "control_step fuel if_ip window (t, ctx) = Inr (Some (t', sent ?c sock))"
    and p: "segment_of if_ip ctx (sock_port s) (current_sequence_num t) 0 TH_FIN [] p" "tx sock = tx s @ dgram p"
    and t': "connection_state t' = CSTATE_FIN_WAIT_1" "\<not> is_done t'"
    using close_step [OF assms(1,4,6), of t fuel window] assms(2,3,5) by auto
  have fin: "fin_sent (t', sent ?c sock)" using t' by (simp add: fin_sent_def)
  have stuck: "connection_state u = CSTATE_FIN_WAIT_1 \<and> \<not> is_done u \<and>
      (network_recv_queue c \<noteq> [] \<longrightarrow> (\<forall>n. control_loop n fuel if_ip window (u, c) = Inl Diverges))"
    if r: "reachable_from (stcp_step fuel if_ip window False) (t', sent ?c sock) (u, c)" for u c
  proof -
    have f: "fin_sent (u, c)" using half_closed.reachable_inv [OF r fin] .
    have "network_recv_queue c \<noteq> [] \<Longrightarrow> control_step fuel if_ip window (u, c) = Inr (Some (u, c))"
      using f by (intro not_established_idle) (simp_all add: fin_sent_def)
    with f show ?thesis using control_loop_idle by (simp add: fin_sent_def)
  qed
  have "open_conn (network_state (sent ?c sock)) sock"
    using open_conn_set_socket [of "network_state ctx" s sock] assms(1) by (simp add: sent_def stcp_ready_def)
  moreover have "th_flags p = TH_FIN" using p(1) by (simp only: segment_of_def)
  ultimately show ?thesis
    using st p(2) stuck by (intro exI [of _ p] exI [of _ sock] exI [of _ t'] exI [of _ "sent ?c sock"] conjI allI impI) simp_all
qed

theorem active_close_never_ends_witness:
  "\<exists>t' ctx'. control_step 6 0x0100007F 0 (demo_established, (demo_stcp [] [])\<lparr>close_requested := True\<rparr>) = Inr (Some (t', ctx')) \<and>
     connection_state t' = CSTATE_FIN_WAIT_1"
proof -
  let ?ctx = "(demo_stcp [] [])\<lparr>close_requested := True\<rparr>"
  have rdy: "stcp_ready 0x0100007F ?ctx (demo_sock [] [] [])" using demo_stcp_ready by (simp add: stcp_ready_queues)
  have est: "connection_state demo_established = CSTATE_ESTABLISHED" "\<not> is_done demo_established"
    by (simp_all add: demo_established_def calloc_context_def)
  have q: "app_recv_queue ?ctx = []" "network_recv_queue ?ctx = []" "close_requested ?ctx" by (simp_all add: demo_stcp_def)
  from active_close_never_ends [OF rdy est q, of 6 0] show ?thesis
  proof (elim exE conjE)
    fix p sock t' ctx'
    assume 1: "control_step 6 0x0100007F 0 (demo_established, ?ctx) = Inr (Some (t', ctx'))"
      and 2: "\<forall>u c. reachable_from (stcp_step 6 0x0100007F 0 False) (t', ctx') (u, c) \<longrightarrow>
        connection_state u = CSTATE_FIN_WAIT_1 \<and> \<not> is_done u \<and>
        (network_recv_queue c \<noteq> [] \<longrightarrow> (\<forall>n. control_loop n 6 0x0100007F 0 (u, c) = Inl Diverges))"
    have "connection_state t' = CSTATE_FIN_WAIT_1"
      using 2 [THEN spec, THEN spec, THEN mp, OF reachable_from.start] by (rule conjunct1)
    with 1 show ?thesis by blast
  qed
qed

text \<open>
  A passive close ends. On an established connection a FIN is acknowledged with its sequence
  number plus one and the application gets the end of the stream; when it then closes, the FIN of
  this side is sent and the control loop returns, done. (Data in the FIN packet is queued after
  the end of the stream.)
\<close>

theorem passive_close_ends:
  assumes "stcp_ready if_ip ctx s" and "connection_state t = CSTATE_ESTABLISHED" and "\<not> is_done t"
    and "app_recv_queue ctx = []" and "\<not> close_requested ctx" and "network_recv_queue ctx = [p]"
    and "20 \<le> length p" and "length p \<le> 556" and "mysock_verify_checksum if_ip (peer_ip ctx) p = Inr True"
    and "th_flags p AND TH_ACK = 0" and "th_flags p AND TH_FIN \<noteq> 0"
  shows "\<exists>a f s1 t1 ctx1 s2 t2 ctx2. control_step fuel if_ip window (t, ctx) = Inr (Some (t1, ctx1)) \<and>
    connection_state t1 = CSTATE_CLOSE_WAIT \<and>
    app_send_queue ctx1 = app_send_queue ctx @ [] # (if length p = 20 then [] else [drop 20 p]) \<and>
    open_conn (network_state ctx1) s1 \<and> tx s1 = tx s @ dgram a \<and>
    segment_of if_ip ctx (sock_port s) 0 (th_seq p + 1) TH_ACK [] a \<and>
    control_loop 1 fuel if_ip window (t1, ctx1\<lparr>close_requested := True\<rparr>) = Inr (Some (t2, ctx2)) \<and> is_done t2 \<and>
    open_conn (network_state ctx2) s2 \<and> tx s2 = tx s1 @ dgram f \<and> th_flags f = TH_FIN"
proof -
  let ?z = "replicate (556 - length p) 0" and ?c0 = "ctx\<lparr>network_recv_queue := []\<rparr>"
  have same: "ctx\<lparr>close_requested := False\<rparr> = ctx" using assms(5) by (cases ctx) simp
  have recv: "stcp_network_recv if_ip ctx 0 (replicate 556 0) = Inr (Some (length p, p @ ?z, 0, ?c0))"
    using recv_ready [OF assms(1,6,7,8) _ assms(9)] by simp
  have "bindw (on_fin if_ip (p @ ?z) (length p) t ?c0) (\<lambda>(t, ctx). Inr (Some (t, ctx))) = on_fin if_ip (p @ ?z) (length p) t ?c0"
    by (cases "on_fin if_ip (p @ ?z) (length p) t ?c0") (auto simp: bindw_def split: option.splits)
  then have step: "control_step fuel if_ip window (t, ctx) = on_fin if_ip (p @ ?z) (length p) t ?c0"
    using assms(2,4-6,10,11) recv fields_append [OF assms(7)]
    by (simp add: control_step_eq on_network_data_def STCP_MSS_def same)
  define c1 where "c1 = (let c = stcp_fin_received ?c0 in if length p > 20 then stcp_app_send c (drop 20 p) else c)"
  have c1: "app_recv_queue c1 = []" "network_recv_queue c1 = []" "peer_ip c1 = peer_ip ctx" "peer_port c1 = peer_port ctx"
    "app_send_queue c1 = app_send_queue ctx @ [] # (if length p = 20 then [] else [drop 20 p])" "stcp_ready if_ip c1 s"
    using assms(1,4,7) by (simp_all add: c1_def Let_def stcp_fin_received_def enqueue_def stcp_app_send_def stcp_ready_queues)
  obtain a s1 where a: "stcp_network_send if_ip c1 (stcp_header 0 (th_seq p + 1) TH_ACK) [] = Inr (Some (20, 0, sent c1 s1))"
    "segment_of if_ip c1 (sock_port s) 0 (th_seq p + 1) TH_ACK [] a" "tx s1 = tx s @ dgram a" "stcp_ready if_ip (sent c1 s1) s1"
    using send_segment [OF c1(6), of "[]" 0 "th_seq p + 1" TH_ACK] by auto
  let ?t1 = "(note_peer p t)\<lparr>connection_state := CSTATE_CLOSE_WAIT\<rparr>"
  have noted: "note_peer (p @ ?z) t = note_peer p t" "rd 20 (length p - 20) (p @ ?z) = drop 20 p"
    using fields_append [OF assms(7)] by (simp_all add: note_peer_def rd_def)
  have st1: "control_step fuel if_ip window (t, ctx) = Inr (Some (?t1, sent c1 s1))"
    unfolding step on_fin_def Let_def noted using a(1) assms(2) by (simp add: c1_def Let_def note_peer_def)
  let ?c2 = "(sent c1 s1)\<lparr>close_requested := True\<rparr>"
  have "stcp_ready if_ip ?c2 s1" using a(4) by (simp add: stcp_ready_queues)
  then obtain f s2 t2 where f: "control_step fuel if_ip window (?t1, ?c2) = Inr (Some (t2, sent (?c2\<lparr>close_requested := False\<rparr>) s2))"
    "segment_of if_ip ?c2 (sock_port s1) (current_sequence_num ?t1) 0 TH_FIN [] f" "tx s2 = tx s1 @ dgram f" "is_done t2"
    using close_step [of if_ip ?c2 s1 ?t1 fuel window] c1 by auto
  then have st2: "control_loop 1 fuel if_ip window (?t1, ?c2) = Inr (Some (t2, sent (?c2\<lparr>close_requested := False\<rparr>) s2))"
    using assms(3) by (simp add: control_loop.simps note_peer_def)
  have "open_conn (network_state (sent c1 s1)) s1" using a(4) by (simp add: stcp_ready_def)
  moreover from this have "open_conn (network_state (sent (?c2\<lparr>close_requested := False\<rparr>) s2)) s2"
    using open_conn_set_socket [of "network_state (sent c1 s1)" s1 s2] by (simp add: sent_def)
  moreover have "segment_of if_ip ctx (sock_port s) 0 (th_seq p + 1) TH_ACK [] a"
    using a(2) c1(3,4) by (simp add: segment_of_def)
  moreover have "th_flags f = TH_FIN" using f(2) by (simp only: segment_of_def)
  ultimately show ?thesis
    using st1 st2 a(3) f(3,4) c1(5)
    by (intro exI [of _ a] exI [of _ f] exI [of _ s1] exI [of _ ?t1] exI [of _ "sent c1 s1"] exI [of _ s2] exI [of _ t2]
        exI [of _ "sent (?c2\<lparr>close_requested := False\<rparr>) s2"] conjI) simp_all
qed

definition demo_fin :: "byte list" where
  "demo_fin = [0, 80, 48, 57, 0, 0, 0, 70, 0, 0, 0, 0, 80, 1, 12, 0, 117, 17, 0, 0]"

theorem passive_close_ends_witness:
  "\<exists>t1 ctx1 t2 ctx2. control_step 6 0x0100007F 0 (demo_established, demo_stcp [demo_fin] []) = Inr (Some (t1, ctx1)) \<and>
     app_send_queue ctx1 = [[]] \<and>
     control_loop 1 6 0x0100007F 0 (t1, ctx1\<lparr>close_requested := True\<rparr>) = Inr (Some (t2, ctx2)) \<and> is_done t2"
proof -
  have est: "connection_state demo_established = CSTATE_ESTABLISHED" "\<not> is_done demo_established"
    by (simp_all add: demo_established_def calloc_context_def)
  have q: "app_recv_queue (demo_stcp [demo_fin] []) = []" "\<not> close_requested (demo_stcp [demo_fin] [])"
    "network_recv_queue (demo_stcp [demo_fin] []) = [demo_fin]" "app_send_queue (demo_stcp [demo_fin] []) = []"
    "peer_ip (demo_stcp [demo_fin] []) = 0x0200007F"
    by (simp_all add: demo_stcp_def fresh_context_def peer_ip_def demo_io_def)
  have l: "length demo_fin = 20" by (simp add: demo_fin_def)
  have v: "mysock_verify_checksum 0x0100007F (peer_ip (demo_stcp [demo_fin] [])) demo_fin = Inr True"
    unfolding q(5) by code_simp
  have "th_flags demo_fin AND TH_ACK = 0" "th_flags demo_fin AND TH_FIN \<noteq> 0"
    by (simp_all add: th_flags_def demo_fin_def rd_def flag_defs)
  with passive_close_ends [OF demo_stcp_ready est q(1,2,3) _ _ v, of 6 0] show ?thesis
    by (simp add: l q(4)) blast
qed

section \<open>Failures\<close>

text \<open>A write that fails.\<close>

lemma send_fails:
  assumes "stcp_addr if_ip ctx s" and "tx_events s = Tx_error e # es" and "length (concat bufs) \<le> 1480"
  shows "stcp_network_send if_ip ctx (stcp_header seq ack flags) bufs =
    Inr (Some (- 1, e, sent ctx (s\<lparr>tx_events := es, so_errno := e\<rparr>)))"
proof -
  obtain p where p: "seal_packet if_ip ctx (stcp_header seq ack flags @ concat bufs) = Inr p"
    using seal_packet_ready [OF assms(1), of "stcp_header seq ack flags @ concat bufs"] assms(3) by auto
  obtain io where io: "impl_data (network_state ctx) = Some io" "connected io" "socket io = Some s" "peer_addr_len (network_state ctx) > 0"
    using assms(1) by (auto simp: stcp_addr_def open_conn_def)
  have "tcp_io sys_write 2 s [] (bytes16 w) = Inr (Some (- 1, bytes16 w, s\<lparr>tx_events := es, so_errno := e\<rparr>))" for w
    using assms(2) by (subst tcp_io.simps) (simp add: sys_write_def)
  then have "network_send_packet (network_state ctx) p =
      Inr (Some (- 1, set_socket (network_state ctx) (s\<lparr>tx_events := es, so_errno := e\<rparr>)))"
    using io by (simp add: network_send_packet_def with_socket_def tcp_connect_def)
  then show ?thesis
    using p append_bufs_eq [of "stcp_header seq ack flags" bufs] assms(3) io
    by (simp add: stcp_network_send_def MAX_IP_PAYLOAD_LEN_def sent_def sock_errno_def set_socket_def)
qed

lemma stcp_addr_sent: "stcp_addr if_ip ctx s \<Longrightarrow> stcp_addr if_ip (sent ctx t) t"
  by (auto simp: stcp_addr_def sent_def peer_ip_def peer_port_def open_conn_def set_socket_def)

text \<open>
  While writes fail, a last segment is tried again from 21 bytes further back, until it is longer than
  a full segment, which is counted as sent.
\<close>

lemma send_loop_spins:
  assumes "stcp_addr if_ip ctx s" and "tx_events s = replicate f (Tx_error e) @ es"
    and "557 \<le> n" and "n \<le> int (length payload)" and "0 < m" and "m \<le> n"
  shows "send_loop f if_ip payload (n - m) m seq ctx = Inl Diverges"
  using assms
proof (induction f arbitrary: ctx s m seq)
  case 0
  then show ?case by (simp add: send_loop.simps [of 0])
next
  case (Suc f)
  define k where "k = (if m > 536 then 536 else m)"
  have k: "0 < k" "k \<le> 536" "k \<le> m" using Suc.prems(5) by (simp_all add: k_def)
  let ?s = "s\<lparr>tx_events := replicate f (Tx_error e) @ es, so_errno := e\<rparr>"
  have "length (rd (nat (n - m)) (nat k) payload) \<le> 1480" using k by simp
  then have send: "stcp_network_send if_ip ctx (stcp_header seq 0 0) [rd (nat (n - m)) (nat k) payload] =
      Inr (Some (- 1, e, sent ctx ?s))"
    using send_fails [OF Suc.prems(1), of e "replicate f (Tx_error e) @ es" "[rd (nat (n - m)) (nat k) payload]" seq 0 0] Suc.prems(2)
    by simp
  define d where "d = (if m > 536 then 536 else - 21 :: int)"
  have "send_loop (Suc f) if_ip payload (n - m) m seq ctx =
      send_loop f if_ip payload (n - (m - d)) (m - d) (seq + word_of_int d) (sent ctx ?s)"
    using send Suc.prems(4-6) k
    by (subst send_loop.simps) (auto simp: Let_def need_def k_def d_def STCP_MSS_def algebra_simps)
  moreover have "0 < m - d" "m - d \<le> n" using Suc.prems(3,5,6) by (auto simp: d_def)
  ultimately show ?case
    using Suc.IH [of "sent ctx ?s" ?s "m - d" "seq + word_of_int d"] stcp_addr_sent [OF Suc.prems(1)] Suc.prems(3,4) by simp
qed

text \<open>
  C40: a dead connection traps the transport thread. When at least 557 bytes are taken from the
  application and writing to the connection fails, the loop that sends them does not end: for every
  number \<open>f\<close> of iterations, if the next \<open>f\<close> writes fail, it is still running after \<open>f\<close> iterations.
\<close>

theorem dead_connection_spins:
  assumes "stcp_addr if_ip ctx s" and "connection_state t = CSTATE_ESTABLISHED" and "app_recv_queue ctx = d # ds"
    and "557 \<le> length d" and "557 \<le> window" and "window \<le> 3072" and "tx_events s = replicate f (Tx_error e) @ es"
  shows "control_step f if_ip window (t, ctx) = Inl Diverges"
proof -
  let ?c = "ctx\<lparr>app_recv_queue := (if window < length d then drop window d # ds else ds)\<rparr>" and ?n = "min window (length d)"
  let ?buf = "take window d @ replicate (3072 - length (take window d)) 0"
  have "stcp_app_recv ctx window = Some (take window d, ?n, ?c)"
    using assms(3) by (auto simp: stcp_app_recv_def dequeue_def)
  moreover have "stcp_addr if_ip ?c s" using assms(1) by (simp add: stcp_addr_def)
  then have "send_loop f if_ip ?buf (int ?n - int ?n) (int ?n) (current_sequence_num t) ?c = Inl Diverges"
    using assms(4-7) by (intro send_loop_spins [of _ _ s _ e es]) auto
  ultimately have "on_app_data f if_ip window t ctx = Inl Diverges"
    using assms(6) by (simp add: on_app_data_def SENDER_WINDOW_def need_def)
  then show ?thesis using assms(2,3) by (simp add: control_step_eq)
qed

theorem dead_connection_spins_witness:
  "control_step 2 0x0100007F 3072 (demo_established, (demo_stcp [] [replicate 600 65])
     \<lparr>network_state := demo_io [Tx_error 32, Tx_error 32] [] []\<rparr>) = Inl Diverges"
proof (rule dead_connection_spins [where d = "replicate 600 65" and ds = "[]" and e = 32 and es = "[]"])
  show "stcp_addr 0x0100007F ((demo_stcp [] [replicate 600 65])\<lparr>network_state := demo_io [Tx_error 32, Tx_error 32] [] []\<rparr>)
      (demo_sock [Tx_error 32, Tx_error 32] [] [])"
    using demo_open [of "[Tx_error 32, Tx_error 32]" "[]" "[]"]
    by (simp add: stcp_addr_def peer_ip_def peer_port_def) (simp add: demo_io_def)
qed (simp_all add: demo_established_def calloc_context_def demo_stcp_def demo_sock_def numeral_2_eq_2)

text \<open>
  The end of the peer's stream aborts the process. When the TCP connection of an established
  mysocket is closed by the peer, the receiving thread queues an empty packet; the control loop
  takes it for a data packet with a negative payload length, and an assert fails.
\<close>

theorem peer_eof_aborts:
  assumes "connection_state t = CSTATE_ESTABLISHED" and "app_recv_queue ctx = []" and "network_recv_queue ctx = [] # rest"
  shows "control_step fuel if_ip window (t, ctx) = Inl Assert_failed"
proof -
  have "stcp_network_recv if_ip c 0 (replicate 556 0) = Inr (Some (0, replicate 556 0, 0, c\<lparr>network_recv_queue := rest\<rparr>))"
    if "network_recv_queue c = [] # rest" for c
    using that by (simp add: stcp_network_recv_def network_recv_def dequeue_def upd_def)
  moreover have "th_flags (replicate 556 0) = 0" by (simp add: th_flags_def rd_def)
  ultimately show ?thesis
    using assms by (simp add: control_step_eq on_network_data_def on_data_def STCP_MSS_def Let_def)
qed

theorem peer_eof_aborts_witness:
  "control_step 6 0x0100007F 3072 (demo_established, demo_stcp [[]] []) = Inl Assert_failed"
  by (rule peer_eof_aborts) (simp_all add: demo_established_def calloc_context_def demo_stcp_def)

end
