(* ===== verification/Mysock_Api.thy ===== *)
theory Mysock_Api
  imports Stcp_Lifecycle
begin

text \<open>
  The application's interface (\<^verbatim>\<open>mysock_api.c\<close>) with the parts of the layers below that only it
  uses: binding and listening (\<^verbatim>\<open>network_io_tcp.c\<close>), an iteration of the thread that receives packets
  (\<^verbatim>\<open>network_recv_thread_func\<close> of \<^verbatim>\<open>network_io_socket.c\<close>), the end of the transport thread
  (\<^verbatim>\<open>transport_thread_func\<close> of \<^verbatim>\<open>mysock.c\<close>) and the closing of a listening mysocket
  (\<^verbatim>\<open>connection_demux.c\<close>).

  The results of \<^verbatim>\<open>bind\<close> and \<^verbatim>\<open>listen\<close> are arguments. A call that waits for another thread has the value
  \<open>None\<close> until that thread has done its part; \<open>joined sd\<close> says that the transport thread of a
  descriptor has ended. Asserts are enabled, so a descriptor that is not in use aborts in
  \<^verbatim>\<open>_mysock_get_context\<close> before the checks for \<^verbatim>\<open>EBADF\<close>.
\<close>

section \<open>Creating, binding, connecting\<close>

definition EADDRNOTAVAIL :: int where "EADDRNOTAVAIL = 99"
definition EISCONN :: int where "EISCONN = 106"
definition ENOTCONN :: int where "ENOTCONN = 107"
definition EINVAL :: int where "EINVAL = 22"

definition mysocket :: "conn_sock option \<Rightarrow> demux \<Rightarrow> fault + int \<times> demux" where
  "mysocket s w = new_mysocket s w"

text \<open>\<^verbatim>\<open>MYSOCK_ERROR_EXIT\<close>.\<close>

definition error_exit :: "int \<Rightarrow> demux \<Rightarrow> int \<times> demux" where
  "error_exit rc w = (- 1, w\<lparr>errno := rc\<rparr>)"

definition network_bind_socket :: "int \<Rightarrow> network_context \<Rightarrow> fault + int" where
  "network_bind_socket rc ctx = with_socket ctx (\<lambda>_ _. Inr rc)"

definition network_bind :: "int \<Rightarrow> network_context \<Rightarrow> fault + int" where
  "network_bind rc ctx = with_socket ctx (\<lambda>_ _. network_bind_socket rc ctx)"

definition network_listen :: "int \<Rightarrow> network_context \<Rightarrow> fault + int" where
  "network_listen rc ctx = with_socket ctx (\<lambda>_ _. Inr rc)"

definition mybind :: "int \<Rightarrow> int \<Rightarrow> sockaddr \<Rightarrow> demux \<Rightarrow> fault + int \<times> demux" where
  "mybind bind_rc sd addr w =
     andthen (get_context sd w) (\<lambda>(c, ctx).
       if sa_family addr \<noteq> AF_INET then Inr (error_exit EADDRNOTAVAIL w)
       else
         need (\<not> listening ctx) Assert_failed
           (let ctx = ctx\<lparr>bound := True, network_state := (network_state ctx)\<lparr>local_addr := addr\<rparr>\<rparr>
            in andthen (network_bind bind_rc (network_state ctx)) (\<lambda>rc.
                 Inr (rc, put_context c ctx w))))"

definition mysock_bind_ephemeral :: "int \<Rightarrow> mysock_context \<Rightarrow> fault + mysock_context" where
  "mysock_bind_ephemeral bind_rc ctx =
     need (\<not> bound ctx) Assert_failed
       (andthen (network_bind bind_rc (network_state ctx)) (\<lambda>rc.
          need (rc \<ge> 0) Assert_failed (Inr (ctx\<lparr>bound := True\<rparr>))))"

text \<open>
  \<^verbatim>\<open>myconnect\<close> up to the wait for the connection: an error, or \<open>None\<close> where the call goes on to wait
  with \<open>wait_for_connection\<close>.
\<close>

definition myconnect_start :: "int \<Rightarrow> int \<Rightarrow> sockaddr \<Rightarrow> nat \<Rightarrow> demux \<Rightarrow> fault + int option \<times> demux" where
  "myconnect_start bind_rc sd name namelen w =
     andthen (get_context sd w) (\<lambda>(c, ctx).
       if peer_addr_len (network_state ctx) \<noteq> 0 then Inr (Some (- 1), w\<lparr>errno := EISCONN\<rparr>)
       else
         let ctx = ctx\<lparr>network_state := (network_state ctx)
               \<lparr>peer_addr := name, peer_addr_len := namelen, peer_addr_valid := True\<rparr>\<rparr>
         in andthen (if bound ctx then Inr ctx else mysock_bind_ephemeral bind_rc ctx) (\<lambda>ctx.
              andthen (mysock_transport_init sd True (put_context c ctx w)) (\<lambda>w. Inr (None, w))))"

definition myconnect_wait :: "int \<Rightarrow> demux \<Rightarrow> fault + (int \<times> demux) option" where
  "myconnect_wait sd w =
     andthen (get_context sd w) (\<lambda>(c, ctx).
       case wait_for_connection ctx of
         None \<Rightarrow> Inr None
       | Some (rc, err) \<Rightarrow> Inr (Some (rc, w\<lparr>errno := err\<rparr>)))"

section \<open>Listening and accepting\<close>

definition mylisten :: "bool \<Rightarrow> int \<Rightarrow> int \<Rightarrow> uint32 \<Rightarrow> demux \<Rightarrow> fault + int \<times> demux" where
  "mylisten moves listen_rc sd backlog w =
     andthen (get_context sd w) (\<lambda>(c, ctx).
       need (bound ctx) Assert_failed
         (andthen (set_backlog moves c backlog (put_context c (ctx\<lparr>listening := True\<rparr>) w)) (\<lambda>w.
            deref (ctx_mem w c) (\<lambda>ctx.
              andthen (network_listen listen_rc (network_state ctx)) (\<lambda>rc.
                if rc < 0 then Inr (- 1, w)
                else andthen (network_start_recv_thread ctx) (\<lambda>ctx. Inr (0, put_context c ctx w)))))))"

text \<open>\<^verbatim>\<open>myaccept\<close>: the return value, the address of the peer where it is filled in.\<close>

definition myaccept :: "int \<Rightarrow> demux \<Rightarrow> fault + (int \<times> sockaddr option \<times> demux) option" where
  "myaccept sd w =
     andthen (get_context sd w) (\<lambda>(_, accept_ctx).
       if \<not> listening accept_ctx then Inr (Some (- 1, None, w\<lparr>errno := EINVAL\<rparr>))
       else
         bindw (dequeue_connection accept_ctx w) (\<lambda>(n, w).
           deref (ctx_mem w n) (\<lambda>ctx.
             need (stcp_errno ctx \<noteq> 0 \<or> peer_addr_len (network_state ctx) > 0) Assert_failed
               (need (listen_sd ctx = sd) Assert_failed
                  (Inr (Some (if stcp_errno ctx \<noteq> 0 then - 1 else my_sd ctx,
                     if stcp_errno ctx = 0 then Some (peer_addr (network_state ctx)) else None,
                     w\<lparr>errno := stcp_errno ctx\<rparr>)))))))"

section \<open>Reading and writing\<close>

definition mywrite :: "int \<Rightarrow> byte list \<Rightarrow> demux \<Rightarrow> fault + int \<times> demux" where
  "mywrite sd buf w =
     andthen (get_context sd w) (\<lambda>(c, ctx).
       if listening ctx then Inr (error_exit EINVAL w)
       else
         need (\<not> close_requested ctx) Assert_failed
           (Inr (int (length buf), put_context c (ctx\<lparr>app_recv_queue := enqueue (app_recv_queue ctx) buf\<rparr>) w)))"

text \<open>\<^verbatim>\<open>myread\<close> into a buffer of \<open>buf_len\<close> bytes: the length, the bytes read.\<close>

definition myread :: "int \<Rightarrow> nat \<Rightarrow> demux \<Rightarrow> fault + (int \<times> byte list \<times> demux) option" where
  "myread sd buf_len w =
     andthen (get_context sd w) (\<lambda>(c, ctx).
       if listening ctx then Inr (Some (- 1, [], w\<lparr>errno := EINVAL\<rparr>))
       else
         need (\<not> close_requested ctx) Assert_failed
           (if eof ctx then Inr (Some (0, [], w))
            else
              case dequeue (app_send_queue ctx) buf_len True of
                None \<Rightarrow> Inr None
              | Some (bs, len, q) \<Rightarrow>
                  let ctx = ctx\<lparr>app_send_queue := q\<rparr>;
                      ctx = (if len = 0 then ctx\<lparr>eof := True\<rparr> else ctx)
                  in Inr (Some (int len, bs, put_context c ctx w))))"

text \<open>\<^verbatim>\<open>mygetsockname\<close>; \<open>if_ip\<close> is the address found for the name of the host.\<close>

definition mygetsockname :: "uint32 \<Rightarrow> int \<Rightarrow> demux \<Rightarrow> fault + int \<times> sockaddr" where
  "mygetsockname if_ip sd w =
     andthen (get_context sd w) (\<lambda>(_, ctx).
       let net = network_state ctx; addr = local_addr net
       in need (sa_family addr = 0 \<or> sa_family addr = AF_INET) Assert_failed
            (andthen (network_get_port net) (\<lambda>port.
               let addr = addr\<lparr>sa_family := AF_INET, sin_port := port\<rparr>
               in if peer_addr_valid net then
                    andthen (network_get_local_addr if_ip net) (\<lambda>ip. Inr (0, addr\<lparr>sin_addr := ip\<rparr>))
                  else Inr (0, addr))))"

text \<open>
  \<^verbatim>\<open>mygetpeername\<close> with room for a whole address: the result, the address and its length. The address is
  copied, and the length set, before the test that there is a peer.
\<close>

definition mygetpeername :: "int \<Rightarrow> demux \<Rightarrow> fault + int \<times> sockaddr option \<times> nat \<times> demux" where
  "mygetpeername sd w =
     andthen (get_context sd w) (\<lambda>(_, ctx).
       let net = network_state ctx; namelen = peer_addr_len net
       in if namelen > 0 then Inr (0, Some (peer_addr net), namelen, w)
          else Inr (- 1, None, namelen, w\<lparr>errno := ENOTCONN\<rparr>))"

section \<open>The receiving thread\<close>

text \<open>
  One iteration of \<^verbatim>\<open>network_recv_thread_func\<close> after \<^verbatim>\<open>poll\<close>: \<open>stop\<close> says that the exit pipe is readable.
  The result is whether the thread goes on, its buffer, and the state. \<open>s\<close> is the socket the system
  gives to a new mysocket.
\<close>

definition recv_thread_step ::
  "nat \<Rightarrow> bool \<Rightarrow> conn_sock option \<Rightarrow> byte list \<Rightarrow> demux \<Rightarrow> fault + (bool \<times> byte list \<times> demux) option" where
  "recv_thread_step c stop s packet_buf w =
     deref (ctx_mem w c) (\<lambda>ctx.
       if stop then Inr (Some (False, packet_buf, w))
       else
         bindw (network_recv_packet (is_active ctx) (listening ctx) (network_state ctx) packet_buf) (\<lambda>(bytes_read, packet_buf, net).
           let ctx = ctx\<lparr>network_state := net\<rparr>
           in if bytes_read \<le> 0 then
                Inr (Some (False, packet_buf,
                  put_context c (ctx\<lparr>network_recv_queue := enqueue (network_recv_queue ctx) []\<rparr>) w))
              else
                need (bytes_read \<le> int (length packet_buf)) Assert_failed
                  (let packet = take (nat bytes_read) packet_buf
                   in if listening ctx then
                        andthen (enqueue_connection c packet (peer_addr net) (peer_addr_len net) s (put_context c ctx w))
                          (\<lambda>(_, w). Inr (Some (True, packet_buf, w)))
                      else
                        Inr (Some (True, packet_buf,
                          put_context c (ctx\<lparr>network_recv_queue := enqueue (network_recv_queue ctx) packet\<rparr>) w)))))"

text \<open>The end of the transport thread, after \<^verbatim>\<open>transport_init\<close> has returned with the given \<^verbatim>\<open>errno\<close>.\<close>

definition transport_thread_end :: "nat \<Rightarrow> int \<Rightarrow> demux \<Rightarrow> fault + demux" where
  "transport_thread_end c err w =
     deref (ctx_mem w c) (\<lambda>ctx.
       andthen
         (if blocking ctx then
            stcp_unblock_application (my_sd ctx)
              (if err = 0 \<or> err = EINTR then if is_active ctx then ECONNREFUSED else ECONNABORTED else err) w
          else Inr w)
         (\<lambda>w. deref (ctx_mem w c) (\<lambda>ctx.
            Inr (put_context c (ctx\<lparr>app_send_queue := enqueue (app_send_queue ctx) []\<rparr>) w))))"

section \<open>Closing\<close>

definition network_stop_recv_thread :: "mysock_context \<Rightarrow> fault + mysock_context" where
  "network_stop_recv_thread ctx =
     (case impl_data (network_state ctx) of
        None \<Rightarrow> Inl Assert_failed
      | Some io \<Rightarrow>
          Inr (ctx\<lparr>network_state := (network_state ctx)\<lparr>impl_data := Some (io\<lparr>recv_thread_started := False\<rparr>)\<rparr>\<rparr>))"

text \<open>
  \<^verbatim>\<open>myclose\<close> and \<^verbatim>\<open>_mysock_close_passive_socket\<close> call each other; the first argument bounds the depth.
  \<open>cl\<close> is the call of \<^verbatim>\<open>myclose\<close>.
\<close>

fun close_pending :: "(int \<Rightarrow> demux \<Rightarrow> fault + (int \<times> demux) option) \<Rightarrow> connect_request list \<Rightarrow> demux \<Rightarrow> fault + demux option" where
  "close_pending cl [] w = Inr (Some w)"
| "close_pending cl (r # rs) w =
     (if req_sd r \<noteq> - 1 then bindw (cl (req_sd r) w) (\<lambda>(_, w). close_pending cl rs w) else close_pending cl rs w)"

definition close_passive_socket ::
  "(int \<Rightarrow> demux \<Rightarrow> fault + (int \<times> demux) option) \<Rightarrow> mysock_context \<Rightarrow> demux \<Rightarrow> fault + demux option" where
  "close_passive_socket cl ctx w =
     need (listening ctx \<and> bound ctx) Assert_failed
       (andthen (get_connection_queue ctx w) (\<lambda>q.
          case q of
            None \<Rightarrow> Inr (Some w)
          | Some a \<Rightarrow>
              with_queue a w (\<lambda>q.
                bindw (close_pending cl (take (max_len q) (connection_queue q)) w) (\<lambda>w.
                  andthen (hash_delete listen_hash MAX_NUM_CONNECTIONS (listen_table w) (my_sd ctx)) (\<lambda>t.
                    Inr (Some (w\<lparr>listen_table := t, lq_mem := (lq_mem w)(a := None)\<rparr>)))))))"

fun myclose :: "nat \<Rightarrow> (int \<Rightarrow> bool) \<Rightarrow> int \<Rightarrow> demux \<Rightarrow> fault + (int \<times> demux) option" where
  "myclose 0 joined sd w = Inl Diverges"
| "myclose (Suc depth) joined sd w =
     andthen (get_context sd w) (\<lambda>(c, ctx).
       let ctx = ctx\<lparr>close_requested := True\<rparr>
       in bindw
            (if transport_thread_started ctx then
               need (\<not> listening ctx) Assert_failed
                 (need (is_active ctx \<or> listen_sd ctx \<noteq> - 1) Assert_failed
                    (if joined sd then Inr (Some (ctx\<lparr>transport_thread_started := False\<rparr>)) else Inr None))
             else Inr (Some ctx))
            (\<lambda>ctx.
               andthen (network_stop_recv_thread ctx) (\<lambda>ctx.
                 bindw (if listening ctx then close_passive_socket (myclose depth joined) ctx (put_context c ctx w)
                        else Inr (Some (put_context c ctx w)))
                   (\<lambda>w. andthen (free_context w c) (\<lambda>w. Inr (Some (0, w)))))))"

declare myclose.simps(2) [simp del]

section \<open>Streams of bytes\<close>

text \<open>
  What a program that reads a stream relies on: a read with a buffer of \<open>n > 0\<close> bytes returns some of the
  next bytes, never more than \<open>n\<close>, and 0 once the stream has ended and none are left.
\<close>

fun reads :: "(nat \<Rightarrow> 's \<Rightarrow> fault + (int \<times> byte list \<times> 's) option) \<Rightarrow> nat list \<Rightarrow> 's \<Rightarrow>
    fault + ((int \<times> byte list) list \<times> 's) option" where
  "reads read_op [] s = Inr (Some ([], s))"
| "reads read_op (n # ns) s =
     bindw (read_op n s) (\<lambda>(rc, bs, s).
       bindw (reads read_op ns s) (\<lambda>(outs, s). Inr (Some ((rc, bs) # outs, s))))"

locale byte_stream =
  fixes read_op :: "nat \<Rightarrow> 's \<Rightarrow> fault + (int \<times> byte list \<times> 's) option"
    and unread :: "'s \<Rightarrow> byte list"
    and ended :: "'s \<Rightarrow> bool"
    and inv :: "'s \<Rightarrow> bool"
  assumes read_more: "inv s \<Longrightarrow> n > 0 \<Longrightarrow> unread s \<noteq> [] \<Longrightarrow>
      \<exists>k s'. read_op n s = Inr (Some (int k, take k (unread s), s')) \<and> 0 < k \<and> k \<le> n \<and> k \<le> length (unread s) \<and>
        unread s' = drop k (unread s) \<and> inv s' \<and> ended s' = ended s"
    and read_end: "inv s \<Longrightarrow> n > 0 \<Longrightarrow> unread s = [] \<Longrightarrow> ended s \<Longrightarrow>
      \<exists>s'. read_op n s = Inr (Some (0, [], s')) \<and> unread s' = [] \<and> inv s' \<and> ended s'"
begin

lemma read_some:
  assumes "inv s" and "ended s" and "n > 0"
  shows "\<exists>k s'. read_op n s = Inr (Some (int k, take k (unread s), s')) \<and> k \<le> n \<and> k \<le> length (unread s) \<and>
    (k = 0 \<longrightarrow> unread s = []) \<and> unread s' = drop k (unread s) \<and> inv s' \<and> ended s'"
proof (cases "unread s = []")
  case True
  then show ?thesis using read_end [OF assms(1,3)] assms(2) by (intro exI [of _ 0]) auto
next
  case False
  then show ?thesis using read_more [OF assms(1,3)] assms(2) by fastforce
qed

lemma reads_prefix:
  "inv s \<Longrightarrow> ended s \<Longrightarrow> list_all (\<lambda>n. n > 0) ns \<Longrightarrow>
    \<exists>outs s'. reads read_op ns s = Inr (Some (outs, s')) \<and> inv s' \<and> ended s' \<and> length outs = length ns \<and>
      list_all2 (\<lambda>(rc, bs) n. rc = int (length bs) \<and> length bs \<le> n) outs ns \<and>
      unread s = concat (map snd outs) @ unread s' \<and>
      ((0, []) \<in> set outs \<longrightarrow> unread s' = []) \<and>
      ((0, []) \<notin> set outs \<longrightarrow> length ns \<le> length (concat (map snd outs)))"
proof (induction ns arbitrary: s)
  case (Cons n ns)
  then obtain k s1 where s1: "read_op n s = Inr (Some (int k, take k (unread s), s1))" "k \<le> n" "k \<le> length (unread s)"
      "k = 0 \<longrightarrow> unread s = []" "unread s1 = drop k (unread s)" "inv s1" "ended s1"
    using read_some [of s n] by auto
  from Cons.IH [OF s1(6,7)] Cons.prems(3) obtain outs s' where IH: "reads read_op ns s1 = Inr (Some (outs, s'))" "inv s' \<and> ended s'" "length outs = length ns"
      "list_all2 (\<lambda>(rc, bs) n. rc = int (length bs) \<and> length bs \<le> n) outs ns"
      "unread s1 = concat (map snd outs) @ unread s'" "(0, []) \<in> set outs \<longrightarrow> unread s' = []"
      "(0, []) \<notin> set outs \<longrightarrow> length ns \<le> length (concat (map snd outs))"
    by auto
  let ?outs = "(int k, take k (unread s)) # outs"
  have "unread s = take k (unread s) @ concat (map snd outs) @ unread s'"
    using s1(5) IH(5) by (metis append_take_drop_id)
  moreover have "(0, []) \<in> set ?outs \<longrightarrow> unread s' = []"
    using s1(3,4,5) IH(5,6) by auto
  moreover have "(0, []) \<notin> set ?outs \<longrightarrow> length (n # ns) \<le> length (concat (map snd ?outs))"
    using s1(3) IH(7) by (cases k) auto
  ultimately show ?case
    using s1 IH by (intro exI [of _ ?outs] exI [of _ s']) simp
qed simp

lemma reads_everything:
  assumes "inv s" and "ended s" and "list_all (\<lambda>n. n > 0) ns" and "length (unread s) < length ns"
  shows "\<exists>outs s'. reads read_op ns s = Inr (Some (outs, s')) \<and> concat (map snd outs) = unread s \<and> (0, []) \<in> set outs \<and>
    unread s' = [] \<and> inv s' \<and> ended s' \<and> list_all2 (\<lambda>(rc, bs) n. rc = int (length bs) \<and> length bs \<le> n) outs ns"
proof -
  obtain outs s' where r: "reads read_op ns s = Inr (Some (outs, s'))" "inv s' \<and> ended s'"
      "list_all2 (\<lambda>(rc, bs) n. rc = int (length bs) \<and> length bs \<le> n) outs ns"
      "unread s = concat (map snd outs) @ unread s'" "(0, []) \<in> set outs \<longrightarrow> unread s' = []"
      "(0, []) \<notin> set outs \<longrightarrow> length ns \<le> length (concat (map snd outs))"
    using reads_prefix [OF assms(1-3)] by blast
  have "length (concat (map snd outs)) \<le> length (unread s)" unfolding r(4) by simp
  with assms(4) r(6) have "(0, []) \<in> set outs" by linarith
  with r show ?thesis by (intro exI [of _ outs] exI [of _ s']) simp
qed

end

text \<open>
  The stream behind a descriptor: the data before the first empty buffer, which marks its end.
\<close>

definition unread :: "int \<Rightarrow> demux \<Rightarrow> byte list" where
  "unread sd w =
     (case get_context sd w of
        Inl _ \<Rightarrow> []
      | Inr (_, ctx) \<Rightarrow> if eof ctx then [] else concat (takeWhile (\<lambda>b. b \<noteq> []) (app_send_queue ctx)))"

definition ended :: "int \<Rightarrow> demux \<Rightarrow> bool" where
  "ended sd w \<longleftrightarrow>
     (case get_context sd w of Inl _ \<Rightarrow> False | Inr (_, ctx) \<Rightarrow> eof ctx \<or> [] \<in> set (app_send_queue ctx))"

definition readable :: "int \<Rightarrow> demux \<Rightarrow> bool" where
  "readable sd w \<longleftrightarrow>
     (case get_context sd w of Inl _ \<Rightarrow> False | Inr (_, ctx) \<Rightarrow> \<not> listening ctx \<and> \<not> close_requested ctx)"

lemma myread_chunk:
  assumes "get_context sd w = Inr (c, ctx)" and "\<not> listening ctx" and "\<not> close_requested ctx" and "\<not> eof ctx"
    and "app_send_queue ctx = x # xs" and "n > 0"
  shows "myread sd n w = Inr (Some (int (min n (length x)), take n x,
    put_context c (ctx\<lparr>eof := (x = []), app_send_queue := (if length x > n then drop n x # xs else xs)\<rparr>) w))"
  using assms by (cases ctx; cases x) (auto simp: myread_def dequeue_def Let_def)

lemma myread_step:
  assumes "get_context sd w = Inr (c, ctx)" and "\<not> listening ctx" and "\<not> close_requested ctx" and "\<not> eof ctx"
    and "app_send_queue ctx = x # xs" and "n > 0"
  shows "\<exists>w'. myread sd n w = Inr (Some (int (min n (length x)), take n x, w')) \<and> readable sd w' \<and>
    unread sd w' = drop (min n (length x)) (unread sd w) \<and> ended sd w' = ended sd w"
proof -
  let ?ctx = "ctx\<lparr>eof := (x = []), app_send_queue := (if length x > n then drop n x # xs else xs)\<rparr>"
  have "get_context sd (put_context c ?ctx w) = Inr (c, ?ctx)"
    using assms(1) get_context_InrD [OF assms(1)] by (intro get_context_put_same [of _ _ _ ctx]) simp_all
  with assms show ?thesis
    by (intro exI [of _ "put_context c ?ctx w"])
      (auto simp: myread_chunk [OF assms] unread_def readable_def ended_def)
qed

interpretation app: byte_stream "myread sd" "unread sd" "ended sd" "readable sd"
  for sd
proof
  fix w n
  assume r: "readable sd w" and n: "(n :: nat) > 0"
  then obtain c ctx where ctx: "get_context sd w = Inr (c, ctx)" "\<not> listening ctx" "\<not> close_requested ctx"
    by (auto simp: readable_def split: sum.splits)
  show "\<exists>k w'. myread sd n w = Inr (Some (int k, take k (unread sd w), w')) \<and> 0 < k \<and> k \<le> n \<and> k \<le> length (unread sd w) \<and>
      unread sd w' = drop k (unread sd w) \<and> readable sd w' \<and> ended sd w' = ended sd w" if "unread sd w \<noteq> []"
  proof -
    have e: "\<not> eof ctx" and t: "concat (takeWhile (\<lambda>b. b \<noteq> []) (app_send_queue ctx)) = unread sd w"
      using that ctx(1) by (auto simp: unread_def split: if_splits)
    with that obtain x xs where x: "app_send_queue ctx = x # xs" "x \<noteq> []"
      by (cases "app_send_queue ctx") (auto split: if_splits)
    have u: "take (min n (length x)) (unread sd w) = take n x" "length x \<le> length (unread sd w)"
      unfolding t [symmetric] using x by (simp_all add: min_def)
    obtain w' where "myread sd n w = Inr (Some (int (min n (length x)), take n x, w'))" "readable sd w'"
      "unread sd w' = drop (min n (length x)) (unread sd w)" "ended sd w' = ended sd w"
      using myread_step [OF ctx e x(1) n] by blast
    with u x(2) n show ?thesis by (intro exI [of _ "min n (length x)"] exI [of _ w']) auto
  qed
  show "\<exists>w'. myread sd n w = Inr (Some (0, [], w')) \<and> unread sd w' = [] \<and> readable sd w' \<and> ended sd w'"
    if nil: "unread sd w = []" "ended sd w"
  proof (cases "eof ctx")
    case True
    with ctx r nil show ?thesis by (intro exI [of _ w]) (simp add: myread_def)
  next
    case False
    then obtain x xs where x: "app_send_queue ctx = x # xs" using nil(2) ctx(1) by (cases "app_send_queue ctx") (auto simp: ended_def)
    then have "x = []" using nil(1) ctx(1) False by (cases x) (auto simp: unread_def)
    with myread_step [OF ctx False x n] nil show ?thesis by auto
  qed
qed

section \<open>Properties\<close>

text \<open>
  C29: reading until the end of the stream. Whatever the sizes of the buffers and of the pieces in
  which data was queued for the application, as many reads as there are bytes, and one more,
  return all the data before the end mark, in order and without blocking; one of them
  returns 0, and every later read returns 0 as well.
\<close>

theorem reads_deliver_stream:
  assumes "get_context sd w = Inr (c, ctx)" and "\<not> listening ctx" and "\<not> close_requested ctx" and "\<not> eof ctx"
    and "app_send_queue ctx = qs @ [] # after" and "[] \<notin> set qs"
    and "list_all (\<lambda>n. n > 0) ns" and "length (concat qs) < length ns" and "n > 0"
  shows "\<exists>outs w' w''. reads (myread sd) ns w = Inr (Some (outs, w')) \<and> concat (map snd outs) = concat qs \<and>
    list_all2 (\<lambda>(rc, bs) n. rc = int (length bs) \<and> length bs \<le> n) outs ns \<and> (0, []) \<in> set outs \<and>
    myread sd n w' = Inr (Some (0, [], w''))"
proof -
  have "takeWhile (\<lambda>b. b \<noteq> []) (app_send_queue ctx) = qs"
    using assms(6) by (subst assms(5), subst takeWhile_append2) auto
  then have u: "unread sd w = concat qs" and r: "readable sd w" "ended sd w"
    using assms by (simp_all add: unread_def readable_def ended_def)
  obtain outs w' where o: "reads (myread sd) ns w = Inr (Some (outs, w'))" "concat (map snd outs) = concat qs"
    "(0, []) \<in> set outs" "unread sd w' = []" "readable sd w'" "ended sd w'"
    "list_all2 (\<lambda>(rc, bs) n. rc = int (length bs) \<and> length bs \<le> n) outs ns"
    using app.reads_everything [OF r assms(7)] assms(8) u by auto
  moreover obtain w'' where "myread sd n w' = Inr (Some (0, [], w''))"
    using app.read_end [OF o(5) assms(9) o(4,6)] by blast
  ultimately show ?thesis by blast
qed

definition demo_conn :: "mysock_context \<Rightarrow> demux" where
  "demo_conn ctx = \<lparr>ctx_mem = [0 \<mapsto> ctx], ctx_brk = 1, global_ctx = Some 0 # replicate 63 None, errno = 0,
     listen_table = hash_empty 64, lq_mem = Map.empty, lq_brk = 0\<rparr>"

lemma demo_conn_get: "my_sd ctx = 0 \<Longrightarrow> get_context 0 (demo_conn ctx) = Inr (0, ctx)"
  by (simp add: get_context_def verify_mysocket_descriptor_def MAX_NUM_CONNECTIONS_def demo_conn_def)

theorem reads_deliver_stream_witness:
  "\<exists>outs w'. reads (myread 0) [2, 2, 9, 1, 4] (demo_conn ((demo_stcp [] [])\<lparr>app_send_queue := [[1, 2, 3], [4], []]\<rparr>)) =
      Inr (Some (outs, w')) \<and> concat (map snd outs) = [1, 2, 3, 4]"
  using reads_deliver_stream [OF demo_conn_get, of "(demo_stcp [] [])\<lparr>app_send_queue := [[1, 2, 3], [4], []]\<rparr>"
      "[[1, 2, 3], [4]]" "[]" "[2, 2, 9, 1, 4]" 5]
  by (auto simp: demo_stcp_def fresh_context_def)

text \<open>
  A packet that is not a SYN stops a server. The receiving thread of a listening mysocket takes a
  TCP connection whose first packet is too short or has no SYN flag and drops the packet, but
  keeps the accepted socket in \<^verbatim>\<open>new_socket\<close>; the next TCP connection then fails the assert that
  \<^verbatim>\<open>new_socket\<close> is free.
\<close>

theorem stray_packet_aborts_server:
  assumes "ctx_mem w c = Some ctx" and "listening ctx" and "bound ctx" and "\<not> is_active ctx"
    and "impl_data (network_state ctx) = Some io" and "socket io = Some s0" and "new_socket io = None"
    and "pending io = Accepted peer1 conn1 # Accepted peer2 conn2 # es"
    and "arrived (rx conn1) = dgram p @ rest" and "p \<noteq> []" and "length p \<le> 1500" and "length buf = 1500"
    and "length p < 20 \<or> p ! 13 AND TH_SYN = 0"
  shows "\<exists>buf' w'. recv_thread_step c False s buf w = Inr (Some (True, buf', w')) \<and>
    recv_thread_step c False s' buf' w' = Inl Assert_failed"
proof -
  have "length p < 65536" "buf \<noteq> []" using assms(11,12) by auto
  then obtain es' where f: "recv_frame conn1 buf = Inr (Some (int (length p), p @ drop (length p) buf, conn1\<lparr>rx := es'\<rparr>))"
    using recv_frame_arrived [OF assms(9,10), of buf] assms(11,12) by auto
  let ?buf = "p @ drop (length p) buf"
  let ?net = "(network_state ctx)\<lparr>peer_addr := peer1, peer_addr_len := 16,
    impl_data := Some (io\<lparr>pending := Accepted peer2 conn2 # es, new_socket := Some (conn1\<lparr>rx := es'\<rparr>)\<rparr>)\<rparr>"
  let ?w = "put_context c (ctx\<lparr>network_state := ?net\<rparr>) w"
  have "enqueue_connection c p peer1 16 s ?w = Inr (False, ?w)"
    using assms(2,3,13) by (simp add: enqueue_connection_def put_context_def)
  then have "recv_thread_step c False s buf w = Inr (Some (True, ?buf, ?w))"
    using assms f by (simp add: recv_thread_step_def network_recv_packet_def with_socket_def)
  moreover have "recv_thread_step c False s' ?buf ?w = Inl Assert_failed"
    using assms(2,4,6) by (simp add: recv_thread_step_def network_recv_packet_def with_socket_def put_context_def)
  ultimately show ?thesis by blast
qed

theorem stray_packet_aborts_server_witness:
  "\<exists>ctx buf' w'. recv_thread_step 0 False None (replicate 1500 0) (demo_conn ctx) = Inr (Some (True, buf', w')) \<and>
    recv_thread_step 0 False None buf' w' = Inl Assert_failed"
proof -
  let ?conn = "demo_sock [] [Arrived [0, 1], Arrived [7]] []"
  let ?io = "\<lparr>recv_thread_started = True, socket = Some (demo_sock [] [] []), new_socket = None, connected = False,
    pending = [Accepted zero_addr ?conn, Accepted zero_addr ?conn]\<rparr>"
  let ?ctx = "demo_listener\<lparr>network_state := (network_state demo_listener)\<lparr>impl_data := Some ?io\<rparr>\<rparr>"
  have "arrived (rx ?conn) = dgram [7] @ []" by (simp add: demo_sock_def dgram_def) code_simp
  then show ?thesis
    using stray_packet_aborts_server [of "demo_conn ?ctx" 0 ?ctx ?io "demo_sock [] [] []" zero_addr ?conn zero_addr ?conn
        "[]" "[7]" "[]" "replicate 1500 0" None None]
    by (intro exI [of _ ?ctx]) (simp add: demo_conn_def demo_listener_def fresh_context_def)
qed

lemma listen_table_put [simp]:
  "listen_table (put_context c ctx w) = listen_table w" "listen_table (put_queue a q w) = listen_table w"
  "put_queue a q (put_queue a q' w) = put_queue a q w"
  by (simp_all add: put_context_def put_queue_def)

lemma complete_request_pending:
  assumes "lq_ok n q" and "sd \<in> req_sd ` set (connection_queue q)"
  shows "\<exists>q'. complete_request sd q = Inr q'"
proof (cases "find_index (\<lambda>r. req_sd r = sd) 0 (connection_queue q)")
  case None
  with assms(2) show ?thesis by (auto simp: find_index_None)
qed (use assms(1) in \<open>simp add: complete_request_def lq_ok_def\<close>)

lemma take_completed_gone:
  assumes "lq_ok n q" and "take_completed q = Inr (Some (sd, q'))"
  shows "sd \<notin> req_sd ` set (connection_queue q')"
proof
  assume "sd \<in> req_sd ` set (connection_queue q')"
  then obtain j where j: "j < length (connection_queue q')" "req_sd (connection_queue q' ! j) = sd"
    by (metis imageE in_set_conv_nth)
  obtain b k rest where c: "completed_queue q = (b, k) # rest" and sd: "sd = req_sd (connection_queue q ! k)"
    and q': "connection_queue q' = (connection_queue q)[k := invalid_request]"
    using assms(2) by (auto simp: take_completed_def need_eq_Inr split: list.splits)
  then have k: "k \<in> pending_slots q" using assms(1) by (auto simp: lq_ok_def)
  then have "j \<noteq> k" using j sd q' by (auto simp: pending_slots_def invalid_request_def)
  then have "req_sd (connection_queue q ! j) = req_sd (connection_queue q ! k)" "j \<in> pending_slots q"
    using j sd q' k by (auto simp: pending_slots_def)
  with \<open>j \<noteq> k\<close> k assms(1) show False by (auto simp: lq_ok_def dest: inj_onD)
qed

lemma get_context_errno: "get_context sd (w\<lparr>errno := e\<rparr>) = get_context sd w"
  by (simp add: get_context_def verify_mysocket_descriptor_def cong: option.case_cong)

text \<open>
  Accepting. While no handshake is complete \<^verbatim>\<open>myaccept\<close> blocks. Once the transport layer of a pending
  connection unblocks the application, \<^verbatim>\<open>myaccept\<close> on its listening mysocket returns the
  descriptor of the connection with the address of its peer, or -1 with the error the handshake
  ended with, and the connection leaves the queue; \<^verbatim>\<open>mygetpeername\<close> on that descriptor gives the same address.
\<close>

theorem completed_connection_accepted:
  assumes "get_context sd w = Inr (m, conn)" and "blocking conn" and "\<not> is_active conn" and "listen_sd conn = lsd"
    and "peer_addr_len (network_state conn) > 0"
    and "get_context lsd w = Inr (c, ctx)" and "sd \<noteq> lsd" and "listening ctx" and "bound ctx"
    and "hash_lookup_ptr listen_hash MAX_NUM_CONNECTIONS (listen_table w) lsd = Inr (Some a)"
    and "lq_mem w a = Some q" and "lq_ok n q" and "sd \<in> req_sd ` set (connection_queue q)" and "completed_queue q = []"
  shows "\<exists>w1 w2 q'. myaccept lsd w = Inr None \<and> stcp_unblock_application sd err w = Inr w1 \<and>
    myaccept lsd w1 =
      Inr (Some (if err = 0 \<or> err = EINTR then (sd, Some (peer_addr (network_state conn)), w2) else (- 1, None, w2))) \<and>
    errno w2 = (if err = EINTR then 0 else err) \<and>
    lq_mem w2 a = Some q' \<and> lq_ok n q' \<and> completed_queue q' = [] \<and> sd \<notin> req_sd ` set (connection_queue q') \<and>
    mygetpeername sd w2 = Inr (0, Some (peer_addr (network_state conn)), peer_addr_len (network_state conn), w2)"
proof -
  define e where "e = (if err = EINTR then 0 else err)"
  let ?conn = "conn\<lparr>blocking := False, stcp_errno := e\<rparr>"
  have sd: "sd \<ge> 0" "ctx_mem w m = Some conn" "my_sd conn = sd" and lsd: "lsd \<ge> 0" "ctx_mem w c = Some ctx" "my_sd ctx = lsd"
    using get_context_InrD [OF assms(1)] get_context_InrD [OF assms(6)] by auto
  have mc: "m \<noteq> c" using sd lsd assms(7) by auto
  let ?w = "put_context m ?conn w"
  have get: "get_context sd ?w = Inr (m, ?conn)" "get_context lsd ?w = Inr (c, ctx)"
    using get_context_put_same [OF assms(1), of ?conn] get_context_put_other [OF assms(6) mc] by simp_all
  obtain q1 where q1: "complete_request sd q = Inr q1"
    using complete_request_pending [OF assms(12,13)] by blast
  have ok: "lq_ok n q1" "completed_sds q1 = [sd]"
    using complete_ok [OF assms(12) q1 sd(1)] assms(14) by (simp_all add: completed_sds_def)
  then obtain q2 where q2: "take_completed q1 = Inr (Some (sd, q2))" "lq_ok n q2" "completed_queue q2 = []"
    using take_completed_ok [OF ok(1)] by (auto simp: completed_sds_def)
  have "stcp_unblock_application sd err w = Inr (put_queue a q1 ?w)"
    using assms get sd lsd q1
    by (simp add: stcp_unblock_application_def Let_def e_def [symmetric] passive_connection_complete_def get_connection_queue_def
        with_queue_def put_context_def)
  moreover have "dequeue_connection ctx (put_queue a q1 ?w) = Inr (Some (m, put_queue a q2 ?w))"
    using assms get lsd q2
    by (simp add: dequeue_connection_def get_connection_queue_def with_queue_def)
  then have "myaccept lsd (put_queue a q1 ?w) = Inr (Some (if e = 0 then (sd, Some (peer_addr (network_state conn)), (put_queue a q2 ?w)\<lparr>errno := e\<rparr>)
      else (- 1, None, (put_queue a q2 ?w)\<lparr>errno := e\<rparr>)))"
    using assms get sd by (simp add: myaccept_def)
  moreover have "myaccept lsd w = Inr None"
    using assms lsd by (simp add: myaccept_def dequeue_connection_def get_connection_queue_def with_queue_def take_completed_def)
  moreover have "get_context sd ((put_queue a q2 ?w)\<lparr>errno := e\<rparr>) = Inr (m, ?conn)"
    using get(1) by (simp add: get_context_errno)
  then have "mygetpeername sd ((put_queue a q2 ?w)\<lparr>errno := e\<rparr>) =
      Inr (0, Some (peer_addr (network_state conn)), peer_addr_len (network_state conn), (put_queue a q2 ?w)\<lparr>errno := e\<rparr>)"
    using assms(5) by (simp add: mygetpeername_def Let_def)
  ultimately show ?thesis
    using q2 take_completed_gone [OF ok(1) q2(1)]
    by (intro exI [of _ "put_queue a q1 ?w"] exI [of _ "(put_queue a q2 ?w)\<lparr>errno := e\<rparr>"] exI [of _ q2])
      (auto simp: put_queue_def errno_defs e_def)
qed

text \<open>A listening mysocket 0 with one pending connection, mysocket 1.\<close>

definition demo_pending :: listen_queue where
  "demo_pending = demo_queue\<lparr>cur_len := 1, connection_queue := [demo_request 1, invalid_request]\<rparr>"

definition demo_passive :: mysock_context where
  "demo_passive = accepted_context (demo_sock [] [] []) (demo_sock [] [] []) 1 0 (req_peer (demo_request 1)) 16 demo_syn"

definition demo_server :: demux where
  "demo_server = \<lparr>ctx_mem = [0 \<mapsto> demo_listener, 1 \<mapsto> demo_passive], ctx_brk = 2,
     global_ctx = Some 0 # Some 1 # replicate 62 None, errno = 0,
     listen_table = (hash_empty 64)[0 := [(0, 0)]], lq_mem = [0 \<mapsto> demo_pending], lq_brk = 2\<rparr>"

lemma demo_pending_ok: "lq_ok 2 demo_pending"
proof -
  have "pending_slots demo_pending = {0}"
    by (auto simp: pending_slots_def demo_pending_def demo_request_def invalid_request_def less_Suc_eq numeral_2_eq_2)
  then show ?thesis
    by (simp add: lq_ok_def) (simp add: demo_pending_def demo_queue_def demo_request_def invalid_request_def)
qed

lemma demo_server_get:
  "get_context 0 demo_server = Inr (0, demo_listener)" "get_context 1 demo_server = Inr (1, demo_passive)"
  by (simp_all add: get_context_def verify_mysocket_descriptor_def MAX_NUM_CONNECTIONS_def fresh_context_def
      demo_server_def demo_listener_def demo_passive_def accepted_context_def)

lemma demo_server_table:
  "hash_rep listen_hash MAX_NUM_CONNECTIONS (listen_table demo_server) (\<lambda>k. map_of ((listen_table demo_server) ! listen_hash k) k)"
  by (auto simp: hash_rep_def demo_server_def hash_empty_def MAX_NUM_CONNECTIONS_def nth_list_update)

lemma demo_server_lookup: "map_of ((listen_table demo_server) ! listen_hash 0) 0 = Some 0"
  by (simp add: demo_server_def hash_empty_def listen_hash_def)

lemma demo_server_ok: "table_ok demo_server"
  by (auto simp: table_ok_def MAX_NUM_CONNECTIONS_def demo_server_def nth_Cons' demo_listener_def fresh_context_def
      demo_passive_def accepted_context_def split: if_splits)

theorem completed_connection_accepted_witness:
  "\<exists>w1 w2. myaccept 0 demo_server = Inr None \<and> stcp_unblock_application 1 0 demo_server = Inr w1 \<and>
    myaccept 0 w1 = Inr (Some (1, Some (req_peer (demo_request 1)), w2))"
proof -
  have "hash_lookup_ptr listen_hash MAX_NUM_CONNECTIONS (listen_table demo_server) 0 = Inr (Some 0)"
    using hash_lookup_rep [OF demo_server_table, of 0] demo_server_lookup
    by (simp add: listen_hash_def MAX_NUM_CONNECTIONS_def)
  moreover have "lq_mem demo_server 0 = Some demo_pending" by (simp add: demo_server_def)
  moreover have "peer_addr (network_state demo_passive) = req_peer (demo_request 1)"
    by (simp add: demo_passive_def accepted_context_def)
  ultimately show ?thesis
    using completed_connection_accepted [OF demo_server_get(2) _ _ _ _ demo_server_get(1) _ _ _ _ _ demo_pending_ok, of 0 0]
    by (simp add: demo_passive_def accepted_context_def fresh_context_def demo_listener_def demo_pending_def demo_queue_def
        demo_request_def) blast
qed

definition closable :: "(int \<Rightarrow> bool) \<Rightarrow> int \<Rightarrow> demux \<Rightarrow> bool" where
  "closable joined sd w \<longleftrightarrow>
     (case get_context sd w of
        Inl _ \<Rightarrow> False
      | Inr (_, ctx) \<Rightarrow> \<not> listening ctx \<and>
          (transport_thread_started ctx \<longrightarrow> (is_active ctx \<or> listen_sd ctx \<noteq> - 1) \<and> joined sd))"

definition same_listeners :: "demux \<Rightarrow> demux \<Rightarrow> bool" where
  "same_listeners w w' \<longleftrightarrow> listen_table w' = listen_table w \<and> lq_mem w' = lq_mem w"

lemma table_ok_put:
  "table_ok w \<Longrightarrow> ctx_mem w c = Some ctx \<Longrightarrow> my_sd ctx' = my_sd ctx \<Longrightarrow> impl_data (network_state ctx') \<noteq> None \<Longrightarrow>
    table_ok (put_context c ctx' w)"
  unfolding table_ok_def put_context_def by (simp, metis option.inject)

lemma get_context_impl:
  "table_ok w \<Longrightarrow> get_context sd w = Inr (c, ctx) \<Longrightarrow> impl_data (network_state ctx) \<noteq> None"
  using get_context_InrD [of sd w c ctx] by (auto elim!: table_okD)

lemma get_context_put_elsewhere:
  assumes "table_ok w" and "get_context sd w = Inr (c, ctx)" and "nat sd' \<noteq> nat sd" and "nat sd' < 64"
  shows "get_context sd' (put_context c x w) = get_context sd' w"
proof (rule get_context_cong)
  fix c'
  assume "global_ctx w ! nat sd' = Some c'"
  then have "c' \<noteq> c"
    using assms get_context_InrD [OF assms(2)] table_okD [OF assms(1), of "nat sd'" c']
    by (metis MAX_NUM_CONNECTIONS_def nat_int option.inject)
  then show "ctx_mem (put_context c x w) c' = ctx_mem w c'" by (simp add: put_context_def)
qed (simp add: put_context_def)

text \<open>Releasing the descriptor of a context that was written last.\<close>

lemma free_after_put:
  assumes "table_ok w" and "get_context sd w = Inr (c, ctx)" and "my_sd x = sd" and "impl_data (network_state x) \<noteq> None"
  shows "\<exists>w'. free_context (put_context c x w) c = Inr w' \<and> table_ok w' \<and> get_context sd w' = Inl Assert_failed \<and>
    (\<forall>sd'. nat sd' \<noteq> nat sd \<longrightarrow> nat sd' < 64 \<longrightarrow> get_context sd' w' = get_context sd' w) \<and> same_listeners w w'"
proof -
  have sd: "ctx_mem w c = Some ctx" "my_sd ctx = sd" using get_context_InrD [OF assms(2)] by auto
  have ok: "table_ok (put_context c x w)" using table_ok_put [OF assms(1) sd(1)] sd(2) assms(3,4) by simp
  have get: "get_context sd (put_context c x w) = Inr (c, x)"
    using get_context_put_same [OF assms(2)] sd(2) assms(3) by simp
  obtain w' where w': "free_context (put_context c x w) c = Inr w'" "table_ok w'" "get_context sd w' = Inl Assert_failed"
    "\<forall>sd'. nat sd' \<noteq> nat sd \<longrightarrow> nat sd' < 64 \<longrightarrow> get_context sd' w' = get_context sd' (put_context c x w)"
    using descriptor_released [OF ok get] by blast
  moreover have "same_listeners w w'"
    using w'(1) by (auto simp: same_listeners_def free_context_def put_context_def andthen_eq_Inr Let_def)
  ultimately show ?thesis
    using get_context_put_elsewhere [OF assms(1,2)] by auto
qed

lemma myclose_connection:
  assumes "table_ok w" and "closable joined sd w"
  shows "\<exists>w'. myclose (Suc depth) joined sd w = Inr (Some (0, w')) \<and> table_ok w' \<and> get_context sd w' = Inl Assert_failed \<and>
    (\<forall>sd'. nat sd' \<noteq> nat sd \<longrightarrow> nat sd' < 64 \<longrightarrow> get_context sd' w' = get_context sd' w) \<and> same_listeners w w'"
proof -
  obtain c ctx where get: "get_context sd w = Inr (c, ctx)" and nl: "\<not> listening ctx"
    and tt: "transport_thread_started ctx \<longrightarrow> (is_active ctx \<or> listen_sd ctx \<noteq> - 1) \<and> joined sd"
    using assms(2) by (auto simp: closable_def split: sum.splits)
  obtain io where io: "impl_data (network_state ctx) = Some io"
    using get_context_impl [OF assms(1) get] by auto
  define x where "x = (if transport_thread_started ctx
    then ctx\<lparr>close_requested := True, transport_thread_started := False\<rparr> else ctx\<lparr>close_requested := True\<rparr>)
      \<lparr>network_state := (network_state ctx)\<lparr>impl_data := Some (io\<lparr>recv_thread_started := False\<rparr>)\<rparr>\<rparr>"
  have "myclose (Suc depth) joined sd w = andthen (free_context (put_context c x w) c) (\<lambda>w. Inr (Some (0, w)))"
    using get nl tt io by (cases "transport_thread_started ctx") (simp_all add: myclose.simps(2) x_def Let_def network_stop_recv_thread_def)
  moreover have "my_sd x = sd" "impl_data (network_state x) \<noteq> None"
    using get_context_InrD [OF get] by (simp_all add: x_def)
  ultimately show ?thesis
    using free_after_put [OF assms(1) get] by fastforce
qed

lemma close_pending_closes:
  "table_ok w \<Longrightarrow> distinct (map req_sd (filter (\<lambda>r. req_sd r \<noteq> - 1) rs)) \<Longrightarrow>
    \<forall>r \<in> set rs. req_sd r \<noteq> - 1 \<longrightarrow> closable joined (req_sd r) w \<Longrightarrow>
    \<exists>w'. close_pending (myclose (Suc depth) joined) rs w = Inr (Some w') \<and> table_ok w' \<and> same_listeners w w' \<and>
      (\<forall>r \<in> set rs. req_sd r \<noteq> - 1 \<longrightarrow> get_context (req_sd r) w' = Inl Assert_failed) \<and>
      (\<forall>sd'. 0 \<le> sd' \<longrightarrow> sd' < 64 \<longrightarrow> sd' \<notin> req_sd ` set rs \<longrightarrow> get_context sd' w' = get_context sd' w)"
proof (induction rs arbitrary: w)
  case (Cons r rs)
  show ?case
  proof (cases "req_sd r = - 1")
    case True
    with Cons.IH [OF Cons.prems(1)] Cons.prems(2,3) show ?thesis by auto
  next
    case False
    with Cons.prems have cl: "closable joined (req_sd r) w" by simp
    then obtain w1 where w1: "myclose (Suc depth) joined (req_sd r) w = Inr (Some (0, w1))" "table_ok w1"
        "get_context (req_sd r) w1 = Inl Assert_failed" "same_listeners w w1"
        "\<forall>sd'. nat sd' \<noteq> nat (req_sd r) \<longrightarrow> nat sd' < 64 \<longrightarrow> get_context sd' w1 = get_context sd' w"
      using myclose_connection [OF Cons.prems(1)] by blast
    have range: "0 \<le> sd \<and> sd < 64" if "closable joined sd w" for sd
      using that by (auto simp: closable_def MAX_NUM_CONNECTIONS_def dest!: get_context_InrD split: sum.splits)
    have "closable joined (req_sd x) w1" if "x \<in> set rs" "req_sd x \<noteq> - 1" for x
    proof -
      have "closable joined (req_sd x) w" using that Cons.prems(3) by simp
      moreover have "req_sd x \<noteq> req_sd r" using that Cons.prems(2) False by (force simp: image_iff)
      ultimately show ?thesis using range [OF cl] range [of "req_sd x"] w1(5) by (auto simp: closable_def)
    qed
    then obtain w' where w': "close_pending (myclose (Suc depth) joined) rs w1 = Inr (Some w')" "table_ok w'"
        "same_listeners w1 w'" "\<forall>r \<in> set rs. req_sd r \<noteq> - 1 \<longrightarrow> get_context (req_sd r) w' = Inl Assert_failed"
        "\<forall>sd'. 0 \<le> sd' \<longrightarrow> sd' < 64 \<longrightarrow> sd' \<notin> req_sd ` set rs \<longrightarrow> get_context sd' w' = get_context sd' w1"
      using Cons.IH [OF w1(2)] Cons.prems(2) False by auto
    have "req_sd r \<notin> req_sd ` set rs" using Cons.prems(2) False by force
    then have "get_context (req_sd r) w' = Inl Assert_failed" using w'(5) w1(3) range [OF cl] by simp
    moreover have "get_context sd' w' = get_context sd' w"
      if "0 \<le> sd'" "sd' < 64" "sd' \<notin> req_sd ` set (r # rs)" for sd'
      using that w'(5) w1(5) range [OF cl] by auto
    moreover have "same_listeners w w'" using w1(4) w'(3) by (simp add: same_listeners_def)
    ultimately show ?thesis using w1(1) w'(1,2,4) False by auto
  qed
qed (simp add: same_listeners_def)

lemma lq_ok_distinct:
  assumes "lq_ok n q"
  shows "distinct (map req_sd (filter (\<lambda>r. req_sd r \<noteq> - 1) (connection_queue q)))"
proof -
  have inj: "inj_on (\<lambda>k. req_sd (connection_queue q ! k)) (pending_slots q)" using assms by (simp add: lq_ok_def)
  have "map req_sd (filter (\<lambda>r. req_sd r \<noteq> - 1) (connection_queue q)) =
      map (\<lambda>k. req_sd (connection_queue q ! k)) (filter (\<lambda>k. k \<in> pending_slots q) [0..<length (connection_queue q)])"
    by (subst map_nth [of "connection_queue q", symmetric], subst filter_map, simp add: comp_def)
      (rule arg_cong [where f = "map _"], rule filter_cong, auto simp: pending_slots_def)
  then show ?thesis using inj by (auto simp: distinct_map intro: inj_on_subset)
qed

lemma listen_hash_less: "0 \<le> sd \<Longrightarrow> listen_hash sd < MAX_NUM_CONNECTIONS"
proof -
  assume "0 \<le> sd"
  then have "sgn sd * (\<bar>sd\<bar> mod 64) = sd mod 64" by (cases "sd = 0") simp_all
  then show ?thesis
    by (simp add: listen_hash_def MAX_NUM_CONNECTIONS_def unat_eq_nat_uint uint_word_of_int nat_less_iff)
qed

text \<open>
  Closing a mysocket. A connection's \<^verbatim>\<open>myclose\<close> blocks until its transport thread has ended, and then
  releases exactly its descriptor.
\<close>

theorem connection_closed:
  assumes "table_ok w" and "get_context sd w = Inr (c, ctx)" and "\<not> listening ctx" and "transport_thread_started ctx"
    and "is_active ctx \<or> listen_sd ctx \<noteq> - 1"
  shows "(if joined sd then
      (\<exists>w'. myclose (Suc depth) joined sd w = Inr (Some (0, w')) \<and> table_ok w' \<and> get_context sd w' = Inl Assert_failed \<and>
        (\<forall>sd'. nat sd' \<noteq> nat sd \<longrightarrow> nat sd' < 64 \<longrightarrow> get_context sd' w' = get_context sd' w))
    else myclose (Suc depth) joined sd w = Inr None)"
proof (cases "joined sd")
  case True
  then have "closable joined sd w" using assms by (simp add: closable_def)
  from myclose_connection [OF assms(1) this] True show ?thesis by auto
qed (use assms in \<open>simp add: myclose.simps(2) Let_def\<close>)

theorem connection_closed_witness:
  "\<exists>w'. myclose 1 (\<lambda>_. True) 1 demo_server = Inr (Some (0, w')) \<and> get_context 1 w' = Inl Assert_failed"
  using connection_closed [OF demo_server_ok demo_server_get(2), of "\<lambda>_. True" 0]
  by (auto simp: demo_passive_def accepted_context_def fresh_context_def)

lemma release_listener:
  assumes "table_ok w" and "get_context lsd w = Inr (c, x)"
  shows "\<exists>w'. free_context (w\<lparr>listen_table := t, lq_mem := m\<rparr>) c = Inr w' \<and> table_ok w' \<and>
    get_context lsd w' = Inl Assert_failed \<and> listen_table w' = t \<and> lq_mem w' = m \<and>
    (\<forall>sd'. nat sd' \<noteq> nat lsd \<longrightarrow> nat sd' < 64 \<longrightarrow> get_context sd' w' = get_context sd' w)"
proof -
  let ?w = "w\<lparr>listen_table := t, lq_mem := m\<rparr>"
  have ok: "table_ok ?w" using assms(1) by (simp add: table_ok_def)
  have get: "get_context sd' ?w = get_context sd' w" for sd' by (rule get_context_cong) simp_all
  obtain w' where w': "free_context ?w c = Inr w'" "table_ok w'" "get_context lsd w' = Inl Assert_failed"
    "\<forall>sd'. nat sd' \<noteq> nat lsd \<longrightarrow> nat sd' < 64 \<longrightarrow> get_context sd' w' = get_context sd' ?w"
    using descriptor_released [OF ok, of lsd c x] assms(2) get by auto
  moreover have "listen_table w' = t" "lq_mem w' = m"
    using w'(1) by (auto simp: free_context_def andthen_eq_Inr Let_def split: option.splits)
  ultimately show ?thesis using get by auto
qed

text \<open>Closing a listening mysocket whose pending connections all end.\<close>

lemma listener_closes:
  assumes "table_ok w" and "get_context lsd w = Inr (c, ctx)" and "listening ctx" and "bound ctx"
    and "\<not> transport_thread_started ctx"
    and "hash_rep listen_hash MAX_NUM_CONNECTIONS (listen_table w) f" and "f lsd = Some a"
    and "lq_mem w a = Some q" and "lq_ok n q"
    and "\<forall>r \<in> set (connection_queue q). req_sd r \<noteq> - 1 \<longrightarrow> closable joined (req_sd r) w"
  shows "\<exists>w'. myclose (Suc (Suc depth)) joined lsd w = Inr (Some (0, w')) \<and> table_ok w' \<and>
    get_context lsd w' = Inl Assert_failed \<and>
    (\<forall>r \<in> set (connection_queue q). req_sd r \<noteq> - 1 \<longrightarrow> get_context (req_sd r) w' = Inl Assert_failed) \<and>
    hash_rep listen_hash MAX_NUM_CONNECTIONS (listen_table w') (f(lsd := None)) \<and> lq_mem w' = (lq_mem w)(a := None) \<and>
    (\<forall>sd'. 0 \<le> sd' \<longrightarrow> sd' < 64 \<longrightarrow> sd' \<notin> insert lsd (req_sd ` set (connection_queue q)) \<longrightarrow>
       get_context sd' w' = get_context sd' w)"
proof -
  have lsd: "0 \<le> lsd" "nat lsd < 64" "ctx_mem w c = Some ctx" "my_sd ctx = lsd"
    using get_context_InrD [OF assms(2)] by (auto simp: MAX_NUM_CONNECTIONS_def)
  obtain io where io: "impl_data (network_state ctx) = Some io"
    using get_context_impl [OF assms(1,2)] by auto
  define x where "x = ctx\<lparr>close_requested := True,
    network_state := (network_state ctx)\<lparr>impl_data := Some (io\<lparr>recv_thread_started := False\<rparr>)\<rparr>\<rparr>"
  define w0 where "w0 = put_context c x w"
  have ok0: "table_ok w0" and get0: "get_context lsd w0 = Inr (c, x)"
    using table_ok_put [OF assms(1) lsd(3), of x] get_context_put_same [OF assms(2), of x] by (simp_all add: w0_def x_def)
  have pend: "0 \<le> sd \<and> sd < 64 \<and> sd \<noteq> lsd" if "closable joined sd w" for sd
    using that assms(2,3) by (auto simp: closable_def MAX_NUM_CONNECTIONS_def dest: get_context_InrD split: sum.splits)
  have same0: "get_context sd' w0 = get_context sd' w" if "0 \<le> sd'" "sd' < 64" "sd' \<noteq> lsd" for sd'
    using get_context_put_elsewhere [OF assms(1,2), of sd' x] that lsd by (simp add: w0_def)
  have cl0: "\<forall>r \<in> set (connection_queue q). req_sd r \<noteq> - 1 \<longrightarrow> closable joined (req_sd r) w0"
    using assms(10) pend same0 by (auto simp: closable_def)
  obtain w1 where w1: "close_pending (myclose (Suc depth) joined) (connection_queue q) w0 = Inr (Some w1)"
      "table_ok w1" "same_listeners w0 w1"
      "\<forall>r \<in> set (connection_queue q). req_sd r \<noteq> - 1 \<longrightarrow> get_context (req_sd r) w1 = Inl Assert_failed"
      "\<forall>sd'. 0 \<le> sd' \<longrightarrow> sd' < 64 \<longrightarrow> sd' \<notin> req_sd ` set (connection_queue q) \<longrightarrow> get_context sd' w1 = get_context sd' w0"
    using close_pending_closes [OF ok0 lq_ok_distinct [OF assms(9)] cl0] by blast
  have "lsd \<notin> req_sd ` set (connection_queue q)" using assms(10) pend lsd(1) by force
  then have get1: "get_context lsd w1 = Inr (c, x)" using w1(5) lsd get0 by simp
  obtain t where t: "hash_delete listen_hash MAX_NUM_CONNECTIONS (listen_table w) lsd = Inr t"
    "hash_rep listen_hash MAX_NUM_CONNECTIONS t (f(lsd := None))"
    using htab.delete_rep [OF assms(6) listen_hash_less [OF lsd(1)]] by blast
  have tab: "listen_table w1 = listen_table w" "lq_mem w1 = lq_mem w"
    using w1(3) by (simp_all add: same_listeners_def w0_def)
  obtain w3 where w3: "free_context (w1\<lparr>listen_table := t, lq_mem := (lq_mem w)(a := None)\<rparr>) c = Inr w3" "table_ok w3"
    "get_context lsd w3 = Inl Assert_failed" "listen_table w3 = t" "lq_mem w3 = (lq_mem w)(a := None)"
    "\<forall>sd'. nat sd' \<noteq> nat lsd \<longrightarrow> nat sd' < 64 \<longrightarrow> get_context sd' w3 = get_context sd' w1"
    using release_listener [OF w1(2) get1] by blast
  have "myclose (Suc (Suc depth)) joined lsd w = Inr (Some (0, w3))"
    using assms(2-5,7-9) io lsd w1(1) t(1) tab hash_lookup_rep [OF assms(6) listen_hash_less [OF lsd(1)]] w3(1)
    by (simp add: myclose.simps(2) Let_def network_stop_recv_thread_def x_def [symmetric] w0_def [symmetric])
      (simp add: close_passive_socket_def x_def get_connection_queue_def with_queue_def lq_ok_def w0_def)
  moreover have "get_context (req_sd r) w3 = Inl Assert_failed" if "r \<in> set (connection_queue q)" "req_sd r \<noteq> - 1" for r
    using that w1(4) w3(6) pend [of "req_sd r"] assms(10) lsd by auto
  moreover have "get_context sd' w3 = get_context sd' w"
    if "0 \<le> sd'" "sd' < 64" "sd' \<notin> insert lsd (req_sd ` set (connection_queue q))" for sd'
    using that w3(6) w1(5) same0 lsd by auto
  ultimately show ?thesis using w3(2-5) t(2) by auto
qed

text \<open>The descriptors of pending connections: a context that does not listen, with a transport thread that can be waited for.\<close>

abbreviation connection_context :: "int \<Rightarrow> demux \<Rightarrow> bool" where
  "connection_context \<equiv> closable (\<lambda>_. True)"

lemma close_pending_blocks:
  "table_ok w \<Longrightarrow> distinct (map req_sd (filter (\<lambda>r. req_sd r \<noteq> - 1) rs)) \<Longrightarrow>
    \<forall>r \<in> set rs. req_sd r \<noteq> - 1 \<longrightarrow> connection_context (req_sd r) w \<Longrightarrow>
    \<exists>r \<in> set rs. req_sd r \<noteq> - 1 \<and> \<not> closable joined (req_sd r) w \<Longrightarrow>
    close_pending (myclose (Suc depth) joined) rs w = Inr None"
proof (induction rs arbitrary: w)
  case (Cons r rs)
  show ?case
  proof (cases "req_sd r = - 1")
    case True
    with Cons show ?thesis by auto
  next
    case False
    then have ctx: "connection_context (req_sd r) w" using Cons.prems(3) by simp
    have range: "0 \<le> sd \<and> sd < 64" if "connection_context sd w" for sd
      using that by (auto simp: closable_def MAX_NUM_CONNECTIONS_def dest!: get_context_InrD split: sum.splits)
    show ?thesis
    proof (cases "closable joined (req_sd r) w")
      case True
      then obtain w1 where w1: "myclose (Suc depth) joined (req_sd r) w = Inr (Some (0, w1))" "table_ok w1"
          "\<forall>sd'. nat sd' \<noteq> nat (req_sd r) \<longrightarrow> nat sd' < 64 \<longrightarrow> get_context sd' w1 = get_context sd' w"
        using myclose_connection [OF Cons.prems(1)] by blast
      have same: "closable j (req_sd x) w1 = closable j (req_sd x) w" if "x \<in> set rs" "req_sd x \<noteq> - 1" for x j
      proof -
        have "req_sd x \<noteq> req_sd r" using that Cons.prems(2) False by (force simp: image_iff)
        then show ?thesis
          using range [OF ctx] range [of "req_sd x"] Cons.prems(3) that w1(3) by (auto simp: closable_def)
      qed
      have "close_pending (myclose (Suc depth) joined) rs w1 = Inr None"
        using Cons.IH [OF w1(2)] Cons.prems(2-4) False True same by auto
      then show ?thesis using w1(1) False by simp
    next
      case blocked: False
      with ctx obtain c x where "get_context (req_sd r) w = Inr (c, x)" "\<not> listening x" "transport_thread_started x"
          "is_active x \<or> listen_sd x \<noteq> - 1" "\<not> joined (req_sd r)"
        by (auto simp: closable_def split: sum.splits)
      then have "myclose (Suc depth) joined (req_sd r) w = Inr None" by (simp add: myclose.simps(2) Let_def)
      then show ?thesis using False by simp
    qed
  qed
qed simp

text \<open>Before its descriptor is released, closing a listening mysocket closes the pending connections.\<close>

lemma listener_blocks:
  assumes "table_ok w" and "get_context lsd w = Inr (c, ctx)" and "listening ctx" and "bound ctx"
    and "\<not> transport_thread_started ctx"
    and "hash_rep listen_hash MAX_NUM_CONNECTIONS (listen_table w) f" and "f lsd = Some a"
    and "lq_mem w a = Some q" and "lq_ok n q"
    and "\<forall>r \<in> set (connection_queue q). req_sd r \<noteq> - 1 \<longrightarrow> connection_context (req_sd r) w"
    and "\<exists>r \<in> set (connection_queue q). req_sd r \<noteq> - 1 \<and> \<not> closable joined (req_sd r) w"
  shows "myclose (Suc (Suc depth)) joined lsd w = Inr None"
proof -
  have lsd: "0 \<le> lsd" "nat lsd < 64" "ctx_mem w c = Some ctx" "my_sd ctx = lsd"
    using get_context_InrD [OF assms(2)] by (auto simp: MAX_NUM_CONNECTIONS_def)
  obtain io where io: "impl_data (network_state ctx) = Some io"
    using get_context_impl [OF assms(1,2)] by auto
  define x where "x = ctx\<lparr>close_requested := True,
    network_state := (network_state ctx)\<lparr>impl_data := Some (io\<lparr>recv_thread_started := False\<rparr>)\<rparr>\<rparr>"
  define w0 where "w0 = put_context c x w"
  have ok0: "table_ok w0" using table_ok_put [OF assms(1) lsd(3), of x] by (simp add: w0_def x_def lsd)
  have same: "closable j (req_sd r) w0 = closable j (req_sd r) w" if "r \<in> set (connection_queue q)" "req_sd r \<noteq> - 1" for r j
  proof -
    have "connection_context (req_sd r) w" using that assms(10) by simp
    then have "0 \<le> req_sd r" "req_sd r < 64" "req_sd r \<noteq> lsd"
      using assms(2,3) by (auto simp: closable_def MAX_NUM_CONNECTIONS_def dest: get_context_InrD split: sum.splits)
    then show ?thesis
      using get_context_put_elsewhere [OF assms(1,2), of "req_sd r" x] lsd by (simp add: w0_def closable_def)
  qed
  have "close_pending (myclose (Suc depth) joined) (connection_queue q) w0 = Inr None"
    by (rule close_pending_blocks [OF ok0 lq_ok_distinct [OF assms(9)]]) (use assms(10,11) same in blast)+
  then show ?thesis
    using assms(2-5,7-9) io lsd hash_lookup_rep [OF assms(6) listen_hash_less [OF lsd(1)]]
    by (simp add: myclose.simps(2) Let_def network_stop_recv_thread_def x_def [symmetric] w0_def [symmetric])
      (simp add: close_passive_socket_def x_def get_connection_queue_def with_queue_def lq_ok_def w0_def)
qed

text \<open>
  C31: closing a listening mysocket closes every connection that has not been accepted, and waits for its transport
  thread. If the transport threads of all pending connections end, the call returns 0, the listening descriptor and those of
  the pending connections are refused from then on, the listen queue is freed and removed from the table, and no other
  descriptor is affected. If the transport thread of one of them does not end, the call never returns.
\<close>

theorem listener_closed:
  assumes "table_ok w" and "get_context lsd w = Inr (c, ctx)" and "listening ctx" and "bound ctx"
    and "\<not> transport_thread_started ctx"
    and "hash_rep listen_hash MAX_NUM_CONNECTIONS (listen_table w) f" and "f lsd = Some a"
    and "lq_mem w a = Some q" and "lq_ok n q"
    and "\<forall>r \<in> set (connection_queue q). req_sd r \<noteq> - 1 \<longrightarrow>
      (\<exists>c' ctx'. get_context (req_sd r) w = Inr (c', ctx') \<and> \<not> listening ctx' \<and> transport_thread_started ctx' \<and>
         (is_active ctx' \<or> listen_sd ctx' \<noteq> - 1))"
  shows "if \<forall>r \<in> set (connection_queue q). req_sd r \<noteq> - 1 \<longrightarrow> joined (req_sd r) then
    \<exists>w'. myclose (Suc (Suc depth)) joined lsd w = Inr (Some (0, w')) \<and> table_ok w' \<and>
    get_context lsd w' = Inl Assert_failed \<and>
    (\<forall>r \<in> set (connection_queue q). req_sd r \<noteq> - 1 \<longrightarrow> get_context (req_sd r) w' = Inl Assert_failed) \<and>
    hash_rep listen_hash MAX_NUM_CONNECTIONS (listen_table w') (f(lsd := None)) \<and> lq_mem w' = (lq_mem w)(a := None) \<and>
    (\<forall>sd'. 0 \<le> sd' \<longrightarrow> sd' < 64 \<longrightarrow> sd' \<notin> insert lsd (req_sd ` set (connection_queue q)) \<longrightarrow>
       get_context sd' w' = get_context sd' w)
    else myclose (Suc (Suc depth)) joined lsd w = Inr None"
proof -
  have cl: "closable j (req_sd r) w \<longleftrightarrow> j (req_sd r)" if "r \<in> set (connection_queue q)" "req_sd r \<noteq> - 1" for r j
    using assms(10) that by (auto simp: closable_def split: sum.splits)
  show ?thesis
  proof (cases "\<forall>r \<in> set (connection_queue q). req_sd r \<noteq> - 1 \<longrightarrow> joined (req_sd r)")
    case True
    with cl have "\<forall>r \<in> set (connection_queue q). req_sd r \<noteq> - 1 \<longrightarrow> closable joined (req_sd r) w" by simp
    from listener_closes [OF assms(1-9) this] True show ?thesis by simp
  next
    case False
    with cl show ?thesis using listener_blocks [OF assms(1-9), of joined depth] by auto
  qed
qed

theorem listener_closed_witness:
  "(\<exists>w'. myclose 2 (\<lambda>_. True) 0 demo_server = Inr (Some (0, w')) \<and> get_context 0 w' = Inl Assert_failed \<and>
     get_context 1 w' = Inl Assert_failed) \<and> myclose 2 (\<lambda>_. False) 0 demo_server = Inr None"
proof -
  have "lq_mem demo_server 0 = Some demo_pending" by (simp add: demo_server_def)
  moreover have "\<forall>r \<in> set (connection_queue demo_pending). req_sd r \<noteq> - 1 \<longrightarrow>
      (\<exists>c' ctx'. get_context (req_sd r) demo_server = Inr (c', ctx') \<and> \<not> listening ctx' \<and> transport_thread_started ctx' \<and>
         (is_active ctx' \<or> listen_sd ctx' \<noteq> - 1))"
    using demo_server_get by (simp add: demo_pending_def demo_request_def invalid_request_def)
      (simp add: demo_passive_def accepted_context_def fresh_context_def)
  moreover have "demo_request 1 \<in> set (connection_queue demo_pending)" "req_sd (demo_request 1) = 1"
    by (simp_all add: demo_pending_def demo_request_def)
  ultimately have "if \<forall>r \<in> set (connection_queue demo_pending). req_sd r \<noteq> - 1 \<longrightarrow> joined (req_sd r) then
      \<exists>w'. myclose 2 joined 0 demo_server = Inr (Some (0, w')) \<and> get_context 0 w' = Inl Assert_failed \<and>
        get_context 1 w' = Inl Assert_failed
    else myclose 2 joined 0 demo_server = Inr None" for joined
    using listener_closed [OF demo_server_ok demo_server_get(1) _ _ _ demo_server_table demo_server_lookup _ demo_pending_ok,
        of joined 0]
    by (fastforce simp: demo_listener_def fresh_context_def numeral_2_eq_2 split: if_splits)
  from this [of "\<lambda>_. True"] this [of "\<lambda>_. False"] show ?thesis
    by (simp add: demo_pending_def demo_request_def)
qed

end
