(* ===== verification/File_Transfer.thy ===== *)
theory File_Transfer
  imports Mysock_Api C_Text
begin

text \<open>
  The file transfer programs on top of the mysocket interface (\<^verbatim>\<open>server.c\<close>, \<^verbatim>\<open>client.c\<close>): the client sends
  the name of a file as a line, the server answers with a line \<^verbatim>\<open>name,length,Ok\<close> and the contents
  of the file, or with the length -1, and the client writes the contents to a file.

  The functions that only read are parametrised by the read operation and used with \<^verbatim>\<open>myread\<close>. The file
  system of the server is an argument; its \<^verbatim>\<open>read\<close> calls succeed. The client runs without the quiet option,
  which leaves the received file empty; messages are left out. The programs around these functions are in
  \<open>File_Programs\<close> and \<open>File_Dialogue\<close>.
\<close>

section \<open>Lines\<close>

definition crlf :: "byte list" where "crlf = [13, 10]"

text \<open>\<^verbatim>\<open>get_nvt_line\<close>: the return value and the line; \<open>cap\<close> is the room left in the caller's array.\<close>

function nvt_loop ::
  "(nat \<Rightarrow> 's \<Rightarrow> fault + (int \<times> byte list \<times> 's) option) \<Rightarrow> nat \<Rightarrow> byte list \<Rightarrow> 's \<Rightarrow>
     fault + (int \<times> byte list \<times> 's) option" where
  "nvt_loop read_op cap line s =
     (case read_op 1 s of
        Inl e \<Rightarrow> Inl e
      | Inr None \<Rightarrow> Inr None
      | Inr (Some (len, bs, s)) \<Rightarrow>
          if len < 0 then Inr (Some (- 1, line, s))
          else if len = 0 then need (cap > 0) Out_of_bounds (Inr (Some (0, line, s)))
          else if line \<noteq> [] \<and> last line = 13 \<and> hd bs = 10 then Inr (Some (0, butlast line, s))
          else if cap = 0 then Inl Out_of_bounds
          else nvt_loop read_op (cap - 1) (line @ [hd bs]) s)"
  by pat_completeness auto
termination
  by (relation "measure (\<lambda>(_, cap, _, _). cap)") auto

declare nvt_loop.simps [simp del]

definition get_nvt_line :: "nat \<Rightarrow> int \<Rightarrow> demux \<Rightarrow> fault + (int \<times> byte list \<times> demux) option" where
  "get_nvt_line room sd w = nvt_loop (myread sd) room [] w"

definition c_string :: "byte list \<Rightarrow> byte list" where
  "c_string bs = takeWhile (\<lambda>b. b \<noteq> 0) bs"

section \<open>The server\<close>

datatype file_result = No_access | Open_fails | Contents "byte list"

definition response :: "byte list \<Rightarrow> file_result \<Rightarrow> byte list" where
  "response line file =
     (case file of
        No_access \<Rightarrow> line @ ascii '',-1,File does not exist or access denied'' @ crlf
      | Open_fails \<Rightarrow> line @ ascii '',-1,File could not be opened'' @ crlf
      | Contents c \<Rightarrow> line @ ascii '','' @ decimal (length c) @ ascii '',Ok'' @ crlf)"

text \<open>The loop that reads the file and writes it to the mysocket, 5000 bytes at a time.\<close>

function write_file :: "int \<Rightarrow> byte list \<Rightarrow> demux \<Rightarrow> fault + int \<times> demux" where
  "write_file sd c w =
     (if c = [] then Inr (0, w)
      else
        case mywrite sd (take 5000 c) w of
          Inl e \<Rightarrow> Inl e
        | Inr (rc, w) \<Rightarrow> if rc < 0 then Inr (- 1, w) else write_file sd (drop 5000 c) w)"
  by pat_completeness auto
termination
  by (relation "measure (\<lambda>(_, c, _). length c)") auto

declare write_file.simps [simp del]

definition process_line :: "(byte list \<Rightarrow> file_result) \<Rightarrow> int \<Rightarrow> byte list \<Rightarrow> demux \<Rightarrow> fault + int \<times> demux" where
  "process_line fs sd line w =
     (let file = (if line = [] then No_access else fs line)
      in need (length (response line file) < 5000) Out_of_bounds
           (andthen (mywrite sd (response line file) w) (\<lambda>(rc, w).
              if rc < 0 then Inr (- 1, w)
              else case file of Contents c \<Rightarrow> write_file sd c w | _ \<Rightarrow> Inr (0, w))))"

text \<open>An iteration of the loop of \<^verbatim>\<open>do_connection\<close>: whether it goes on.\<close>

definition do_connection_step :: "(byte list \<Rightarrow> file_result) \<Rightarrow> int \<Rightarrow> demux \<Rightarrow> fault + (bool \<times> demux) option" where
  "do_connection_step fs sd w =
     bindw (get_nvt_line 256 sd w) (\<lambda>(rc, line, w).
       if rc < 0 \<or> c_string line = [] then Inr (Some (False, w))
       else andthen (process_line fs sd (c_string line) w) (\<lambda>(rc, w). Inr (Some (rc \<ge> 0, w))))"

section \<open>The client\<close>

datatype client_result = Read_error | Malformed | Server_error | Received int "byte list"

definition split_last :: "byte \<Rightarrow> byte list \<Rightarrow> (byte list \<times> byte list) option" where
  "split_last c bs =
     (if c \<in> set bs then
        Some (rev (tl (dropWhile (\<lambda>b. b \<noteq> c) (rev bs))), rev (takeWhile (\<lambda>b. b \<noteq> c) (rev bs)))
      else None)"

text \<open>The loop that receives the file: the number of missing bytes, the bytes written to the file.\<close>

function recv_file ::
  "(nat \<Rightarrow> 's \<Rightarrow> fault + (int \<times> byte list \<times> 's) option) \<Rightarrow> int \<Rightarrow> byte list \<Rightarrow> 's \<Rightarrow>
     fault + (int \<times> byte list \<times> 's) option" where
  "recv_file read_op left file s =
     (if left = 0 then Inr (Some (0, file, s))
      else if left < 0 then Inl Out_of_bounds
      else
        case read_op (nat (min left 1000)) s of
          Inl e \<Rightarrow> Inl e
        | Inr None \<Rightarrow> Inr None
        | Inr (Some (got, bs, s)) \<Rightarrow>
            if got \<le> 0 then Inr (Some (left, file, s))
            else recv_file read_op (left - min got (min left 1000)) (file @ take (nat (min got (min left 1000))) bs) s)"
  by pat_completeness auto
termination
  by (relation "measure (\<lambda>(_, left, _, _). nat left)") auto

declare recv_file.simps [simp del]

text \<open>The answer of the server; \<open>uninit\<close> is the indeterminate value of \<^verbatim>\<open>length\<close>.\<close>

definition parse_response :: "int \<Rightarrow> byte list \<Rightarrow> int option" where
  "parse_response uninit line =
     (case split_last 44 line of
        None \<Rightarrow> None
      | Some (line, _) \<Rightarrow>
          (case split_last 44 line of
             None \<Rightarrow> None
           | Some (_, lenstr) \<Rightarrow> Some (case scan_int lenstr of None \<Rightarrow> uninit | Some n \<Rightarrow> n)))"

definition send_request :: "int \<Rightarrow> byte list \<Rightarrow> demux \<Rightarrow> fault + int \<times> demux" where
  "send_request sd filename w =
     need (length filename + 3 \<le> 1000) Out_of_bounds (mywrite sd (filename @ crlf) w)"

definition receive_answer :: "int \<Rightarrow> int \<Rightarrow> demux \<Rightarrow> fault + (client_result \<times> demux) option" where
  "receive_answer uninit sd w =
     bindw (get_nvt_line 1000 sd w) (\<lambda>(rc, line, w).
       if rc < 0 then Inr (Some (Read_error, w))
       else
         case parse_response uninit (c_string line) of
           None \<Rightarrow> Inr (Some (Malformed, w))
         | Some n \<Rightarrow>
             if n = - 1 then Inr (Some (Server_error, w))
             else bindw (recv_file (myread sd) n [] w) (\<lambda>(left, file, w). Inr (Some (Received left file, w))))"

section \<open>Correctness\<close>

context byte_stream
begin

lemma read_byte:
  assumes "inv s" and "unread s = b # rest"
  shows "\<exists>s'. read_op 1 s = Inr (Some (1, [b], s')) \<and> unread s' = rest \<and> inv s' \<and> ended s' = ended s"
proof -
  obtain k s' where "read_op 1 s = Inr (Some (int k, take k (unread s), s'))" "0 < k" "k \<le> 1"
    "unread s' = drop k (unread s)" "inv s'" "ended s' = ended s"
    using read_more [OF assms(1), of 1] assms(2) by auto
  moreover from this have "k = 1" by simp
  ultimately show ?thesis using assms(2) by auto
qed

lemma nvt_loop_line:
  "inv s \<Longrightarrow> unread s = l @ 13 # 10 # rest \<Longrightarrow> 13 \<notin> set l \<Longrightarrow> length l < cap \<Longrightarrow> line = [] \<or> last line \<noteq> 13 \<Longrightarrow>
    \<exists>s'. nvt_loop read_op cap line s = Inr (Some (0, line @ l, s')) \<and> unread s' = rest \<and> inv s' \<and> ended s' = ended s"
proof (induction l arbitrary: s cap line)
  case Nil
  obtain s1 where s1: "read_op 1 s = Inr (Some (1, [13], s1))" "unread s1 = 10 # rest" "inv s1" "ended s1 = ended s"
    using read_byte [OF Nil(1)] Nil(2) by auto
  obtain s2 where s2: "read_op 1 s1 = Inr (Some (1, [10], s2))" "unread s2 = rest" "inv s2" "ended s2 = ended s1"
    using read_byte [OF s1(3,2)] by auto
  have "nvt_loop read_op cap line s = nvt_loop read_op (cap - 1) (line @ [13]) s1"
    using s1(1) Nil(4,5) by (subst nvt_loop.simps) auto
  also have "\<dots> = Inr (Some (0, line, s2))"
    using s2(1) by (subst nvt_loop.simps) simp
  finally show ?case using s1 s2 by (intro exI [of _ s2]) simp
next
  case (Cons b l)
  obtain s1 where s1: "read_op 1 s = Inr (Some (1, [b], s1))" "unread s1 = l @ 13 # 10 # rest" "inv s1" "ended s1 = ended s"
    using read_byte [OF Cons.prems(1)] Cons.prems(2) by auto
  have "nvt_loop read_op cap line s = nvt_loop read_op (cap - 1) (line @ [b]) s1"
    using s1(1) Cons.prems(3-5) by (subst nvt_loop.simps) auto
  moreover have "\<exists>s'. nvt_loop read_op (cap - 1) (line @ [b]) s1 = Inr (Some (0, (line @ [b]) @ l, s')) \<and> unread s' = rest \<and>
      inv s' \<and> ended s' = ended s1"
    using Cons.prems by (intro Cons.IH s1) auto
  ultimately show ?case using s1(4) by auto
qed

lemma recv_file_all:
  "inv s \<Longrightarrow> unread s = c @ rest \<Longrightarrow>
    \<exists>s'. recv_file read_op (int (length c)) acc s = Inr (Some (0, acc @ c, s')) \<and> unread s' = rest \<and> inv s' \<and> ended s' = ended s"
proof (induction c arbitrary: s acc rule: length_induct)
  case (1 c)
  show ?case
  proof (cases "c = []")
    case True
    with "1.prems" show ?thesis by (subst recv_file.simps) simp
  next
    case False
    let ?n = "nat (min (int (length c)) 1000)"
    have n: "?n > 0" "?n \<le> length c" "int ?n = min (int (length c)) 1000" using False by auto
    obtain k s1 where k: "read_op ?n s = Inr (Some (int k, take k (unread s), s1))" "0 < k" "k \<le> ?n"
        "unread s1 = drop k (unread s)" "inv s1" "ended s1 = ended s"
      using read_more [OF "1.prems"(1) n(1)] "1.prems"(2) False by auto
    have kc: "k \<le> length c" using k(3) n(2) by simp
    have m: "min (int k) (min (int (length c)) 1000) = int k" using k(3) n(3) by simp
    have "recv_file read_op (int (length c)) acc s = recv_file read_op (int (length (drop k c))) (acc @ take k c) s1"
      using False k(1,2) m kc "1.prems"(2) by (subst recv_file.simps) (simp add: of_nat_diff)
    moreover have "unread s1 = drop k c @ rest" using k(4) "1.prems"(2) kc by simp
    moreover have "length (drop k c) < length c" using k(2) False by simp
    ultimately have "\<exists>s'. recv_file read_op (int (length c)) acc s = Inr (Some (0, (acc @ take k c) @ drop k c, s')) \<and>
        unread s' = rest \<and> inv s' \<and> ended s' = ended s1"
      using "1.IH" k(5) by metis
    then show ?thesis using k(6) by simp
  qed
qed

end

text \<open>What every read keeps, the loops keep.\<close>

lemma nvt_loop_keeps:
  assumes "\<And>s rc bs s'. P s \<Longrightarrow> read_op 1 s = Inr (Some (rc, bs, s')) \<Longrightarrow> P s'"
  shows "nvt_loop read_op cap line s = Inr (Some (rc, l, s')) \<Longrightarrow> P s \<Longrightarrow> P s'"
proof (induction cap arbitrary: line s)
  case (0 line s)
  then obtain k bs s1 where read: "read_op 1 s = Inr (Some (k, bs, s1))"
    by (subst (asm) nvt_loop.simps) (auto split: sum.splits option.splits)
  with "0.prems"(1) assms [OF "0.prems"(2) read] show ?case
    by (subst (asm) nvt_loop.simps) (auto simp: need_eq_Inr split: if_splits)
next
  case (Suc cap line s)
  then obtain k bs s1 where read: "read_op 1 s = Inr (Some (k, bs, s1))"
    by (subst (asm) nvt_loop.simps) (auto split: sum.splits option.splits)
  from Suc.prems(1) read have "s' = s1 \<or> nvt_loop read_op cap (line @ [hd bs]) s1 = Inr (Some (rc, l, s'))"
    by (subst (asm) nvt_loop.simps) (auto simp: need_eq_Inr split: if_splits)
  with Suc.IH assms [OF Suc.prems(2) read] show ?case by metis
qed

lemma recv_file_keeps:
  assumes "\<And>n s rc bs s'. P s \<Longrightarrow> 0 < n \<Longrightarrow> read_op n s = Inr (Some (rc, bs, s')) \<Longrightarrow> P s'"
  shows "recv_file read_op left acc s = Inr (Some (m, file, s')) \<Longrightarrow> P s \<Longrightarrow> P s'"
proof (induction "nat left" arbitrary: left acc s rule: less_induct)
  case less
  show ?case
  proof (cases "left \<le> 0")
    case True
    with less.prems show ?thesis by (subst (asm) recv_file.simps) (auto split: if_splits)
  next
    case False
    with less.prems(1) obtain got bs s1 where read: "read_op (nat (min left 1000)) s = Inr (Some (got, bs, s1))"
      by (subst (asm) recv_file.simps) (auto split: sum.splits option.splits)
    then have s1: "P s1" using assms [OF less.prems(2) _ read] False by auto
    let ?n = "min got (min left 1000)"
    from less.prems(1) read False
    have "s' = s1 \<or> 0 < got \<and> recv_file read_op (left - ?n) (acc @ take (nat ?n) bs) s1 = Inr (Some (m, file, s'))"
      by (subst (asm) recv_file.simps) (auto split: if_splits)
    moreover have "nat (left - ?n) < nat left" if "0 < got" using that False by auto
    ultimately show ?thesis using less.hyps s1 by metis
  qed
qed

lemma split_last_append: "c \<notin> set b \<Longrightarrow> split_last c (a @ c # b) = Some (a, b)"
  using takeWhile_append2 [of "rev b" "\<lambda>b. b \<noteq> c" "c # rev a"] dropWhile_append2 [of "rev b" "\<lambda>b. b \<noteq> c" "c # rev a"]
  by (fastforce simp: split_last_def)

text \<open>The answer of the server for a file that can be read, without the line end.\<close>

definition ok_line :: "byte list \<Rightarrow> byte list \<Rightarrow> byte list" where
  "ok_line name f = name @ [44] @ decimal (length f) @ [44, 79, 107]"

lemma response_ok: "response name (Contents f) = ok_line name f @ crlf"
  by (simp add: response_def ok_line_def ascii_def)

lemma parse_ok_line:
  assumes "length f < 2 ^ 31"
  shows "parse_response u (ok_line name f) = Some (int (length f))"
proof -
  have "44 \<notin> set (decimal (length f))" using decimal_digits [of "length f"] by (auto simp: list_all_iff is_dec_def)
  then have "split_last 44 (name @ 44 # decimal (length f)) = Some (name, decimal (length f))"
    by (rule split_last_append)
  moreover have "split_last 44 ((name @ 44 # decimal (length f)) @ 44 # [79, 107]) = Some (name @ 44 # decimal (length f), [79, 107])"
    by (rule split_last_append) simp
  ultimately show ?thesis using scan_int_decimal [OF assms] by (simp add: parse_response_def ok_line_def)
qed

lemma ok_line_length: "length f < 2 ^ 31 \<Longrightarrow> length (ok_line name f) \<le> length name + 14"
  using decimal_length [of "length f" 9] by (simp add: ok_line_def)

lemma ok_line_plain: "b \<notin> set name \<Longrightarrow> b < 44 \<Longrightarrow> b \<notin> set (ok_line name f)"
  using decimal_digits [of "length f"]
  by (auto simp: ok_line_def list_all_iff is_dec_def word_le_nat_alt word_less_nat_alt)

lemma mywrite_queue:
  assumes "get_context sd w = Inr (c, ctx)" and "\<not> listening ctx" and "\<not> close_requested ctx"
  shows "\<exists>w'. mywrite sd b w = Inr (int (length b), w') \<and>
    get_context sd w' = Inr (c, ctx\<lparr>app_recv_queue := app_recv_queue ctx @ [b]\<rparr>)"
  using assms get_context_put_same [OF assms(1), of "ctx\<lparr>app_recv_queue := app_recv_queue ctx @ [b]\<rparr>"]
  by (simp add: mywrite_def enqueue_def)

lemma write_file_queue:
  "get_context sd w = Inr (c, ctx) \<Longrightarrow> \<not> listening ctx \<Longrightarrow> \<not> close_requested ctx \<Longrightarrow>
    \<exists>w' bs. write_file sd f w = Inr (0, w') \<and> concat bs = f \<and>
      get_context sd w' = Inr (c, ctx\<lparr>app_recv_queue := app_recv_queue ctx @ bs\<rparr>)"
proof (induction f arbitrary: w ctx rule: length_induct)
  case (1 f)
  show ?case
  proof (cases "f = []")
    case True
    with "1.prems" show ?thesis by (subst write_file.simps) (auto intro!: exI [of _ "[]"])
  next
    case False
    let ?ctx = "ctx\<lparr>app_recv_queue := app_recv_queue ctx @ [take 5000 f]\<rparr>"
    obtain w1 where w1: "mywrite sd (take 5000 f) w = Inr (int (length (take 5000 f)), w1)" "get_context sd w1 = Inr (c, ?ctx)"
      using mywrite_queue [OF "1.prems"] by blast
    have "length (drop 5000 f) < length f" using False by simp
    then obtain w' bs where IH: "write_file sd (drop 5000 f) w1 = Inr (0, w')" "concat bs = drop 5000 f"
        "get_context sd w' = Inr (c, ?ctx\<lparr>app_recv_queue := app_recv_queue ?ctx @ bs\<rparr>)"
      using "1.IH" [rule_format, of "drop 5000 f" w1 ?ctx] w1(2) "1.prems"(2,3) by auto
    have "write_file sd f w = Inr (0, w')" using False w1(1) IH(1) by (subst write_file.simps) simp
    moreover have "concat (take 5000 f # bs) = f" using IH(2) by simp
    ultimately show ?thesis using IH(3) by (intro exI [of _ w'] exI [of _ "take 5000 f # bs"]) simp
  qed
qed

section \<open>Properties\<close>

text \<open>
  A file is transferred. The server reads the requested name from the stream of the connection; for a
  readable file of less than 2 GiB it writes the answering line and then exactly the contents of
  the file. A client that finds this in its stream receives exactly the contents, and the rest of the stream
  stays unread.
\<close>

theorem file_transferred:
  assumes "name \<noteq> []" and "13 \<notin> set name" and "0 \<notin> set name" and "length name < 256"
    and "fs name = Contents f" and "length f < 2 ^ 31"
    and "readable sd w" and "unread sd w = name @ crlf @ later"
    and "get_context sd w1 = Inr (c, ctx)" and "\<not> listening ctx" and "\<not> close_requested ctx"
    and "readable csd v" and "unread csd v = response name (Contents f) @ f @ rest"
  shows "(\<exists>w0. get_nvt_line 256 sd w = Inr (Some (0, name, w0)) \<and> unread sd w0 = later) \<and>
    (\<exists>w2 bs. process_line fs sd (c_string name) w1 = Inr (0, w2) \<and> concat bs = response name (Contents f) @ f \<and>
       get_context sd w2 = Inr (c, ctx\<lparr>app_recv_queue := app_recv_queue ctx @ bs\<rparr>)) \<and>
    (\<exists>v'. receive_answer u csd v = Inr (Some (Received 0 f, v')) \<and> unread csd v' = rest)"
proof (intro conjI)
  show "\<exists>w0. get_nvt_line 256 sd w = Inr (Some (0, name, w0)) \<and> unread sd w0 = later"
    using app.nvt_loop_line [OF assms(7), of name later 256 "[]"] assms(2,4,8)
    by (auto simp: get_nvt_line_def crlf_def)
next
  have name: "c_string name = name" using assms(3) by (auto simp: c_string_def takeWhile_eq_all_conv)
  let ?r = "response name (Contents f)"
  obtain w' where w': "mywrite sd ?r w1 = Inr (int (length ?r), w')"
    "get_context sd w' = Inr (c, ctx\<lparr>app_recv_queue := app_recv_queue ctx @ [?r]\<rparr>)"
    using mywrite_queue [OF assms(9-11)] by blast
  obtain w2 bs where w2: "write_file sd f w' = Inr (0, w2)" "concat bs = f"
    "get_context sd w2 = Inr (c, ctx\<lparr>app_recv_queue := app_recv_queue ctx @ [?r] @ bs\<rparr>)"
    using write_file_queue [OF w'(2), of f] assms(10,11) by auto
  have "process_line fs sd (c_string name) w1 = Inr (0, w2)"
    using name w'(1) w2(1) assms(1,5) ok_line_length [OF assms(6), of name] assms(4)
    by (simp add: process_line_def response_ok crlf_def)
  with w2(2,3) show "\<exists>w2 bs. process_line fs sd (c_string name) w1 = Inr (0, w2) \<and> concat bs = ?r @ f \<and>
      get_context sd w2 = Inr (c, ctx\<lparr>app_recv_queue := app_recv_queue ctx @ bs\<rparr>)"
    by (intro exI [of _ w2] exI [of _ "?r # bs"]) simp
next
  let ?l = "ok_line name f"
  have l: "13 \<notin> set ?l" "c_string ?l = ?l"
    using ok_line_plain [of 13 name f] ok_line_plain [of 0 name f] assms(2,3)
    by (auto simp: c_string_def takeWhile_eq_all_conv)
  have "unread csd v = ?l @ 13 # 10 # f @ rest" using assms(13) by (simp add: response_ok crlf_def)
  then obtain v1 where v1: "get_nvt_line 1000 csd v = Inr (Some (0, ?l, v1))" "unread csd v1 = f @ rest" "readable csd v1"
    using app.nvt_loop_line [OF assms(12), of ?l "f @ rest" 1000 "[]"] l(1) ok_line_length [OF assms(6), of name] assms(4)
    by (auto simp: get_nvt_line_def)
  obtain v2 where "recv_file (myread csd) (int (length f)) [] v1 = Inr (Some (0, f, v2))" "unread csd v2 = rest"
    using app.recv_file_all [OF v1(3,2), of "[]"] by auto
  with v1(1) l(2) parse_ok_line [OF assms(6), of u name]
  show "\<exists>v'. receive_answer u csd v = Inr (Some (Received 0 f, v')) \<and> unread csd v' = rest"
    by (simp add: receive_answer_def)
qed

definition demo_reader :: "byte list \<Rightarrow> demux" where
  "demo_reader bs = demo_conn ((demo_stcp [] [])\<lparr>app_send_queue := [bs]\<rparr>)"

lemma demo_reader_get: "get_context 0 (demo_reader bs) = Inr (0, (demo_stcp [] [])\<lparr>app_send_queue := [bs]\<rparr>)"
  unfolding demo_reader_def by (rule demo_conn_get) (simp add: demo_stcp_def fresh_context_def)

lemma demo_reader_stream: "readable 0 (demo_reader bs)" "unread 0 (demo_reader bs) = bs"
  by (simp_all add: readable_def unread_def demo_reader_get) (simp_all add: demo_stcp_def fresh_context_def)

theorem file_transferred_witness:
  "\<exists>w2 v'. process_line (\<lambda>_. Contents [1, 2, 3]) 0 (c_string [97]) (demo_reader []) = Inr (0, w2) \<and>
     receive_answer 0 0 (demo_reader (response [97] (Contents [1, 2, 3]) @ [1, 2, 3] @ [])) =
       Inr (Some (Received 0 [1, 2, 3], v'))"
proof -
  have "\<not> listening ((demo_stcp [] [])\<lparr>app_send_queue := [[]]\<rparr>)" "\<not> close_requested ((demo_stcp [] [])\<lparr>app_send_queue := [[]]\<rparr>)"
    by (simp_all add: demo_stcp_def fresh_context_def)
  from file_transferred [where name = "[97]" and fs = "\<lambda>_. Contents [1, 2, 3]" and f = "[1, 2, 3]" and later = "[]"
      and rest = "[]" and u = 0, OF _ _ _ _ _ _ demo_reader_stream demo_reader_get this demo_reader_stream]
  show ?thesis by simp blast
qed

end
