(* ===== verification/Stcp_End_To_End.thy ===== *)
theory Stcp_End_To_End
  imports File_Transfer
begin

text \<open>
  The layers of the TCP part put together: an application's \<^verbatim>\<open>mywrite\<close>, a turn of its transport thread, the
  TCP connection underneath, the receiving thread of the other process, turns of its transport thread, and the other
  application's reads. A turn of a thread works on the context of its mysocket in the state of the process.
\<close>

section \<open>Turns of the threads\<close>

text \<open>An iteration of the transport thread's \<^verbatim>\<open>control_loop\<close> for the mysocket \<open>sd\<close>.\<close>

definition transport_turn ::
  "nat \<Rightarrow> uint32 \<Rightarrow> nat \<Rightarrow> int \<Rightarrow> context_t \<Rightarrow> demux \<Rightarrow> fault + (context_t \<times> demux) option" where
  "transport_turn fuel if_ip window sd t w =
     andthen (get_context sd w) (\<lambda>(c, ctx).
       bindw (control_step fuel if_ip window (t, ctx)) (\<lambda>(t, ctx). Inr (Some (t, put_context c ctx w))))"

fun transport_turns ::
  "nat \<Rightarrow> nat \<Rightarrow> uint32 \<Rightarrow> nat \<Rightarrow> int \<Rightarrow> context_t \<Rightarrow> demux \<Rightarrow> fault + (context_t \<times> demux) option" where
  "transport_turns 0 fuel if_ip window sd t w = Inr (Some (t, w))"
| "transport_turns (Suc n) fuel if_ip window sd t w =
     bindw (transport_turn fuel if_ip window sd t w) (\<lambda>(t, w). transport_turns n fuel if_ip window sd t w)"

text \<open>Iterations of the receiving thread of the context \<open>c\<close>.\<close>

fun recv_turns :: "nat \<Rightarrow> nat \<Rightarrow> byte list \<Rightarrow> demux \<Rightarrow> fault + (byte list \<times> demux) option" where
  "recv_turns 0 c buf w = Inr (Some (buf, w))"
| "recv_turns (Suc n) c buf w =
     bindw (recv_thread_step c False None buf w) (\<lambda>(_, buf, w). recv_turns n c buf w)"

section \<open>Receiving\<close>

lemma recv_turn:
  assumes "ctx_mem w c = Some ctx" and "\<not> listening ctx" and "open_conn (network_state ctx) s"
    and "arrived (rx s) = dgram p @ rest" and "p \<noteq> []" and "length p \<le> 1500" and "length buf = 1500"
  shows "\<exists>es buf'. recv_thread_step c False None buf w = Inr (Some (True, buf',
      put_context c ((sent ctx (s\<lparr>rx := es\<rparr>))\<lparr>network_recv_queue := network_recv_queue ctx @ [p]\<rparr>) w)) \<and>
    arrived es = rest \<and> length buf' = 1500"
proof -
  obtain es where es: "network_recv_packet (is_active ctx) False (network_state ctx) buf =
      Inr (Some (int (length p), take (length buf) p @ drop (length p) buf, set_socket (network_state ctx) (s\<lparr>rx := es\<rparr>)))"
    "arrived es = rest"
    using recv_packet_open [OF assms(3,4,5), of buf "is_active ctx"] assms(6,7) by fastforce
  then show ?thesis
    using assms by (intro exI [of _ es] exI [of _ "p @ drop (length p) buf"])
      (simp add: recv_thread_step_def sent_def enqueue_def)
qed

lemma recv_turns_all:
  "ctx_mem w c = Some ctx \<Longrightarrow> \<not> listening ctx \<Longrightarrow> open_conn (network_state ctx) s \<Longrightarrow>
   arrived (rx s) = concat (map dgram ps) \<Longrightarrow> list_all (\<lambda>p. p \<noteq> [] \<and> length p \<le> 1500) ps \<Longrightarrow> length buf = 1500 \<Longrightarrow>
   \<exists>es buf'. recv_turns (length ps) c buf w = Inr (Some (buf',
     put_context c ((sent ctx (s\<lparr>rx := es\<rparr>))\<lparr>network_recv_queue := network_recv_queue ctx @ ps\<rparr>) w))"
proof (induction ps arbitrary: w ctx s buf)
  case Nil
  have "sent ctx (s\<lparr>rx := rx s\<rparr>) = ctx"
    using Nil.prems(3) by (cases ctx) (auto simp: sent_def set_socket_def open_conn_def)
  moreover have "put_context c ctx w = w"
    using Nil.prems(1) by (simp add: put_context_def fun_upd_idem)
  ultimately show ?case
    by (intro exI [of _ "rx s"] exI [of _ buf]) simp
next
  case (Cons p ps)
  obtain es buf1 where 1: "recv_thread_step c False None buf w = Inr (Some (True, buf1,
      put_context c ((sent ctx (s\<lparr>rx := es\<rparr>))\<lparr>network_recv_queue := network_recv_queue ctx @ [p]\<rparr>) w))"
    "arrived es = concat (map dgram ps)" "length buf1 = 1500"
    using recv_turn [OF Cons.prems(1-3), of p "concat (map dgram ps)" buf] Cons.prems(4-6) by auto
  let ?ctx = "(sent ctx (s\<lparr>rx := es\<rparr>))\<lparr>network_recv_queue := network_recv_queue ctx @ [p]\<rparr>"
  have "ctx_mem (put_context c ?ctx w) c = Some ?ctx" "\<not> listening ?ctx" "open_conn (network_state ?ctx) (s\<lparr>rx := es\<rparr>)"
    using Cons.prems(2,3) open_conn_set_socket by (auto simp: put_context_def sent_def)
  from Cons.IH [OF this, of buf1] Cons.prems(5) 1(2,3) obtain es' buf' where
    "recv_turns (length ps) c buf1 (put_context c ?ctx w) = Inr (Some (buf', put_context c
      ((sent ?ctx (s\<lparr>rx := es'\<rparr>))\<lparr>network_recv_queue := network_recv_queue ?ctx @ ps\<rparr>) (put_context c ?ctx w)))"
    by auto
  then show ?case
    using 1(1) by (auto simp: sent_def)
qed

text \<open>What the transport thread has passed on of the packets it was given.\<close>

lemma sent_app_send:
  "my_sd (sent (stcp_app_send ctx bs) s) = my_sd ctx" "listening (sent (stcp_app_send ctx bs) s) = listening ctx"
  "eof (sent (stcp_app_send ctx bs) s) = eof ctx"
  "app_send_queue (stcp_app_send ctx bs) = app_send_queue ctx @ (if bs = [] then [] else [bs])"
  by (simp_all add: sent_def stcp_app_send_def enqueue_def)

lemma transport_turns_receive:
  assumes "get_context sd w = Inr (c, ctx)" and "stcp_ready if_ip ctx s" and "connection_state t = CSTATE_ESTABLISHED"
    and "app_recv_queue ctx = []" and "\<not> close_requested ctx" and "network_recv_queue ctx = ps"
    and "list_all (data_packet if_ip (peer_ip ctx)) ps"
  shows "\<exists>t' w' ctx'. transport_turns (length ps) fuel if_ip window sd t w = Inr (Some (t', w')) \<and>
    get_context sd w' = Inr (c, ctx') \<and> listening ctx' = listening ctx \<and> \<not> close_requested ctx' \<and> eof ctx' = eof ctx \<and>
    app_send_queue ctx' = app_send_queue ctx @ filter (\<lambda>b. b \<noteq> []) (map (drop 20) ps)"
  using assms
proof (induction ps arbitrary: w t ctx s)
  case Nil
  then show ?case by simp
next
  case (Cons p rest)
  let ?c = "stcp_app_send (ctx\<lparr>network_recv_queue := rest\<rparr>) (drop 20 p)"
  have p: "20 \<le> length p" "length p \<le> 556" "mysock_verify_checksum if_ip (peer_ip ctx) p = Inr True"
    "th_flags p AND TH_ACK = 0" "th_flags p AND TH_FIN = 0"
    using Cons.prems(7) by (simp_all add: data_packet_def)
  obtain s' where step: "control_step fuel if_ip window (t, ctx) = Inr (Some (note_peer p t, sent ?c s'))"
    and rdy: "stcp_ready if_ip (sent ?c s') s'"
    using data_step [OF Cons.prems(2-6) p] by blast
  let ?w = "put_context c (sent ?c s') w"
  have get: "get_context sd ?w = Inr (c, sent ?c s')"
    by (rule get_context_put_same [OF Cons.prems(1)]) (simp add: sent_app_send)
  have turn: "transport_turn fuel if_ip window sd t w = Inr (Some (note_peer p t, ?w))"
    using step Cons.prems(1) by (simp add: transport_turn_def)
  have est: "connection_state (note_peer p t) = CSTATE_ESTABLISHED"
    using Cons.prems(3) by (simp add: note_peer_def)
  have q: "app_recv_queue (sent ?c s') = []" "\<not> close_requested (sent ?c s')" "network_recv_queue (sent ?c s') = rest"
    "list_all (data_packet if_ip (peer_ip (sent ?c s'))) rest"
    using Cons.prems by simp_all
  show ?case
    using Cons.IH [OF get rdy est q] turn by (auto simp: sent_app_send)
qed

section \<open>From one application to the other\<close>

lemma transport_turn_send:
  assumes "get_context sd w = Inr (c, ctx)" and "stcp_ready if_ip ctx s" and "connection_state t = CSTATE_ESTABLISHED"
    and "app_recv_queue ctx = d # ds" and "network_recv_queue ctx = []" and "length d \<le> window" and "window \<le> SENDER_WINDOW"
    and "6 \<le> fuel"
  shows "\<exists>t' w' ctx' s' ps. transport_turn fuel if_ip window sd t w = Inr (Some (t', w')) \<and>
    get_context sd w' = Inr (c, ctx') \<and> app_recv_queue ctx' = ds \<and> open_conn (network_state ctx') s' \<and>
    tx s' = tx s @ concat (map dgram ps) \<and> list_all (data_packet (peer_ip ctx) if_ip) ps \<and> concat (map (drop 20) ps) = d"
proof -
  obtain ps s' where ps: "control_step fuel if_ip window (t, ctx) = Inr (Some
      (t\<lparr>current_sequence_num := current_sequence_num t + word_of_nat (min window (length d))\<rparr>,
       sent (ctx\<lparr>app_recv_queue := (if window < length d then drop window d # ds else ds)\<rparr>) s'))"
    "tx s' = tx s @ concat (map dgram ps)"
    "list_all2 (\<lambda>(q, d) p. segment_of if_ip ctx (sock_port s) q 0 0 d p) (segments (current_sequence_num t) (take window d)) ps"
    using app_data_step [OF assms(2-5,7,8)] by blast
  let ?ctx = "sent (ctx\<lparr>app_recv_queue := ds\<rparr>) s'"
  have "get_context sd (put_context c ?ctx w) = Inr (c, ?ctx)"
    by (rule get_context_put_same [OF assms(1)]) (simp add: sent_def)
  moreover have "open_conn (network_state ?ctx) s'"
    using assms(2) open_conn_set_socket by (auto simp: sent_def stcp_ready_def)
  moreover have "list_all (data_packet (peer_ip ctx) if_ip) ps" "concat (map (drop 20) ps) = d"
    using segments_data_packets [OF ps(3)] assms(6) by simp_all
  ultimately show ?thesis
    using ps(1,2) assms(1,6) by (simp add: transport_turn_def) (metis sent_simps(3) select_convs(1))
qed

text \<open>What reads can find in a queue without an end mark.\<close>

lemma unread_queue:
  "get_context sd w = Inr (c, ctx) \<Longrightarrow> \<not> eof ctx \<Longrightarrow> [] \<notin> set (app_send_queue ctx) \<Longrightarrow>
   unread sd w = concat (app_send_queue ctx)"
  by (auto simp: unread_def takeWhile_eq_all_conv intro!: arg_cong [of _ _ concat])

lemma concat_filter_nonempty: "concat (filter (\<lambda>b. b \<noteq> []) bs) = concat bs"
  by (induction bs) auto

text \<open>The receiving side, when the packets of a segmented write have arrived.\<close>

lemma arrived_data_read:
  assumes "get_context b wB = Inr (cb, ctxB)" and "\<not> listening ctxB" and "\<not> close_requested ctxB" and "\<not> eof ctxB"
    and "app_recv_queue ctxB = []" and "network_recv_queue ctxB = []" and "app_send_queue ctxB = []"
    and "stcp_ready ipB ctxB sB" and "connection_state tB = CSTATE_ESTABLISHED" and "peer_ip ctxB = ipA"
    and "length buf = 1500" and "arrived (rx sB) = concat (map dgram ps)"
    and "list_all (data_packet ipB ipA) ps" and "concat (map (drop 20) ps) = d"
  shows "\<exists>buf' wB1 tB' wB2 wB3. recv_turns (length ps) cb buf wB = Inr (Some (buf', wB1)) \<and>
    transport_turns (length ps) fuel ipB window b tB wB1 = Inr (Some (tB', wB2)) \<and>
    recv_file (myread b) (int (length d)) [] wB2 = Inr (Some (0, d, wB3))"
proof -
  have "open_conn (network_state ctxB) sB" "writable sB" using assms(8) by (simp_all add: stcp_ready_def)
  moreover have "list_all (\<lambda>p. p \<noteq> [] \<and> length p \<le> 1500) ps"
    using assms(13) by (auto simp: list_all_iff data_packet_def)
  ultimately obtain es buf' where recv: "recv_turns (length ps) cb buf wB = Inr (Some (buf',
      put_context cb ((sent ctxB (sB\<lparr>rx := es\<rparr>))\<lparr>network_recv_queue := ps\<rparr>) wB))"
    using recv_turns_all [of wB cb ctxB sB ps buf] get_context_InrD [OF assms(1)] assms(2,6,11,12) by auto
  let ?ctx = "(sent ctxB (sB\<lparr>rx := es\<rparr>))\<lparr>network_recv_queue := ps\<rparr>"
  have "writable (sB\<lparr>rx := es\<rparr>)" using \<open>writable sB\<close> by (simp add: writable_def)
  then have rdy: "stcp_ready ipB ?ctx (sB\<lparr>rx := es\<rparr>)"
    using stcp_ready_sent [OF assms(8)] by (simp add: stcp_ready_queues)
  have get: "get_context b (put_context cb ?ctx wB) = Inr (cb, ?ctx)"
    by (rule get_context_put_same [OF assms(1)]) (simp add: sent_def)
  have keep: "listening ?ctx = listening ctxB" "eof ?ctx = eof ctxB" "peer_ip ?ctx = ipA"
    using assms(10) by (simp_all add: sent_def set_socket_def peer_ip_def)
  from transport_turns_receive [OF get rdy assms(9), of ps fuel window] keep assms(2-5,7,13)
  obtain tB' wB2 ctxB' where turns: "transport_turns (length ps) fuel ipB window b tB (put_context cb ?ctx wB) = Inr (Some (tB', wB2))"
    "get_context b wB2 = Inr (cb, ctxB')" "\<not> listening ctxB'" "\<not> close_requested ctxB'" "\<not> eof ctxB'"
    "app_send_queue ctxB' = filter (\<lambda>b. b \<noteq> []) (map (drop 20) ps)"
    by auto
  have "unread b wB2 = d @ []"
    using unread_queue [OF turns(2,5)] turns(6) assms(14) by (simp add: concat_filter_nonempty)
  moreover have "readable b wB2" using turns(2-4) by (simp add: readable_def)
  ultimately obtain wB3 where "recv_file (myread b) (int (length d)) [] wB2 = Inr (Some (0, d, wB3))"
    using app.recv_file_all [of b wB2 d "[]" "[]"] by auto
  with recv turns(1) show ?thesis by blast
qed

text \<open>
  What one application writes, the other reads. After a \<^verbatim>\<open>mywrite\<close> on an established connection, one
  turn of the transport thread puts some bytes on the TCP connection. When exactly these bytes reach the other
  process, in pieces of any size, its receiving thread and its transport thread, one turn each per packet,
  make the data readable, and the loop with which the client program reads a file of that length gets exactly the bytes
  written, without blocking. No assert fails on the way.
\<close>

theorem written_data_read:
  assumes "get_context a wA = Inr (ca, ctxA)" and "\<not> listening ctxA" and "\<not> close_requested ctxA"
    and "app_recv_queue ctxA = []" and "network_recv_queue ctxA = []" and "stcp_ready ipA ctxA sA"
    and "connection_state tA = CSTATE_ESTABLISHED" and "length d \<le> window" and "window \<le> SENDER_WINDOW" and "6 \<le> fuel"
    and "get_context b wB = Inr (cb, ctxB)" and "\<not> listening ctxB" and "\<not> close_requested ctxB" and "\<not> eof ctxB"
    and "app_recv_queue ctxB = []" and "network_recv_queue ctxB = []" and "app_send_queue ctxB = []"
    and "stcp_ready ipB ctxB sB" and "connection_state tB = CSTATE_ESTABLISHED"
    and "peer_ip ctxA = ipB" and "peer_ip ctxB = ipA" and "length buf = 1500"
  shows "\<exists>wA1 tA' wA2 ctxA' sA' n. mywrite a d wA = Inr (int (length d), wA1) \<and>
    transport_turn fuel ipA window a tA wA1 = Inr (Some (tA', wA2)) \<and>
    get_context a wA2 = Inr (ca, ctxA') \<and> open_conn (network_state ctxA') sA' \<and>
    (\<forall>evs. arrived evs = drop (length (tx sA)) (tx sA') \<longrightarrow>
      (\<exists>buf' wB1 tB' wB2 wB3. recv_turns n cb buf (put_context cb (sent ctxB (sB\<lparr>rx := evs\<rparr>)) wB) = Inr (Some (buf', wB1)) \<and>
        transport_turns n fuel ipB window b tB wB1 = Inr (Some (tB', wB2)) \<and>
        recv_file (myread b) (int (length d)) [] wB2 = Inr (Some (0, d, wB3))))"
proof -
  obtain wA1 where w1: "mywrite a d wA = Inr (int (length d), wA1)"
    "get_context a wA1 = Inr (ca, ctxA\<lparr>app_recv_queue := [d]\<rparr>)"
    using mywrite_queue [OF assms(1-3), of d] assms(4) by auto
  have "stcp_ready ipA (ctxA\<lparr>app_recv_queue := [d]\<rparr>) sA" using assms(6) by (simp add: stcp_ready_queues)
  from transport_turn_send [OF w1(2) this assms(7) _ _ assms(8-10)] assms(5)
  obtain tA' wA2 ctxA' sA' ps where send: "transport_turn fuel ipA window a tA wA1 = Inr (Some (tA', wA2))"
    "get_context a wA2 = Inr (ca, ctxA')" "open_conn (network_state ctxA') sA'" "tx sA' = tx sA @ concat (map dgram ps)"
    "list_all (data_packet ipB ipA) ps" "concat (map (drop 20) ps) = d"
    using assms(20) by (auto simp: peer_ip_def)
  have "\<exists>buf' wB1 tB' wB2 wB3.
      recv_turns (length ps) cb buf (put_context cb (sent ctxB (sB\<lparr>rx := evs\<rparr>)) wB) = Inr (Some (buf', wB1)) \<and>
      transport_turns (length ps) fuel ipB window b tB wB1 = Inr (Some (tB', wB2)) \<and>
      recv_file (myread b) (int (length d)) [] wB2 = Inr (Some (0, d, wB3))"
    if arr: "arrived evs = drop (length (tx sA)) (tx sA')" for evs
  proof (rule arrived_data_read [OF _ _ _ _ _ _ _ _ assms(19) _ assms(22) _ send(5,6)])
    let ?c = "sent ctxB (sB\<lparr>rx := evs\<rparr>)"
    show "get_context b (put_context cb ?c wB) = Inr (cb, ?c)"
      by (rule get_context_put_same [OF assms(11)]) (simp add: sent_def)
    show "stcp_ready ipB ?c (sB\<lparr>rx := evs\<rparr>)"
      using stcp_ready_sent [OF assms(18)] assms(18) by (simp add: stcp_ready_def writable_def)
    show "arrived (rx (sB\<lparr>rx := evs\<rparr>)) = concat (map dgram ps)"
      using arr send(4) by simp
    show "\<not> listening ?c" "\<not> eof ?c"
      using assms(12,14) by (simp_all add: sent_def)
  qed (use assms(13,15-17,21) in simp_all)
  with w1(1) send(1-3) show ?thesis by blast
qed

text \<open>A connection between two processes on the addresses 127.0.0.1 and 127.0.0.2.\<close>

definition demo_writer :: mysock_context where
  "demo_writer = demo_stcp [] []"

definition demo_taker :: mysock_context where
  "demo_taker = (demo_stcp [] [])\<lparr>network_state := (demo_io [] [] [])\<lparr>peer_addr :=
     \<lparr>sa_family = AF_INET, sin_port = 0x5000, sin_addr = 0x0100007F\<rparr>\<rparr>\<rparr>"

theorem written_data_read_witness:
  "\<exists>wA1 tA' wA2 n evs buf' wB1 tB' wB2 wB3. mywrite 0 [1, 2, 3] (demo_conn demo_writer) = Inr (3, wA1) \<and>
     transport_turn 6 0x0100007F 3072 0 demo_established wA1 = Inr (Some (tA', wA2)) \<and>
     recv_turns n 0 (replicate 1500 0) (put_context 0 (sent demo_taker ((demo_sock [] [] [])\<lparr>rx := [Arrived evs]\<rparr>)) (demo_conn demo_taker))
       = Inr (Some (buf', wB1)) \<and>
     transport_turns n 6 0x0200007F 3072 0 demo_established wB1 = Inr (Some (tB', wB2)) \<and>
     recv_file (myread 0) 3 [] wB2 = Inr (Some (0, [1, 2, 3], wB3))"
proof -
  have rdyB: "stcp_ready 0x0200007F demo_taker (demo_sock [] [] [])"
    by (simp add: stcp_ready_def demo_taker_def demo_stcp_def writable_def demo_sock_def peer_ip_def peer_port_def open_conn_def demo_io_def)
  have sd: "my_sd demo_writer = 0" "my_sd demo_taker = 0"
    by (simp_all add: demo_writer_def demo_taker_def demo_stcp_def fresh_context_def)
  have f: "\<not> listening demo_writer" "\<not> close_requested demo_writer" "app_recv_queue demo_writer = []"
    "network_recv_queue demo_writer = []" "\<not> listening demo_taker" "\<not> close_requested demo_taker" "\<not> eof demo_taker"
    "app_recv_queue demo_taker = []" "network_recv_queue demo_taker = []" "app_send_queue demo_taker = []"
    "peer_ip demo_writer = 0x0200007F" "peer_ip demo_taker = 0x0100007F" "tx (demo_sock [] [] []) = []"
    by (simp_all add: demo_writer_def demo_taker_def demo_stcp_def fresh_context_def peer_ip_def demo_io_def demo_sock_def)
  have e: "connection_state demo_established = CSTATE_ESTABLISHED" "(3072 :: nat) \<le> SENDER_WINDOW"
    by (simp_all add: demo_established_def calloc_context_def SENDER_WINDOW_def)
  have len: "length [1, 2, 3 :: byte] \<le> 3072" "(6 :: nat) \<le> 6" "length (replicate 1500 (0 :: byte)) = 1500"
    by simp_all
  obtain wA1 tA' wA2 sA' n where A:
    "mywrite 0 [1, 2, 3] (demo_conn demo_writer) = Inr (int (length [1, 2, 3 :: byte]), wA1)"
    "transport_turn 6 0x0100007F 3072 0 demo_established wA1 = Inr (Some (tA', wA2))"
    "\<forall>evs. arrived evs = drop (length (tx (demo_sock [] [] []))) (tx (sA' :: conn_sock)) \<longrightarrow>
      (\<exists>buf' wB1 tB' wB2 wB3. recv_turns n 0 (replicate 1500 0)
          (put_context 0 (sent demo_taker ((demo_sock [] [] [])\<lparr>rx := evs\<rparr>)) (demo_conn demo_taker)) = Inr (Some (buf', wB1)) \<and>
        transport_turns n 6 0x0200007F 3072 0 demo_established wB1 = Inr (Some (tB', wB2)) \<and>
        recv_file (myread 0) (int (length [1, 2, 3 :: byte])) [] wB2 = Inr (Some (0, [1, 2, 3], wB3)))"
    using written_data_read [OF demo_conn_get [OF sd(1)] f(1-4) demo_stcp_ready [of "[]" "[]", folded demo_writer_def] e(1) len(1) e(2)
        len(2) demo_conn_get [OF sd(2)] f(5-10) rdyB e(1) f(11,12) len(3)]
    by blast
  have "arrived [Arrived (tx sA')] = drop (length (tx (demo_sock [] [] []))) (tx sA')"
    by (simp add: f(13))
  with A(3) obtain buf' wB1 tB' wB2 wB3 where
    "recv_turns n 0 (replicate 1500 0) (put_context 0 (sent demo_taker ((demo_sock [] [] [])\<lparr>rx := [Arrived (tx sA')]\<rparr>)) (demo_conn demo_taker))
       = Inr (Some (buf', wB1))"
    "transport_turns n 6 0x0200007F 3072 0 demo_established wB1 = Inr (Some (tB', wB2))"
    "recv_file (myread 0) (int (length [1, 2, 3 :: byte])) [] wB2 = Inr (Some (0, [1, 2, 3], wB3))"
    by blast
  with A(1,2) show ?thesis by simp blast
qed

end
