(* ===== verification/File_Programs.thy ===== *)
theory File_Programs
  imports File_Transfer
begin

text \<open>
  The programs around the file transfer: \<^verbatim>\<open>main\<close>, \<^verbatim>\<open>local_name\<close> and the loop of \<^verbatim>\<open>do_connection\<close> of
  \<^verbatim>\<open>server.c\<close>; the command line, \<^verbatim>\<open>parse_address\<close> and the dialogue of \<^verbatim>\<open>loop_until_end\<close> of \<^verbatim>\<open>client.c\<close>.
  \<^verbatim>\<open>gethostname\<close> and \<^verbatim>\<open>gethostbyname\<close> are arguments; what is printed is left out.
\<close>

section \<open>The server\<close>

definition local_name :: "uint32 \<Rightarrow> byte list option \<Rightarrow> int \<Rightarrow> demux \<Rightarrow> fault + byte list" where
  "local_name if_ip hostname sd w =
     andthen (mygetsockname if_ip sd w) (\<lambda>(rc, sin).
       need (0 \<le> rc) Assert_failed
         (case hostname of
            None \<Rightarrow> Inl Assert_failed
          | Some myhostname \<Rightarrow>
              let name = myhostname @ ascii '':'' @ decimal (unat (ntohs (sin_port sin)))
              in need (length name < 256) Out_of_bounds (Inr name)))"

text \<open>
  \<^verbatim>\<open>main\<close> until it waits for a connection: the listening descriptor and the name it prints. The results of the
  system calls are \<open>s\<close>, \<open>bind_rc\<close> and \<open>listen_rc\<close>.
\<close>

definition server_main ::
  "conn_sock option \<Rightarrow> int \<Rightarrow> bool \<Rightarrow> int \<Rightarrow> uint32 \<Rightarrow> byte list option \<Rightarrow> byte list list \<Rightarrow> demux \<Rightarrow>
   fault + (int \<times> byte list \<times> demux) program" where
  "server_main s bind_rc moves listen_rc if_ip hostname argv w =
     (case argv of
        [port] \<Rightarrow>
          andthen (mysocket s w) (\<lambda>(bindsd, w).
            if bindsd < 0 then Inr (Exits 1)
            else
              let sin = \<lparr>sa_family = AF_INET, sin_port = htons (ucast (atoi port)), sin_addr = htonl 0\<rparr>
              in andthen (mybind bind_rc bindsd sin w) (\<lambda>(rc, w).
                   if rc < 0 then Inr (Exits 1)
                   else andthen (mylisten moves listen_rc bindsd 5 w) (\<lambda>(rc, w).
                     if rc < 0 then Inr (Exits 1)
                     else andthen (local_name if_ip hostname bindsd w) (\<lambda>localname.
                       Inr (Goes_on (bindsd, localname, w))))))
      | _ \<Rightarrow> Inr (Exits 0))"

text \<open>The loop of \<^verbatim>\<open>do_connection\<close>; \<open>None\<close> when it waits for more data or \<open>n\<close> iterations are used up.\<close>

fun serve_loop :: "nat \<Rightarrow> (byte list \<Rightarrow> file_result) \<Rightarrow> int \<Rightarrow> demux \<Rightarrow> fault + demux option" where
  "serve_loop 0 fs sd w = Inr None"
| "serve_loop (Suc n) fs sd w =
     bindw (do_connection_step fs sd w) (\<lambda>(again, w). if again then serve_loop n fs sd w else Inr (Some w))"

definition do_connection ::
  "nat \<Rightarrow> nat \<Rightarrow> (int \<Rightarrow> bool) \<Rightarrow> (byte list \<Rightarrow> file_result) \<Rightarrow> int \<Rightarrow> demux \<Rightarrow> fault + (int \<times> demux) option" where
  "do_connection n depth joined fs sd w =
     bindw (serve_loop n fs sd w) (\<lambda>w. myclose depth joined sd w)"

text \<open>The rest of \<^verbatim>\<open>main\<close>: one connection is accepted and served; the result is the exit status.\<close>

definition server_session ::
  "nat \<Rightarrow> nat \<Rightarrow> (int \<Rightarrow> bool) \<Rightarrow> (byte list \<Rightarrow> file_result) \<Rightarrow> int \<Rightarrow> demux \<Rightarrow> fault + (int \<times> demux) option" where
  "server_session n depth joined fs bindsd w =
     bindw (myaccept bindsd w) (\<lambda>(sd, sin, w).
       if sd < 0 then Inr (Some (1, w))
       else deref sin (\<lambda>sin.
         need (sa_family sin = AF_INET) Assert_failed
           (bindw (do_connection n depth joined fs sd w) (\<lambda>(_, w).
              bindw (myclose depth joined bindsd w) (\<lambda>(_, w). Inr (Some (0, w)))))))"

section \<open>The client\<close>

record client_options =
  co_filename :: "byte list option"
  co_quiet :: nat
  co_errflg :: nat

definition client_option :: "getopt_result \<Rightarrow> client_options \<Rightarrow> client_options" where
  "client_option c opts =
     (case c of
        Arg f optarg \<Rightarrow> if f = of_char CHR ''f'' then opts\<lparr>co_filename := Some optarg\<rparr> else opts
      | Flag f \<Rightarrow> if f = of_char CHR ''q'' then opts\<lparr>co_quiet := co_quiet opts + 1\<rparr> else opts
      | Bad_option \<Rightarrow> opts\<lparr>co_errflg := co_errflg opts + 1\<rparr>)"

text \<open>\<^verbatim>\<open>parse_address\<close>: \<open>None\<close> is the result -1. The name service answers with the first IPv4 address of a name.\<close>

definition inet_addr :: "byte list \<Rightarrow> uint32" where
  "inet_addr s = (case inet_aton s of None \<Rightarrow> 0xFFFFFFFF | Some a \<Rightarrow> a)"

definition parse_address :: "(byte list \<Rightarrow> uint32 option) \<Rightarrow> byte list \<Rightarrow> sockaddr option" where
  "parse_address gethostbyname address =
     (let address = cstr address;
          host = takeWhile (\<lambda>c. c \<noteq> 58) address;
          port = (if 58 \<notin> set address then Some 0
                  else map_option (\<lambda>h_port. htons (ucast h_port)) (scan_unsigned (tl (dropWhile (\<lambda>c. c \<noteq> 58) address))))
      in case port of
           None \<Rightarrow> None
         | Some port \<Rightarrow>
             let s_addr = inet_addr host
             in map_option (\<lambda>ip. \<lparr>sa_family = AF_INET, sin_port = port, sin_addr = ip\<rparr>)
                  (if s_addr = 0xFFFFFFFF then gethostbyname host else Some s_addr))"

text \<open>The command line: the options and the address of the server, or an exit.\<close>

definition client_args :: "(byte list \<Rightarrow> uint32 option) \<Rightarrow> byte list list \<Rightarrow> (client_options \<times> sockaddr) program" where
  "client_args gethostbyname argv =
     (let (os, operands) = getopt (ascii ''q'') (ascii ''f'') argv;
          opts = fold client_option os \<lparr>co_filename = None, co_quiet = 0, co_errflg = 0\<rparr>
      in case operands of
           [pline] \<Rightarrow>
             if co_errflg opts \<noteq> 0 then Exits 1
             else (case parse_address gethostbyname pline of
                     None \<Rightarrow> Exits 1
                   | Some sin \<Rightarrow> if sin_port sin = 0 then Exits 1 else Goes_on (opts, sin))
         | _ \<Rightarrow> Exits 1)"

text \<open>
  One turn of the dialogue, up to the request: the line the user types (\<^verbatim>\<open>fgets\<close> leaves at most 999 bytes)
  without its trailing white space; \<open>None\<close> where the loop starts over.
\<close>

definition typed_name :: "byte list \<Rightarrow> byte list option" where
  "typed_name line =
     (let name = rev (dropWhile white (rev (cstr line)))
      in if length name \<le> 1 then None else Some name)"

text \<open>What the client does after an answer: \<open>Goes_on True\<close> is another turn, \<open>Goes_on False\<close> the end of the loop.\<close>

definition after_answer :: "byte list option \<Rightarrow> client_result \<Rightarrow> bool program" where
  "after_answer filename r =
     (case r of
        Read_error \<Rightarrow> Goes_on False
      | Malformed \<Rightarrow> Goes_on False
      | Server_error \<Rightarrow> Goes_on (filename = None)
      | Received left _ \<Rightarrow> if left \<noteq> 0 then Exits (- 1) else Goes_on (filename = None))"

section \<open>Serving a whole connection\<close>

text \<open>The bytes the application of a mysocket has written so far and the transport layer has not yet taken.\<close>

definition written :: "int \<Rightarrow> demux \<Rightarrow> byte list" where
  "written sd w = (case get_context sd w of Inl _ \<Rightarrow> [] | Inr (_, ctx) \<Rightarrow> concat (app_recv_queue ctx))"

lemma myread_written:
  assumes "readable sd w" and "myread sd n w = Inr (Some (rc, bs, w'))"
  shows "written sd w' = written sd w" "readable sd w'"
proof -
  obtain c ctx where ctx: "get_context sd w = Inr (c, ctx)" "\<not> listening ctx" "\<not> close_requested ctx"
    using assms(1) by (auto simp: readable_def split: sum.splits)
  have put: "get_context sd (put_context c (ctx\<lparr>eof := e, app_send_queue := q\<rparr>) w) = Inr (c, ctx\<lparr>eof := e, app_send_queue := q\<rparr>)"
    "get_context sd (put_context c (ctx\<lparr>app_send_queue := q\<rparr>) w) = Inr (c, ctx\<lparr>app_send_queue := q\<rparr>)"
    "get_context sd (put_context c (ctx\<lparr>app_send_queue := q, eof := e\<rparr>) w) = Inr (c, ctx\<lparr>app_send_queue := q, eof := e\<rparr>)" for e q
    by (simp_all add: get_context_put_same [OF ctx(1)])
  show "written sd w' = written sd w" "readable sd w'"
    using assms(2) ctx put by (auto simp: myread_def written_def readable_def Let_def split: if_splits option.splits)
qed

lemma nvt_loop_written:
  assumes "nvt_loop (myread sd) cap line w = Inr (Some (rc, l, w'))" and "readable sd w"
  shows "written sd w' = written sd w"
  using nvt_loop_keeps [of "\<lambda>v. readable sd v \<and> written sd v = written sd w", OF _ assms(1)] assms(2)
  by (metis myread_written)

text \<open>The answers to a list of requests.\<close>

definition answer :: "(byte list \<Rightarrow> file_result) \<Rightarrow> byte list \<Rightarrow> byte list" where
  "answer fs name = response name (fs name) @ (case fs name of Contents c \<Rightarrow> c | _ \<Rightarrow> [])"

definition good_name :: "byte list \<Rightarrow> bool" where
  "good_name name \<longleftrightarrow> name \<noteq> [] \<and> 13 \<notin> set name \<and> 0 \<notin> set name \<and> length name < 256"

lemma response_length:
  assumes "good_name name" and "\<And>c. f = Contents c \<Longrightarrow> length c < 2 ^ 31"
  shows "length (response name f) < 5000"
proof (cases f)
  case (Contents c)
  with assms ok_line_length [of c name] show ?thesis by (simp add: response_ok good_name_def crlf_def)
qed (use assms(1) in \<open>simp_all add: response_def good_name_def ascii_def crlf_def\<close>)

lemma process_line_answers:
  assumes "good_name name" and "get_context sd w = Inr (c, ctx)" and "\<not> listening ctx" and "\<not> close_requested ctx"
    and "\<And>c. fs name = Contents c \<Longrightarrow> length c < 2 ^ 31"
  shows "\<exists>w' bs. process_line fs sd name w = Inr (0, w') \<and> concat bs = answer fs name \<and>
    get_context sd w' = Inr (c, ctx\<lparr>app_recv_queue := app_recv_queue ctx @ bs\<rparr>)"
proof -
  let ?r = "response name (fs name)"
  let ?ctx = "ctx\<lparr>app_recv_queue := app_recv_queue ctx @ [?r]\<rparr>"
  obtain w1 where w1: "mywrite sd ?r w = Inr (int (length ?r), w1)" "get_context sd w1 = Inr (c, ?ctx)"
    using mywrite_queue [OF assms(2-4)] by blast
  have n: "name \<noteq> []" "length ?r < 5000"
    using assms(1) response_length [OF assms(1,5)] by (simp_all add: good_name_def)
  show ?thesis
  proof (cases "fs name")
    case (Contents f)
    obtain w2 bs where w2: "write_file sd f w1 = Inr (0, w2)" "concat bs = f"
      "get_context sd w2 = Inr (c, ?ctx\<lparr>app_recv_queue := app_recv_queue ?ctx @ bs\<rparr>)"
      using write_file_queue [OF w1(2), of f] assms(3,4) by auto
    then show ?thesis
      using n w1 Contents by (intro exI [of _ w2] exI [of _ "?r # bs"]) (simp add: process_line_def answer_def)
  qed (use n w1 in \<open>auto simp: process_line_def answer_def intro!: exI [of _ "[_]"]\<close>)
qed

lemma serve_one:
  assumes "readable sd w" and "unread sd w = name @ crlf @ rest" and "good_name name"
    and "\<And>c. fs name = Contents c \<Longrightarrow> length c < 2 ^ 31"
  shows "\<exists>w'. do_connection_step fs sd w = Inr (Some (True, w')) \<and> readable sd w' \<and> ended sd w' = ended sd w \<and> unread sd w' = rest \<and>
    written sd w' = written sd w @ answer fs name"
proof -
  obtain w1 where w1: "get_nvt_line 256 sd w = Inr (Some (0, name, w1))" "unread sd w1 = rest" "readable sd w1" "ended sd w1 = ended sd w"
    using app.nvt_loop_line [OF assms(1), of name rest 256 "[]"] assms(2,3)
    by (auto simp: get_nvt_line_def crlf_def good_name_def)
  have wr: "written sd w1 = written sd w"
    using nvt_loop_written [OF _ assms(1)] w1(1) by (simp add: get_nvt_line_def)
  obtain c ctx where ctx: "get_context sd w1 = Inr (c, ctx)" "\<not> listening ctx" "\<not> close_requested ctx"
    using w1(3) by (auto simp: readable_def split: sum.splits)
  obtain w2 bs where w2: "process_line fs sd name w1 = Inr (0, w2)" "concat bs = answer fs name"
    "get_context sd w2 = Inr (c, ctx\<lparr>app_recv_queue := app_recv_queue ctx @ bs\<rparr>)"
    using process_line_answers [where fs = fs, OF assms(3) ctx assms(4)] by blast
  have "c_string name = name" "name \<noteq> []"
    using assms(3) by (auto simp: c_string_def takeWhile_eq_all_conv good_name_def)
  then have "do_connection_step fs sd w = Inr (Some (True, w2))"
    using w1(1) w2(1) by (simp add: do_connection_step_def)
  moreover have "readable sd w2" "ended sd w2 = ended sd w" "unread sd w2 = rest" "written sd w2 = written sd w @ answer fs name"
    using w1(2-4) wr ctx w2(2,3) by (auto simp: readable_def ended_def unread_def written_def split: if_splits)
  ultimately show ?thesis by blast
qed

lemma serve_end:
  assumes "readable sd w" and "ended sd w" and "unread sd w = []"
  shows "\<exists>w'. do_connection_step fs sd w = Inr (Some (False, w')) \<and> written sd w' = written sd w"
proof -
  obtain w1 where w1: "myread sd 1 w = Inr (Some (0, [], w1))"
    using app.read_end [OF assms(1) _ assms(3,2), of 1] by auto
  then have "get_nvt_line 256 sd w = Inr (Some (0, [], w1))"
    unfolding get_nvt_line_def by (subst nvt_loop.simps) simp
  then show ?thesis
    using myread_written(1) [OF assms(1) w1] by (simp add: do_connection_step_def c_string_def)
qed

lemma serve_all:
  "readable sd w \<Longrightarrow> ended sd w \<Longrightarrow> unread sd w = concat (map (\<lambda>name. name @ crlf) names) \<Longrightarrow>
   list_all good_name names \<Longrightarrow> (\<And>name c. fs name = Contents c \<Longrightarrow> length c < 2 ^ 31) \<Longrightarrow> length names < n \<Longrightarrow>
   \<exists>w'. serve_loop n fs sd w = Inr (Some w') \<and> written sd w' = written sd w @ concat (map (answer fs) names)"
proof (induction names arbitrary: w n)
  case Nil
  then show ?case using serve_end [of sd w fs] by (cases n) auto
next
  case (Cons name names)
  then obtain m where n: "n = Suc m" "length names < m" by (cases n) auto
  obtain w1 where w1: "do_connection_step fs sd w = Inr (Some (True, w1))" "readable sd w1" "ended sd w1"
    "unread sd w1 = concat (map (\<lambda>name. name @ crlf) names)" "written sd w1 = written sd w @ answer fs name"
    using serve_one [OF Cons.prems(1), of name "concat (map (\<lambda>name. name @ crlf) names)" fs] Cons.prems(2-5) by auto
  show ?case
    using Cons.IH [OF w1(2-4) _ Cons.prems(5) n(2)] Cons.prems(4) w1(1,5) n(1) by auto
qed

text \<open>
  C10: a client's whole session is served. When the stream of a connection holds any number of request lines
  and then ends, the server answers them all, in order: for every name the line with the length and exactly
  the contents of the file, or the error line for a file it cannot read; then it leaves its loop and closes
  the mysocket. Names are non-empty, shorter than 256 bytes and free of carriage returns and null bytes.
\<close>

theorem session_served:
  assumes "readable sd w" and "ended sd w" and "unread sd w = concat (map (\<lambda>name. name @ crlf) names)"
    and "list_all good_name names" and "\<And>name c. fs name = Contents c \<Longrightarrow> length c < 2 ^ 31" and "length names < n"
  shows "\<exists>w'. do_connection n depth joined fs sd w = myclose depth joined sd w' \<and>
    written sd w' = written sd w @ concat (map (\<lambda>name. response name (fs name) @
      (case fs name of Contents c \<Rightarrow> c | _ \<Rightarrow> [])) names)"
proof -
  obtain w' where "serve_loop n fs sd w = Inr (Some w')" "written sd w' = written sd w @ concat (map (answer fs) names)"
    using serve_all [where fs = fs, OF assms(1-4) _ assms(6)] assms(5) by blast
  moreover have "answer fs = (\<lambda>name. response name (fs name) @ (case fs name of Contents c \<Rightarrow> c | _ \<Rightarrow> []))"
    by (rule ext) (simp add: answer_def)
  ultimately show ?thesis by (intro exI [of _ w']) (simp add: do_connection_def)
qed

text \<open>A client that asks for a file and for one that does not exist.\<close>

definition demo_requests :: demux where
  "demo_requests = demo_conn ((demo_stcp [] [])\<lparr>app_send_queue := [[97, 13, 10, 98, 13], [10], []]\<rparr>)"

definition demo_fs :: "byte list \<Rightarrow> file_result" where
  "demo_fs name = (if name = [97] then Contents [1, 2, 3] else No_access)"

theorem session_served_witness:
  "\<exists>w'. do_connection 3 1 (\<lambda>_. False) demo_fs 0 demo_requests = myclose 1 (\<lambda>_. False) 0 w' \<and>
     written 0 w' = response [97] (Contents [1, 2, 3]) @ [1, 2, 3] @ response [98] No_access"
proof -
  have get: "get_context 0 demo_requests = Inr (0, (demo_stcp [] [])\<lparr>app_send_queue := [[97, 13, 10, 98, 13], [10], []]\<rparr>)"
    unfolding demo_requests_def by (rule demo_conn_get) (simp add: demo_stcp_def fresh_context_def)
  have "readable 0 demo_requests" "ended 0 demo_requests" "written 0 demo_requests = []"
    "unread 0 demo_requests = concat (map (\<lambda>name. name @ crlf) [[97], [98]])"
    by (simp_all add: readable_def ended_def unread_def written_def get crlf_def)
      (simp_all add: demo_stcp_def fresh_context_def)
  moreover have "length c < 2 ^ 31" if "demo_fs name = Contents c" for name c
    using that by (auto simp: demo_fs_def split: if_splits)
  ultimately show ?thesis
    using session_served [of 0 demo_requests "[[97], [98]]" demo_fs 3 1 "\<lambda>_. False"]
    by (simp add: good_name_def) (simp add: demo_fs_def)
qed

section \<open>Starting the server\<close>

text \<open>The state of a process that has not used the mysocket layer yet.\<close>

definition fresh_process :: demux where
  "fresh_process = \<lparr>ctx_mem = Map.empty, ctx_brk = 0, global_ctx = replicate 64 None, errno = 0,
     listen_table = hash_empty 64, lq_mem = Map.empty, lq_brk = 0\<rparr>"

definition with_mysocket :: "mysock_context \<Rightarrow> demux" where
  "with_mysocket ctx = fresh_process\<lparr>ctx_brk := 1, ctx_mem := [0 \<mapsto> ctx], global_ctx := Some 0 # replicate 63 None\<rparr>"

definition bound_context :: "conn_sock \<Rightarrow> sockaddr \<Rightarrow> mysock_context" where
  "bound_context s sin = (fresh_context s 0)\<lparr>bound := True,
     network_state := (network_state (fresh_context s 0))\<lparr>local_addr := sin\<rparr>\<rparr>"

definition server_queue :: "uint16 \<Rightarrow> bool \<Rightarrow> listen_queue" where
  "server_queue port moves = \<lparr>local_port = port, max_len = 6, cur_len = 0, connection_queue = replicate 6 invalid_request,
     queue_block = (if moves then 1 else 0), completed_queue = []\<rparr>"

definition server_process :: "conn_sock \<Rightarrow> sockaddr \<Rightarrow> bool \<Rightarrow> mysock_context \<Rightarrow> demux" where
  "server_process s sin moves ctx = (with_mysocket ctx)\<lparr>listen_table := (hash_empty 64)[0 := [(0, 0)]],
     lq_mem := [0 \<mapsto> server_queue (ntohs (sock_port s)) moves], lq_brk := 2\<rparr>"

lemma fresh_mysocket: "mysocket (Some s) fresh_process = Inr (0, with_mysocket (fresh_context s 0))"
proof -
  have "global_ctx fresh_process = None # replicate 63 None"
    by (simp add: fresh_process_def numeral_eq_Suc)
  then show ?thesis
    using new_mysocket_free [of fresh_process 0 s]
    by (simp add: mysocket_def with_mysocket_def) (simp add: fresh_process_def)
qed

lemma with_mysocket_get:
  assumes "my_sd ctx = 0"
  shows "get_context 0 (with_mysocket ctx) = Inr (0, ctx)" "put_context 0 ctx' (with_mysocket ctx) = with_mysocket ctx'"
    "get_context 0 (server_process s sin moves ctx) = Inr (0, ctx)"
    "put_context 0 ctx' (server_process s sin moves ctx) = server_process s sin moves ctx'"
  using assms by (simp_all add: with_mysocket_def server_process_def get_context_def verify_mysocket_descriptor_def
      MAX_NUM_CONNECTIONS_def put_context_def)

lemma fresh_bind:
  "sa_family sin = AF_INET \<Longrightarrow> mybind 0 0 sin (with_mysocket (fresh_context s 0)) = Inr (0, with_mysocket (bound_context s sin))"
  by (simp add: mybind_def with_mysocket_get fresh_context_def network_bind_def network_bind_socket_def with_socket_def
      bound_context_def)

lemma server_backlog:
  assumes "0 < ntohs (sock_port s)"
  shows "set_backlog moves 0 5 (with_mysocket ((bound_context s sin)\<lparr>listening := True\<rparr>)) =
    Inr (server_process s sin moves ((bound_context s sin)\<lparr>listening := True\<rparr>))"
proof -
  let ?ctx = "(bound_context s sin)\<lparr>listening := True\<rparr>"
  have ctx: "listening ?ctx" "bound ?ctx" "my_sd ?ctx = 0" "network_get_port (network_state ?ctx) = Inr (sock_port s)"
    by (simp_all add: bound_context_def fresh_context_def network_get_port_def with_socket_def)
  have mem: "ctx_mem (with_mysocket ?ctx) 0 = Some ?ctx" "listen_table (with_mysocket ?ctx) = hash_empty 64"
    "lq_brk (with_mysocket ?ctx) = 0" "lq_mem (with_mysocket ?ctx) = Map.empty"
    by (simp_all add: with_mysocket_def fresh_process_def)
  have hash: "listen_hash 0 = 0" "(hash_empty 64 :: (int, nat) buckets) ! 0 = []" "MAX_NUM_CONNECTIONS = 64"
    by (simp_all add: listen_hash_def hash_empty_def MAX_NUM_CONNECTIONS_def)
  have "(5 :: uint32) + 1 = 6" by simp
  with ctx mem hash assms show ?thesis
    by (simp add: set_backlog_def get_connection_queue_def hash_lookup_ptr_def hash_get_entry_def hash_insert_def
        with_queue_def put_queue_def resize_def server_process_def server_queue_def del: replicate.simps)
qed

definition serving_context :: "conn_sock \<Rightarrow> sockaddr \<Rightarrow> mysock_context" where
  "serving_context s sin = (bound_context s sin)\<lparr>listening := True,
     network_state := (network_state (bound_context s sin))\<lparr>
       impl_data := map_option (\<lambda>io. io\<lparr>recv_thread_started := True\<rparr>) (impl_data (network_state (bound_context s sin)))\<rparr>\<rparr>"

lemma fresh_listen:
  assumes "0 < ntohs (sock_port s)"
  shows "mylisten moves 0 0 5 (with_mysocket (bound_context s sin)) =
    Inr (0, server_process s sin moves (serving_context s sin))"
proof -
  let ?ctx = "(bound_context s sin)\<lparr>listening := True\<rparr>"
  have "my_sd (bound_context s sin) = 0" "bound (bound_context s sin)"
    by (simp_all add: bound_context_def fresh_context_def)
  moreover have "ctx_mem (server_process s sin moves ?ctx) 0 = Some ?ctx"
    by (simp add: server_process_def with_mysocket_def)
  moreover have "network_listen 0 (network_state ?ctx) = Inr 0"
    "network_start_recv_thread ?ctx = Inr (serving_context s sin)"
    by (simp_all add: bound_context_def fresh_context_def network_listen_def with_socket_def
        network_start_recv_thread_def serving_context_def)
  ultimately show ?thesis
    by (simp add: mylisten_def with_mysocket_get server_backlog [OF assms])
qed

lemma serving_name:
  assumes "sa_family sin = AF_INET" and "sock_port s = htons (word_of_nat port)" and "port < 65536" and "length host < 100"
  shows "local_name if_ip (Some host) 0 (server_process s sin moves (serving_context s sin)) =
    Inr (host @ [58] @ decimal port)"
proof -
  have "my_sd (serving_context s sin) = 0" "local_addr (network_state (serving_context s sin)) = sin"
    "network_get_port (network_state (serving_context s sin)) = Inr (sock_port s)"
    "\<not> peer_addr_valid (network_state (serving_context s sin))"
    by (simp_all add: serving_context_def bound_context_def fresh_context_def network_get_port_def with_socket_def)
  moreover have "unat (word_of_nat port :: uint16) = port"
    using assms(3) by (simp add: unsigned_of_nat take_bit_nat_eq_self)
  moreover have "length (decimal port) \<le> 5"
    using decimal_length [of port 4] assms(3) by simp
  ultimately show ?thesis
    using assms by (simp add: local_name_def mygetsockname_def with_mysocket_get ascii_def)
qed

lemma ucast_port: "ucast (word_of_nat n :: uint32) = (word_of_nat n :: uint16)"
  by transfer (simp add: take_bit_of_nat take_bit_take_bit)

lemma serving_queue:
  "get_connection_queue (serving_context s sin) (server_process s sin moves (serving_context s sin)) = Inr (Some 0)"
  "lq_mem (server_process s sin moves (serving_context s sin)) 0 = Some (server_queue (ntohs (sock_port s)) moves)"
  by (simp_all add: server_process_def serving_context_def bound_context_def fresh_context_def get_connection_queue_def
      hash_lookup_ptr_def hash_get_entry_def listen_hash_def hash_empty_def MAX_NUM_CONNECTIONS_def with_mysocket_def)

text \<open>
  The server comes up. Started with a port number and no earlier use of the mysocket layer, and with
  system calls that succeed, \<^verbatim>\<open>main\<close> gets descriptor 0, prints the host name, a colon and that port, and holds
  a mysocket that is bound and listening on it, with its receiving thread started and an empty queue of six
  pending connections; \<^verbatim>\<open>myaccept\<close> waits on it.
\<close>

theorem server_listens:
  assumes "sock_port s = htons (word_of_nat port)" and "0 < port" and "port < 65536" and "length host < 100"
  shows "\<exists>w ctx q. server_main (Some s) 0 moves 0 if_ip (Some host) [decimal port] fresh_process =
      Inr (Goes_on (0, host @ [58] @ decimal port, w)) \<and>
    get_context 0 w = Inr (0, ctx) \<and> bound ctx \<and> listening ctx \<and> map_option recv_thread_started (impl_data (network_state ctx)) = Some True \<and>
    sin_port (local_addr (network_state ctx)) = htons (word_of_nat port) \<and>
    get_connection_queue ctx w = Inr (Some 0) \<and> lq_mem w 0 = Some q \<and> fresh_queue 6 q \<and> local_port q = word_of_nat port \<and>
    myaccept 0 w = Inr None"
proof -
  let ?sin = "\<lparr>sa_family = AF_INET, sin_port = htons (word_of_nat port), sin_addr = htonl 0\<rparr>"
  let ?ctx = "serving_context s ?sin" and ?q = "server_queue (word_of_nat port) moves"
  let ?w = "server_process s ?sin moves ?ctx"
  have port: "ntohs (sock_port s) = word_of_nat port" "0 < (word_of_nat port :: uint16)"
    using assms(1-3) by (simp_all add: word_less_nat_alt unsigned_of_nat take_bit_nat_eq_self)
  have "ucast (atoi (decimal port)) = (word_of_nat port :: uint16)"
    using assms(3) by (simp add: atoi_decimal ucast_port)
  then have "server_main (Some s) 0 moves 0 if_ip (Some host) [decimal port] fresh_process =
      Inr (Goes_on (0, host @ [58] @ decimal port, ?w))"
    using serving_name [of ?sin s port host if_ip moves] assms port
    by (simp add: server_main_def fresh_mysocket fresh_bind fresh_listen)
  moreover have ctx: "my_sd ?ctx = 0" "bound ?ctx" "listening ?ctx" "local_addr (network_state ?ctx) = ?sin"
    "map_option recv_thread_started (impl_data (network_state ?ctx)) = Some True"
    by (simp_all add: serving_context_def bound_context_def fresh_context_def)
  moreover have "get_context 0 ?w = Inr (0, ?ctx)"
    using ctx(1) by (rule with_mysocket_get)
  moreover have "fresh_queue 6 ?q" "local_port ?q = word_of_nat port" "take_completed ?q = Inr None"
    by (simp_all add: server_queue_def fresh_queue_def take_completed_def)
  moreover have "dequeue_connection ?ctx ?w = Inr None"
    using calculation serving_queue [of s ?sin moves] port(1) by (simp add: dequeue_connection_def with_queue_def)
  ultimately show ?thesis
    using serving_queue [of s ?sin moves] port(1) by (intro exI [of _ ?w] exI [of _ ?ctx] exI [of _ ?q]) (simp add: myaccept_def)
qed

theorem server_listens_witness:
  "\<exists>w ctx. server_main (Some \<lparr>tx = [], tx_events = [], rx = [], connect_ok = True, sock_port = 8080, so_errno = 0\<rparr>)
      0 True 0 0 (Some [104]) [decimal 36895] fresh_process = Inr (Goes_on (0, [104, 58, 51, 54, 56, 57, 53], w)) \<and>
     get_context 0 w = Inr (0, ctx) \<and> listening ctx \<and> myaccept 0 w = Inr None"
proof -
  have port: "8080 = htons (word_of_nat 36895)" "decimal 36895 = [51, 54, 56, 57, 53]" by code_simp+
  show ?thesis
    using server_listens [of "\<lparr>tx = [], tx_events = [], rx = [], connect_ok = True, sock_port = 8080, so_errno = 0\<rparr>" 36895 "[104]" True 0]
      port by (simp del: decimal.simps) blast
qed

section \<open>Addresses and names the client is given\<close>

text \<open>
  The address of a server, written as the dotted address, a colon and the port number the server prints,
  is read by \<^verbatim>\<open>parse_address\<close> as exactly that address and port, without asking the name service; only the
  broadcast address, which \<^verbatim>\<open>inet_addr\<close> cannot tell from an error, is left to it.
\<close>

theorem address_roundtrip:
  assumes "port < 65536"
  shows "parse_address gethostbyname (inet_ntoa a @ [58] @ decimal port) =
    (if a = 0xFFFFFFFF
     then map_option (\<lambda>ip. \<lparr>sa_family = AF_INET, sin_port = htons (word_of_nat port), sin_addr = ip\<rparr>) (gethostbyname (inet_ntoa a))
     else Some \<lparr>sa_family = AF_INET, sin_port = htons (word_of_nat port), sin_addr = a\<rparr>)"
proof -
  let ?s = "inet_ntoa a @ [58] @ decimal port"
  have host: "c \<noteq> 58 \<and> c \<noteq> 0" if "c \<in> set (inet_ntoa a)" for c
    using inet_ntoa_chars [of a] that by (auto simp: list_all_iff is_dec_def)
  have "cstr ?s = ?s"
    using host decimal_digits [of port] by (intro cstr_id) (auto simp: list_all_iff is_dec_def)
  moreover have "takeWhile (\<lambda>c. c \<noteq> 58) ?s = inet_ntoa a" "dropWhile (\<lambda>c. c \<noteq> 58) ?s = [58] @ decimal port"
    using host by (subst takeWhile_append2 dropWhile_append2; simp)+
  moreover have "scan_unsigned (decimal port) = Some (word_of_nat port)"
    using assms by (simp add: scan_unsigned_decimal)
  moreover have "ucast (word_of_nat port :: uint32) = (word_of_nat port :: uint16)"
    by (simp add: ucast_port)
  ultimately show ?thesis
    by (auto simp: parse_address_def Let_def inet_addr_def inet_aton_ntoa)
qed

theorem address_roundtrip_witness:
  "inet_ntoa 0x0100007F = [49, 50, 55, 46, 48, 46, 48, 46, 49] \<and>
   parse_address (\<lambda>_. None) ([49, 50, 55, 46, 48, 46, 48, 46, 49] @ [58] @ decimal 8080) =
     Some \<lparr>sa_family = AF_INET, sin_port = htons 8080, sin_addr = 0x0100007F\<rparr>"
proof -
  have "inet_ntoa 0x0100007F = [49, 50, 55, 46, 48, 46, 48, 46, 49]" by code_simp
  then show ?thesis
    using address_roundtrip [of 8080 "\<lambda>_. None" "0x0100007F"] by simp
qed

text \<open>The name is the line without the white space at its end, whatever is in front of that.\<close>

lemma typed_name_trims:
  assumes "0 \<notin> set name" and "name = [] \<or> \<not> white (last name)" and "list_all white ws"
  shows "typed_name (name @ ws) = (if length name \<le> 1 then None else Some name)"
proof -
  have "0 \<notin> set ws" using assms(3) by (auto simp: list_all_iff white_def)
  with assms(1) have "cstr (name @ ws) = name @ ws" by (auto simp: cstr_def takeWhile_eq_all_conv)
  moreover have "dropWhile white (rev ws @ rev name) = rev name"
  proof -
    have "dropWhile white (rev ws @ rev name) = dropWhile white (rev name)"
      using assms(3) by (subst dropWhile_append2) (auto simp: list_all_iff)
    also have "\<dots> = rev name" using assms(2) by (cases name rule: rev_cases) auto
    finally show ?thesis .
  qed
  ultimately show ?thesis by (simp add: typed_name_def Let_def)
qed

text \<open>
  A file whose name has one character cannot be asked for in the dialogue: \<^verbatim>\<open>loop_until_end\<close> compares the
  address of the last character with that of the first.
\<close>

lemma short_name_skipped:
  assumes "length name = 1" and "list_all white ws"
  shows "typed_name (name @ ws) = None"
proof -
  obtain c where name: "name = [c]" using assms(1) by (cases name) auto
  have "0 \<notin> set ws" using assms(2) by (auto simp: list_all_iff white_def)
  then have "cstr (name @ ws) = (if c = 0 then [] else c # ws)"
    by (auto simp: name cstr_def takeWhile_eq_all_conv)
  moreover have "dropWhile white (rev ws @ [c]) = dropWhile white [c]"
    using assms(2) by (subst dropWhile_append2) (auto simp: list_all_iff)
  ultimately show ?thesis by (simp add: typed_name_def Let_def)
qed

end
