(* ===== verification/File_Dialogue.thy ===== *)
theory File_Dialogue
  imports File_Programs
begin

text \<open>
  The dialogue of the client with its user and with the server: \<^verbatim>\<open>main\<close> up to the connection and the loop
  \<^verbatim>\<open>loop_until_end\<close> of \<^verbatim>\<open>client.c\<close>. While the client waits for an answer the other threads and the server
  work; what they do to its state is an argument of each turn. A line is what \<^verbatim>\<open>fgets\<close> has returned. The file the answer is stored in can be
  created, and the option \<^verbatim>\<open>-q\<close> is not given.
\<close>

section \<open>The code\<close>

text \<open>\<^verbatim>\<open>main\<close> until it waits for the connection.\<close>

definition client_start ::
  "conn_sock option \<Rightarrow> int \<Rightarrow> (byte list \<Rightarrow> uint32 option) \<Rightarrow> byte list list \<Rightarrow> demux \<Rightarrow>
   fault + (client_options \<times> int \<times> demux) program" where
  "client_start s bind_rc gethostbyname argv w =
     (case client_args gethostbyname argv of
        Exits rc \<Rightarrow> Inr (Exits rc)
      | Goes_on (opts, sin) \<Rightarrow>
          andthen (mysocket s w) (\<lambda>(sd, w).
            if sd < 0 then Inr (Exits 1)
            else andthen (myconnect_start bind_rc sd sin 16 w) (\<lambda>(rc, w).
                   case rc of Some _ \<Rightarrow> Inr (Exits 1) | None \<Rightarrow> Inr (Goes_on (opts, sd, w)))))"

text \<open>One request and its answer: how the program goes on, the answers received, the state.\<close>

definition client_turn ::
  "int \<Rightarrow> byte list option \<Rightarrow> (demux \<Rightarrow> demux) \<Rightarrow> byte list \<Rightarrow> int \<Rightarrow> demux \<Rightarrow>
   fault + (bool program \<times> client_result list \<times> demux) option" where
  "client_turn uninit filename others name sd w =
     andthen (send_request sd name w) (\<lambda>(rc, w).
       if rc < 0 then Inr (Some (Goes_on False, [], w))
       else bindw (receive_answer uninit sd (others w)) (\<lambda>(r, w).
              Inr (Some (after_answer filename r, [r], w))))"

text \<open>The loop when the user types the names; the list of lines ends where \<^verbatim>\<open>fgets\<close> finds the end of the input.\<close>

fun typed_loop ::
  "int \<Rightarrow> (byte list \<times> (demux \<Rightarrow> demux)) list \<Rightarrow> int \<Rightarrow> demux \<Rightarrow>
   fault + (client_result list program \<times> demux) option" where
  "typed_loop uninit [] sd w = Inr (Some (Goes_on [], w))"
| "typed_loop uninit ((line, others) # ts) sd w =
     (case typed_name line of
        None \<Rightarrow> typed_loop uninit ts sd w
      | Some name \<Rightarrow>
          bindw (client_turn uninit None others name sd w) (\<lambda>(p, rs, w).
            case p of
              Exits rc \<Rightarrow> Inr (Some (Exits rc, w))
            | Goes_on False \<Rightarrow> Inr (Some (Goes_on rs, w))
            | Goes_on True \<Rightarrow>
                bindw (typed_loop uninit ts sd w) (\<lambda>(p, w).
                  Inr (Some (case p of Exits rc \<Rightarrow> Exits rc | Goes_on rs' \<Rightarrow> Goes_on (rs @ rs'), w)))))"

definition loop_until_end ::
  "int \<Rightarrow> byte list option \<Rightarrow> (byte list \<times> (demux \<Rightarrow> demux)) list \<Rightarrow> int \<Rightarrow> demux \<Rightarrow>
   fault + (client_result list program \<times> demux) option" where
  "loop_until_end uninit filename ts sd w =
     (case filename of
        None \<Rightarrow> typed_loop uninit ts sd w
      | Some name \<Rightarrow>
          (case ts of
             [] \<Rightarrow> Inr None
           | (_, others) # _ \<Rightarrow>
               bindw (client_turn uninit filename others name sd w) (\<lambda>(p, rs, w).
                 Inr (Some (case p of Exits rc \<Rightarrow> Exits rc | Goes_on _ \<Rightarrow> Goes_on rs, w)))))"

section \<open>The answers of the server are understood\<close>

definition expected :: "file_result \<Rightarrow> client_result" where
  "expected f = (case f of Contents c \<Rightarrow> Received 0 c | _ \<Rightarrow> Server_error)"

lemma parse_error_line:
  assumes "44 \<notin> set msg"
  shows "parse_response u (name @ [44, 45, 49, 44] @ msg) = Some (- 1)"
proof -
  have "split_last 44 ((name @ [44, 45, 49]) @ 44 # msg) = Some (name @ [44, 45, 49], msg)"
    using assms by (rule split_last_append)
  moreover have "split_last 44 (name @ 44 # [45, 49]) = Some (name, [45, 49])"
    by (rule split_last_append) simp
  moreover have "scan_int [45, 49] = Some (- 1)" by code_simp
  ultimately show ?thesis by (simp add: parse_response_def)
qed

lemma response_line:
  assumes "good_name name" and "\<And>c. f = Contents c \<Longrightarrow> length c < 2 ^ 31"
  obtains l where "response name f = l @ crlf" "13 \<notin> set l" "c_string l = l" "length l < 1000"
    "parse_response u l = Some (case f of Contents c \<Rightarrow> int (length c) | _ \<Rightarrow> - 1)"
proof (cases f)
  case (Contents c)
  have "0 \<notin> set (ok_line name c)" "13 \<notin> set (ok_line name c)"
    using assms(1) ok_line_plain [of 13 name c] ok_line_plain [of 0 name c] by (auto simp: good_name_def)
  then show thesis
    using assms Contents ok_line_length [of c name] parse_ok_line [of c u name] response_ok [of name c]
    by (intro that [of "ok_line name c"]) (auto simp: c_string_def takeWhile_eq_all_conv good_name_def)
next
  case No_access
  let ?m = "ascii ''File does not exist or access denied''"
  have m: "44 \<notin> set ?m" "0 \<notin> set ?m" "13 \<notin> set ?m" "length ?m = 36" by (simp_all add: ascii_def)
  show thesis
    using assms(1) m(2-) parse_error_line [OF m(1), of u name] No_access
    by (intro that [of "name @ [44, 45, 49, 44] @ ?m"])
      (auto simp: response_def ascii_def c_string_def takeWhile_eq_all_conv good_name_def)
next
  case Open_fails
  let ?m = "ascii ''File could not be opened''"
  have m: "44 \<notin> set ?m" "0 \<notin> set ?m" "13 \<notin> set ?m" "length ?m = 24" by (simp_all add: ascii_def)
  show thesis
    using assms(1) m(2-) parse_error_line [OF m(1), of u name] Open_fails
    by (intro that [of "name @ [44, 45, 49, 44] @ ?m"])
      (auto simp: response_def ascii_def c_string_def takeWhile_eq_all_conv good_name_def)
qed

lemma recv_file_written:
  assumes "recv_file (myread sd) left acc w = Inr (Some (m, file, w'))" and "readable sd w"
  shows "written sd w' = written sd w"
  using recv_file_keeps [of "\<lambda>v. readable sd v \<and> written sd v = written sd w", OF _ assms(1)] assms(2)
  by (metis myread_written)

lemma answer_received:
  assumes "good_name name" and "\<And>c. fs name = Contents c \<Longrightarrow> length c < 2 ^ 31"
    and "readable sd w" and "unread sd w = answer fs name @ rest"
  shows "\<exists>w'. receive_answer u sd w = Inr (Some (expected (fs name), w')) \<and> readable sd w' \<and> unread sd w' = rest \<and>
    ended sd w' = ended sd w \<and> written sd w' = written sd w"
proof -
  let ?c = "case fs name of Contents c \<Rightarrow> c | _ \<Rightarrow> []"
  obtain l where l: "response name (fs name) = l @ crlf" "13 \<notin> set l" "c_string l = l" "length l < 1000"
    "parse_response u l = Some (case fs name of Contents c \<Rightarrow> int (length c) | _ \<Rightarrow> - 1)"
    by (rule response_line [OF assms(1,2)])
  have "unread sd w = l @ 13 # 10 # ?c @ rest"
    using assms(4) l(1) by (simp add: answer_def crlf_def)
  then obtain w1 where w1: "get_nvt_line 1000 sd w = Inr (Some (0, l, w1))" "unread sd w1 = ?c @ rest" "readable sd w1"
    "ended sd w1 = ended sd w"
    using app.nvt_loop_line [OF assms(3), of l "?c @ rest" 1000 "[]"] l(2,4) by (auto simp: get_nvt_line_def)
  have wr: "written sd w1 = written sd w"
    using nvt_loop_written [OF _ assms(3)] w1(1) by (simp add: get_nvt_line_def)
  show ?thesis
  proof (cases "fs name")
    case (Contents c)
    then obtain w2 where w2: "recv_file (myread sd) (int (length c)) [] w1 = Inr (Some (0, c, w2))" "unread sd w2 = rest"
      "readable sd w2" "ended sd w2 = ended sd w1"
      using app.recv_file_all [OF w1(3), of c rest "[]"] w1(2) by auto
    then show ?thesis
      using recv_file_written [OF w2(1) w1(3)] Contents w1(1,4) wr l(3,5)
      by (simp add: receive_answer_def expected_def)
  qed (use w1 wr l(3,5) in \<open>simp_all add: receive_answer_def expected_def\<close>)
qed

section \<open>Properties\<close>

text \<open>
  What the rest of the system does in a turn: the network takes the request to the server, the server does an iteration
  of its loop, and the network brings back what that has written. \<open>ssd\<close> is the descriptor of the connection at the server.
\<close>

definition server_answers :: "(byte list \<Rightarrow> file_result) \<Rightarrow> int \<Rightarrow> int \<Rightarrow> (demux \<Rightarrow> demux) \<Rightarrow> bool" where
  "server_answers fs sd ssd others \<longleftrightarrow>
     (\<forall>w. readable sd w \<and> unread sd w = [] \<longrightarrow>
        (\<exists>v. readable ssd v \<and> unread ssd v = written sd w \<and> written ssd v = [] \<and>
           (\<forall>v'. do_connection_step fs ssd v = Inr (Some (True, v')) \<longrightarrow>
              readable sd (others w) \<and> unread sd (others w) = written ssd v' \<and> written sd (others w) = [])))"

lemma turn_answered:
  assumes "good_name name" and "\<And>c. fs name = Contents c \<Longrightarrow> length c < 2 ^ 31" and "server_answers fs sd ssd others"
    and "readable sd w" and "unread sd w = []" and "written sd w = []"
  shows "\<exists>w'. client_turn u filename others name sd w = Inr (Some (Goes_on (filename = None), [expected (fs name)], w')) \<and>
    readable sd w' \<and> unread sd w' = [] \<and> written sd w' = []"
proof -
  obtain c ctx where ctx: "get_context sd w = Inr (c, ctx)" "\<not> listening ctx" "\<not> close_requested ctx"
    using assms(4) by (auto simp: readable_def split: sum.splits)
  obtain w1 where w1: "mywrite sd (name @ crlf) w = Inr (int (length (name @ crlf)), w1)"
    "get_context sd w1 = Inr (c, ctx\<lparr>app_recv_queue := app_recv_queue ctx @ [name @ crlf]\<rparr>)"
    using mywrite_queue [OF ctx] by blast
  have "readable sd w1" "unread sd w1 = []" "written sd w1 = name @ crlf"
    using ctx w1(2) assms(5,6) by (auto simp: readable_def unread_def written_def split: if_splits)
  then obtain v where v: "readable ssd v" "unread ssd v = name @ crlf @ []" "written ssd v = []"
    "\<And>v'. do_connection_step fs ssd v = Inr (Some (True, v')) \<Longrightarrow>
       readable sd (others w1) \<and> unread sd (others w1) = written ssd v' \<and> written sd (others w1) = []"
    using assms(3) unfolding server_answers_def by (metis append_Nil2)
  then have o: "readable sd (others w1)" "unread sd (others w1) = answer fs name @ []" "written sd (others w1) = []"
    using serve_one [where fs = fs, OF v(1,2) assms(1,2)] by auto
  obtain w2 where w2: "receive_answer u sd (others w1) = Inr (Some (expected (fs name), w2))" "readable sd w2" "unread sd w2 = []"
    "written sd w2 = []"
    using answer_received [where fs = fs, OF assms(1,2) o(1,2), of u] o(3) by auto
  have "send_request sd name w = Inr (int (length (name @ crlf)), w1)"
    using w1(1) assms(1) by (simp add: send_request_def good_name_def)
  moreover have "after_answer filename (expected (fs name)) = Goes_on (filename = None)"
    by (simp add: after_answer_def expected_def split: file_result.split)
  ultimately show ?thesis using w2 by (simp add: client_turn_def)
qed

text \<open>
  C11: a user gets the files asked for. Of the lines typed, in any number and with any white space behind the names, each
  name of at least two characters is sent as a request; lines with a shorter name or none are skipped. When the network carries
  each request to the server, whose loop does an iteration on it, and what that writes back to the client, then the client stores
  exactly the contents of every file the server can read, reports the error for the others and goes on, until the end of
  the input. Started with \<^verbatim>\<open>-f\<close> it asks for that one file, whatever the length of its name. Names are shorter than 256
  characters and free of carriage returns and null bytes, and files shorter than 2 GB.
\<close>

theorem dialogue_answered:
  assumes "list_all (\<lambda>(name, ws, others). (name = [] \<or> good_name name \<and> \<not> white (last name)) \<and> list_all white ws \<and>
      server_answers fs sd ssd others) ts"
    and "\<And>name c. fs name = Contents c \<Longrightarrow> length c < 2 ^ 31"
    and "readable sd w" and "unread sd w = []" and "written sd w = []"
    and "good_name name" and "server_answers fs sd ssd others"
  shows "(\<exists>w'. loop_until_end u None (map (\<lambda>(name, ws, others). (name @ ws, others)) ts) sd w =
      Inr (Some (Goes_on (map (\<lambda>(name, ws, others). case fs name of Contents c \<Rightarrow> Received 0 c | _ \<Rightarrow> Server_error)
        (filter (\<lambda>(name, ws, others). length name > 1) ts)), w'))) \<and>
    (\<exists>w'. loop_until_end u (Some name) [(line, others)] sd w =
      Inr (Some (Goes_on [case fs name of Contents c \<Rightarrow> Received 0 c | _ \<Rightarrow> Server_error], w')))"
proof
  have "\<exists>w'. typed_loop u (map (\<lambda>(name, ws, others). (name @ ws, others)) ts) sd w =
      Inr (Some (Goes_on (map (\<lambda>(name, ws, others). expected (fs name)) (filter (\<lambda>(name, ws, others). length name > 1) ts)), w'))"
    using assms(1,3-5)
  proof (induction ts arbitrary: w)
    case (Cons t ts)
    obtain name ws others where t: "t = (name, ws, others)" by (cases t)
    have "typed_name (name @ ws) = (if length name \<le> 1 then None else Some name)"
      using Cons.prems(1) by (intro typed_name_trims) (auto simp: t good_name_def)
    note typed = this
    show ?case
    proof (cases "length name > 1")
      case True
      then have "good_name name" "server_answers fs sd ssd others" using Cons.prems(1) by (auto simp: t)
      from turn_answered [where fs = fs and filename = None and u = u, OF this(1) assms(2) [of name] this(2) Cons.prems(2-4)]
      obtain w1 where w1: "client_turn u None others name sd w = Inr (Some (Goes_on True, [expected (fs name)], w1))"
        "readable sd w1" "unread sd w1 = []" "written sd w1 = []" by auto
      then show ?thesis using Cons.IH [OF _ w1(2-4)] Cons.prems(1) typed True by (auto simp: t)
    next
      case False
      then show ?thesis using Cons typed by (auto simp: t)
    qed
  qed simp
  then show "\<exists>w'. loop_until_end u None (map (\<lambda>(name, ws, others). (name @ ws, others)) ts) sd w =
      Inr (Some (Goes_on (map (\<lambda>(name, ws, others). case fs name of Contents c \<Rightarrow> Received 0 c | _ \<Rightarrow> Server_error)
        (filter (\<lambda>(name, ws, others). length name > 1) ts)), w'))"
    by (simp add: loop_until_end_def expected_def)
  show "\<exists>w'. loop_until_end u (Some name) [(line, others)] sd w =
      Inr (Some (Goes_on [case fs name of Contents c \<Rightarrow> Received 0 c | _ \<Rightarrow> Server_error], w'))"
    using turn_answered [where fs = fs and filename = "Some name" and u = u, OF assms(6) assms(2) [of name] assms(7,3-5)]
    by (auto simp: loop_until_end_def expected_def)
qed

text \<open>A user whose server runs beside the client, with a network that carries what each has written to the other.\<close>

definition deliver :: "byte list \<Rightarrow> demux \<Rightarrow> demux" where
  "deliver bs w =
     (case get_context 0 w of
        Inl _ \<Rightarrow> w
      | Inr (c, ctx) \<Rightarrow> put_context c (ctx\<lparr>app_recv_queue := [], app_send_queue := [bs], eof := False\<rparr>) w)"

definition served :: "(byte list \<Rightarrow> file_result) \<Rightarrow> demux \<Rightarrow> demux" where
  "served fs w =
     (case do_connection_step fs 0 (demo_reader (written 0 w)) of Inr (Some (_, v)) \<Rightarrow> deliver (written 0 v) w | _ \<Rightarrow> w)"

lemma served_answers: "server_answers fs 0 0 (served fs)"
  unfolding server_answers_def
proof (intro allI impI)
  fix w assume "readable 0 w \<and> unread 0 w = []"
  then obtain c ctx where ctx: "get_context 0 w = Inr (c, ctx)" "\<not> listening ctx" "\<not> close_requested ctx"
    by (auto simp: readable_def split: sum.splits)
  let ?v = "demo_reader (written 0 w)"
  have "written 0 ?v = []" by (simp add: written_def demo_reader_get) (simp add: demo_stcp_def fresh_context_def)
  moreover have "readable 0 (served fs w) \<and> unread 0 (served fs w) = written 0 v' \<and> written 0 (served fs w) = []"
    if "do_connection_step fs 0 ?v = Inr (Some (True, v'))" for v'
  proof -
    have "get_context 0 (served fs w) = Inr (c, ctx\<lparr>app_recv_queue := [], app_send_queue := [written 0 v'], eof := False\<rparr>)"
      using ctx(1) get_context_put_same [OF ctx(1)] that by (simp add: served_def deliver_def)
    then show ?thesis using ctx by (cases "written 0 v' = []") (simp_all add: readable_def unread_def written_def)
  qed
  ultimately show "\<exists>v. readable 0 v \<and> unread 0 v = written 0 w \<and> written 0 v = [] \<and>
      (\<forall>v'. do_connection_step fs 0 v = Inr (Some (True, v')) \<longrightarrow>
         readable 0 (served fs w) \<and> unread 0 (served fs w) = written 0 v' \<and> written 0 (served fs w) = [])"
    using demo_reader_stream by blast
qed

definition demo_user :: demux where
  "demo_user = demo_conn (demo_stcp [] [])"

definition demo_files :: "byte list \<Rightarrow> file_result" where
  "demo_files name = (if name = [97, 97] then Contents [1, 2, 3] else No_access)"

text \<open>The user asks for \<^verbatim>\<open>aa\<close>, types a name of one character, which is skipped, and asks for \<^verbatim>\<open>bb\<close>, which does not exist.\<close>

theorem dialogue_answered_witness:
  "(\<exists>w. loop_until_end 0 None [([97, 97, 10], served demo_files), ([97, 10], served demo_files), ([98, 98, 32, 10], served demo_files)]
      0 demo_user = Inr (Some (Goes_on [Received 0 [1, 2, 3], Server_error], w))) \<and>
   (\<exists>w. loop_until_end 0 (Some [97, 97]) [([], served demo_files)] 0 demo_user =
      Inr (Some (Goes_on [Received 0 [1, 2, 3]], w)))"
proof -
  let ?ts = "[([97, 97], [10], served demo_files), ([97], [10], served demo_files), ([98, 98], [32, 10], served demo_files)]"
  have fs: "demo_files [97, 97] = Contents [1, 2, 3]" "demo_files [98, 98] = No_access" by (simp_all add: demo_files_def)
  have ts: "list_all (\<lambda>(name, ws, others). (name = [] \<or> good_name name \<and> \<not> white (last name)) \<and> list_all white ws \<and>
      server_answers demo_files 0 0 others) ?ts"
    using served_answers by (simp add: good_name_def white_def)
  have size: "length c < 2 ^ 31" if "demo_files name = Contents c" for name c
    using that by (auto simp: demo_files_def split: if_splits)
  have get: "get_context 0 demo_user = Inr (0, demo_stcp [] [])"
    unfolding demo_user_def by (rule demo_conn_get) (simp add: demo_stcp_def fresh_context_def)
  have "readable 0 demo_user" "unread 0 demo_user = []" "written 0 demo_user = []"
    by (simp_all add: readable_def unread_def written_def get) (simp_all add: demo_stcp_def fresh_context_def)
  then show ?thesis
    using dialogue_answered [where u = 0 and line = "[]" and name = "[97, 97]" and w = demo_user, OF ts] size fs
      served_answers [of demo_files] by (auto simp: good_name_def)
qed

end
