(* ===== verification/Stcp_Download.thy ===== *)
theory Stcp_Download
  imports Stcp_End_To_End File_Dialogue
begin

text \<open>
  A file transfer through all layers: the client's request and the server's answer are written and read by the
  programs, segmented, checked and acknowledged by the transport layers, and carried as datagrams
  by the TCP connection between the two processes.
\<close>

section \<open>An established connection\<close>

text \<open>
  One end of a connection at rest: descriptor and context, the established transport layer, the socket. Nothing has
  arrived that is not passed on; what the applications have written or not yet read is left open.
\<close>

definition endpoint ::
  "uint32 \<Rightarrow> uint32 \<Rightarrow> int \<Rightarrow> nat \<Rightarrow> demux \<Rightarrow> mysock_context \<Rightarrow> conn_sock \<Rightarrow> context_t \<Rightarrow> bool" where
  "endpoint ip peer sd c w ctx s t \<longleftrightarrow> get_context sd w = Inr (c, ctx) \<and> \<not> listening ctx \<and> \<not> close_requested ctx \<and>
     \<not> eof ctx \<and> [] \<notin> set (app_send_queue ctx) \<and> network_recv_queue ctx = [] \<and> stcp_ready ip ctx s \<and>
     connection_state t = CSTATE_ESTABLISHED \<and> peer_ip ctx = peer"

lemma endpointD:
  assumes "endpoint ip peer sd c w ctx s t"
  shows "get_context sd w = Inr (c, ctx)" "\<not> listening ctx" "\<not> close_requested ctx" "\<not> eof ctx" "[] \<notin> set (app_send_queue ctx)"
    "network_recv_queue ctx = []" "stcp_ready ip ctx s" "connection_state t = CSTATE_ESTABLISHED" "peer_ip ctx = peer"
  using assms by (simp_all add: endpoint_def)

text \<open>The transport thread iterates until it waits for an event.\<close>

definition runs_until_wait :: "nat \<Rightarrow> uint32 \<Rightarrow> nat \<Rightarrow> int \<Rightarrow> context_t \<Rightarrow> demux \<Rightarrow> context_t \<Rightarrow> demux \<Rightarrow> bool" where
  "runs_until_wait fuel ip window sd t w t' w' \<longleftrightarrow>
     (\<exists>k. transport_turns k fuel ip window sd t w = Inr (Some (t', w'))) \<and> transport_turn fuel ip window sd t' w' = Inr None"

lemma endpoint_waits:
  assumes "endpoint ip peer sd c w ctx s t" and "app_recv_queue ctx = []"
  shows "transport_turn fuel ip window sd t w = Inr None"
  using endpointD [OF assms(1)] assms(2) by (simp add: transport_turn_def control_step_def stcp_wait_for_event_def Let_def)

lemma runs_until_waitI:
  "transport_turns k fuel ip window sd t w = Inr (Some (t', w')) \<Longrightarrow> endpoint ip peer sd c w' ctx s t' \<Longrightarrow> app_recv_queue ctx = [] \<Longrightarrow>
   runs_until_wait fuel ip window sd t w t' w'"
  using endpoint_waits by (auto simp: runs_until_wait_def)

lemma endpoint_put:
  assumes "endpoint ip peer sd c w ctx s t" and "my_sd ctx' = my_sd ctx" and "\<not> listening ctx'" and "\<not> close_requested ctx'" and "\<not> eof ctx'"
    and "[] \<notin> set (app_send_queue ctx')" and "network_recv_queue ctx' = []" and "stcp_ready ip ctx' s'"
    and "connection_state t' = CSTATE_ESTABLISHED" and "peer_ip ctx' = peer"
  shows "endpoint ip peer sd c (put_context c ctx' w) ctx' s' t'"
  using assms get_context_put_same [OF endpointD(1) [OF assms(1)] assms(2)] by (simp add: endpoint_def)

section \<open>Sending\<close>

lemma transport_turns_Suc:
  "transport_turn fuel ip window sd t w = Inr (Some (t', w')) \<Longrightarrow>
   transport_turns (Suc k) fuel ip window sd t w = transport_turns k fuel ip window sd t' w'"
  by simp

lemma turn_sends:
  assumes "endpoint ip peer sd c w ctx s t" and "app_recv_queue ctx = d # ds" and "window \<le> SENDER_WINDOW" and "6 \<le> fuel"
  shows "\<exists>t' w' ctx' s' ps. transport_turn fuel ip window sd t w = Inr (Some (t', w')) \<and> endpoint ip peer sd c w' ctx' s' t' \<and>
    app_recv_queue ctx' = (if window < length d then drop window d # ds else ds) \<and> app_send_queue ctx' = app_send_queue ctx \<and>
    tx s' = tx s @ concat (map dgram ps) \<and> list_all (data_packet peer ip) ps \<and> concat (map (drop 20) ps) = take window d"
proof -
  note e = endpointD [OF assms(1)]
  let ?q = "if window < length d then drop window d # ds else ds"
  obtain ps s' where ps: "on_app_data fuel ip window t ctx = Inr (Some
      (t\<lparr>current_sequence_num := current_sequence_num t + word_of_nat (min window (length d))\<rparr>, sent (ctx\<lparr>app_recv_queue := ?q\<rparr>) s'))"
    "tx s' = tx s @ concat (map dgram ps)" "stcp_ready ip (sent (ctx\<lparr>app_recv_queue := ?q\<rparr>) s') s'"
    "list_all2 (\<lambda>(q, d) p. segment_of ip ctx (sock_port s) q 0 0 d p) (segments (current_sequence_num t) (take window d)) ps"
    using on_app_data_ready [OF e(7) assms(2-4), of t] by blast
  let ?t = "t\<lparr>current_sequence_num := current_sequence_num t + word_of_nat (min window (length d))\<rparr>"
  let ?ctx = "sent (ctx\<lparr>app_recv_queue := ?q\<rparr>) s'"
  have "control_step fuel ip window (t, ctx) = Inr (Some (?t, ?ctx))"
    using ps(1) e(3,6,8) assms(2) by (simp add: control_step_eq)
  then have "transport_turn fuel ip window sd t w = Inr (Some (?t, put_context c ?ctx w))"
    using e(1) by (simp add: transport_turn_def)
  moreover have "endpoint ip peer sd c (put_context c ?ctx w) ?ctx s' ?t"
    using e ps(3) by (intro endpoint_put [OF assms(1)]) (simp_all add: sent_def set_socket_def peer_ip_def)
  moreover have "list_all (data_packet peer ip) ps" "concat (map (drop 20) ps) = take window d"
    using segments_data_packets [OF ps(4)] e(9) by simp_all
  ultimately show ?thesis
    using ps(2) by (intro exI [of _ ?t] exI [of _ "put_context c ?ctx w"] exI [of _ ?ctx] exI [of _ s'] exI [of _ ps]) simp
qed

text \<open>However much has been written, in whatever pieces, the transport thread sends it all.\<close>

lemma turns_send:
  assumes "0 < window" and "window \<le> SENDER_WINDOW" and "6 \<le> fuel"
  shows "endpoint ip peer sd c w ctx s t \<Longrightarrow>
    \<exists>k t' w' ctx' s' ps. transport_turns k fuel ip window sd t w = Inr (Some (t', w')) \<and> endpoint ip peer sd c w' ctx' s' t' \<and>
      app_recv_queue ctx' = [] \<and> app_send_queue ctx' = app_send_queue ctx \<and> tx s' = tx s @ concat (map dgram ps) \<and>
      list_all (data_packet peer ip) ps \<and> concat (map (drop 20) ps) = concat (app_recv_queue ctx)"
proof (induction "length (concat (app_recv_queue ctx)) + length (app_recv_queue ctx)" arbitrary: w ctx s t rule: less_induct)
  case less
  show ?case
  proof (cases "app_recv_queue ctx")
    case Nil
    with less.prems show ?thesis
      by (intro exI [of _ 0] exI [of _ t] exI [of _ w] exI [of _ ctx] exI [of _ s] exI [of _ "[]"]) simp
  next
    case (Cons d ds)
    obtain t1 w1 ctx1 s1 ps1 where 1: "transport_turn fuel ip window sd t w = Inr (Some (t1, w1))" "endpoint ip peer sd c w1 ctx1 s1 t1"
      "app_recv_queue ctx1 = (if window < length d then drop window d # ds else ds)" "app_send_queue ctx1 = app_send_queue ctx"
      "tx s1 = tx s @ concat (map dgram ps1)" "list_all (data_packet peer ip) ps1" "concat (map (drop 20) ps1) = take window d"
      using turn_sends [OF less.prems Cons assms(2,3)] by blast
    have "length (concat (app_recv_queue ctx1)) + length (app_recv_queue ctx1) < length (concat (app_recv_queue ctx)) + length (app_recv_queue ctx)"
      using assms(1) by (auto simp: 1(3) Cons)
    from less.hyps [OF this 1(2)] obtain k t' w' ctx' s' ps where 2:
      "transport_turns k fuel ip window sd t1 w1 = Inr (Some (t', w'))" "endpoint ip peer sd c w' ctx' s' t'"
      "app_recv_queue ctx' = []" "app_send_queue ctx' = app_send_queue ctx1" "tx s' = tx s1 @ concat (map dgram ps)"
      "list_all (data_packet peer ip) ps" "concat (map (drop 20) ps) = concat (app_recv_queue ctx1)"
      by blast
    have "take window d @ concat (app_recv_queue ctx1) = concat (app_recv_queue ctx)"
      by (simp add: 1(3) Cons)
    with 1 2 show ?thesis
      by (intro exI [of _ "Suc k"] exI [of _ t'] exI [of _ w'] exI [of _ ctx'] exI [of _ s'] exI [of _ "ps1 @ ps"]) simp
  qed
qed

section \<open>Receiving\<close>

text \<open>The packets of a transfer: segments with data, and acknowledgements, which carry none.\<close>

definition ack_packet :: "uint32 \<Rightarrow> uint32 \<Rightarrow> byte list \<Rightarrow> bool" where
  "ack_packet ip peer p \<longleftrightarrow> length p = 20 \<and> mysock_verify_checksum ip peer p = Inr True \<and> th_flags p AND TH_ACK \<noteq> 0"

definition payload :: "byte list \<Rightarrow> byte list" where
  "payload p = (if th_flags p AND TH_ACK \<noteq> 0 then [] else drop 20 p)"

definition transfer_packet :: "uint32 \<Rightarrow> uint32 \<Rightarrow> byte list \<Rightarrow> bool" where
  "transfer_packet ip peer p \<longleftrightarrow> data_packet ip peer p \<or> ack_packet ip peer p"

lemma transfer_packet_size: "transfer_packet ip peer p \<Longrightarrow> 20 \<le> length p \<and> length p \<le> 556"
  by (auto simp: transfer_packet_def data_packet_def ack_packet_def)

lemma data_packets:
  assumes "list_all (data_packet ip peer) ps"
  shows "list_all (transfer_packet ip peer) ps" "concat (map payload ps) = concat (map (drop 20) ps)"
proof -
  have "map payload ps = map (drop 20) ps"
    using assms by (auto simp: list_all_iff data_packet_def payload_def)
  then show "concat (map payload ps) = concat (map (drop 20) ps)" by (simp only:)
  show "list_all (transfer_packet ip peer) ps"
    using assms by (auto simp: list_all_iff transfer_packet_def)
qed

lemma ack_packets:
  assumes "list_all (ack_packet ip peer) ps"
  shows "list_all (transfer_packet ip peer) ps" "concat (map payload ps) = []"
  using assms by (auto simp: list_all_iff transfer_packet_def ack_packet_def payload_def)

lemma ack_step:
  assumes "stcp_ready ip ctx s" and "connection_state t = CSTATE_ESTABLISHED" and "app_recv_queue ctx = []"
    and "\<not> close_requested ctx" and "network_recv_queue ctx = p # rest" and "ack_packet ip (peer_ip ctx) p"
  shows "control_step fuel ip window (t, ctx) = Inr (Some (on_ack p t, ctx\<lparr>network_recv_queue := rest\<rparr>))"
    "connection_state (on_ack p t) = CSTATE_ESTABLISHED"
proof -
  have p: "20 \<le> length p" "length p \<le> STCP_MSS + 20" "STCP_MSS + 20 \<le> 1500" "mysock_verify_checksum ip (peer_ip ctx) p = Inr True"
    "th_flags p AND TH_ACK \<noteq> 0"
    using assms(6) by (simp_all add: ack_packet_def STCP_MSS_def)
  have z: "on_ack (p @ z) t = on_ack p t" "th_flags (p @ z) = th_flags p" for z
    using fields_append [OF p(1)] by (simp_all add: on_ack_def)
  have same: "ctx\<lparr>close_requested := False\<rparr> = ctx" using assms(4) by (cases ctx) simp
  show "control_step fuel ip window (t, ctx) = Inr (Some (on_ack p t, ctx\<lparr>network_recv_queue := rest\<rparr>))"
    using assms(2-5) p(5) z by (simp add: control_step_eq on_network_data_def same recv_ready [OF assms(1,5) p(1-4)])
  show "connection_state (on_ack p t) = CSTATE_ESTABLISHED"
    using assms(2) by (simp add: on_ack_def Let_def)
qed

lemma turn_receives:
  assumes "get_context sd w = Inr (c, ctx)" and "stcp_ready ip ctx s" and "connection_state t = CSTATE_ESTABLISHED"
    and "app_recv_queue ctx = []" and "\<not> close_requested ctx" and "network_recv_queue ctx = p # rest"
    and "transfer_packet ip (peer_ip ctx) p"
  shows "\<exists>t' ctx' s' as. transport_turn fuel ip window sd t w = Inr (Some (t', put_context c ctx' w)) \<and>
    stcp_ready ip ctx' s' \<and> connection_state t' = CSTATE_ESTABLISHED \<and> network_recv_queue ctx' = rest \<and>
    app_send_queue ctx' = app_send_queue ctx @ (if payload p = [] then [] else [payload p]) \<and>
    tx s' = tx s @ concat (map dgram as) \<and> list_all (ack_packet (peer_ip ctx) ip) as \<and>
    (my_sd ctx', listening ctx', close_requested ctx', eof ctx', app_recv_queue ctx', peer_ip ctx') =
      (my_sd ctx, listening ctx, close_requested ctx, eof ctx, app_recv_queue ctx, peer_ip ctx)"
proof (cases "data_packet ip (peer_ip ctx) p")
  case True
  then have p: "20 \<le> length p" "length p \<le> 556" "mysock_verify_checksum ip (peer_ip ctx) p = Inr True"
    "th_flags p AND TH_ACK = 0" "th_flags p AND TH_FIN = 0"
    by (simp_all add: data_packet_def)
  obtain a s' where a: "control_step fuel ip window (t, ctx) =
      Inr (Some (note_peer p t, sent (stcp_app_send (ctx\<lparr>network_recv_queue := rest\<rparr>) (drop 20 p)) s'))"
    "segment_of ip ctx (sock_port s) 0 (th_seq p + word_of_nat (length p - 20)) TH_ACK [] a" "tx s' = tx s @ dgram a"
    "stcp_ready ip (sent (stcp_app_send (ctx\<lparr>network_recv_queue := rest\<rparr>) (drop 20 p)) s') s'"
    using data_step [OF assms(2-6) p] by blast
  let ?ctx = "sent (stcp_app_send (ctx\<lparr>network_recv_queue := rest\<rparr>) (drop 20 p)) s'"
  have "ack_packet (peer_ip ctx) ip a" using a(2) by (simp add: segment_of_def ack_packet_def TH_ACK_def)
  moreover have "payload p = drop 20 p" using p(4) by (simp add: payload_def)
  ultimately show ?thesis
    using a(1,3,4) assms(1,3)
    by (intro exI [of _ "note_peer p t"] exI [of _ ?ctx] exI [of _ s'] exI [of _ "[a]"])
      (simp add: transport_turn_def note_peer_def sent_app_send)
next
  case False
  then have ack: "ack_packet ip (peer_ip ctx) p" using assms(7) by (simp add: transfer_packet_def)
  show ?thesis
    using ack_step(1) [OF assms(2-6) ack, of fuel window] ack_step(2) [OF assms(2-6) ack] assms(1,2) ack
    by (intro exI [of _ "on_ack p t"] exI [of _ "ctx\<lparr>network_recv_queue := rest\<rparr>"] exI [of _ s] exI [of _ "[]"])
      (simp add: transport_turn_def payload_def ack_packet_def stcp_ready_queues peer_ip_def)
qed

lemma turns_receive:
  assumes "get_context sd w = Inr (c, ctx)" and "stcp_ready ip ctx s" and "connection_state t = CSTATE_ESTABLISHED"
    and "app_recv_queue ctx = []" and "\<not> close_requested ctx" and "network_recv_queue ctx = ps"
    and "list_all (transfer_packet ip (peer_ip ctx)) ps" and "\<not> listening ctx" and "\<not> eof ctx" and "[] \<notin> set (app_send_queue ctx)"
  shows "\<exists>t' w' ctx' s' as. transport_turns (length ps) fuel ip window sd t w = Inr (Some (t', w')) \<and>
    endpoint ip (peer_ip ctx) sd c w' ctx' s' t' \<and> app_recv_queue ctx' = [] \<and>
    concat (app_send_queue ctx') = concat (app_send_queue ctx) @ concat (map payload ps) \<and>
    tx s' = tx s @ concat (map dgram as) \<and> list_all (ack_packet (peer_ip ctx) ip) as"
  using assms
proof (induction ps arbitrary: w t ctx s)
  case Nil
  then show ?case
    by (intro exI [of _ t] exI [of _ w] exI [of _ ctx] exI [of _ s] exI [of _ "[]"]) (simp add: endpoint_def)
next
  case (Cons p rest)
  obtain t1 ctx1 s1 as1 where 1: "transport_turn fuel ip window sd t w = Inr (Some (t1, put_context c ctx1 w))"
    "stcp_ready ip ctx1 s1" "connection_state t1 = CSTATE_ESTABLISHED" "network_recv_queue ctx1 = rest"
    "app_send_queue ctx1 = app_send_queue ctx @ (if payload p = [] then [] else [payload p])"
    "tx s1 = tx s @ concat (map dgram as1)" "list_all (ack_packet (peer_ip ctx) ip) as1"
    "my_sd ctx1 = my_sd ctx" "listening ctx1 = listening ctx" "close_requested ctx1 = close_requested ctx" "eof ctx1 = eof ctx"
    "app_recv_queue ctx1 = app_recv_queue ctx" "peer_ip ctx1 = peer_ip ctx"
    using turn_receives [OF Cons.prems(1-6), of fuel window] Cons.prems(7) by auto
  have "get_context sd (put_context c ctx1 w) = Inr (c, ctx1)"
    by (rule get_context_put_same [OF Cons.prems(1)]) (simp add: 1(8))
  moreover have "[] \<notin> set (app_send_queue ctx1)" using 1(5) Cons.prems(10) by simp
  ultimately obtain t' w' ctx' s' as where
    "transport_turns (length rest) fuel ip window sd t1 (put_context c ctx1 w) = Inr (Some (t', w'))"
    "endpoint ip (peer_ip ctx) sd c w' ctx' s' t'" "app_recv_queue ctx' = []"
    "concat (app_send_queue ctx') = concat (app_send_queue ctx1) @ concat (map payload rest)"
    "tx s' = tx s1 @ concat (map dgram as)" "list_all (ack_packet (peer_ip ctx) ip) as"
    using Cons.IH [OF _ 1(2,3) _ _ 1(4), of "put_context c ctx1 w"] Cons.prems 1(9-13) by auto
  then show ?case
    using 1(1,5-7)
    by (intro exI [of _ t'] exI [of _ w'] exI [of _ ctx'] exI [of _ s'] exI [of _ "as1 @ as"]) simp
qed

text \<open>
  Packets that have arrived on the TCP connection, in pieces of any size: one turn of the receiving thread and one of the
  transport thread for each make their payload readable, and acknowledge the data.
\<close>

lemma packets_received:
  assumes "endpoint ip peer sd c w ctx s t" and "app_recv_queue ctx = []" and "arrived evs = concat (map dgram ps)"
    and "list_all (transfer_packet ip peer) ps" and "length buf = 1500"
  shows "\<exists>buf' w1 t' w2 ctx' s' as.
    recv_turns (length ps) c buf (put_context c (sent ctx (s\<lparr>rx := evs\<rparr>)) w) = Inr (Some (buf', w1)) \<and>
    transport_turns (length ps) fuel ip window sd t w1 = Inr (Some (t', w2)) \<and> endpoint ip peer sd c w2 ctx' s' t' \<and>
    app_recv_queue ctx' = [] \<and> concat (app_send_queue ctx') = concat (app_send_queue ctx) @ concat (map payload ps) \<and>
    tx s' = tx s @ concat (map dgram as) \<and> list_all (ack_packet peer ip) as"
proof -
  note e = endpointD [OF assms(1)]
  let ?c0 = "sent ctx (s\<lparr>rx := evs\<rparr>)"
  have "open_conn (network_state ?c0) (s\<lparr>rx := evs\<rparr>)" "ctx_mem (put_context c ?c0 w) c = Some ?c0" "\<not> listening ?c0"
    using e(2,7) open_conn_set_socket by (auto simp: stcp_ready_def put_context_def sent_def)
  moreover have "list_all (\<lambda>p. p \<noteq> [] \<and> length p \<le> 1500) ps"
    using assms(4) transfer_packet_size by (fastforce simp: list_all_iff)
  ultimately obtain es buf' where recv: "recv_turns (length ps) c buf (put_context c ?c0 w) = Inr (Some (buf',
      put_context c ((sent ctx (s\<lparr>rx := es\<rparr>))\<lparr>network_recv_queue := ps\<rparr>) w))"
    using recv_turns_all [of "put_context c ?c0 w" c ?c0 "s\<lparr>rx := evs\<rparr>" ps buf] assms(3,5) e(6) by auto
  let ?ctx = "(sent ctx (s\<lparr>rx := es\<rparr>))\<lparr>network_recv_queue := ps\<rparr>"
  have get: "get_context sd (put_context c ?ctx w) = Inr (c, ?ctx)"
    by (rule get_context_put_same [OF e(1)]) (simp add: sent_def)
  have "writable (s\<lparr>rx := es\<rparr>)" using e(7) by (simp add: stcp_ready_def writable_def)
  then have rdy: "stcp_ready ip ?ctx (s\<lparr>rx := es\<rparr>)"
    using stcp_ready_sent [OF e(7)] by (simp add: stcp_ready_queues)
  have "peer_ip ?ctx = peer" "\<not> listening ?ctx" "\<not> eof ?ctx"
    using e(2,4,9) by (simp_all add: sent_def set_socket_def peer_ip_def)
  with turns_receive [OF get rdy e(8), of ps fuel window] assms(2,4) e(3,5) recv show ?thesis
    by simp
qed

section \<open>The programs on top\<close>

lemma endpoint_stream:
  assumes "endpoint ip peer sd c w ctx s t"
  shows "readable sd w" "unread sd w = concat (app_send_queue ctx)" "written sd w = concat (app_recv_queue ctx)"
  using endpointD [OF assms] unread_queue [OF endpointD(1) [OF assms]] by (simp_all add: readable_def written_def)

lemma myread_endpoint:
  assumes "endpoint ip peer sd c w ctx s t" and "0 < n" and "myread sd n w = Inr (Some (rc, bs, w'))"
  shows "\<exists>q. endpoint ip peer sd c w' (ctx\<lparr>app_send_queue := q\<rparr>) s t"
proof -
  note e = endpointD [OF assms(1)]
  obtain x xs where q: "app_send_queue ctx = x # xs"
    using assms(3) e by (cases "app_send_queue ctx") (auto simp: myread_def dequeue_def)
  let ?q = "if length x > n then drop n x # xs else xs"
  have "ctx\<lparr>eof := False, app_send_queue := ?q\<rparr> = ctx\<lparr>app_send_queue := ?q\<rparr>" using e(4) by (cases ctx) simp
  moreover have "x \<noteq> []" using e(5) q by auto
  ultimately have "w' = put_context c (ctx\<lparr>app_send_queue := ?q\<rparr>) w"
    using myread_chunk [OF e(1-4) q assms(2)] assms(3) by simp
  moreover have "endpoint ip peer sd c (put_context c (ctx\<lparr>app_send_queue := ?q\<rparr>) w) (ctx\<lparr>app_send_queue := ?q\<rparr>) s t"
    using e q assms(2) by (intro endpoint_put [OF assms(1)]) (auto simp: stcp_ready_queues peer_ip_def)
  ultimately show ?thesis by blast
qed

lemma request_answered:
  assumes "endpoint ip peer sd c w ctx s t" and "app_recv_queue ctx = []" and "concat (app_send_queue ctx) = name @ crlf"
    and "good_name name" and "\<And>f. fs name = Contents f \<Longrightarrow> length f < 2 ^ 31"
  shows "\<exists>w' ctx'. do_connection_step fs sd w = Inr (Some (True, w')) \<and> endpoint ip peer sd c w' ctx' s t \<and>
    concat (app_recv_queue ctx') = answer fs name \<and> app_send_queue ctx' = []"
proof -
  note str = endpoint_stream [OF assms(1)]
  obtain w1 where w1: "get_nvt_line 256 sd w = Inr (Some (0, name, w1))" "unread sd w1 = []"
    using app.nvt_loop_line [OF str(1), of name "[]" 256 "[]"] str(2) assms(3,4)
    by (auto simp: get_nvt_line_def crlf_def good_name_def)
  let ?P = "\<lambda>v. \<exists>q. endpoint ip peer sd c v (ctx\<lparr>app_send_queue := q\<rparr>) s t"
  have "?P w" using assms(1) by (intro exI [of _ "app_send_queue ctx"]) simp
  moreover have "?P v'" if "?P v" "myread sd 1 v = Inr (Some (rc, bs, v'))" for v rc bs v'
    using that myread_endpoint [of ip peer sd c v _ s t 1 rc bs v'] by fastforce
  ultimately obtain q where q: "endpoint ip peer sd c w1 (ctx\<lparr>app_send_queue := q\<rparr>) s t"
    using nvt_loop_keeps [of ?P "myread sd" 256 "[]" w 0 name w1] w1(1) unfolding get_nvt_line_def by blast
  note e1 = endpointD [OF q]
  have "q = []" using endpoint_stream(2) [OF q] w1(2) e1(5) by (cases q) auto
  obtain w2 bs where w2: "process_line fs sd name w1 = Inr (0, w2)" "concat bs = answer fs name"
    "get_context sd w2 = Inr (c, ctx\<lparr>app_send_queue := [], app_recv_queue := bs\<rparr>)"
    using process_line_answers [where fs = fs, OF assms(4) e1(1-3) assms(5)] assms(2) \<open>q = []\<close> by auto
  have "c_string name = name" "name \<noteq> []"
    using assms(4) by (auto simp: c_string_def takeWhile_eq_all_conv good_name_def)
  then have "do_connection_step fs sd w = Inr (Some (True, w2))"
    using w1(1) w2(1) by (simp add: do_connection_step_def)
  moreover have "endpoint ip peer sd c w2 (ctx\<lparr>app_send_queue := [], app_recv_queue := bs\<rparr>) s t"
    using e1 w2(3) \<open>q = []\<close> by (simp add: endpoint_def stcp_ready_queues peer_ip_def)
  ultimately show ?thesis
    using w2(2) by (intro exI [of _ w2] exI [of _ "ctx\<lparr>app_send_queue := [], app_recv_queue := bs\<rparr>"]) simp
qed

text \<open>
  The server's part: whenever \<open>bytes\<close> reach its process, in pieces of any size, its receiving thread and its transport
  thread work on them, the program handles a request, and the transport thread then puts some more bytes on
  the connection, of which \<open>goal\<close> holds.
\<close>

definition server_replies ::
  "(byte list \<Rightarrow> file_result) \<Rightarrow> nat \<Rightarrow> nat \<Rightarrow> uint32 \<Rightarrow> int \<Rightarrow> nat \<Rightarrow> byte list \<Rightarrow> demux \<Rightarrow> mysock_context \<Rightarrow> conn_sock \<Rightarrow>
   context_t \<Rightarrow> byte list \<Rightarrow> (byte list \<Rightarrow> bool) \<Rightarrow> bool" where
  "server_replies fs fuel window ip sd c buf w ctx s t bytes goal \<longleftrightarrow>
     (\<forall>evs. arrived evs = bytes \<longrightarrow>
        (\<exists>n buf' w1 t1 w2 w3 t2 w4 ctx4 s4 out.
           recv_turns n c buf (put_context c (sent ctx (s\<lparr>rx := evs\<rparr>)) w) = Inr (Some (buf', w1)) \<and>
           runs_until_wait fuel ip window sd t w1 t1 w2 \<and>
           do_connection_step fs sd w2 = Inr (Some (True, w3)) \<and>
           runs_until_wait fuel ip window sd t1 w3 t2 w4 \<and>
           get_context sd w4 = Inr (c, ctx4) \<and> open_conn (network_state ctx4) s4 \<and> tx s4 = tx s @ out \<and> goal out))"

lemma request_served:
  assumes "endpoint ip peer sd c w ctx s t" and "app_recv_queue ctx = []" and "app_send_queue ctx = []"
    and "list_all (transfer_packet ip peer) ps" and "concat (map payload ps) = name @ crlf"
    and "length buf = 1500" and "good_name name" and "\<And>f. fs name = Contents f \<Longrightarrow> length f < 2 ^ 31"
    and "0 < window" and "window \<le> SENDER_WINDOW" and "6 \<le> fuel"
  shows "server_replies fs fuel window ip sd c buf w ctx s t (concat (map dgram ps))
    (\<lambda>out. \<exists>as. out = concat (map dgram as) \<and> list_all (transfer_packet peer ip) as \<and> concat (map payload as) = answer fs name)"
  unfolding server_replies_def
proof (intro allI impI, goal_cases)
  case (1 evs)
  obtain buf' w1 t1 w2 ctx2 s2 as where 2: "recv_turns (length ps) c buf (put_context c (sent ctx (s\<lparr>rx := evs\<rparr>)) w) = Inr (Some (buf', w1))"
    "transport_turns (length ps) fuel ip window sd t w1 = Inr (Some (t1, w2))" "endpoint ip peer sd c w2 ctx2 s2 t1"
    "app_recv_queue ctx2 = []" "concat (app_send_queue ctx2) = name @ crlf" "tx s2 = tx s @ concat (map dgram as)"
    "list_all (ack_packet peer ip) as"
    using packets_received [OF assms(1,2) 1 assms(4,6), of fuel window] assms(3,5) by auto
  obtain w3 ctx3 where 3: "do_connection_step fs sd w2 = Inr (Some (True, w3))" "endpoint ip peer sd c w3 ctx3 s2 t1"
    "concat (app_recv_queue ctx3) = answer fs name"
    using request_answered [where fs = fs, OF 2(3-5) assms(7,8)] by blast
  obtain k t2 w4 ctx4 s4 ds where k: "transport_turns k fuel ip window sd t1 w3 = Inr (Some (t2, w4))" "app_recv_queue ctx4 = []"
    and 4: "runs_until_wait fuel ip window sd t1 w3 t2 w4" "endpoint ip peer sd c w4 ctx4 s4 t2"
    "tx s4 = tx s2 @ concat (map dgram ds)" "list_all (data_packet peer ip) ds" "concat (map (drop 20) ds) = answer fs name"
    using turns_send [OF assms(9-11) 3(2)] 3(3) runs_until_waitI by fastforce
  have "concat (map payload (as @ ds)) = answer fs name"
    by (simp only: map_append concat_append append_Nil ack_packets(2) [OF 2(7)] data_packets(2) [OF 4(4)] 4(5))
  moreover have "list_all (transfer_packet peer ip) (as @ ds)"
    using ack_packets(1) [OF 2(7)] data_packets(1) [OF 4(4)] by simp
  moreover have "tx s4 = tx s @ concat (map dgram (as @ ds))" using 2(6) 4(3) by simp
  moreover have "get_context sd w4 = Inr (c, ctx4)" "open_conn (network_state ctx4) s4"
    using endpointD [OF 4(2)] by (simp_all add: stcp_ready_def)
  ultimately show ?case
    using 2(1) runs_until_waitI [OF 2(2-4)] 3(1) 4(1) by blast
qed

text \<open>The client's part: whenever \<open>bytes\<close> reach its process, the program gets the answer \<open>r\<close>.\<close>

definition client_gets ::
  "nat \<Rightarrow> nat \<Rightarrow> uint32 \<Rightarrow> int \<Rightarrow> nat \<Rightarrow> byte list \<Rightarrow> int \<Rightarrow> demux \<Rightarrow> mysock_context \<Rightarrow> conn_sock \<Rightarrow> context_t \<Rightarrow>
   byte list \<Rightarrow> client_result \<Rightarrow> bool" where
  "client_gets fuel window ip sd c buf uninit w ctx s t bytes r \<longleftrightarrow>
     (\<forall>evs. arrived evs = bytes \<longrightarrow>
        (\<exists>n buf' w1 t1 w2 w3.
           recv_turns n c buf (put_context c (sent ctx (s\<lparr>rx := evs\<rparr>)) w) = Inr (Some (buf', w1)) \<and>
           runs_until_wait fuel ip window sd t w1 t1 w2 \<and>
           receive_answer uninit sd w2 = Inr (Some (r, w3))))"

lemma answer_downloaded:
  assumes "endpoint ip peer sd c w ctx s t" and "app_recv_queue ctx = []" and "app_send_queue ctx = []"
    and "list_all (transfer_packet ip peer) ps" and "concat (map payload ps) = answer fs name"
    and "length buf = 1500" and "good_name name" and "\<And>f. fs name = Contents f \<Longrightarrow> length f < 2 ^ 31"
  shows "client_gets fuel window ip sd c buf u w ctx s t (concat (map dgram ps)) (expected (fs name))"
  unfolding client_gets_def
proof (intro allI impI, goal_cases)
  case (1 evs)
  obtain buf' w1 t1 w2 ctx2 s2 where 2: "recv_turns (length ps) c buf (put_context c (sent ctx (s\<lparr>rx := evs\<rparr>)) w) = Inr (Some (buf', w1))"
    "transport_turns (length ps) fuel ip window sd t w1 = Inr (Some (t1, w2))" "endpoint ip peer sd c w2 ctx2 s2 t1"
    "concat (app_send_queue ctx2) = answer fs name" "app_recv_queue ctx2 = []"
    using packets_received [OF assms(1,2) 1 assms(4,6), of fuel window] assms(3,5) by auto
  note str = endpoint_stream [OF 2(3)]
  obtain w3 where "receive_answer u sd w2 = Inr (Some (expected (fs name), w3))"
    using answer_received [where fs = fs, OF assms(7,8) str(1), of "[]" u] str(2) 2(4) by auto
  with 2(1) runs_until_waitI [OF 2(2,3,5)] show ?case by blast
qed

lemma request_sent:
  assumes "endpoint ip peer sd c w ctx s t" and "app_recv_queue ctx = []" and "good_name name"
    and "0 < window" and "window \<le> SENDER_WINDOW" and "6 \<le> fuel"
  shows "\<exists>w1 k t2 w2 ctx2 s2 ps. send_request sd name w = Inr (int (length (name @ crlf)), w1) \<and>
    transport_turns k fuel ip window sd t w1 = Inr (Some (t2, w2)) \<and> endpoint ip peer sd c w2 ctx2 s2 t2 \<and>
    app_recv_queue ctx2 = [] \<and> app_send_queue ctx2 = app_send_queue ctx \<and> tx s2 = tx s @ concat (map dgram ps) \<and>
    list_all (transfer_packet peer ip) ps \<and> concat (map payload ps) = name @ crlf"
proof -
  note e = endpointD [OF assms(1)]
  let ?ctx = "ctx\<lparr>app_recv_queue := [name @ crlf]\<rparr>"
  obtain w1 where w1: "mywrite sd (name @ crlf) w = Inr (int (length (name @ crlf)), w1)" "get_context sd w1 = Inr (c, ?ctx)"
    using mywrite_queue [OF e(1-3), of "name @ crlf"] assms(2) by auto
  have send: "send_request sd name w = Inr (int (length (name @ crlf)), w1)"
    using w1(1) assms(3) by (simp add: send_request_def good_name_def)
  have "endpoint ip peer sd c w1 ?ctx s t"
    using e w1(2) by (simp add: endpoint_def stcp_ready_queues peer_ip_def)
  from turns_send [OF assms(4-6) this] obtain k t2 w2 ctx2 s2 ps where 2:
    "transport_turns k fuel ip window sd t w1 = Inr (Some (t2, w2))" "endpoint ip peer sd c w2 ctx2 s2 t2"
    "app_recv_queue ctx2 = []" "app_send_queue ctx2 = app_send_queue ctx" "tx s2 = tx s @ concat (map dgram ps)"
    "list_all (data_packet peer ip) ps" "concat (map (drop 20) ps) = name @ crlf"
    by auto
  with send data_packets [OF 2(6)] show ?thesis by metis
qed

section \<open>Properties\<close>

text \<open>
  C3: a file crosses the whole stack. The client writes its request on an established connection. Its transport thread
  runs until it waits and has put some bytes on the TCP connection; when they reach the server's process, in pieces of any size, the
  receiving thread there takes them all, the transport thread runs until it waits and the request is readable, the server
  program answers it, and the transport thread runs until it waits again and has put the answer on the connection. When these
  bytes, the acknowledgements among them, reach the client, in pieces of any size, its threads run in the same order, and the program
  receives exactly the contents of the file, or learns that the server cannot read it. No assert fails on the way and no
  read or write is left waiting. The file is shorter than 2 GB, and the window of both transport layers, a local variable of
  \<^verbatim>\<open>control_loop\<close> that is never assigned, has some value from 1 to 3072. This is the order of the threads in which each
  goes on for as long as it can; that no other order loses or reorders bytes is shown in \<open>Stcp_Stream\<close>.
\<close>

theorem file_downloaded:
  assumes "endpoint ipA ipB a ca wA ctxA sA tA" and "app_recv_queue ctxA = []" and "app_send_queue ctxA = []"
    and "endpoint ipB ipA b cb wB ctxB sB tB" and "app_recv_queue ctxB = []" and "app_send_queue ctxB = []"
    and "0 < window" and "window \<le> SENDER_WINDOW" and "6 \<le> fuel" and "good_name name"
    and "\<And>f. fs name = Contents f \<Longrightarrow> length f < 2 ^ 31" and "length bufA = 1500" and "length bufB = 1500"
  shows "\<exists>wA1 tA2 wA2 ctxA2 sA2 request. send_request a name wA = Inr (int (length (name @ crlf)), wA1) \<and>
    runs_until_wait fuel ipA window a tA wA1 tA2 wA2 \<and>
    get_context a wA2 = Inr (ca, ctxA2) \<and> open_conn (network_state ctxA2) sA2 \<and> tx sA2 = tx sA @ request \<and>
    server_replies fs fuel window ipB b cb bufB wB ctxB sB tB request (\<lambda>reply.
      client_gets fuel window ipA a ca bufA u wA2 ctxA2 sA2 tA2 reply
        (case fs name of Contents f \<Rightarrow> Received 0 f | _ \<Rightarrow> Server_error))"
proof -
  obtain wA1 k tA2 wA2 ctxA2 sA2 ps where A: "send_request a name wA = Inr (int (length (name @ crlf)), wA1)"
    "transport_turns k fuel ipA window a tA wA1 = Inr (Some (tA2, wA2))" "endpoint ipA ipB a ca wA2 ctxA2 sA2 tA2"
    "app_recv_queue ctxA2 = []" "app_send_queue ctxA2 = []" "tx sA2 = tx sA @ concat (map dgram ps)"
    "list_all (transfer_packet ipB ipA) ps" "concat (map payload ps) = name @ crlf"
    using request_sent [OF assms(1,2,10,7-9)] assms(3) by auto
  have "client_gets fuel window ipA a ca bufA u wA2 ctxA2 sA2 tA2 (concat (map dgram as)) (expected (fs name))"
    if "list_all (transfer_packet ipA ipB) as" "concat (map payload as) = answer fs name" for as
    using answer_downloaded [where fs = fs, OF A(3-5) that assms(12,10,11)] .
  then have "server_replies fs fuel window ipB b cb bufB wB ctxB sB tB (concat (map dgram ps)) (\<lambda>reply.
      client_gets fuel window ipA a ca bufA u wA2 ctxA2 sA2 tA2 reply (expected (fs name)))"
    using request_served [where fs = fs, OF assms(4-6) A(7,8) assms(13,10,11,7-9)]
    unfolding server_replies_def by fast
  moreover have "get_context a wA2 = Inr (ca, ctxA2)" "open_conn (network_state ctxA2) sA2"
    using endpointD [OF A(3)] by (simp_all add: stcp_ready_def)
  ultimately show ?thesis
    using A(1,6) runs_until_waitI [OF A(2-4)] unfolding expected_def by blast
qed

theorem file_downloaded_witness:
  "\<exists>w1 t2 w2 ctx2 s2 request. send_request 0 [97, 97] (demo_conn demo_writer) = Inr (4, w1) \<and>
     runs_until_wait 6 0x0100007F 3072 0 demo_established w1 t2 w2 \<and> tx s2 = request \<and>
     server_replies demo_files 6 3072 0x0200007F 0 0 (replicate 1500 0) (demo_conn demo_taker) demo_taker (demo_sock [] [] [])
       demo_established request (\<lambda>reply. client_gets 6 3072 0x0100007F 0 0 (replicate 1500 0) 7 w2 ctx2 s2 t2 reply (Received 0 [1, 2, 3]))"
proof -
  have rdyB: "stcp_ready 0x0200007F demo_taker (demo_sock [] [] [])"
    by (simp add: stcp_ready_def demo_taker_def demo_stcp_def writable_def demo_sock_def peer_ip_def peer_port_def open_conn_def demo_io_def)
  have est: "connection_state demo_established = CSTATE_ESTABLISHED"
    by (simp add: demo_established_def calloc_context_def)
  have sd: "my_sd demo_writer = 0" "my_sd demo_taker = 0"
    by (simp_all add: demo_writer_def demo_taker_def demo_stcp_def fresh_context_def)
  have fields: "\<not> listening x \<and> \<not> close_requested x \<and> \<not> eof x \<and> app_recv_queue x = [] \<and> network_recv_queue x = [] \<and> app_send_queue x = []"
    if "x = demo_writer \<or> x = demo_taker" for x
    using that by (auto simp: demo_writer_def demo_taker_def demo_stcp_def fresh_context_def)
  have peer: "peer_ip demo_writer = 0x0200007F" "peer_ip demo_taker = 0x0100007F"
    by (simp_all add: demo_writer_def demo_taker_def demo_stcp_def fresh_context_def peer_ip_def demo_io_def)
  have A: "endpoint 0x0100007F 0x0200007F 0 0 (demo_conn demo_writer) demo_writer (demo_sock [] [] []) demo_established"
    using demo_conn_get [OF sd(1)] fields demo_stcp_ready [of "[]" "[]", folded demo_writer_def] est peer
    by (simp add: endpoint_def)
  have B: "endpoint 0x0200007F 0x0100007F 0 0 (demo_conn demo_taker) demo_taker (demo_sock [] [] []) demo_established"
    using demo_conn_get [OF sd(2)] fields rdyB est peer by (simp add: endpoint_def)
  have fs: "demo_files [97, 97] = Contents [1, 2, 3]" and name: "good_name [97, 97]"
    by (simp_all add: demo_files_def good_name_def)
  have "tx (demo_sock [] [] []) = []" by (simp add: demo_sock_def)
  then show ?thesis
    using file_downloaded [OF A _ _ B, of 3072 6 "[97, 97]" demo_files "replicate 1500 0" "replicate 1500 0" 7] fields name fs
    by (simp add: SENDER_WINDOW_def crlf_def) blast
qed

end
