(* ===== verification/Stcp_Open.thy ===== *)
theory Stcp_Open
  imports Stcp_Download
begin

text \<open>
  Opening a connection: the handshakes of both transport threads, the wake-up of the applications that wait in
  \<^verbatim>\<open>myconnect\<close> and \<^verbatim>\<open>myaccept\<close>, and the connection they then have, which is the one files are transferred on.
\<close>

text \<open>One end before the handshake: the application waits, nothing has been written or delivered.\<close>

definition unopened :: "uint32 \<Rightarrow> uint32 \<Rightarrow> int \<Rightarrow> nat \<Rightarrow> demux \<Rightarrow> mysock_context \<Rightarrow> conn_sock \<Rightarrow> bool" where
  "unopened ip peer sd c w ctx s \<longleftrightarrow> get_context sd w = Inr (c, ctx) \<and> blocking ctx \<and> \<not> listening ctx \<and> \<not> close_requested ctx \<and>
     \<not> eof ctx \<and> app_send_queue ctx = [] \<and> app_recv_queue ctx = [] \<and> stcp_ready ip ctx s \<and> peer_ip ctx = peer"

text \<open>The context after a handshake that ended without an error.\<close>

definition opened :: "mysock_context \<Rightarrow> conn_sock \<Rightarrow> mysock_context" where
  "opened ctx s = (sent (ctx\<lparr>network_recv_queue := []\<rparr>) s)\<lparr>blocking := False, stcp_errno := 0\<rparr>"

lemma opened_endpoint:
  assumes "unopened ip peer sd c w ctx s" and "get_context sd w' = Inr (c, opened ctx s')"
    and "stcp_ready ip (sent (ctx\<lparr>network_recv_queue := []\<rparr>) s') s'" and "connection_state t = CSTATE_ESTABLISHED"
  shows "endpoint ip peer sd c w' (opened ctx s') s' t" "app_recv_queue (opened ctx s') = []" "app_send_queue (opened ctx s') = []"
  using assms by (simp_all add: endpoint_def unopened_def opened_def stcp_ready_def peer_ip_def peer_port_def sent_def set_socket_def)

lemma unblock_context:
  assumes "get_context sd w = Inr (c, ctx)" and "stcp_unblock_application sd 0 w = Inr w'"
  shows "get_context sd w' = Inr (c, ctx\<lparr>blocking := False, stcp_errno := 0\<rparr>)"
proof -
  let ?ctx = "ctx\<lparr>blocking := False, stcp_errno := 0\<rparr>"
  have "get_context sd (put_context c ?ctx w) = Inr (c, ?ctx)"
    by (rule get_context_put_same [OF assms(1)]) simp
  moreover have "w' = put_context c ?ctx w \<or> (\<exists>a q. w' = put_queue a q (put_context c ?ctx w))"
    using assms by (auto simp: stcp_unblock_application_def passive_connection_complete_def andthen_eq_Inr deref_eq_Inr need_eq_Inr
        with_queue_def Let_def split: if_splits option.splits)
  ultimately show ?thesis by auto
qed

text \<open>What the transport thread does up to its control loop, given the outcome of the handshake.\<close>

lemma transport_open_eq:
  assumes "get_context sd w = Inr (c, ctx)"
    and "handshake ip active rnd (ctx\<lparr>network_recv_queue := ps\<rparr>) = Inr (Some (t, 0, sent (ctx\<lparr>network_recv_queue := []\<rparr>) s'))"
  shows "transport_open ip sd active rnd (put_context c (ctx\<lparr>network_recv_queue := ps\<rparr>) w) =
    andthen (stcp_unblock_application sd 0 (put_context c (sent (ctx\<lparr>network_recv_queue := []\<rparr>) s') w)) (\<lambda>w. Inr (Some (t, w)))"
proof -
  have "get_context sd (put_context c (ctx\<lparr>network_recv_queue := ps\<rparr>) w) = Inr (c, ctx\<lparr>network_recv_queue := ps\<rparr>)"
    by (rule get_context_put_same [OF assms(1)]) simp
  then show ?thesis using assms(2) by (simp add: transport_open_def)
qed

lemma active_side_opens:
  assumes "unopened ip peer sd c w ctx s" and "is_active ctx"
    and "handshake ip True rnd (ctx\<lparr>network_recv_queue := ps\<rparr>) = Inr (Some (t, 0, sent (ctx\<lparr>network_recv_queue := []\<rparr>) s'))"
  shows "\<exists>w' w''. transport_open ip sd True rnd (put_context c (ctx\<lparr>network_recv_queue := ps\<rparr>) w) = Inr (Some (t, w')) \<and>
    get_context sd w' = Inr (c, opened ctx s') \<and> myconnect_wait sd w = Inr None \<and> myconnect_wait sd w' = Inr (Some (0, w''))"
proof -
  have o: "get_context sd w = Inr (c, ctx)" "blocking ctx" using assms(1) by (simp_all add: unopened_def)
  let ?ctx = "sent (ctx\<lparr>network_recv_queue := []\<rparr>) s'"
  have get: "get_context sd (put_context c ?ctx w) = Inr (c, ?ctx)"
    by (rule get_context_put_same [OF o(1)]) (simp add: sent_def)
  obtain w' where w': "stcp_unblock_application sd 0 (put_context c ?ctx w) = Inr w'"
    using get o(2) assms(2) by (simp add: stcp_unblock_application_def Let_def sent_def)
  moreover have "get_context sd w' = Inr (c, opened ctx s')"
    using unblock_context [OF get w'] by (simp add: opened_def)
  ultimately show ?thesis
    using transport_open_eq [OF o(1) assms(3)] o
    by (simp add: myconnect_wait_def wait_for_connection_def opened_def)
qed

lemma passive_side_opens:
  assumes "unopened ip peer sd c w ctx s" and "\<not> is_active ctx" and "listen_sd ctx = lsd"
    and "handshake ip False rnd (ctx\<lparr>network_recv_queue := ps\<rparr>) = Inr (Some (t, 0, sent (ctx\<lparr>network_recv_queue := []\<rparr>) s'))"
    and "get_context lsd w = Inr (lc, lctx)" and "sd \<noteq> lsd" and "listening lctx" and "bound lctx"
    and "hash_lookup_ptr listen_hash MAX_NUM_CONNECTIONS (listen_table w) lsd = Inr (Some a)"
    and "lq_mem w a = Some q" and "lq_ok n q" and "sd \<in> req_sd ` set (connection_queue q)" and "completed_queue q = []"
  shows "\<exists>w' w''. transport_open ip sd False rnd (put_context c (ctx\<lparr>network_recv_queue := ps\<rparr>) w) = Inr (Some (t, w')) \<and>
    get_context sd w' = Inr (c, opened ctx s') \<and>
    myaccept lsd w = Inr None \<and> myaccept lsd w' = Inr (Some (sd, Some (peer_addr (network_state ctx)), w''))"
proof -
  have o: "get_context sd w = Inr (c, ctx)" "blocking ctx" "peer_addr_len (network_state ctx) > 0"
    using assms(1) by (auto simp: unopened_def stcp_ready_def open_conn_def)
  let ?ctx = "sent (ctx\<lparr>network_recv_queue := []\<rparr>) s'"
  let ?w = "put_context c ?ctx w"
  have get: "get_context sd ?w = Inr (c, ?ctx)"
    by (rule get_context_put_same [OF o(1)]) (simp add: sent_def)
  have "c \<noteq> lc" using get_context_InrD [OF o(1)] get_context_InrD [OF assms(5)] assms(6) by auto
  then have lget: "get_context lsd ?w = Inr (lc, lctx)"
    using get_context_put_other [OF assms(5)] by simp
  have fields: "blocking ?ctx" "\<not> is_active ?ctx" "listen_sd ?ctx = lsd" "peer_addr_len (network_state ?ctx) > 0"
    "peer_addr (network_state ?ctx) = peer_addr (network_state ctx)"
    using o assms(2,3) by (simp_all add: sent_def set_socket_def)
  obtain w' w'' where w': "stcp_unblock_application sd 0 ?w = Inr w'"
    "myaccept lsd w' = Inr (Some (sd, Some (peer_addr (network_state ctx)), w''))"
    using completed_connection_accepted [OF get fields(1-4) lget assms(6-8) _ _ assms(11-13), of a 0] assms(9,10) fields(5)
    by (auto simp: put_context_def)
  moreover have "get_context sd w' = Inr (c, opened ctx s')"
    using unblock_context [OF get w'(1)] by (simp add: opened_def)
  moreover have "myaccept lsd w = Inr None"
    using completed_connection_accepted [OF o(1,2) assms(2,3) o(3) assms(5-13), of 0] by blast
  ultimately show ?thesis
    using transport_open_eq [OF o(1) assms(4)] by auto
qed

text \<open>
  C8: a connection comes up. An application waits in \<^verbatim>\<open>myconnect\<close>, the other in \<^verbatim>\<open>myaccept\<close> on the mysocket whose queue holds the
  request. There are packets SYN, SYN-ACK and ACK such that each transport thread, given those of the other
  side, sends its own, ends its handshake established and wakes its application: \<^verbatim>\<open>myconnect\<close> returns 0 and
  \<^verbatim>\<open>myaccept\<close> the descriptor and the address of the peer. The SYN and the SYN-ACK carry the initial numbers of the two
  sides, the SYN-ACK acknowledges the number after that of the SYN and the ACK the number after that of the SYN-ACK; all three have
  correct checksums and the ports of their connection. The active side has recorded the number of the SYN-ACK. Both ends
  then are at rest and ready for data. The next number of the passive side is the one after its SYN; the active side has used up
  one more for its ACK.
\<close>

theorem connection_opened:
  assumes "unopened ipA ipB a ca wA ctxA sA" and "is_active ctxA"
    and "unopened ipB ipA b cb wB ctxB sB" and "\<not> is_active ctxB" and "listen_sd ctxB = lsd"
    and "get_context lsd wB = Inr (lc, lctx)" and "b \<noteq> lsd" and "listening lctx" and "bound lctx"
    and "hash_lookup_ptr listen_hash MAX_NUM_CONNECTIONS (listen_table wB) lsd = Inr (Some x)"
    and "lq_mem wB x = Some q" and "lq_ok n q" and "b \<in> req_sd ` set (connection_queue q)" and "completed_queue q = []"
  shows "\<exists>syn synack ack tA tB sA' sB' wA' wB' wA'' wB''.
    transport_open ipA a True rA (put_context ca (ctxA\<lparr>network_recv_queue := [synack]\<rparr>) wA) = Inr (Some (tA, wA')) \<and>
    tx sA' = tx sA @ dgram syn @ dgram ack \<and> endpoint ipA ipB a ca wA' (opened ctxA sA') sA' tA \<and>
    myconnect_wait a wA = Inr None \<and> myconnect_wait a wA' = Inr (Some (0, wA'')) \<and>
    transport_open ipB b False rB (put_context cb (ctxB\<lparr>network_recv_queue := [syn, ack]\<rparr>) wB) = Inr (Some (tB, wB')) \<and>
    tx sB' = tx sB @ dgram synack \<and> endpoint ipB ipA b cb wB' (opened ctxB sB') sB' tB \<and>
    myaccept lsd wB = Inr None \<and> myaccept lsd wB' = Inr (Some (b, Some (peer_addr (network_state ctxB)), wB'')) \<and>
    segment_of ipA ctxA (sock_port sA) (initial_sequence_num tA) 0 TH_SYN [] syn \<and>
    segment_of ipB ctxB (sock_port sB) (initial_sequence_num tB) (initial_sequence_num tA + 1) (TH_SYN OR TH_ACK) [] synack \<and>
    segment_of ipA ctxA (sock_port sA) (initial_sequence_num tA + 1) (initial_sequence_num tB + 1) TH_ACK [] ack \<and>
    opp_sequence_num tA = initial_sequence_num tB \<and>
    current_sequence_num tA = initial_sequence_num tA + 2 \<and> current_sequence_num tB = initial_sequence_num tB + 1"
proof -
  have rdy: "stcp_ready ipA ctxA sA" "stcp_ready ipB ctxB sB" "peer_ip ctxA = ipB" "peer_ip ctxB = ipA"
    using assms(1,3) by (simp_all add: unopened_def)
  obtain syn synack ack tA tB sA' sB' where
    A: "handshake ipA True rA (ctxA\<lparr>network_recv_queue := [synack]\<rparr>) = Inr (Some (tA, 0, sent (ctxA\<lparr>network_recv_queue := []\<rparr>) sA'))"
      "tx sA' = tx sA @ dgram syn @ dgram ack" "connection_state tA = CSTATE_ESTABLISHED"
      "stcp_ready ipA (sent (ctxA\<lparr>network_recv_queue := []\<rparr>) sA') sA'" and
    B: "handshake ipB False rB (ctxB\<lparr>network_recv_queue := [syn, ack]\<rparr>) = Inr (Some (tB, 0, sent (ctxB\<lparr>network_recv_queue := []\<rparr>) sB'))"
      "tx sB' = tx sB @ dgram synack" "connection_state tB = CSTATE_ESTABLISHED"
      "stcp_ready ipB (sent (ctxB\<lparr>network_recv_queue := []\<rparr>) sB') sB'" and
    n: "opp_sequence_num tA = initial_sequence_num tB"
      "segment_of ipA ctxA (sock_port sA) (initial_sequence_num tA) 0 TH_SYN [] syn"
      "segment_of ipB ctxB (sock_port sB) (initial_sequence_num tB) (initial_sequence_num tA + 1) (TH_SYN OR TH_ACK) [] synack"
      "segment_of ipA ctxA (sock_port sA) (initial_sequence_num tA + 1) (initial_sequence_num tB + 1) TH_ACK [] ack"
      "current_sequence_num tA = initial_sequence_num tA + 2" "current_sequence_num tB = initial_sequence_num tB + 1"
    using three_way_handshake [OF rdy, of rA rB] by blast
  obtain wA' wA'' where A': "transport_open ipA a True rA (put_context ca (ctxA\<lparr>network_recv_queue := [synack]\<rparr>) wA) = Inr (Some (tA, wA'))"
    "get_context a wA' = Inr (ca, opened ctxA sA')" "myconnect_wait a wA = Inr None" "myconnect_wait a wA' = Inr (Some (0, wA''))"
    using active_side_opens [OF assms(1,2) A(1)] by blast
  obtain wB' wB'' where B': "transport_open ipB b False rB (put_context cb (ctxB\<lparr>network_recv_queue := [syn, ack]\<rparr>) wB) = Inr (Some (tB, wB'))"
    "get_context b wB' = Inr (cb, opened ctxB sB')" "myaccept lsd wB = Inr None"
    "myaccept lsd wB' = Inr (Some (b, Some (peer_addr (network_state ctxB)), wB''))"
    using passive_side_opens [OF assms(3-5) B(1) assms(6-14)] by blast
  show ?thesis
    by (intro exI conjI) (rule A' B' A(2) B(2) n opened_endpoint(1) [OF assms(1) A'(2) A(4,3)]
        opened_endpoint(1) [OF assms(3) B'(2) B(4,3)])+
qed

text \<open>A client on 127.0.0.2 connects to a server on 127.0.0.1.\<close>

theorem connection_opened_witness:
  "\<exists>syn synack ack tA tB wA' wB' wA'' wB''.
     transport_open 0x0200007F 0 True 7 (put_context 0 (demo_taker\<lparr>is_active := True, network_recv_queue := [synack]\<rparr>)
       (demo_conn (demo_taker\<lparr>is_active := True\<rparr>))) = Inr (Some (tA, wA')) \<and> myconnect_wait 0 wA' = Inr (Some (0, wA'')) \<and>
     transport_open 0x0100007F 1 False 200 (put_context 1 (demo_passive\<lparr>network_recv_queue := [syn, ack]\<rparr>) demo_server) =
       Inr (Some (tB, wB')) \<and> myaccept 0 wB' = Inr (Some (1, Some (req_peer (demo_request 1)), wB''))"
proof -
  let ?A = "demo_taker\<lparr>is_active := True\<rparr>"
  have A: "unopened 0x0200007F 0x0100007F 0 0 (demo_conn ?A) ?A (demo_sock [] [] [])"
    unfolding unopened_def using demo_conn_get [of ?A]
    by (simp add: demo_taker_def demo_stcp_def fresh_context_def stcp_ready_def writable_def demo_sock_def peer_ip_def peer_port_def
        open_conn_def demo_io_def)
  have B: "unopened 0x0100007F 0x0200007F 1 1 demo_server demo_passive (demo_sock [] [] [])"
    unfolding unopened_def using demo_server_get(2)
    by (simp add: demo_passive_def accepted_context_def fresh_context_def stcp_ready_def writable_def demo_sock_def peer_ip_def
        peer_port_def open_conn_def demo_request_def)
  have hash: "hash_lookup_ptr listen_hash MAX_NUM_CONNECTIONS (listen_table demo_server) 0 = Inr (Some 0)"
    using hash_lookup_rep [OF demo_server_table, of 0] demo_server_lookup
    by (simp add: listen_hash_def MAX_NUM_CONNECTIONS_def)
  have q: "lq_mem demo_server 0 = Some demo_pending" "1 \<in> req_sd ` set (connection_queue demo_pending)" "completed_queue demo_pending = []"
    by (simp_all add: demo_server_def demo_pending_def demo_queue_def demo_request_def)
  have p: "\<not> is_active demo_passive" "listen_sd demo_passive = 0" "listening demo_listener" "bound demo_listener"
    "peer_addr (network_state demo_passive) = req_peer (demo_request 1)"
    by (simp_all add: demo_passive_def accepted_context_def fresh_context_def demo_listener_def)
  show ?thesis
    using connection_opened [OF A _ B p(1,2) demo_server_get(1) _ p(3,4) hash q(1) demo_pending_ok q(2,3), of 7 200] p(5)
    by simp blast
qed

end
