(* ===== verification/Proxy_Parse.thy ===== *)
theory Proxy_Parse
  imports Net_Prelude
begin

text \<open>
  The request parser of the HTTP proxy (\<^verbatim>\<open>proxy_parse.c\<close>, \<^verbatim>\<open>proxy_parse.h\<close>).

  A \<^verbatim>\<open>char *\<close> into the temporary copy of the request is the rest of the buffer from the pointer on,
  with its terminating NUL; one into the copy of the request line, which \<^verbatim>\<open>strtok_r\<close> writes to, is
  an offset, so that the fields of a request alias the buffer as they do in the code. Reading
  past the end of an allocation is a fault. Allocations succeed, the debug output is left
  out, and the sums of lengths are taken to fit their C types. \<open>einval\<close> says whether \<^verbatim>\<open>errno\<close> is
  \<^verbatim>\<open>EINVAL\<close> after the conversion of the port: the code does not clear it before.
\<close>

section \<open>C strings\<close>

definition NUL :: char where "NUL = CHR 0x00"
definition CRLF :: string where "CRLF = [CHR 0x0D, CHR 0x0A]"

definition cstr :: "string \<Rightarrow> string" where
  "cstr s = takeWhile (\<lambda>c. c \<noteq> NUL) s"

fun starts_with :: "string \<Rightarrow> string \<Rightarrow> bool" where
  "starts_with [] s = True"
| "starts_with (p # ps) [] = False"
| "starts_with (p # ps) (c # cs) = (p = c \<and> starts_with ps cs)"

text \<open>\<^verbatim>\<open>strstr\<close> and \<^verbatim>\<open>index\<close> for a pattern without NUL: the rest of the string from the match on.\<close>

fun strstr :: "string \<Rightarrow> string \<Rightarrow> string option" where
  "strstr [] pat = None"
| "strstr (c # cs) pat =
     (if starts_with pat (c # cs) then Some (c # cs) else if c = NUL then None else strstr cs pat)"

fun index_chr :: "string \<Rightarrow> char \<Rightarrow> string option" where
  "index_chr [] ch = None"
| "index_chr (c # cs) ch = (if c = ch then Some (c # cs) else if c = NUL then None else index_chr cs ch)"

definition str_at :: "string \<Rightarrow> nat \<Rightarrow> string" where
  "str_at m p = cstr (drop p m)"

text \<open>\<^verbatim>\<open>strtok_r\<close> on the memory \<open>m\<close> from \<open>p\<close> on: the token, the memory, the saved pointer.\<close>

definition strtok_r :: "string \<Rightarrow> nat \<Rightarrow> string \<Rightarrow> nat option \<times> string \<times> nat" where
  "strtok_r m p delim =
     (let s = p + length (takeWhile (\<lambda>c. c \<in> set delim) (drop p m))
      in if str_at m s = [] then (None, m, s)
         else
           let e = s + length (takeWhile (\<lambda>c. c \<notin> set delim \<and> c \<noteq> NUL) (drop s m))
           in if str_at m e = [] then (Some s, m, e) else (Some s, m[e := NUL], e + 1))"

text \<open>\<^verbatim>\<open>strtol\<close> in base 10 on a 64-bit host.\<close>

definition is_space :: "char \<Rightarrow> bool" where
  "is_space c \<longleftrightarrow> c \<in> set [CHR 0x09, CHR 0x0A, CHR 0x0B, CHR 0x0C, CHR 0x0D, CHR 0x20]"

definition digits_val :: "string \<Rightarrow> int" where
  "digits_val s =
     foldl (\<lambda>n c. 10 * n + (int (of_char c) - 48)) 0 (takeWhile (\<lambda>c. 48 \<le> (of_char c :: nat) \<and> of_char c \<le> (57 :: nat)) s)"

definition strtol :: "string \<Rightarrow> int" where
  "strtol s =
     (let s = dropWhile is_space s;
          n = (case s of [] \<Rightarrow> 0
               | c # cs \<Rightarrow> if c = CHR ''-'' then - digits_val cs else if c = CHR ''+'' then digits_val cs else digits_val s)
      in max (- (2 ^ 63)) (min (2 ^ 63 - 1) n))"

section \<open>Requests\<close>

record ParsedHeader =
  hdr_key :: "string option"
  hdr_keylen :: nat
  hdr_value :: "string option"
  hdr_valuelen :: nat

datatype str_ptr = In_buf nat | Heap string

record ParsedRequest =
  req_method :: "str_ptr option"
  req_protocol :: "str_ptr option"
  req_host :: "str_ptr option"
  req_port :: "str_ptr option"
  req_path :: "str_ptr option"
  req_version :: "str_ptr option"
  req_buf :: "string option"
  req_buflen :: nat
  headers :: "ParsedHeader list"
  headerslen :: nat

definition DEFAULT_NHDRS :: nat where "DEFAULT_NHDRS = 8"
definition MAX_REQ_LEN :: nat where "MAX_REQ_LEN = 65535"
definition MIN_REQ_LEN :: nat where "MIN_REQ_LEN = 4"
definition root_abs_path :: string where "root_abs_path = ''/''"

text \<open>\<^verbatim>\<open>headersused\<close> is the number of entries; \<^verbatim>\<open>headerslen\<close> the capacity of the array.\<close>

definition headersused :: "ParsedRequest \<Rightarrow> nat" where
  "headersused pr = length (headers pr)"

text \<open>The string a field points to.\<close>

fun str_of :: "string option \<Rightarrow> str_ptr \<Rightarrow> fault + string" where
  "str_of b (Heap s) = Inr s"
| "str_of None (In_buf p) = Inl Use_after_free"
| "str_of (Some m) (In_buf p) = need (p < length m) Out_of_bounds (Inr (str_at m p))"

definition field :: "ParsedRequest \<Rightarrow> str_ptr option \<Rightarrow> fault + string" where
  "field pr f = deref f (str_of (req_buf pr))"

section \<open>Headers\<close>

fun find_header :: "string \<Rightarrow> ParsedHeader list \<Rightarrow> nat \<Rightarrow> nat option" where
  "find_header key [] i = None"
| "find_header key (h # hs) i = (if hdr_key h = Some key then Some i else find_header key hs (Suc i))"

definition ParsedHeader_get :: "ParsedRequest \<Rightarrow> string \<Rightarrow> nat option" where
  "ParsedHeader_get pr key = find_header key (headers pr) 0"

definition free_string :: "string option \<Rightarrow> (fault + 'a) \<Rightarrow> fault + 'a" where
  "free_string p k = (case p of None \<Rightarrow> Inl Use_after_free | Some _ \<Rightarrow> k)"

definition ParsedHeader_remove :: "ParsedRequest \<Rightarrow> string \<Rightarrow> fault + int \<times> ParsedRequest" where
  "ParsedHeader_remove pr key =
     (case ParsedHeader_get pr key of
        None \<Rightarrow> Inr (- 1, pr)
      | Some i \<Rightarrow>
          free_string (hdr_value (headers pr ! i))
            (Inr (0, pr\<lparr>headers := (headers pr)[i := (headers pr ! i)\<lparr>hdr_key := None, hdr_value := None\<rparr>]\<rparr>)))"

definition ParsedHeader_set :: "ParsedRequest \<Rightarrow> string \<Rightarrow> string \<Rightarrow> fault + int \<times> ParsedRequest" where
  "ParsedHeader_set pr key v =
     andthen (ParsedHeader_remove pr key) (\<lambda>(_, pr).
       let pr = (if headerslen pr \<le> headersused pr + 1 then pr\<lparr>headerslen := headerslen pr * 2\<rparr> else pr)
       in need (headersused pr < headerslen pr) Out_of_bounds
            (Inr (0, pr\<lparr>headers := headers pr @
               [\<lparr>hdr_key = Some key, hdr_keylen = length key + 1, hdr_value = Some v, hdr_valuelen = length v + 1\<rparr>]\<rparr>)))"

definition ParsedHeader_lineLen :: "ParsedHeader \<Rightarrow> fault + nat" where
  "ParsedHeader_lineLen h =
     (case hdr_key h of
        None \<Rightarrow> Inr 0
      | Some key \<Rightarrow>
          (case hdr_value h of None \<Rightarrow> Inl Use_after_free | Some v \<Rightarrow> Inr (length key + length v + 4)))"

fun sum_lines :: "ParsedHeader list \<Rightarrow> fault + nat" where
  "sum_lines [] = Inr 0"
| "sum_lines (h # hs) = andthen (ParsedHeader_lineLen h) (\<lambda>n. andthen (sum_lines hs) (\<lambda>m. Inr (n + m)))"

definition ParsedHeader_headersLen :: "ParsedRequest \<Rightarrow> fault + nat" where
  "ParsedHeader_headersLen pr =
     (if req_buf pr = None then Inr 0 else andthen (sum_lines (headers pr)) (\<lambda>n. Inr (n + 2)))"

text \<open>Writing strings one after the other into a buffer, as a sequence of \<^verbatim>\<open>memcpy\<close> does.\<close>

fun emit :: "string \<Rightarrow> nat \<Rightarrow> string list \<Rightarrow> fault + string \<times> nat" where
  "emit out off [] = Inr (out, off)"
| "emit out off (s # ss) =
     need (off + length s \<le> length out) Out_of_bounds
       (emit (take off out @ s @ drop (off + length s) out) (off + length s) ss)"

fun print_lines :: "string \<Rightarrow> nat \<Rightarrow> ParsedHeader list \<Rightarrow> fault + string \<times> nat" where
  "print_lines out off [] = emit out off [CRLF]"
| "print_lines out off (h # hs) =
     (case hdr_key h of
        None \<Rightarrow> print_lines out off hs
      | Some key \<Rightarrow>
          (case hdr_value h of
             None \<Rightarrow> Inl Use_after_free
           | Some v \<Rightarrow> andthen (emit out off [key, '': '', v, CRLF]) (\<lambda>(out, off). print_lines out off hs)))"

text \<open>Printing to the buffer \<open>out\<close> from \<open>off\<close> on: the return value, the buffer.\<close>

definition ParsedHeader_printHeaders :: "ParsedRequest \<Rightarrow> string \<Rightarrow> nat \<Rightarrow> fault + int \<times> string" where
  "ParsedHeader_printHeaders pr out off =
     andthen (ParsedHeader_headersLen pr) (\<lambda>n.
       if length out - off < n then Inr (- 1, out)
       else andthen (print_lines out off (headers pr)) (\<lambda>(out, _). Inr (0, out)))"

definition ParsedHeader_destroyOne :: "ParsedHeader \<Rightarrow> fault + ParsedHeader" where
  "ParsedHeader_destroyOne h =
     (if hdr_key h = None then Inr h
      else free_string (hdr_value h)
        (Inr \<lparr>hdr_key = None, hdr_keylen = 0, hdr_value = None, hdr_valuelen = 0\<rparr>))"

fun destroy_all :: "ParsedHeader list \<Rightarrow> fault + unit" where
  "destroy_all [] = Inr ()"
| "destroy_all (h # hs) = andthen (ParsedHeader_destroyOne h) (\<lambda>_. destroy_all hs)"

definition ParsedHeader_destroy :: "ParsedRequest \<Rightarrow> fault + ParsedRequest" where
  "ParsedHeader_destroy pr =
     andthen (destroy_all (headers pr)) (\<lambda>_. Inr (pr\<lparr>headers := [], headerslen := 0\<rparr>))"

definition ParsedHeader_parse :: "ParsedRequest \<Rightarrow> string \<Rightarrow> fault + int \<times> ParsedRequest" where
  "ParsedHeader_parse pr line =
     (case index_chr line CHR '':'' of
        None \<Rightarrow> Inr (- 1, pr)
      | Some index1 \<Rightarrow>
          let key = take (length line - length index1) line; index1 = drop 2 index1
          in need (index1 \<noteq> []) Out_of_bounds
               (case strstr index1 CRLF of
                  None \<Rightarrow> Inl Null_deref
                | Some index2 \<Rightarrow>
                    andthen (ParsedHeader_set pr key (take (length index1 - length index2) index1))
                      (\<lambda>(_, pr). Inr (0, pr))))"

section \<open>The request\<close>

definition ParsedHeader_create :: "ParsedRequest \<Rightarrow> ParsedRequest" where
  "ParsedHeader_create pr = pr\<lparr>headers := [], headerslen := DEFAULT_NHDRS\<rparr>"

text \<open>The field \<^verbatim>\<open>port\<close> is not initialised.\<close>

definition ParsedRequest_create :: "str_ptr option \<Rightarrow> ParsedRequest" where
  "ParsedRequest_create uninit_port =
     ParsedHeader_create
       \<lparr>req_method = None, req_protocol = None, req_host = None, req_port = uninit_port, req_path = None,
        req_version = None, req_buf = None, req_buflen = 0, headers = [], headerslen = 0\<rparr>"

definition ParsedRequest_destroy :: "ParsedRequest \<Rightarrow> fault + unit" where
  "ParsedRequest_destroy pr =
     (case req_path pr of
        Some (In_buf _) \<Rightarrow> Inl Use_after_free
      | _ \<Rightarrow> if headerslen pr > 0 then andthen (ParsedHeader_destroy pr) (\<lambda>_. Inr ()) else Inr ())"

text \<open>A rejected request: the buffer is freed.\<close>

definition reject :: "ParsedRequest \<Rightarrow> fault + int \<times> ParsedRequest" where
  "reject pr = Inr (- 1, pr\<lparr>req_buf := None\<rparr>)"

text \<open>The host and the port, after the path has been set.\<close>

definition parse_host_port :: "bool \<Rightarrow> ParsedRequest \<Rightarrow> string \<Rightarrow> nat \<Rightarrow> fault + int \<times> ParsedRequest" where
  "parse_host_port einval pr m host =
     (case strtok_r m host '':'' of (host, m, save) \<Rightarrow>
      case strtok_r m save ''/'' of (port, m, _) \<Rightarrow>
        let pr = pr\<lparr>req_host := map_option In_buf host, req_port := map_option In_buf port, req_buf := Some m\<rparr>
        in if host = None then reject (pr\<lparr>req_path := None\<rparr>)
           else if (case port of None \<Rightarrow> False
                    | Some p \<Rightarrow> (word_of_int (strtol (str_at m p)) :: uint32) = 0 \<and> einval)
                then reject (pr\<lparr>req_path := None\<rparr>)
           else Inr (0, pr))"

text \<open>The address, which starts at \<open>full_addr\<close>.\<close>

definition parse_address :: "bool \<Rightarrow> ParsedRequest \<Rightarrow> string \<Rightarrow> nat \<Rightarrow> fault + int \<times> ParsedRequest" where
  "parse_address einval pr m full_addr =
     (case strtok_r m full_addr ''://'' of
        (None, m, _) \<Rightarrow> reject (pr\<lparr>req_protocol := None\<rparr>)
      | (Some protocol, m, save) \<Rightarrow>
          let pr = pr\<lparr>req_protocol := Some (In_buf protocol)\<rparr>;
              rem = full_addr + length (str_at m protocol) + 3
          in need (rem < length m) Out_of_bounds
               (let abs_uri_len = length (str_at m rem)
                in case strtok_r m save ''/'' of
                     (None, m, _) \<Rightarrow> reject (pr\<lparr>req_host := None\<rparr>)
                   | (Some host, m, save) \<Rightarrow>
                       if length (str_at m host) = abs_uri_len then reject (pr\<lparr>req_host := Some (In_buf host)\<rparr>)
                       else
                         (case strtok_r m save '' '' of
                            (None, m, _) \<Rightarrow> parse_host_port einval (pr\<lparr>req_path := Some (Heap root_abs_path)\<rparr>) m host
                          | (Some p, m, _) \<Rightarrow>
                              if starts_with root_abs_path (str_at m p)
                              then reject (pr\<lparr>req_host := Some (In_buf host), req_path := None\<rparr>)
                              else parse_host_port einval
                                (pr\<lparr>req_path := Some (Heap (root_abs_path @ str_at m p))\<rparr>) m host)))"

definition parse_request_line :: "bool \<Rightarrow> ParsedRequest \<Rightarrow> string \<Rightarrow> fault + int \<times> ParsedRequest" where
  "parse_request_line einval pr m =
     (case strtok_r m 0 '' '' of
        (None, m, _) \<Rightarrow> reject (pr\<lparr>req_method := None\<rparr>)
      | (Some method, m, save) \<Rightarrow>
          let pr = pr\<lparr>req_method := Some (In_buf method)\<rparr>
          in case strtok_r m save '' '' of
               (None, m, _) \<Rightarrow> reject pr
             | (Some full_addr, m, _) \<Rightarrow>
                 let version = full_addr + length (str_at m full_addr) + 1;
                     pr = pr\<lparr>req_version := Some (In_buf version)\<rparr>
                 in need (version < length m) Out_of_bounds
                      (if \<not> starts_with ''HTTP/'' (str_at m version) then reject pr
                       else parse_address einval pr m full_addr))"

lemma strstr_suffix: "strstr s pat = Some r \<Longrightarrow> \<exists>p. s = p @ r \<and> starts_with pat r"
  by (induction s pat rule: strstr.induct) (auto split: if_splits intro: exI [of _ "_ # _"])

lemma starts_with_length: "starts_with p s \<Longrightarrow> length p \<le> length s"
  by (induction p s rule: starts_with.induct) auto

text \<open>The loop over the header lines, from \<^verbatim>\<open>currentHeader\<close> on.\<close>

function parse_headers :: "ParsedRequest \<Rightarrow> string \<Rightarrow> fault + int \<times> ParsedRequest" where
  "parse_headers pr cur =
     (if cstr cur = [] \<or> starts_with CRLF cur then Inr (0, pr)
      else
        case ParsedHeader_parse pr cur of
          Inl e \<Rightarrow> Inl e
        | Inr (rc, pr) \<Rightarrow>
            if rc \<noteq> 0 then Inr (- 1, pr)
            else
              case strstr cur CRLF of
                None \<Rightarrow> Inr (0, pr)
              | Some cur \<Rightarrow> if length (cstr cur) < 2 then Inr (0, pr) else parse_headers pr (drop 2 cur))"
  by pat_completeness auto
termination
proof (relation "measure (\<lambda>(pr, cur). length cur)", goal_cases)
  case (2 pr cur res rc pr' nxt)
  then have "strstr cur CRLF = Some nxt" by simp
  from strstr_suffix [OF this] show ?case
    using starts_with_length [of CRLF nxt] by (auto simp: CRLF_def)
qed simp

declare parse_headers.simps [simp del]

definition ParsedRequest_parse :: "bool \<Rightarrow> ParsedRequest \<Rightarrow> string \<Rightarrow> fault + int \<times> ParsedRequest" where
  "ParsedRequest_parse einval parse b =
     (if req_buf parse \<noteq> None then Inr (- 1, parse)
      else if length b < MIN_REQ_LEN \<or> length b > MAX_REQ_LEN then Inr (- 1, parse)
      else
        let tmp_buf = b @ [NUL]
        in if strstr tmp_buf (CRLF @ CRLF) = None then Inr (- 1, parse)
           else
             deref (strstr tmp_buf CRLF) (\<lambda>index.
               let line = take (length tmp_buf - length index) tmp_buf @ [NUL]
               in andthen (parse_request_line einval (parse\<lparr>req_buf := Some line, req_buflen := length line\<rparr>) line)
                    (\<lambda>(rc, parse). if rc < 0 then Inr (rc, parse) else parse_headers parse (drop 2 index))))"

section \<open>Printing a request\<close>

definition ParsedRequest_requestLineLen :: "ParsedRequest \<Rightarrow> fault + nat" where
  "ParsedRequest_requestLineLen pr =
     (if req_buf pr = None then Inr 0
      else
        andthen (field pr (req_method pr)) (\<lambda>method.
        andthen (field pr (req_protocol pr)) (\<lambda>protocol.
        andthen (field pr (req_host pr)) (\<lambda>host.
        andthen (field pr (req_version pr)) (\<lambda>version.
        andthen (if req_port pr = None then Inr 0 else andthen (field pr (req_port pr)) (\<lambda>port. Inr (length port + 1))) (\<lambda>n.
        andthen (field pr (req_path pr)) (\<lambda>path.
          Inr (length method + 1 + length protocol + 3 + length host + 1 + length version + 2 + n + length path))))))))"

text \<open>The return value, the buffer, and the length of what was written.\<close>

definition ParsedRequest_printRequestLine :: "ParsedRequest \<Rightarrow> string \<Rightarrow> fault + int \<times> string \<times> nat" where
  "ParsedRequest_printRequestLine pr out =
     andthen (ParsedRequest_requestLineLen pr) (\<lambda>n.
       if length out < n then Inr (- 1, out, 0)
       else
         andthen (field pr (req_method pr)) (\<lambda>method.
         andthen (field pr (req_protocol pr)) (\<lambda>protocol.
         andthen (field pr (req_host pr)) (\<lambda>host.
         andthen (if req_port pr = None then Inr [] else andthen (field pr (req_port pr)) (\<lambda>port. Inr ['':'', port])) (\<lambda>port.
         andthen (field pr (req_path pr)) (\<lambda>path.
         andthen (field pr (req_version pr)) (\<lambda>version.
         andthen (emit out 0 ([method, '' '', protocol, ''://'', host] @ port @ [path, '' '', version, CRLF])) (\<lambda>(out, off).
           Inr (0, out, off)))))))))"

definition ParsedRequest_unparse :: "ParsedRequest \<Rightarrow> string \<Rightarrow> fault + int \<times> string" where
  "ParsedRequest_unparse pr out =
     (if req_buf pr = None then Inr (- 1, out)
      else
        andthen (ParsedRequest_printRequestLine pr out) (\<lambda>(rc, out, tmp).
          if rc < 0 then Inr (- 1, out) else ParsedHeader_printHeaders pr out tmp))"

definition ParsedRequest_unparse_headers :: "ParsedRequest \<Rightarrow> string \<Rightarrow> fault + int \<times> string" where
  "ParsedRequest_unparse_headers pr out =
     (if req_buf pr = None then Inr (- 1, out) else ParsedHeader_printHeaders pr out 0)"

definition ParsedRequest_totalLen :: "ParsedRequest \<Rightarrow> fault + nat" where
  "ParsedRequest_totalLen pr =
     (if req_buf pr = None then Inr 0
      else andthen (ParsedRequest_requestLineLen pr) (\<lambda>n. andthen (ParsedHeader_headersLen pr) (\<lambda>k. Inr (n + k))))"

end
