(* ===== verification/Proxy_Parse_Correct.thy ===== *)
theory Proxy_Parse_Correct
  imports Proxy_Parse
begin

text \<open>
  The parser of the HTTP proxy is correct: the header table is a map, a printed request has
  exactly the announced length, and parsing the text of a well-formed request and printing
  the result gives the text back. The faults the parser has on ill-formed requests are at the
  end.
\<close>

section \<open>The header table\<close>

text \<open>The entries that have not been removed.\<close>

fun live :: "ParsedHeader list \<Rightarrow> (string \<times> string) list" where
  "live [] = []"
| "live (h # hs) = (case (hdr_key h, hdr_value h) of (Some k, Some v) \<Rightarrow> (k, v) # live hs | _ \<Rightarrow> live hs)"

definition live_ok :: "ParsedHeader list \<Rightarrow> bool" where
  "live_ok hs \<longleftrightarrow> distinct (map fst (live hs)) \<and> (\<forall>h \<in> set hs. hdr_key h \<noteq> None \<longrightarrow> hdr_value h \<noteq> None)"

definition headers_ok :: "ParsedRequest \<Rightarrow> bool" where
  "headers_ok pr \<longleftrightarrow> headersused pr < headerslen pr \<and> live_ok (headers pr)"

definition hdr_entries :: "ParsedRequest \<Rightarrow> (string \<times> string) list" where
  "hdr_entries pr = live (headers pr)"

text \<open>The contract of a table of headers with the order of their insertion.\<close>

fun set_all :: "('t \<Rightarrow> string \<Rightarrow> string \<Rightarrow> fault + int \<times> 't) \<Rightarrow> 't \<Rightarrow> (string \<times> string) list \<Rightarrow> fault + 't" where
  "set_all st t [] = Inr t"
| "set_all st t ((k, v) # kvs) = andthen (st t k v) (\<lambda>(_, t). set_all st t kvs)"

locale header_table =
  fixes st :: "'t \<Rightarrow> string \<Rightarrow> string \<Rightarrow> fault + int \<times> 't"
    and rm :: "'t \<Rightarrow> string \<Rightarrow> fault + int \<times> 't"
    and ents :: "'t \<Rightarrow> (string \<times> string) list"
    and ok :: "'t \<Rightarrow> bool"
    and same :: "'t \<Rightarrow> 't \<Rightarrow> bool"
  assumes ents_distinct: "ok t \<Longrightarrow> distinct (map fst (ents t))"
    and st_ents: "ok t \<Longrightarrow> \<exists>u. st t k v = Inr (0, u) \<and> ok u \<and> same t u \<and> ents u = filter (\<lambda>e. fst e \<noteq> k) (ents t) @ [(k, v)]"
    and rm_ents: "ok t \<Longrightarrow> \<exists>rc u. rm t k = Inr (rc, u) \<and> ok u \<and> same t u \<and>
      (rc = 0 \<longleftrightarrow> k \<in> fst ` set (ents t)) \<and> ents u = filter (\<lambda>e. fst e \<noteq> k) (ents t)"
    and same_refl: "same t t"
    and same_trans: "same t u \<Longrightarrow> same u w \<Longrightarrow> same t w"
begin

lemma st_map: "ok t \<Longrightarrow> \<exists>u. st t k v = Inr (0, u) \<and> ok u \<and> map_of (ents u) = (map_of (ents t))(k \<mapsto> v)"
proof -
  assume "ok t"
  then obtain u where "st t k v = Inr (0, u)" "ok u" "ents u = filter (\<lambda>e. fst e \<noteq> k) (ents t) @ [(k, v)]"
    using st_ents by blast
  moreover have "map_of (filter (\<lambda>e. fst e \<noteq> k) es) = (map_of es)(k := None)" for es :: "(string \<times> string) list"
    by (induction es) auto
  ultimately show ?thesis by (auto simp: map_add_def fun_eq_iff split: option.splits)
qed

lemma rm_map: "ok t \<Longrightarrow> \<exists>rc u. rm t k = Inr (rc, u) \<and> ok u \<and> map_of (ents u) = (map_of (ents t))(k := None)"
proof -
  assume "ok t"
  then obtain rc u where "rm t k = Inr (rc, u)" "ok u" "ents u = filter (\<lambda>e. fst e \<noteq> k) (ents t)"
    using rm_ents by blast
  moreover have "map_of (filter (\<lambda>e. fst e \<noteq> k) es) = (map_of es)(k := None)" for es :: "(string \<times> string) list"
    by (induction es) auto
  ultimately show ?thesis by auto
qed

lemma set_all_new:
  "ok t \<Longrightarrow> distinct (map fst kvs) \<Longrightarrow> fst ` set kvs \<inter> fst ` set (ents t) = {} \<Longrightarrow>
    \<exists>u. set_all st t kvs = Inr u \<and> ok u \<and> same t u \<and> ents u = ents t @ kvs"
proof (induction kvs arbitrary: t)
  case (Cons kv kvs)
  obtain k v where kv: "kv = (k, v)" by fastforce
  obtain u where u: "st t k v = Inr (0, u)" "ok u" "same t u" "ents u = filter (\<lambda>e. fst e \<noteq> k) (ents t) @ [(k, v)]"
    using st_ents [OF Cons.prems(1)] by blast
  have "filter (\<lambda>e. fst e \<noteq> k) (ents t) = ents t"
    using Cons.prems(3) kv by (auto simp: filter_id_conv)
  with u have e: "ents u = ents t @ [(k, v)]" by simp
  moreover have "fst ` set kvs \<inter> fst ` set (ents u) = {}" using Cons.prems(2,3) kv e by auto
  ultimately show ?case
    using Cons.IH [OF u(2)] Cons.prems(2) u(1,3) kv by (auto intro: same_trans)
qed (simp add: same_refl)

end

lemma live_append [simp]: "live (hs @ hs') = live hs @ live hs'"
  by (induction hs) (auto split: option.splits)

lemma find_header_Some:
  "find_header k hs i = Some j \<Longrightarrow> \<exists>xs h ys. hs = xs @ h # ys \<and> j = i + length xs \<and> hdr_key h = Some k \<and>
    (\<forall>x \<in> set xs. hdr_key x \<noteq> Some k)"
proof (induction hs arbitrary: i)
  case (Cons h hs)
  show ?case
  proof (cases "hdr_key h = Some k")
    case False
    with Cons obtain xs h' ys where "hs = xs @ h' # ys" "j = Suc i + length xs" "hdr_key h' = Some k"
      "\<forall>x \<in> set xs. hdr_key x \<noteq> Some k"
      by fastforce
    with False show ?thesis by (intro exI [of _ "h # xs"] exI [of _ h'] exI [of _ ys]) simp
  qed (use Cons.prems in \<open>auto intro!: exI [of _ "[]"]\<close>)
qed simp

lemma find_header_None: "find_header k hs i = None \<longleftrightarrow> (\<forall>h \<in> set hs. hdr_key h \<noteq> Some k)"
  by (induction hs arbitrary: i) auto

lemma in_live: "e \<in> set (live hs) \<longleftrightarrow> (\<exists>h \<in> set hs. hdr_key h = Some (fst e) \<and> hdr_value h = Some (snd e))"
  by (induction hs) (auto split: option.splits)

lemma filter_live: "\<forall>h \<in> set hs. hdr_key h \<noteq> Some k \<Longrightarrow> filter (\<lambda>e. fst e \<noteq> k) (live hs) = live hs"
  by (auto simp: filter_id_conv in_live)

lemma ParsedHeader_remove_live:
  assumes "headers_ok pr"
  shows "\<exists>rc hs. ParsedHeader_remove pr k = Inr (rc, pr\<lparr>headers := hs\<rparr>) \<and> headers_ok (pr\<lparr>headers := hs\<rparr>) \<and>
    length hs = length (headers pr) \<and> (rc = 0 \<longleftrightarrow> k \<in> fst ` set (live (headers pr))) \<and>
    live hs = filter (\<lambda>e. fst e \<noteq> k) (live (headers pr))"
proof (cases "find_header k (headers pr) 0")
  case None
  then have "\<forall>h \<in> set (headers pr). hdr_key h \<noteq> Some k" by (simp add: find_header_None)
  moreover from this have "k \<notin> fst ` set (live (headers pr))" by (auto simp: in_live)
  ultimately show ?thesis
    using None assms by (intro exI [of _ "- 1"] exI [of _ "headers pr"])
      (cases pr, simp add: ParsedHeader_remove_def ParsedHeader_get_def filter_live)
next
  case (Some j)
  then obtain xs h ys where hs: "headers pr = xs @ h # ys" "j = length xs" "hdr_key h = Some k"
    "\<forall>x \<in> set xs. hdr_key x \<noteq> Some k"
    using find_header_Some [OF Some] by auto
  with assms obtain v where v: "hdr_value h = Some v" by (auto simp: headers_ok_def live_ok_def)
  with hs assms have "k \<notin> fst ` set (live ys)" by (auto simp: headers_ok_def live_ok_def)
  then have ys: "filter (\<lambda>e. fst e \<noteq> k) (live ys) = live ys" by (auto simp: filter_id_conv)
  let ?hs = "xs @ h\<lparr>hdr_key := None, hdr_value := None\<rparr> # ys"
  have live: "live ?hs = filter (\<lambda>e. fst e \<noteq> k) (live (headers pr))"
    using hs v ys by (simp add: filter_live)
  have "distinct (map fst (filter (\<lambda>e. fst e \<noteq> k) (live (headers pr))))"
    using assms by (simp add: headers_ok_def live_ok_def distinct_map_filter)
  then have "headers_ok (pr\<lparr>headers := ?hs\<rparr>)"
    using assms live hs by (auto simp: headers_ok_def live_ok_def headersused_def)
  moreover have "ParsedHeader_remove pr k = Inr (0, pr\<lparr>headers := ?hs\<rparr>)"
    using Some hs v by (simp add: ParsedHeader_remove_def ParsedHeader_get_def free_string_def list_update_append)
  ultimately show ?thesis
    using live hs v by (intro exI [of _ 0] exI [of _ ?hs]) (auto simp: in_live)
qed

definition same_line :: "ParsedRequest \<Rightarrow> ParsedRequest \<Rightarrow> bool" where
  "same_line pr pr' \<longleftrightarrow> (\<exists>hs n. pr' = pr\<lparr>headers := hs, headerslen := n\<rparr>)"

lemma ParsedHeader_set_live:
  assumes "headers_ok pr"
  shows "\<exists>pr'. ParsedHeader_set pr k v = Inr (0, pr') \<and> headers_ok pr' \<and> same_line pr pr' \<and>
    hdr_entries pr' = filter (\<lambda>e. fst e \<noteq> k) (hdr_entries pr) @ [(k, v)]"
proof -
  obtain rc hs where r: "ParsedHeader_remove pr k = Inr (rc, pr\<lparr>headers := hs\<rparr>)" "headers_ok (pr\<lparr>headers := hs\<rparr>)"
    "length hs = length (headers pr)" "live hs = filter (\<lambda>e. fst e \<noteq> k) (live (headers pr))"
    using ParsedHeader_remove_live [OF assms] by blast
  define n where "n = (if headerslen pr \<le> length hs + 1 then headerslen pr * 2 else headerslen pr)"
  let ?h = "\<lparr>hdr_key = Some k, hdr_keylen = length k + 1, hdr_value = Some v, hdr_valuelen = length v + 1\<rparr>"
  let ?pr = "pr\<lparr>headers := hs @ [?h], headerslen := n\<rparr>"
  have n: "length hs + 1 < n" using assms r(3) by (auto simp: n_def headers_ok_def headersused_def)
  then have "ParsedHeader_set pr k v = Inr (0, ?pr)"
    using r(1) by (cases pr) (auto simp: ParsedHeader_set_def headersused_def Let_def n_def)
  moreover have "k \<notin> fst ` set (live hs)" using r(4) by auto
  then have "headers_ok ?pr"
    using n r(2) by (auto simp: headers_ok_def live_ok_def headersused_def)
  ultimately show ?thesis
    using r(4) by (intro exI [of _ ?pr]) (auto simp: same_line_def hdr_entries_def)
qed

interpretation hdrs: header_table ParsedHeader_set ParsedHeader_remove hdr_entries headers_ok same_line
proof (unfold_locales, goal_cases)
  case (1 t)
  then show ?case by (simp add: headers_ok_def live_ok_def hdr_entries_def)
next
  case (2 t k v)
  then show ?case by (rule ParsedHeader_set_live)
next
  case (3 t k)
  then show ?case using ParsedHeader_remove_live [OF 3, of k]
    by (cases t) (fastforce simp: hdr_entries_def same_line_def)
next
  case (4 t)
  then show ?case by (cases t) (simp add: same_line_def)
next
  case (5 t u v)
  then show ?case by (cases t) (auto simp: same_line_def)
qed

section \<open>Printing\<close>

definition header_text :: "(string \<times> string) list \<Rightarrow> string" where
  "header_text kvs = concat (map (\<lambda>(k, v). k @ '': '' @ v @ CRLF) kvs) @ CRLF"

lemma length_CRLF [simp]: "length CRLF = 2"
  by (simp add: CRLF_def)

lemma drop_CRLF [simp]: "drop 2 (CRLF @ s) = s"
  by (simp add: CRLF_def)

lemma emit_fits:
  "off + length (concat ss) \<le> length out \<Longrightarrow>
    emit out off ss = Inr (take off out @ concat ss @ drop (off + length (concat ss)) out, off + length (concat ss))"
proof (induction ss arbitrary: out off)
  case (Cons s ss)
  let ?out = "take off out @ s @ drop (off + length s) out"
  have "emit ?out (off + length s) ss = Inr (take (off + length s) ?out @ concat ss @
      drop (off + length s + length (concat ss)) ?out, off + length s + length (concat ss))"
    using Cons.prems by (intro Cons.IH) simp
  with Cons.prems show ?case by (simp add: ac_simps)
qed simp

lemma sum_lines_live:
  "live_ok hs \<Longrightarrow> sum_lines hs = Inr (length (header_text (live hs)) - 2)"
proof (induction hs)
  case (Cons h hs)
  then have "live_ok hs" by (auto simp: live_ok_def split: option.splits)
  with Cons show ?case
    by (auto simp: ParsedHeader_lineLen_def header_text_def CRLF_def live_ok_def split: option.splits)
qed (simp add: header_text_def CRLF_def)

lemma print_lines_live:
  "live_ok hs \<Longrightarrow> off + length (header_text (live hs)) \<le> length out \<Longrightarrow>
    \<exists>n. print_lines out off hs =
      Inr (take off out @ header_text (live hs) @ drop (off + length (header_text (live hs))) out, n)"
proof (induction hs arbitrary: out off)
  case Nil
  then show ?case by (simp add: header_text_def)
next
  case (Cons h hs)
  have ok: "live_ok hs" using Cons.prems(1) by (auto simp: live_ok_def split: option.splits)
  show ?case
  proof (cases "hdr_key h")
    case None
    with Cons.IH [OF ok] Cons.prems(2) show ?thesis by simp
  next
    case (Some k)
    then obtain v where v: "hdr_value h = Some v" using Cons.prems(1) by (auto simp: live_ok_def)
    define l where "l = k @ '': '' @ v @ CRLF"
    have t: "header_text (live (h # hs)) = l @ header_text (live hs)"
      using Some v by (simp add: header_text_def l_def)
    let ?out = "take off out @ l @ drop (off + length l) out"
    have "emit out off [k, '': '', v, CRLF] = Inr (?out, off + length l)"
      using emit_fits [of off "[k, '': '', v, CRLF]" out] Cons.prems(2) t by (simp add: l_def)
    then have "print_lines out off (h # hs) = print_lines ?out (off + length l) hs"
      using Some v by simp
    moreover have fits: "off + length l + length (header_text (live hs)) \<le> length ?out"
      using Cons.prems(2) t by simp
    obtain n where "print_lines ?out (off + length l) hs = Inr (take (off + length l) ?out @
        header_text (live hs) @ drop (off + length l + length (header_text (live hs))) ?out, n)"
      using Cons.IH [OF ok fits] by blast
    moreover have "off + length l \<le> length out" using Cons.prems(2) t by simp
    ultimately show ?thesis unfolding t by (simp add: ac_simps)
  qed
qed

text \<open>The strings of the request line.\<close>

record request_parts =
  p_method :: string
  p_protocol :: string
  p_host :: string
  p_port :: "string option"
  p_path :: string
  p_version :: string

definition request_line :: "request_parts \<Rightarrow> string" where
  "request_line r = p_method r @ '' '' @ p_protocol r @ ''://'' @ p_host r @
     (case p_port r of None \<Rightarrow> [] | Some p \<Rightarrow> '':'' @ p) @ p_path r @ '' '' @ p_version r"

definition has_parts :: "ParsedRequest \<Rightarrow> request_parts \<Rightarrow> bool" where
  "has_parts pr r \<longleftrightarrow> req_buf pr \<noteq> None \<and> field pr (req_method pr) = Inr (p_method r) \<and>
     field pr (req_protocol pr) = Inr (p_protocol r) \<and> field pr (req_host pr) = Inr (p_host r) \<and>
     (case p_port r of None \<Rightarrow> req_port pr = None
      | Some p \<Rightarrow> req_port pr \<noteq> None \<and> field pr (req_port pr) = Inr p) \<and>
     field pr (req_path pr) = Inr (p_path r) \<and> field pr (req_version pr) = Inr (p_version r)"

lemma has_parts_same_line: "has_parts pr r \<Longrightarrow> same_line pr pr' \<Longrightarrow> has_parts pr' r"
  by (auto simp: has_parts_def same_line_def field_def split: option.splits)

definition request_text :: "request_parts \<Rightarrow> (string \<times> string) list \<Rightarrow> string" where
  "request_text r kvs = request_line r @ CRLF @ header_text kvs"

lemma requestLineLen_parts:
  "has_parts pr r \<Longrightarrow> ParsedRequest_requestLineLen pr = Inr (length (request_line r) + 2)"
  by (auto simp: has_parts_def ParsedRequest_requestLineLen_def request_line_def split: option.splits)

lemma headersLen_entries:
  "headers_ok pr \<Longrightarrow> req_buf pr \<noteq> None \<Longrightarrow> ParsedHeader_headersLen pr = Inr (length (header_text (hdr_entries pr)))"
  using sum_lines_live [of "headers pr"]
  by (simp add: ParsedHeader_headersLen_def headers_ok_def hdr_entries_def header_text_def CRLF_def)

lemma totalLen_text:
  "has_parts pr r \<Longrightarrow> headers_ok pr \<Longrightarrow> ParsedRequest_totalLen pr = Inr (length (request_text r (hdr_entries pr)))"
  using requestLineLen_parts [of pr r] headersLen_entries [of pr]
  by (auto simp: ParsedRequest_totalLen_def request_text_def has_parts_def CRLF_def)

lemma printRequestLine_parts:
  assumes "has_parts pr r" and "length (request_line r) + 2 \<le> length out"
  shows "ParsedRequest_printRequestLine pr out =
    Inr (0, request_line r @ CRLF @ drop (length (request_line r) + 2) out, length (request_line r) + 2)"
proof -
  define port where "port = (case p_port r of None \<Rightarrow> [] | Some p \<Rightarrow> ['':'', p])"
  let ?ss = "[p_method r, '' '', p_protocol r, ''://'', p_host r] @ port @ [p_path r, '' '', p_version r, CRLF]"
  have c: "concat ?ss = request_line r @ CRLF"
    by (simp add: request_line_def port_def split: option.splits)
  have l: "length (concat ?ss) = length (request_line r) + 2"
    unfolding c by (simp add: CRLF_def)
  have e: "emit out 0 ?ss = Inr (request_line r @ CRLF @ drop (length (request_line r) + 2) out, length (request_line r) + 2)"
    using emit_fits [of 0 ?ss out] assms(2) unfolding l c by (simp del: emit.simps)
  have p: "(if req_port pr = None then Inr [] else andthen (field pr (req_port pr)) (\<lambda>port. Inr ['':'', port])) = Inr port"
    using assms(1) by (auto simp: has_parts_def port_def split: option.splits)
  have "\<not> length out < length (request_line r) + 2" using assms(2) by simp
  then show ?thesis
    using assms(1) e p
    by (simp add: ParsedRequest_printRequestLine_def requestLineLen_parts [OF assms(1)] has_parts_def del: emit.simps)
qed

lemma unparse_parts:
  assumes "has_parts pr r" and "headers_ok pr"
  shows "\<exists>out'. ParsedRequest_unparse pr out =
    (if length out < length (request_text r (hdr_entries pr)) then Inr (- 1, out')
     else Inr (0, request_text r (hdr_entries pr) @ drop (length (request_text r (hdr_entries pr))) out))"
proof -
  let ?n = "length (request_line r) + 2" and ?h = "header_text (hdr_entries pr)"
  have buf: "req_buf pr \<noteq> None" using assms(1) by (simp add: has_parts_def)
  have t: "length (request_text r (hdr_entries pr)) = ?n + length ?h"
    by (simp add: request_text_def CRLF_def)
  show ?thesis
  proof (cases "length out < ?n")
    case True
    then show ?thesis
      using buf t by (simp add: ParsedRequest_unparse_def ParsedRequest_printRequestLine_def
          requestLineLen_parts [OF assms(1)])
  next
    case False
    let ?out = "request_line r @ CRLF @ drop ?n out"
    have u: "ParsedRequest_unparse pr out = ParsedHeader_printHeaders pr ?out ?n"
      using buf False printRequestLine_parts [OF assms(1), of out] by (auto simp: ParsedRequest_unparse_def)
    have len: "length ?out = length out" using False by (simp add: CRLF_def)
    show ?thesis
    proof (cases "length out < ?n + length ?h")
      case True
      then have "length ?out - ?n < length ?h" using len False by simp
      then show ?thesis
        using True t u headersLen_entries [OF assms(2) buf]
        by (simp only: ParsedHeader_printHeaders_def andthen_Inr if_True) blast
    next
      case fits: False
      have "live_ok (headers pr)" using assms(2) by (simp add: headers_ok_def)
      then obtain k where "print_lines ?out ?n (headers pr) =
          Inr (take ?n ?out @ ?h @ drop (?n + length ?h) ?out, k)"
        using print_lines_live [of "headers pr" ?n ?out] len fits by (auto simp: hdr_entries_def)
      moreover have "take ?n ?out = request_line r @ CRLF" by (simp add: CRLF_def)
      moreover have "drop (?n + length ?h) ?out = drop (?n + length ?h) out"
        using False by (simp add: CRLF_def ac_simps)
      moreover have "\<not> length ?out - ?n < length ?h" using len fits by simp
      ultimately show ?thesis
        using fits t u headersLen_entries [OF assms(2) buf]
        by (simp add: ParsedHeader_printHeaders_def request_text_def CRLF_def)
    qed
  qed
qed

section \<open>Tokens\<close>

text \<open>A string without NUL, carriage return and the characters of \<open>ds\<close>.\<close>

definition plain :: "string \<Rightarrow> string \<Rightarrow> bool" where
  "plain ds s \<longleftrightarrow> list_all (\<lambda>c. c \<notin> set ds \<and> c \<noteq> NUL \<and> c \<noteq> CHR 0x0D) s"

lemma plain_append [simp]: "plain ds (s @ t) \<longleftrightarrow> plain ds s \<and> plain ds t"
  by (simp add: plain_def)

lemma plain_Nil [simp]: "plain ds []"
  by (simp add: plain_def)

lemma plain_Cons [simp]: "plain ds (c # s) \<longleftrightarrow> c \<notin> set ds \<and> c \<noteq> NUL \<and> c \<noteq> CHR 0x0D \<and> plain ds s"
  by (simp add: plain_def)

lemma plain_mono: "plain ds s \<Longrightarrow> set es \<subseteq> set ds \<Longrightarrow> plain es s"
  by (auto simp: plain_def list_all_iff)

lemma plainD: "plain ds s \<Longrightarrow> c \<in> set s \<Longrightarrow> c \<notin> set ds \<and> c \<noteq> NUL \<and> c \<noteq> CHR 0x0D"
  by (simp add: plain_def list_all_iff)

lemma str_at_token: "plain ds tok \<Longrightarrow> str_at (pre @ tok @ NUL # rest) (length pre) = tok"
  using plainD [of ds tok] by (simp add: str_at_def cstr_def takeWhile_append2)

lemma str_at_nonempty: "x \<noteq> NUL \<Longrightarrow> str_at (pre @ x # rest) (length pre) \<noteq> []"
  by (simp add: str_at_def cstr_def)

lemma takeWhile_stop: "\<forall>x \<in> set xs. P x \<Longrightarrow> \<not> P y \<Longrightarrow> takeWhile P (xs @ y # ys) = xs"
  by (simp add: takeWhile_append2)

lemma strtok_parts:
  assumes "set ds \<subseteq> set delim" and "plain delim (t # ts)" and "d \<in> set delim \<or> d = NUL" and "NUL \<notin> set delim"
    and "m = pre @ ds @ (t # ts) @ d # rest"
  shows "strtok_r m (length pre) delim =
    (if d = NUL then (Some (length pre + length ds), m, length pre + length ds + length (t # ts))
     else (Some (length pre + length ds), pre @ ds @ (t # ts) @ NUL # rest, length pre + length ds + length (t # ts) + 1))"
proof -
  have "t \<notin> set delim" "t \<noteq> NUL" using plainD [OF assms(2)] by auto
  then have s: "takeWhile (\<lambda>c. c \<in> set delim) (ds @ t # ts @ d # rest) = ds"
    using assms(1) by (intro takeWhile_stop) auto
  have e: "takeWhile (\<lambda>c. c \<notin> set delim \<and> c \<noteq> NUL) ((t # ts) @ d # rest) = t # ts"
    using plainD [OF assms(2)] assms(3) by (intro takeWhile_stop) auto
  let ?p = "pre @ ds"
  have m: "m = ?p @ t # ts @ d # rest" "m = (?p @ t # ts) @ d # rest" using assms(5) by simp_all
  have a: "str_at m (length ?p) \<noteq> []" unfolding m(1) using \<open>t \<noteq> NUL\<close> by (rule str_at_nonempty)
  have b: "str_at m (length (?p @ t # ts)) = [] \<longleftrightarrow> d = NUL"
    unfolding m(2) by (simp add: str_at_def cstr_def)
  have d1: "drop (length pre) m = ds @ t # ts @ d # rest" and d2: "drop (length ?p) m = (t # ts) @ d # rest"
    using m(1) by simp_all
  have upd: "m[length (?p @ t # ts) := NUL] = (?p @ t # ts) @ NUL # rest"
    unfolding m(2) by (rule list_update_length)
  show ?thesis
    using a b d2 e upd unfolding strtok_r_def Let_def d1 s
    by (cases "d = NUL") (simp_all add: add.assoc del: takeWhile.simps)
qed

lemma strtok_none:
  assumes "NUL \<notin> set delim"
  shows "strtok_r (pre @ NUL # rest) (length pre) delim = (None, pre @ NUL # rest, length pre)"
proof -
  have "takeWhile (\<lambda>c. c \<in> set delim) (NUL # rest) = []" using assms by simp
  then show ?thesis by (simp add: strtok_r_def str_at_def cstr_def)
qed

lemma starts_with_append [simp]: "starts_with p (p @ s)"
  by (induction p) simp_all

lemma strstr_first: "plain [] p \<Longrightarrow> strstr (p @ CRLF @ r) CRLF = Some (CRLF @ r)"
  by (induction p) (auto simp: CRLF_def plain_def)

lemma strstr_found: "NUL \<notin> set p \<Longrightarrow> pat \<noteq> [] \<Longrightarrow> strstr (p @ pat @ r) pat \<noteq> None"
proof (induction p)
  case Nil
  then show ?case by (cases pat) auto
qed auto

lemma index_first: "NUL \<notin> set p \<Longrightarrow> ch \<notin> set p \<Longrightarrow> index_chr (p @ ch # r) ch = Some (ch # r)"
  by (induction p) auto

section \<open>Parsing header lines\<close>

definition header_wf :: "string \<times> string \<Rightarrow> bool" where
  "header_wf kv \<longleftrightarrow> plain '':'' (fst kv) \<and> plain [] (snd kv)"

lemma ParsedHeader_parse_line:
  assumes "header_wf (k, v)"
  shows "ParsedHeader_parse pr (k @ '': '' @ v @ CRLF @ rest) =
    andthen (ParsedHeader_set pr k v) (\<lambda>(_, pr). Inr (0, pr))"
proof -
  have "plain '':'' k" "plain [] v" using assms by (simp_all add: header_wf_def)
  then have "NUL \<notin> set k" "CHR '':'' \<notin> set k" using plainD [of "'':''" k] by auto
  then have "index_chr (k @ '': '' @ v @ CRLF @ rest) CHR '':'' = Some ('': '' @ v @ CRLF @ rest)"
    using index_first [of k "CHR '':''"] by simp
  moreover have "strstr (v @ CRLF @ rest) CRLF = Some (CRLF @ rest)"
    using \<open>plain [] v\<close> by (rule strstr_first)
  moreover have "v @ CRLF @ rest \<noteq> []" by (simp add: CRLF_def)
  ultimately show ?thesis by (simp add: ParsedHeader_parse_def Let_def)
qed

lemma parse_headers_lines:
  "headers_ok pr \<Longrightarrow> list_all header_wf kvs \<Longrightarrow>
    parse_headers pr (header_text kvs @ rest) = andthen (set_all ParsedHeader_set pr kvs) (\<lambda>pr. Inr (0, pr))"
proof (induction kvs arbitrary: pr)
  case Nil
  then show ?case by (simp add: parse_headers.simps header_text_def)
next
  case (Cons kv kvs)
  obtain k v where kv: "kv = (k, v)" by fastforce
  have wf: "header_wf (k, v)" "plain '':'' k" "plain [] v" using Cons.prems(2) kv by (simp_all add: header_wf_def)
  let ?rest = "header_text kvs @ rest"
  have t: "header_text (kv # kvs) @ rest = k @ '': '' @ v @ CRLF @ ?rest" by (simp add: kv header_text_def)
  obtain pr' where pr': "ParsedHeader_set pr k v = Inr (0, pr')" "headers_ok pr'"
    using ParsedHeader_set_live [OF Cons.prems(1)] by blast
  have nonempty: "cstr (k @ '': '' @ v @ CRLF @ ?rest) \<noteq> []" "\<not> starts_with CRLF (k @ '': '' @ v @ CRLF @ ?rest)"
    using plainD [OF wf(2)] by (cases k; auto simp: cstr_def CRLF_def NUL_def)+
  have "plain [] (k @ '': '' @ v)" using wf(2,3) by (auto simp: plain_def list_all_iff NUL_def)
  then have "strstr (k @ '': '' @ v @ CRLF @ ?rest) CRLF = Some (CRLF @ ?rest)"
    using strstr_first [of "k @ '': '' @ v" ?rest] by simp
  moreover have "\<not> length (cstr (CRLF @ ?rest)) < 2" by (simp add: cstr_def CRLF_def NUL_def)
  moreover have "drop 2 (CRLF @ ?rest) = ?rest" by (simp add: CRLF_def)
  ultimately have "parse_headers pr (k @ '': '' @ v @ CRLF @ ?rest) = parse_headers pr' ?rest"
    using nonempty ParsedHeader_parse_line [OF wf(1), of pr ?rest] pr'(1)
    by (subst parse_headers.simps) simp
  with Cons.IH [OF pr'(2)] Cons.prems(2) show ?case unfolding t using pr'(1) by (simp add: kv)
qed

section \<open>Parsing the request line\<close>

lemma strtok_delim:
  assumes "set ds \<subseteq> set delim" and "plain delim tok" and "tok \<noteq> []" and "d \<in> set delim" and "NUL \<notin> set delim"
    and "m = pre @ ds @ tok @ d # rest" and "p = length pre"
  shows "strtok_r m p delim =
    (Some (p + length ds), pre @ ds @ tok @ NUL # rest, p + length ds + length tok + 1)"
  using assms strtok_parts [OF assms(1), of "hd tok" "tl tok" d m pre rest] by (cases tok) auto

lemma strtok_end:
  assumes "set ds \<subseteq> set delim" and "plain delim tok" and "tok \<noteq> []" and "NUL \<notin> set delim"
    and "m = pre @ ds @ tok @ NUL # rest" and "p = length pre"
  shows "strtok_r m p delim = (Some (p + length ds), m, p + length ds + length tok)"
  using assms strtok_parts [OF assms(1), of "hd tok" "tl tok" NUL m pre rest] by (cases tok) auto

lemma strtok_stop:
  "NUL \<notin> set delim \<Longrightarrow> m = pre @ NUL # rest \<Longrightarrow> p = length pre \<Longrightarrow> strtok_r m p delim = (None, m, p)"
  by (simp add: strtok_none)

lemma not_NUL [simp]:
  "NUL \<noteq> CHR '' ''" "NUL \<noteq> CHR '':''" "NUL \<noteq> CHR ''/''" "CHR '' '' \<noteq> NUL" "CHR '':'' \<noteq> NUL" "CHR ''/'' \<noteq> NUL"
  by (simp_all add: NUL_def)

lemma parse_host_port_ok:
  assumes "host \<noteq> []" and "plain '':/'' host" and "\<not> einval"
    and "case port of None \<Rightarrow> True | Some p \<Rightarrow> p \<noteq> [] \<and> plain ''/'' p"
  shows "parse_host_port einval pr (A @ host @ (case port of None \<Rightarrow> [] | Some p \<Rightarrow> CHR '':'' # p) @ NUL # R) (length A) =
    Inr (0, pr\<lparr>req_host := Some (In_buf (length A)),
      req_port := (case port of None \<Rightarrow> None | Some _ \<Rightarrow> Some (In_buf (length A + length host + 1))),
      req_buf := Some (A @ host @ (case port of None \<Rightarrow> [] | Some p \<Rightarrow> NUL # p) @ NUL # R)\<rparr>)"
proof (cases port)
  case None
  have "strtok_r (A @ host @ NUL # R) (length A) '':'' = (Some (length A), A @ host @ NUL # R, length A + length host)"
    using assms(1,2) strtok_end [of "[]" "'':''" host "A @ host @ NUL # R" A R "length A"] by (simp add: plain_mono)
  moreover have "strtok_r (A @ host @ NUL # R) (length A + length host) ''/'' =
      (None, A @ host @ NUL # R, length A + length host)"
    by (rule strtok_stop [of _ _ "A @ host" R]) simp_all
  ultimately show ?thesis using None by (simp add: parse_host_port_def)
next
  case (Some p)
  have p: "p \<noteq> []" "plain ''/'' p" using assms(4) Some by simp_all
  let ?m = "A @ host @ NUL # p @ NUL # R"
  have "strtok_r (A @ host @ CHR '':'' # p @ NUL # R) (length A) '':'' = (Some (length A), ?m, length A + length host + 1)"
    using assms(1,2) strtok_delim [of "[]" "'':''" host "CHR '':''" "A @ host @ CHR '':'' # p @ NUL # R" A "p @ NUL # R" "length A"]
    by (simp add: plain_mono)
  moreover have "strtok_r ?m (length A + length host + 1) ''/'' =
      (Some (length A + length host + 1), ?m, length A + length host + 1 + length p)"
    using p strtok_end [of "[]" "''/''" p ?m "A @ host @ [NUL]" R "length A + length host + 1"] by simp
  ultimately show ?thesis using Some assms(3) by (simp add: parse_host_port_def)
qed

definition parts_wf :: "request_parts \<Rightarrow> bool" where
  "parts_wf r \<longleftrightarrow> p_method r \<noteq> [] \<and> plain '' '' (p_method r) \<and> p_protocol r \<noteq> [] \<and> plain '' :/'' (p_protocol r) \<and>
     p_host r \<noteq> [] \<and> plain '' :/'' (p_host r) \<and>
     (case p_port r of None \<Rightarrow> True | Some p \<Rightarrow> p \<noteq> [] \<and> plain '' /'' p) \<and>
     starts_with ''/'' (p_path r) \<and> \<not> starts_with ''//'' (p_path r) \<and> plain '' '' (p_path r) \<and>
     starts_with ''HTTP/'' (p_version r) \<and> plain [] (p_version r)"

text \<open>The line up to the address: three tokens.\<close>

lemma parse_request_line_tokens:
  assumes "meth \<noteq> []" and "plain '' '' meth" and "addr \<noteq> []" and "plain '' '' addr"
    and "starts_with ''HTTP/'' version" and "plain [] version"
  shows "parse_request_line einval pr (meth @ CHR '' '' # addr @ CHR '' '' # version @ [NUL]) =
    parse_address einval (pr\<lparr>req_method := Some (In_buf 0), req_version := Some (In_buf (length meth + length addr + 2))\<rparr>)
      (meth @ NUL # addr @ NUL # version @ [NUL]) (length meth + 1)"
proof -
  let ?m = "meth @ CHR '' '' # addr @ CHR '' '' # version @ [NUL]"
    and ?m1 = "meth @ NUL # addr @ CHR '' '' # version @ [NUL]" and ?m2 = "meth @ NUL # addr @ NUL # version @ [NUL]"
  have t1: "strtok_r ?m 0 '' '' = (Some 0, ?m1, length meth + 1)"
    using assms(1,2) strtok_delim [of "[]" "'' ''" meth "CHR '' ''" ?m "[]" _ 0] by simp
  have t2: "strtok_r ?m1 (length meth + 1) '' '' = (Some (length meth + 1), ?m2, length meth + length addr + 2)"
    using assms(3,4) strtok_delim [of "[]" "'' ''" addr "CHR '' ''" ?m1 "meth @ [NUL]" "version @ [NUL]" "length meth + 1"]
    by simp
  have full: "str_at ?m2 (length meth + 1) = addr"
    using str_at_token [OF assms(4), of "meth @ [NUL]" "version @ [NUL]"] by simp
  have "str_at ?m2 (length meth + length addr + 2) = version"
    using str_at_token [OF assms(6), of "meth @ NUL # addr @ [NUL]" "[]"] by simp
  then show ?thesis
    using t1 t2 full assms(5) by (simp add: parse_request_line_def)
qed

text \<open>The address between \<open>A\<close> and \<open>Z\<close>.\<close>

lemma parse_address_ok:
  fixes A Z :: string
  assumes "protocol \<noteq> []" and "plain '':/'' protocol" and "host \<noteq> []" and "plain '':/'' host"
    and "case port of None \<Rightarrow> True | Some p \<Rightarrow> p \<noteq> [] \<and> plain ''/'' p"
    and "plain '' '' path" and "\<not> starts_with ''/'' path" and "\<not> einval"
  defines "P \<equiv> (case port of None \<Rightarrow> [] | Some p \<Rightarrow> CHR '':'' # p)"
    and "Q \<equiv> (case port of None \<Rightarrow> [] | Some p \<Rightarrow> NUL # p)"
  shows "parse_address einval pr (A @ protocol @ ''://'' @ host @ P @ CHR ''/'' # path @ NUL # Z) (length A) =
    Inr (0, pr\<lparr>req_protocol := Some (In_buf (length A)), req_path := Some (Heap (CHR ''/'' # path)),
      req_host := Some (In_buf (length A + length protocol + 3)),
      req_port := (case port of None \<Rightarrow> None | Some _ \<Rightarrow> Some (In_buf (length A + length protocol + length host + 4))),
      req_buf := Some (A @ protocol @ NUL # ''//'' @ host @ Q @ NUL # path @ NUL # Z)\<rparr>)"
proof -
  let ?a = "length A" and ?h = "length A + length protocol + 3"
  let ?m = "A @ protocol @ ''://'' @ host @ P @ CHR ''/'' # path @ NUL # Z"
    and ?m1 = "A @ protocol @ NUL # ''//'' @ host @ P @ CHR ''/'' # path @ NUL # Z"
    and ?m2 = "A @ protocol @ NUL # ''//'' @ host @ P @ NUL # path @ NUL # Z"
  have P: "plain ''/'' P" using assms(5) by (simp add: P_def split: option.splits)
  have t1: "strtok_r ?m ?a ''://'' = (Some ?a, ?m1, ?a + length protocol + 1)"
    using assms(1,2) strtok_delim [of "[]" "''://''" protocol "CHR '':''" ?m A "''//'' @ host @ P @ CHR ''/'' # path @ NUL # Z" ?a]
    by (simp add: plain_mono)
  have proto: "str_at ?m1 ?a = protocol"
    using str_at_token [OF assms(2), of A "''//'' @ host @ P @ CHR ''/'' # path @ NUL # Z"] by simp
  have uri: "str_at ?m1 ?h = host @ P @ CHR ''/'' # path"
  proof -
    have "plain [] (host @ P @ CHR ''/'' # path)"
      using assms(4,6) P by (simp add: plain_mono [where es = "[]"])
    then show ?thesis
      using str_at_token [of "[]" "host @ P @ CHR ''/'' # path" "A @ protocol @ NUL # ''//''" Z] by (simp add: eval_nat_numeral)
  qed
  have hp: "plain ''/'' (host @ P)" using assms(4) P by (simp add: plain_mono)
  have t2: "strtok_r ?m1 (?a + length protocol + 1) ''/'' = (Some ?h, ?m2, ?h + length (host @ P) + 1)"
    using assms(3) hp strtok_delim [of "''//''" "''/''" "host @ P" "CHR ''/''" ?m1 "A @ protocol @ [NUL]" "path @ NUL # Z"
        "?a + length protocol + 1"]
    by simp
  have host: "str_at ?m2 ?h = host @ P"
    using str_at_token [OF hp, of "A @ protocol @ NUL # ''//''" "path @ NUL # Z"] by (simp add: eval_nat_numeral)
  have fin: "parse_host_port einval pr' ?m2 ?h = Inr (0, pr'\<lparr>req_host := Some (In_buf ?h),
      req_port := (case port of None \<Rightarrow> None | Some _ \<Rightarrow> Some (In_buf (length A + length protocol + length host + 4))),
      req_buf := Some (A @ protocol @ NUL # ''//'' @ host @ Q @ NUL # path @ NUL # Z)\<rparr>)" for pr'
    using parse_host_port_ok [OF assms(3,4,8,5), of pr' "A @ protocol @ NUL # ''//''" "path @ NUL # Z"]
    by (cases port) (simp_all add: P_def Q_def eval_nat_numeral)
  let ?s = "?h + length (host @ P) + 1"
  have m2: "?m2 = (A @ protocol @ NUL # ''//'' @ host @ P @ [NUL]) @ path @ NUL # Z"
    "?s = length (A @ protocol @ NUL # ''//'' @ host @ P @ [NUL])" by simp_all
  have len: "length (host @ P) \<noteq> length (host @ P @ CHR ''/'' # path)" "?h < length ?m1" using assms(3) by simp_all
  show ?thesis
  proof (cases "path = []")
    case True
    then have t3: "strtok_r ?m2 ?s '' '' = (None, ?m2, ?s)"
      unfolding m2 by (intro strtok_stop [of _ _ "A @ protocol @ NUL # ''//'' @ host @ P @ [NUL]" Z]) simp_all
    show ?thesis
      unfolding parse_address_def t1 prod.case option.case Let_def proto uri t2 host t3 fin
      using len True by (simp add: root_abs_path_def)
  next
    case False
    then have t3: "strtok_r ?m2 ?s '' '' = (Some ?s, ?m2, ?s + length path)"
      using assms(6) strtok_end [of "[]" "'' ''" path ?m2 "A @ protocol @ NUL # ''//'' @ host @ P @ [NUL]" Z ?s] m2(2) by simp
    have rest: "str_at ?m2 ?s = path"
      unfolding m2 by (rule str_at_token [OF assms(6)])
    show ?thesis
      unfolding parse_address_def t1 prod.case option.case Let_def proto uri t2 host t3 rest fin
      using len assms(7) by (simp add: root_abs_path_def)
  qed
qed

lemma parse_request_line_ok:
  assumes "parts_wf r" and "\<not> einval"
  shows "\<exists>pr'. parse_request_line einval pr (request_line r @ [NUL]) = Inr (0, pr') \<and> has_parts pr' r \<and>
    req_path pr' = Some (Heap (p_path r)) \<and> headers pr' = headers pr \<and> headerslen pr' = headerslen pr"
proof -
  let ?meth = "p_method r" and ?protocol = "p_protocol r" and ?host = "p_host r" and ?version = "p_version r"
  define P where "P = (case p_port r of None \<Rightarrow> [] | Some p \<Rightarrow> CHR '':'' # p)"
  define Q where "Q = (case p_port r of None \<Rightarrow> [] | Some p \<Rightarrow> NUL # p)"
  obtain path where path: "p_path r = CHR ''/'' # path" "plain '' '' path" "\<not> starts_with ''/'' path"
    using assms(1) by (cases "p_path r") (auto simp: parts_wf_def)
  have wf: "?meth \<noteq> []" "plain '' '' ?meth" "?protocol \<noteq> []" "plain '' :/'' ?protocol" "?host \<noteq> []"
    "plain '' :/'' ?host" "starts_with ''HTTP/'' ?version" "plain [] ?version"
    using assms(1) by (simp_all add: parts_wf_def)
  have port: "case p_port r of None \<Rightarrow> True | Some p \<Rightarrow> p \<noteq> [] \<and> plain ''/'' p"
    using assms(1) by (auto simp: parts_wf_def plain_mono split: option.splits)
  have P: "plain '' '' P" using assms(1) by (auto simp: parts_wf_def P_def plain_mono split: option.splits)
  define addr where "addr = ?protocol @ ''://'' @ ?host @ P @ CHR ''/'' # path"
  have line: "request_line r @ [NUL] = ?meth @ CHR '' '' # addr @ CHR '' '' # ?version @ [NUL]"
    by (simp add: request_line_def path(1) P_def addr_def split: option.splits)
  have addr: "addr \<noteq> []" "plain '' '' addr"
    using wf(4,6) P path(2) by (simp_all add: addr_def plain_mono NUL_def)
  let ?A = "?meth @ [NUL]" and ?Z = "?version @ [NUL]"
  let ?n = "length ?meth + length addr + 2"
  let ?m = "?A @ ?protocol @ NUL # ''//'' @ ?host @ Q @ NUL # path @ NUL # ?Z"
  let ?pr = "pr\<lparr>req_method := Some (In_buf 0), req_version := Some (In_buf ?n),
    req_protocol := Some (In_buf (length ?A)), req_path := Some (Heap (CHR ''/'' # path)),
    req_host := Some (In_buf (length ?A + length ?protocol + 3)),
    req_port := (case p_port r of None \<Rightarrow> None | Some _ \<Rightarrow> Some (In_buf (length ?A + length ?protocol + length ?host + 4))),
    req_buf := Some ?m\<rparr>"
  have "parse_address einval pr' (?A @ addr @ NUL # ?Z) (length ?A) = Inr (0, pr'\<lparr>req_protocol := Some (In_buf (length ?A)),
      req_path := Some (Heap (CHR ''/'' # path)), req_host := Some (In_buf (length ?A + length ?protocol + 3)),
      req_port := (case p_port r of None \<Rightarrow> None | Some _ \<Rightarrow> Some (In_buf (length ?A + length ?protocol + length ?host + 4))),
      req_buf := Some ?m\<rparr>)" for pr'
    using parse_address_ok [OF wf(3) _ wf(5) _ port path(2,3) assms(2), of pr' ?A ?Z] wf(4,6)
    unfolding P_def [symmetric] Q_def [symmetric] addr_def by (simp add: plain_mono)
  then have parse: "parse_request_line einval pr (request_line r @ [NUL]) = Inr (0, ?pr)"
    unfolding line using parse_request_line_tokens [OF wf(1,2) addr wf(7,8), of einval pr] by simp
  have "length Q = length P" by (simp add: P_def Q_def split: option.splits)
  then have len: "?n = length (?A @ ?protocol @ NUL # ''//'' @ ?host @ Q @ NUL # path @ [NUL])"
    by (simp add: addr_def)
  have "str_at ?m 0 = ?meth" "str_at ?m (length ?A) = ?protocol" "str_at ?m ?n = ?version"
    using str_at_token [OF wf(2), of "[]"] str_at_token [OF wf(4), of ?A]
      str_at_token [OF wf(8), of "?A @ ?protocol @ NUL # ''//'' @ ?host @ Q @ NUL # path @ [NUL]" "[]"]
    unfolding len by simp_all
  moreover have "str_at ?m (length ?A + length ?protocol + 3) = ?host"
    using str_at_token [OF wf(6), of "?A @ ?protocol @ NUL # ''//''"]
    by (cases "p_port r") (simp_all add: Q_def eval_nat_numeral)
  moreover have "str_at ?m (length ?A + length ?protocol + length ?host + 4) = p" if "p_port r = Some p" for p
    using str_at_token [of "''/''" p "?A @ ?protocol @ NUL # ''//'' @ ?host @ [NUL]"] port that
    by (simp add: Q_def eval_nat_numeral add.assoc)
  moreover have "?n < length ?m" unfolding len by simp
  ultimately have "has_parts ?pr r"
    using path(1) by (cases "p_port r") (simp_all add: has_parts_def field_def Q_def)
  with parse show ?thesis by (intro exI [of _ ?pr]) (simp add: path(1))
qed

lemma request_line_plain: "parts_wf r \<Longrightarrow> plain [] (request_line r)"
  by (auto simp: parts_wf_def request_line_def plain_mono [where es = "[]"] NUL_def split: option.splits)

lemma header_text_end: "list_all header_wf kvs \<Longrightarrow> \<exists>t. CRLF @ header_text kvs = t @ CRLF @ CRLF \<and> NUL \<notin> set t"
proof (induction kvs)
  case (Cons kv kvs)
  then obtain t where t: "CRLF @ header_text kvs = t @ CRLF @ CRLF" "NUL \<notin> set t" by auto
  let ?l = "fst kv @ '': '' @ snd kv"
  have "CRLF @ header_text (kv # kvs) = CRLF @ ?l @ CRLF @ header_text kvs"
    by (simp add: header_text_def split_beta)
  also have "\<dots> = (CRLF @ ?l @ t) @ CRLF @ CRLF" using t(1) by simp
  finally have "CRLF @ header_text (kv # kvs) = (CRLF @ ?l @ t) @ CRLF @ CRLF" .
  moreover have "NUL \<notin> set (CRLF @ ?l @ t)"
    using Cons.prems t(2) plainD [of "'':''" "fst kv"] plainD [of "[]" "snd kv"]
    by (auto simp: header_wf_def CRLF_def NUL_def)
  ultimately show ?case by blast
qed (auto simp: header_text_def intro!: exI [of _ "[]"])

section \<open>Properties\<close>

lemma parse_request_text:
  assumes "parts_wf r" and "list_all header_wf kvs" and "distinct (map fst kvs)" and "\<not> einval"
    and "length (request_text r kvs @ body) \<le> MAX_REQ_LEN"
  shows "\<exists>pr. ParsedRequest_parse einval (ParsedRequest_create u) (request_text r kvs @ body) = Inr (0, pr) \<and>
    has_parts pr r \<and> headers_ok pr \<and> hdr_entries pr = kvs \<and> req_path pr = Some (Heap (p_path r))"
proof -
  let ?line = "request_line r" and ?h = "header_text kvs @ body @ [NUL]"
  let ?b = "request_text r kvs @ body"
  have b: "?b @ [NUL] = ?line @ CRLF @ ?h" by (simp add: request_text_def)
  have line: "plain [] ?line" by (rule request_line_plain [OF assms(1)])
  have first: "strstr (?b @ [NUL]) CRLF = Some (CRLF @ ?h)" unfolding b using line by (rule strstr_first)
  have blank: "strstr (?b @ [NUL]) (CRLF @ CRLF) \<noteq> None"
  proof -
    obtain t where "?line @ CRLF @ header_text kvs = t @ CRLF @ CRLF" "NUL \<notin> set t"
      using header_text_end [OF assms(2)] plainD [OF line] by (metis Un_iff append_assoc set_append)
    then show ?thesis
      using strstr_found [of t "CRLF @ CRLF" "body @ [NUL]"] by (simp add: request_text_def CRLF_def)
  qed
  have "length ?line + 2 \<le> length ?b" "length ?b \<ge> 4"
    by (simp_all add: request_text_def header_text_def)
  then have range: "\<not> (length ?b < MIN_REQ_LEN \<or> length ?b > MAX_REQ_LEN)"
    using assms(5) by (simp add: MIN_REQ_LEN_def)
  let ?create = "ParsedRequest_create u"
  let ?pr = "?create\<lparr>req_buf := Some (?line @ [NUL]), req_buflen := length (?line @ [NUL])\<rparr>"
  obtain pr1 where pr1: "parse_request_line einval ?pr (?line @ [NUL]) = Inr (0, pr1)" "has_parts pr1 r"
    "headers pr1 = []" "headerslen pr1 = 8" "req_path pr1 = Some (Heap (p_path r))"
    using parse_request_line_ok [OF assms(1,4), of ?pr] by (auto simp: ParsedRequest_create_def ParsedHeader_create_def DEFAULT_NHDRS_def)
  then have ok: "headers_ok pr1" "hdr_entries pr1 = []"
    by (simp_all add: headers_ok_def live_ok_def headersused_def hdr_entries_def)
  obtain pr2 where pr2: "set_all ParsedHeader_set pr1 kvs = Inr pr2" "headers_ok pr2" "same_line pr1 pr2" "hdr_entries pr2 = kvs"
    using hdrs.set_all_new [OF ok(1) assms(3)] ok(2) by auto
  have create: "req_buf ?create = None" by (simp add: ParsedRequest_create_def ParsedHeader_create_def)
  have take: "take (length (?b @ [NUL]) - length (CRLF @ ?h)) (?b @ [NUL]) = ?line" unfolding b by simp
  have "ParsedRequest_parse einval ?create ?b = Inr (0, pr2)"
    unfolding ParsedRequest_parse_def Let_def first take deref_simps drop_CRLF
    using range blank pr1(1) pr2(1) parse_headers_lines [OF ok(1) assms(2), of "body @ [NUL]"] create by simp
  moreover have "has_parts pr2 r" using pr1(2) pr2(3) by (rule has_parts_same_line)
  moreover have "req_path pr2 = Some (Heap (p_path r))" using pr1(5) pr2(3) by (auto simp: same_line_def)
  ultimately show ?thesis using pr2(2,4) by blast
qed

lemma destroy_live: "live_ok hs \<Longrightarrow> destroy_all hs = Inr ()"
proof (induction hs)
  case (Cons h hs)
  then have "live_ok hs" by (auto simp: live_ok_def split: option.splits)
  with Cons show ?case by (auto simp: ParsedHeader_destroyOne_def free_string_def live_ok_def split: option.splits)
qed simp

lemma destroy_ok: "headers_ok pr \<Longrightarrow> req_path pr = Some (Heap s) \<Longrightarrow> ParsedRequest_destroy pr = Inr ()"
  by (simp add: ParsedRequest_destroy_def ParsedHeader_destroy_def headers_ok_def destroy_live)

text \<open>
  C14: the round trip of a request. The text of a well-formed request with distinct header keys,
  followed by any body, is parsed without error; the announced total length is that of the
  text without the body, printing the parsed request into a buffer of that length gives exactly
  the text, and the request can be destroyed without freeing anything twice.
\<close>

theorem request_roundtrip:
  assumes "parts_wf r" and "list_all header_wf kvs" and "distinct (map fst kvs)" and "\<not> einval"
    and "length (request_text r kvs @ body) \<le> MAX_REQ_LEN" and "length out = length (request_text r kvs)"
  shows "\<exists>pr. ParsedRequest_parse einval (ParsedRequest_create u) (request_text r kvs @ body) = Inr (0, pr) \<and>
    ParsedRequest_totalLen pr = Inr (length (request_text r kvs)) \<and>
    ParsedRequest_unparse pr out = Inr (0, request_text r kvs) \<and> ParsedRequest_destroy pr = Inr ()"
proof -
  obtain pr where pr: "ParsedRequest_parse einval (ParsedRequest_create u) (request_text r kvs @ body) = Inr (0, pr)"
    "has_parts pr r" "headers_ok pr" "hdr_entries pr = kvs" "req_path pr = Some (Heap (p_path r))"
    using parse_request_text [OF assms(1-5)] by blast
  then show ?thesis
    using unparse_parts [OF pr(2,3), of out] totalLen_text [OF pr(2,3)] destroy_ok [OF pr(3,5)] assms(6) by auto
qed

definition demo_parts :: request_parts where
  "demo_parts = \<lparr>p_method = ''GET'', p_protocol = ''http'', p_host = ''www.google.com'', p_port = Some ''80'',
     p_path = ''/index.html/'', p_version = ''HTTP/1.0''\<rparr>"

lemma demo_parts_wf: "parts_wf demo_parts"
  by (simp add: parts_wf_def demo_parts_def NUL_def)

definition demo_kvs :: "(string \<times> string) list" where
  "demo_kvs = [(''Content-Length'', ''80''), (''If-Modified-Since'', ''Sat, 29 Oct 1994 19:43:31 GMT'')]"

lemma demo_kvs_wf: "list_all header_wf demo_kvs" "distinct (map fst demo_kvs)"
  by (simp_all add: demo_kvs_def header_wf_def NUL_def)

theorem request_roundtrip_witness:
  "\<exists>pr. ParsedRequest_parse False (ParsedRequest_create None) (request_text demo_parts demo_kvs @ ''body'') = Inr (0, pr) \<and>
     ParsedRequest_unparse pr (replicate (length (request_text demo_parts demo_kvs)) CHR ''x'') =
       Inr (0, request_text demo_parts demo_kvs)"
proof -
  have "length (request_text demo_parts demo_kvs @ ''body'') \<le> MAX_REQ_LEN"
    by (simp add: request_text_def request_line_def header_text_def demo_parts_def demo_kvs_def MAX_REQ_LEN_def)
  from request_roundtrip [OF demo_parts_wf demo_kvs_wf _ this, of False
      "replicate (length (request_text demo_parts demo_kvs)) CHR ''x''" None]
  show ?thesis by auto
qed

text \<open>
  C33: the header table is a map from keys to values: setting, removing and looking up a header are the
  operations of the map, and they keep the table well formed, with no access outside the array of
  headers however many are set.
\<close>

theorem headers_are_map:
  assumes "headers_ok pr"
  shows "(\<exists>pr'. ParsedHeader_set pr k v = Inr (0, pr') \<and> headers_ok pr' \<and>
      map_of (hdr_entries pr') = (map_of (hdr_entries pr))(k \<mapsto> v)) \<and>
    (\<exists>rc pr'. ParsedHeader_remove pr k = Inr (rc, pr') \<and> headers_ok pr' \<and>
      map_of (hdr_entries pr') = (map_of (hdr_entries pr))(k := None)) \<and>
    (case ParsedHeader_get pr k of
       None \<Rightarrow> map_of (hdr_entries pr) k = None
     | Some i \<Rightarrow> i < headersused pr \<and> hdr_value (headers pr ! i) = map_of (hdr_entries pr) k)"
proof (intro conjI)
  show "case ParsedHeader_get pr k of
       None \<Rightarrow> map_of (hdr_entries pr) k = None
     | Some i \<Rightarrow> i < headersused pr \<and> hdr_value (headers pr ! i) = map_of (hdr_entries pr) k"
  proof (cases "ParsedHeader_get pr k")
    case None
    then have "map_of (hdr_entries pr) k = None"
      by (auto simp: ParsedHeader_get_def find_header_None hdr_entries_def map_of_eq_None_iff in_live)
    with None show ?thesis by simp
  next
    case (Some i)
    then obtain xs h ys where hs: "headers pr = xs @ h # ys" "i = length xs" "hdr_key h = Some k"
      using find_header_Some [of k "headers pr" 0 i] by (auto simp: ParsedHeader_get_def)
    then obtain v where v: "hdr_value h = Some v" using assms by (auto simp: headers_ok_def live_ok_def)
    have "(k, v) \<in> set (hdr_entries pr)" using hs v by (simp add: hdr_entries_def)
    then have "map_of (hdr_entries pr) k = Some v"
      using hdrs.ents_distinct [OF assms] by (simp add: map_of_is_SomeI)
    with Some hs v show ?thesis by (simp add: headersused_def)
  qed
qed (use hdrs.st_map [OF assms] hdrs.rm_map [OF assms] in blast)+

lemma create_ok: "headers_ok (ParsedRequest_create u)"
  by (simp add: headers_ok_def live_ok_def headersused_def ParsedRequest_create_def ParsedHeader_create_def DEFAULT_NHDRS_def)

theorem headers_are_map_witness:
  "\<exists>pr'. ParsedHeader_set (ParsedRequest_create None) ''Host'' ''a'' = Inr (0, pr') \<and>
     map_of (hdr_entries pr') ''Host'' = Some ''a''"
  using headers_are_map [OF create_ok, of None "''Host''" "''a''"] by auto

text \<open>
  Printing stays in the buffer. The announced length of a request is the number of characters
  printed: a buffer of at least that length receives the request line, the headers that have
  not been removed in the order they were set and an empty line, and keeps the rest of its
  contents; a shorter one is refused.
\<close>

theorem unparse_exact:
  assumes "has_parts pr r" and "headers_ok pr"
  shows "ParsedRequest_totalLen pr = Inr (length (request_text r (hdr_entries pr))) \<and>
    (\<exists>out'. ParsedRequest_unparse pr out =
      (if length out < length (request_text r (hdr_entries pr)) then Inr (- 1, out')
       else Inr (0, request_text r (hdr_entries pr) @ drop (length (request_text r (hdr_entries pr))) out)))"
  using unparse_parts [OF assms] totalLen_text [OF assms] by blast

theorem unparse_exact_witness:
  "\<exists>pr out'. has_parts pr demo_parts \<and> ParsedRequest_unparse pr ''too short'' = Inr (- 1, out')"
proof -
  have "length (request_text demo_parts demo_kvs @ []) \<le> MAX_REQ_LEN"
    by (simp add: request_text_def request_line_def header_text_def demo_parts_def demo_kvs_def MAX_REQ_LEN_def)
  then obtain pr where pr: "has_parts pr demo_parts" "headers_ok pr"
    using parse_request_text [OF demo_parts_wf demo_kvs_wf, of False "[]"] by auto
  have "length ''too short'' < length (request_text demo_parts (hdr_entries pr))"
    by (simp add: request_text_def request_line_def demo_parts_def)
  with pr unparse_exact [OF pr, of "''too short''"] show ?thesis by auto
qed

text \<open>
  A request line without a version is read past its end. With the method and the address only,
  the pointer to the version is one past the copy of the request line, which is read there.
\<close>

theorem missing_version_overread:
  assumes "meth \<noteq> []" and "plain '' '' meth" and "addr \<noteq> []" and "plain '' '' addr"
    and "length (meth @ '' '' @ addr @ CRLF @ CRLF @ body) \<le> MAX_REQ_LEN"
  shows "ParsedRequest_parse einval (ParsedRequest_create u) (meth @ '' '' @ addr @ CRLF @ CRLF @ body) = Inl Out_of_bounds"
proof -
  let ?line = "meth @ '' '' @ addr" and ?h = "CRLF @ body @ [NUL]"
  let ?b = "meth @ '' '' @ addr @ CRLF @ CRLF @ body"
  have b: "?b @ [NUL] = ?line @ CRLF @ ?h" by simp
  have line: "plain [] ?line" using assms(2,4) by (simp add: plain_mono [where es = "[]"])
  have first: "strstr (?b @ [NUL]) CRLF = Some (CRLF @ ?h)" unfolding b using line by (rule strstr_first)
  have "NUL \<notin> set ?line" using plainD [OF line] by blast
  then have blank: "strstr (?b @ [NUL]) (CRLF @ CRLF) \<noteq> None"
    using strstr_found [of ?line "CRLF @ CRLF" "body @ [NUL]"] by (simp add: CRLF_def)
  have "length ?b \<ge> 4" by simp
  then have range: "\<not> (length ?b < MIN_REQ_LEN \<or> length ?b > MAX_REQ_LEN)"
    using assms(5) by (simp add: MIN_REQ_LEN_def)
  let ?m = "meth @ NUL # addr @ [NUL]"
  have t1: "strtok_r (?line @ [NUL]) 0 '' '' = (Some 0, ?m, length meth + 1)"
    using assms(1,2) strtok_delim [of "[]" "'' ''" meth "CHR '' ''" "?line @ [NUL]" "[]" _ 0] by simp
  have t2: "strtok_r ?m (length meth + 1) '' '' = (Some (length meth + 1), ?m, length meth + 1 + length addr)"
    using assms(3,4) strtok_end [of "[]" "'' ''" addr ?m "meth @ [NUL]" "[]" "length meth + 1"] by simp
  have "str_at ?m (length meth + 1) = addr"
    using str_at_token [OF assms(4), of "meth @ [NUL]" "[]"] by simp
  then have "parse_request_line einval pr (?line @ [NUL]) = Inl Out_of_bounds" for pr
    using t1 t2 by (simp add: parse_request_line_def)
  moreover have "take (length (?b @ [NUL]) - length (CRLF @ ?h)) (?b @ [NUL]) = ?line" unfolding b by simp
  moreover have "req_buf (ParsedRequest_create u) = None" by (simp add: ParsedRequest_create_def ParsedHeader_create_def)
  ultimately show ?thesis
    using range blank first unfolding ParsedRequest_parse_def Let_def by simp
qed

theorem missing_version_overread_witness:
  "ParsedRequest_parse False (ParsedRequest_create None) (''GET'' @ '' '' @ ''http://a/'' @ CRLF @ CRLF @ []) =
     Inl Out_of_bounds"
  by (rule missing_version_overread) (simp_all add: NUL_def MAX_REQ_LEN_def)

end
