(* ===== verification/Proxy.thy ===== *)
theory Proxy
  imports Proxy_Parse_Correct
begin

text \<open>
  The proxy's handling of one client (\<^verbatim>\<open>handle_client\<close> of \<^verbatim>\<open>proxy.c\<close>): reading the request, the error
  replies, the rewritten request sent to the server and the relaying of the response.

  The network is what the coming calls of \<^verbatim>\<open>recv\<close> and \<^verbatim>\<open>send\<close> return, at the server for every host and port: \<open>Got []\<close> is the
  end of the stream, and a \<^verbatim>\<open>recv\<close> that finds nothing, like a loop that never ends, has the value \<open>None\<close>. Parameters stand for what
  the code leaves to chance: the contents of the uninitialised stack buffer, the uninitialised
  \<^verbatim>\<open>port\<close>, \<^verbatim>\<open>errno\<close>, and \<open>slack\<close>, the bytes up to the next NUL behind the allocated request, which
  \<^verbatim>\<open>strlen\<close> counts because the request is not terminated. The truncation of the buffer at the path
  and the host only affects what is printed, as does the second request string, and is left out.
\<close>

section \<open>The code\<close>

datatype recv_event = Got string | Recv_failed

datatype send_result = Sent nat | Send_error

text \<open>A server: no address, no socket, no connection, or the results of sending the request, of receiving the response and of passing it on.\<close>

datatype remote = Unresolved | No_socket | Refused | Connected send_result "recv_event list" "send_result list"

record proxy_result =
  to_client :: string
  to_remote :: "string option"

definition RECV_BUFFER_SIZE :: nat where "RECV_BUFFER_SIZE = 2048"

text \<open>The loop that reads the request: whether it succeeded, the buffer, the number of characters read.\<close>

definition store :: "string \<Rightarrow> nat \<Rightarrow> string \<Rightarrow> string" where
  "store buffer off s = take off buffer @ s @ drop (off + length s) buffer"

definition header_end :: "string \<Rightarrow> bool" where
  "header_end buffer \<longleftrightarrow> strstr buffer (CRLF @ CRLF) \<noteq> None"

fun read_request :: "recv_event list \<Rightarrow> string \<Rightarrow> nat \<Rightarrow> fault + (bool \<times> string \<times> nat) option" where
  "read_request [] buffer totalRead = Inr None"
| "read_request (e # es) buffer totalRead =
     (case e of
        Recv_failed \<Rightarrow> Inr (Some (False, buffer, totalRead))
      | Got s \<Rightarrow>
          (case (store buffer totalRead (take (length buffer - totalRead) s),
                 totalRead + length (take (length buffer - totalRead) s)) of
             (buffer, totalRead) \<Rightarrow>
               if header_end buffer then Inr (Some (True, buffer, totalRead))
               else if NUL \<notin> set buffer then Inl Out_of_bounds
               else if totalRead = length buffer then Inr None
               else read_request es buffer totalRead))"

definition reply :: "string \<Rightarrow> ParsedRequest \<Rightarrow> fault + proxy_result option" where
  "reply response pr =
     andthen (ParsedRequest_destroy pr) (\<lambda>_. Inr (Some \<lparr>to_client = response, to_remote = None\<rparr>))"

text \<open>The response is passed on in pieces of at most the size of the buffer.\<close>

function relay :: "recv_event list \<Rightarrow> send_result list \<Rightarrow> string option" where
  "relay [] oks = None"
| "relay (Recv_failed # es) oks = Some []"
| "relay (Got s # es) oks =
     (if s = [] then Some []
      else
        let piece = take RECV_BUFFER_SIZE s;
            es = (if length s > RECV_BUFFER_SIZE then Got (drop RECV_BUFFER_SIZE s) # es else es)
        in case oks of
             [] \<Rightarrow> map_option (\<lambda>r. piece @ r) (relay es [])
           | Send_error # _ \<Rightarrow> Some []
           | Sent n # oks \<Rightarrow> map_option (\<lambda>r. take n piece @ r) (relay es oks))"
  by pat_completeness auto
termination
  by (relation "measure (\<lambda>(es, oks). \<Sum>e \<leftarrow> es. case e of Got s \<Rightarrow> length s + 1 | Recv_failed \<Rightarrow> 1)")
    (auto simp: RECV_BUFFER_SIZE_def)

declare relay.simps(3) [simp del]

text \<open>The server: connecting, sending the request, relaying the response.\<close>

definition contact :: "remote \<Rightarrow> string \<Rightarrow> ParsedRequest \<Rightarrow> fault + proxy_result option" where
  "contact remote sent pr =
     (case remote of
        Connected (Sent n) es oks \<Rightarrow>
          (case relay es oks of
             None \<Rightarrow> Inr None
           | Some response \<Rightarrow>
               andthen (ParsedRequest_destroy pr) (\<lambda>_.
                 Inr (Some \<lparr>to_client = response, to_remote = Some (take n sent)\<rparr>)))
      | _ \<Rightarrow> Inr (Some \<lparr>to_client = [], to_remote = None\<rparr>))"

definition rewrite_request :: "ParsedRequest \<Rightarrow> fault + ParsedRequest" where
  "rewrite_request pr =
     andthen (field pr (req_host pr)) (\<lambda>host.
     andthen (field pr (req_version pr)) (\<lambda>version.
       let pr = (if version = ''HTTP/1.1'' then pr\<lparr>req_version := Some (Heap ''HTTP/1.0'')\<rparr> else pr)
       in andthen (ParsedHeader_set pr ''Connection'' ''close'') (\<lambda>(_, pr).
            andthen (ParsedHeader_set pr ''Host'' host) (\<lambda>(_, pr). Inr pr))))"

text \<open>The port of the server: that of the URL, or else 80.\<close>

definition server_port :: "ParsedRequest \<Rightarrow> fault + string" where
  "server_port pr = (if req_port pr = None then Inr ''80'' else field pr (req_port pr))"

definition handle_client ::
  "string \<Rightarrow> str_ptr option \<Rightarrow> bool \<Rightarrow> string \<Rightarrow> (string \<Rightarrow> string \<Rightarrow> remote) \<Rightarrow> recv_event list \<Rightarrow> fault + proxy_result option" where
  "handle_client uninit_buf uninit_port einval slack remote client =
     (case read_request client uninit_buf 0 of
        Inl e \<Rightarrow> Inl e
      | Inr None \<Rightarrow> Inr None
      | Inr (Some (False, _, _)) \<Rightarrow> Inr (Some \<lparr>to_client = [], to_remote = None\<rparr>)
      | Inr (Some (True, buffer, totalRead)) \<Rightarrow>
          need (totalRead < length buffer) Out_of_bounds
            (andthen (ParsedRequest_parse einval (ParsedRequest_create uninit_port) (take totalRead buffer)) (\<lambda>(rc, pr).
               if rc < 0 then reply (''HTTP/1.0 400 Bad Request'' @ CRLF @ CRLF) pr
               else
                 andthen (field pr (req_host pr)) (\<lambda>host.
                 andthen (server_port pr) (\<lambda>port.
                 andthen (field pr (req_method pr)) (\<lambda>method.
                   if method \<noteq> ''GET'' then reply (''HTTP/1.0 501 Not Implemented'' @ CRLF @ CRLF) pr
                   else
                     andthen (rewrite_request pr) (\<lambda>pr.
                     andthen (ParsedRequest_totalLen pr) (\<lambda>total_len.
                     andthen (ParsedRequest_unparse pr (replicate total_len NUL)) (\<lambda>(rc, new_request).
                       if rc < 0 then reply (''HTTP/1.0 500 Internal Server Error'' @ CRLF @ CRLF) pr
                       else contact (remote host port) (if NUL \<in> set new_request then cstr new_request else new_request @ slack) pr)))))))))"

section \<open>Reading the request\<close>

text \<open>The empty line is at the end of the text of a request and nowhere else.\<close>

lemma plain_before_CRLF:
  assumes "plain [] l" and "l @ y = a @ CRLF @ z"
  shows "\<exists>b. a = l @ b"
proof -
  obtain us where us: "l = a @ us \<and> us @ y = CRLF @ z \<or> l @ us = a \<and> y = us @ CRLF @ z"
    using assms(2) unfolding append_eq_append_conv2 by blast
  have "us = []" if "l = a @ us" "us @ y = CRLF @ z"
    using that plainD [OF assms(1), of "CHR 0x0D"] by (cases us) (auto simp: CRLF_def)
  with us show ?thesis by auto
qed

lemma header_text_blank:
  "list_all header_wf kvs \<Longrightarrow> CRLF @ header_text kvs = a @ CRLF @ CRLF @ c \<Longrightarrow> c = []"
proof (induction kvs arbitrary: a)
  case Nil
  then have "length (CRLF @ CRLF) = length (a @ CRLF @ CRLF @ c)" by (simp add: header_text_def)
  then show ?case by simp
next
  case (Cons kv kvs)
  define l where "l = fst kv @ '': '' @ snd kv"
  have l: "plain [] l" "l \<noteq> []"
    using Cons.prems(1) by (auto simp: l_def header_wf_def plain_mono [where es = "[]"] NUL_def)
  have t: "CRLF @ l @ CRLF @ header_text kvs = a @ CRLF @ CRLF @ c"
    using Cons.prems(2) by (simp add: header_text_def l_def split_beta)
  obtain b where b: "a = CRLF @ b"
  proof (cases a)
    case Nil
    with t l have False by (cases l) (auto simp: CRLF_def)
    then show ?thesis ..
  next
    case (Cons x a')
    then show ?thesis using t that by (cases a') (auto simp: CRLF_def)
  qed
  with t have eq: "l @ CRLF @ header_text kvs = b @ CRLF @ CRLF @ c" by simp
  then obtain d where "b = l @ d" using plain_before_CRLF [OF l(1)] by blast
  with eq have "CRLF @ header_text kvs = d @ CRLF @ CRLF @ c" by simp
  with Cons.IH Cons.prems(1) show ?case by simp
qed

lemma request_text_blank:
  assumes "parts_wf r" and "list_all header_wf kvs" and "request_text r kvs = a @ CRLF @ CRLF @ c"
  shows "c = []"
proof -
  have eq: "request_line r @ CRLF @ header_text kvs = a @ CRLF @ CRLF @ c" using assms(3) by (simp add: request_text_def)
  then obtain b where "a = request_line r @ b"
    using plain_before_CRLF [OF request_line_plain [OF assms(1)]] by blast
  with eq have "CRLF @ header_text kvs = b @ CRLF @ CRLF @ c" by simp
  with assms(2) show ?thesis by (rule header_text_blank)
qed

lemma header_text_NUL: "list_all header_wf kvs \<Longrightarrow> NUL \<notin> set (header_text kvs)"
proof (induction kvs)
  case (Cons kv kvs)
  then show ?case
    using plainD [of "'':''" "fst kv"] plainD [of "[]" "snd kv"]
    by (auto simp: header_text_def header_wf_def split_beta CRLF_def NUL_def)
qed (simp add: header_text_def CRLF_def NUL_def)

lemma request_text_NUL: "parts_wf r \<Longrightarrow> list_all header_wf kvs \<Longrightarrow> NUL \<notin> set (request_text r kvs)"
  using plainD [OF request_line_plain, of r NUL] header_text_NUL [of kvs]
  by (auto simp: request_text_def CRLF_def NUL_def)

lemma starts_with_iff: "starts_with p s \<longleftrightarrow> (\<exists>t. s = p @ t)"
  by (induction p s rule: starts_with.induct) auto

lemma strstr_in: "strstr s pat = Some t \<Longrightarrow> \<exists>a c. s = a @ pat @ c \<and> NUL \<notin> set a"
proof (induction s)
  case (Cons x xs)
  show ?case
  proof (cases "starts_with pat (x # xs)")
    case True
    then obtain t where "x # xs = [] @ pat @ t" by (auto simp: starts_with_iff)
    then show ?thesis by (intro exI [of _ "[]"] exI [of _ t]) simp
  next
    case False
    with Cons obtain a c where "xs = a @ pat @ c" "NUL \<notin> set a" "x \<noteq> NUL" by (auto split: if_splits)
    then show ?thesis by (intro exI [of _ "x # a"] exI [of _ c]) auto
  qed
qed simp

lemma header_end_text:
  assumes "parts_wf r" and "list_all header_wf kvs" and "p @ q = request_text r kvs" and "q \<noteq> []" and "CHR 0x0A \<notin> set z"
  shows "\<not> header_end (p @ z)"
proof
  assume "header_end (p @ z)"
  then obtain t where "strstr (p @ z) (CRLF @ CRLF) = Some t" unfolding header_end_def by blast
  from strstr_in [OF this] obtain a c where eq: "p @ z = (a @ CRLF @ CRLF) @ c" by auto
  obtain us where us: "p = (a @ CRLF @ CRLF) @ us \<or> p @ us = a @ CRLF @ CRLF \<and> z = us @ c"
    using eq unfolding append_eq_append_conv2 by blast
  have "us = []" if "p @ us = a @ CRLF @ CRLF" "z = us @ c"
  proof (rule ccontr)
    assume "us \<noteq> []"
    then have "last us = last (p @ us)" by simp
    also have "\<dots> = CHR 0x0A" unfolding that(1) by (simp add: CRLF_def)
    finally show False using assms(5) that(2) \<open>us \<noteq> []\<close> by (metis Un_iff last_in_set set_append)
  qed
  with us have "\<exists>d. p = (a @ CRLF @ CRLF) @ d" by auto
  then obtain d where "p = a @ CRLF @ CRLF @ d" by auto
  then have "request_text r kvs = a @ CRLF @ CRLF @ d @ q" using assms(3) by simp
  from request_text_blank [OF assms(1,2) this] assms(4) show False by simp
qed

lemma header_end_found:
  assumes "parts_wf r" and "list_all header_wf kvs"
  shows "header_end (request_text r kvs @ z)"
proof -
  obtain t where "CRLF @ header_text kvs = t @ CRLF @ CRLF" "NUL \<notin> set t"
    using header_text_end [OF assms(2)] by blast
  then have "request_text r kvs @ z = (request_line r @ t) @ (CRLF @ CRLF) @ z" by (simp add: request_text_def)
  moreover have "NUL \<notin> set (request_line r @ t)"
    using \<open>NUL \<notin> set t\<close> plainD [OF request_line_plain [OF assms(1)]] by auto
  ultimately show ?thesis
    using strstr_found [of "request_line r @ t" "CRLF @ CRLF" z] by (simp add: header_end_def CRLF_def)
qed

text \<open>
  The buffer when \<open>got\<close> has been read. Until the text of the request is complete, the search for its end also runs over
  what the stack has left behind it; it is harmless up to the position \<open>n\<close> if it has no line feed and a NUL behind \<open>n\<close>.
\<close>

definition filled :: "string \<Rightarrow> string \<Rightarrow> string" where
  "filled buf got = got @ drop (length got) buf"

definition harmless :: "nat \<Rightarrow> string \<Rightarrow> bool" where
  "harmless n buf \<longleftrightarrow> CHR 0x0A \<notin> set buf \<and> NUL \<in> set (drop n buf)"

lemma filled_Nil [simp]: "filled buf [] = buf"
  by (simp add: filled_def)

lemma store_filled:
  "length (got @ s) \<le> length buf \<Longrightarrow> store (filled buf got) (length got) s = filled buf (got @ s)"
  by (simp add: store_def filled_def add.commute)

lemma length_filled: "length got \<le> length buf \<Longrightarrow> length (filled buf got) = length buf"
  by (simp add: filled_def)

lemma read_request_Got:
  assumes "length (got @ s) < length buf"
  shows "read_request (Got s # es) (filled buf got) (length got) =
    (if header_end (filled buf (got @ s)) then Inr (Some (True, filled buf (got @ s), length (got @ s)))
     else if NUL \<notin> set (filled buf (got @ s)) then Inl Out_of_bounds
     else read_request es (filled buf (got @ s)) (length (got @ s)))"
proof -
  have "take (length (filled buf got) - length got) s = s" using assms by (simp add: length_filled)
  then show ?thesis
    using assms store_filled [of got s buf] length_filled [of "got @ s" buf] by simp
qed

text \<open>Whatever the pieces, the loop ends as soon as the text of the request is in the buffer.\<close>

lemma read_request_pieces:
  assumes "parts_wf r" and "list_all header_wf kvs" and "length (request_text r kvs @ body) < length buf"
    and "got @ concat ss = request_text r kvs @ body" and "length got < length (request_text r kvs)"
    and "harmless (length (request_text r kvs @ body)) buf \<or> (ss \<noteq> [] \<and> length (request_text r kvs) \<le> length (got @ hd ss))"
  shows "\<exists>b b'. body = b @ b' \<and>
    read_request (map Got ss @ es) (filled buf got) (length got) =
      Inr (Some (True, filled buf (request_text r kvs @ b), length (request_text r kvs @ b)))"
  using assms(4-6)
proof (induction ss arbitrary: got)
  case Nil
  then have "length got = length (request_text r kvs @ body)" by simp
  with Nil.prems(2) show ?case by simp
next
  case (Cons s ss)
  let ?t = "request_text r kvs"
  have le: "length (got @ s) \<le> length (?t @ body)" using arg_cong [OF Cons.prems(1), of length] by simp
  note step = read_request_Got [of got s buf "map Got ss @ es"]
  obtain us where split: "got @ s = ?t @ us \<and> us @ concat ss = body \<or> (got @ s) @ us = ?t \<and> concat ss = us @ body"
    using Cons.prems(1) append_eq_append_conv2 [of "got @ s" "concat ss" ?t body] by auto
  show ?case
  proof (cases "length (got @ s) < length ?t")
    case True
    then have h: "harmless (length (?t @ body)) buf" using Cons.prems(3) by simp
    from True have "got @ s \<noteq> ?t @ us" by (metis length_append not_add_less1)
    with split have q: "(got @ s) @ us = ?t" by blast
    with True arg_cong [OF q, of length] have "us \<noteq> []" by auto
    moreover have "CHR 0x0A \<notin> set (drop (length (got @ s)) buf)" using h by (auto simp: harmless_def dest: in_set_dropD)
    ultimately have "\<not> header_end (filled buf (got @ s))"
      using header_end_text [OF assms(1,2) q] by (simp add: filled_def)
    moreover have "set (drop (length (?t @ body)) buf) \<subseteq> set (drop (length (got @ s)) buf)" by (rule set_drop_subset_set_drop [OF le])
    then have "NUL \<in> set (filled buf (got @ s))" using h by (auto simp: harmless_def filled_def)
    ultimately show ?thesis
      using step Cons.IH [of "got @ s"] Cons.prems(1) True h le assms(3) by simp
  next
    case False
    have "us = []" if "(got @ s) @ us = ?t" using False arg_cong [OF that, of length] by (cases us) auto
    with split obtain b where b: "got @ s = ?t @ b" "body = b @ concat ss" by auto
    then have "header_end (filled buf (got @ s))"
      using header_end_found [OF assms(1,2)] by (simp add: filled_def)
    with step b le assms(3) show ?thesis by (intro exI [of _ b] exI [of _ "concat ss"]) simp
  qed
qed

section \<open>Rewriting and relaying\<close>

definition old_version :: "request_parts \<Rightarrow> request_parts" where
  "old_version r = (if p_version r = ''HTTP/1.1'' then r\<lparr>p_version := ''HTTP/1.0''\<rparr> else r)"

definition rewritten :: "string \<Rightarrow> (string \<times> string) list \<Rightarrow> (string \<times> string) list" where
  "rewritten host kvs =
     filter (\<lambda>e. fst e \<noteq> ''Connection'' \<and> fst e \<noteq> ''Host'') kvs @ [(''Connection'', ''close''), (''Host'', host)]"

lemma old_version_wf: "parts_wf r \<Longrightarrow> parts_wf (old_version r)"
  by (simp add: parts_wf_def old_version_def NUL_def)

lemma rewritten_wf: "parts_wf r \<Longrightarrow> list_all header_wf kvs \<Longrightarrow> list_all header_wf (rewritten (p_host r) kvs)"
  by (auto simp: rewritten_def header_wf_def parts_wf_def NUL_def list_all_iff plain_mono [where es = "[]"])

lemma rewrite_request_ok:
  assumes "has_parts pr r" and "headers_ok pr" and "req_path pr = Some (Heap s)"
  shows "\<exists>pr'. rewrite_request pr = Inr pr' \<and> has_parts pr' (old_version r) \<and> headers_ok pr' \<and>
    hdr_entries pr' = rewritten (p_host r) (hdr_entries pr) \<and> req_path pr' = Some (Heap s)"
proof -
  let ?pr = "if p_version r = ''HTTP/1.1'' then pr\<lparr>req_version := Some (Heap ''HTTP/1.0'')\<rparr> else pr"
  have parts: "has_parts ?pr (old_version r)"
    using assms(1) by (cases "p_port r") (auto simp: has_parts_def field_def old_version_def)
  have ok: "headers_ok ?pr" "hdr_entries ?pr = hdr_entries pr" "req_path ?pr = Some (Heap s)"
    using assms(2,3) by (simp_all add: headers_ok_def headersused_def hdr_entries_def)
  obtain pr1 where pr1: "ParsedHeader_set ?pr ''Connection'' ''close'' = Inr (0, pr1)" "headers_ok pr1" "same_line ?pr pr1"
      "hdr_entries pr1 = filter (\<lambda>e. fst e \<noteq> ''Connection'') (hdr_entries pr) @ [(''Connection'', ''close'')]"
    using hdrs.st_ents [OF ok(1), of "''Connection''" "''close''"] ok(2) by auto
  obtain pr2 where pr2: "ParsedHeader_set pr1 ''Host'' (p_host r) = Inr (0, pr2)" "headers_ok pr2" "same_line pr1 pr2"
      "hdr_entries pr2 = filter (\<lambda>e. fst e \<noteq> ''Host'') (hdr_entries pr1) @ [(''Host'', p_host r)]"
    using hdrs.st_ents [OF pr1(2), of "''Host''" "p_host r"] by auto
  have "field pr (req_host pr) = Inr (p_host r)" "field pr (req_version pr) = Inr (p_version r)"
    using assms(1) by (simp_all add: has_parts_def)
  then have "rewrite_request pr = Inr pr2"
    using pr1(1) pr2(1) by (simp add: rewrite_request_def Let_def)
  moreover have "same_line ?pr pr2" using pr1(3) pr2(3) by (rule hdrs.same_trans)
  moreover have "hdr_entries pr2 = rewritten (p_host r) (hdr_entries pr)"
    using pr1(4) pr2(4) by (simp add: rewritten_def conj_commute)
  ultimately show ?thesis
    using has_parts_same_line [OF parts] pr2(2) ok(3) by (auto simp: same_line_def)
qed

lemma relay_Got:
  assumes "p \<noteq> []"
  shows "relay (Got p # es) [] = map_option (\<lambda>r. take RECV_BUFFER_SIZE p @ r)
    (relay (if length p > RECV_BUFFER_SIZE then Got (drop RECV_BUFFER_SIZE p) # es else es) [])"
  using assms by (subst relay.simps(3)) (simp add: Let_def)

lemma relay_all:
  "list_all (\<lambda>p. p \<noteq> []) ps \<Longrightarrow> relay (map Got ps @ Got [] # es) [] = Some (concat ps)"
proof (induction "concat ps" arbitrary: ps rule: length_induct)
  case 1
  show ?case
  proof (cases ps)
    case (Cons p qs)
    then have p: "p \<noteq> []" "list_all (\<lambda>p. p \<noteq> []) qs" using 1(2) by simp_all
    show ?thesis
    proof (cases "length p > RECV_BUFFER_SIZE")
      case True
      have "length (concat (drop RECV_BUFFER_SIZE p # qs)) < length (concat ps)"
        using Cons p(1) by (simp add: RECV_BUFFER_SIZE_def)
      moreover have "list_all (\<lambda>p. p \<noteq> []) (drop RECV_BUFFER_SIZE p # qs)" using p(2) True by simp
      ultimately have "relay (map Got (drop RECV_BUFFER_SIZE p # qs) @ Got [] # es) [] = Some (concat (drop RECV_BUFFER_SIZE p # qs))"
        using 1(1) by blast
      moreover have "relay (map Got ps @ Got [] # es) [] = map_option (\<lambda>r. take RECV_BUFFER_SIZE p @ r)
          (relay (map Got (drop RECV_BUFFER_SIZE p # qs) @ Got [] # es) [])"
        using relay_Got [OF p(1), of "map Got qs @ Got [] # es"] True by (simp add: Cons)
      ultimately show ?thesis by (simp add: Cons)
    next
      case False
      have "length (concat qs) < length (concat ps)" using Cons p(1) by simp
      then have "relay (map Got qs @ Got [] # es) [] = Some (concat qs)" using 1(1) p(2) by blast
      moreover have "relay (map Got ps @ Got [] # es) [] = map_option (\<lambda>r. p @ r) (relay (map Got qs @ Got [] # es) [])"
        using relay_Got [OF p(1), of "map Got qs @ Got [] # es"] False by (simp add: Cons)
      ultimately show ?thesis by (simp add: Cons)
    qed
  qed (simp add: relay.simps(3))
qed

section \<open>Properties\<close>

text \<open>
  A client's request, end to end. The text of a well-formed request of less than 2048 characters arrives, in whatever
  pieces; either the stack buffer holds no line feed, and a NUL behind the request, or the text comes in one piece. A GET
  request is forwarded to the host and port of its URL, port 80 if there is none, with its request line, in which HTTP/1.1 becomes
  HTTP/1.0, its headers except \<^verbatim>\<open>Connection\<close> and \<^verbatim>\<open>Host\<close> in their order, and then \<^verbatim>\<open>Connection: close\<close> and the \<^verbatim>\<open>Host\<close> of the
  URL, followed by the stray bytes behind the unterminated string, up to the number of bytes the call of \<^verbatim>\<open>send\<close> takes; the
  complete response of the server is passed to the client. Any other method is answered with 501, and no server is contacted.
\<close>

theorem request_proxied:
  assumes "parts_wf r" and "list_all header_wf kvs" and "distinct (map fst kvs)" and "\<not> einval"
    and "length buf = RECV_BUFFER_SIZE"
    and "length (request_text r kvs @ body) < RECV_BUFFER_SIZE" and "concat ss = request_text r kvs @ body"
    and "harmless (length (request_text r kvs @ body)) buf \<or> length (request_text r kvs) \<le> length (hd ss)"
    and "remote (p_host r) (case p_port r of None \<Rightarrow> ''80'' | Some port \<Rightarrow> port) = Connected (Sent n) (map Got ps @ [Got []]) []"
    and "list_all (\<lambda>p. p \<noteq> []) ps"
  shows "handle_client buf u einval slack remote (map Got ss @ es) =
    Inr (Some
      (if p_method r = ''GET'' then
         \<lparr>to_client = concat ps,
          to_remote = Some (take n (request_text (old_version r) (rewritten (p_host r) kvs) @ slack))\<rparr>
       else \<lparr>to_client = ''HTTP/1.0 501 Not Implemented'' @ CRLF @ CRLF, to_remote = None\<rparr>))"
proof -
  let ?t = "request_text r kvs"
  have t: "?t \<noteq> []" by (simp add: request_text_def CRLF_def)
  then have "ss \<noteq> []" using assms(7) by auto
  with t obtain b b' where b: "body = b @ b'"
    and rd: "read_request (map Got ss @ es) buf 0 = Inr (Some (True, filled buf (?t @ b), length (?t @ b)))"
    using read_request_pieces [OF assms(1,2), of body buf "[]" ss es] assms(5-8) by auto
  have len: "length (?t @ b) < RECV_BUFFER_SIZE" using assms(6) b by simp
  then have "length (?t @ b) \<le> MAX_REQ_LEN" by (simp add: RECV_BUFFER_SIZE_def MAX_REQ_LEN_def)
  from parse_request_text [OF assms(1-4) this] obtain pr
    where pr: "ParsedRequest_parse einval (ParsedRequest_create u) (?t @ b) = Inr (0, pr)"
      "has_parts pr r" "headers_ok pr" "hdr_entries pr = kvs" "req_path pr = Some (Heap (p_path r))"
    by blast
  have buf: "take (length (?t @ b)) (filled buf (?t @ b)) = ?t @ b" "length (?t @ b) < length (filled buf (?t @ b))"
    using len assms(5) by (simp_all add: filled_def)
  have meth: "field pr (req_method pr) = Inr (p_method r)" "field pr (req_host pr) = Inr (p_host r)"
    "server_port pr = Inr (case p_port r of None \<Rightarrow> ''80'' | Some port \<Rightarrow> port)"
    using pr(2) by (auto simp: has_parts_def server_port_def split: option.splits)
  obtain pr' where pr': "rewrite_request pr = Inr pr'" "has_parts pr' (old_version r)" "headers_ok pr'"
      "hdr_entries pr' = rewritten (p_host r) kvs" "req_path pr' = Some (Heap (p_path r))"
    using rewrite_request_ok [OF pr(2,3,5)] pr(4) by auto
  let ?new = "request_text (old_version r) (rewritten (p_host r) kvs)"
  have "NUL \<notin> set ?new"
    using assms(1,2) by (intro request_text_NUL) (auto simp: rewritten_wf old_version_wf)
  moreover have "ParsedRequest_totalLen pr' = Inr (length ?new)"
      "ParsedRequest_unparse pr' (replicate (length ?new) NUL) = Inr (0, ?new)"
    using totalLen_text [OF pr'(2,3)] unparse_parts [OF pr'(2,3), of "replicate (length ?new) NUL"] pr'(4) by auto
  ultimately show ?thesis
    unfolding handle_client_def rd
    using buf pr(1) meth pr'(1) destroy_ok [OF pr(3,5)] destroy_ok [OF pr'(3,5)] relay_all [OF assms(10), of "[]"] assms(9)
    by (simp add: reply_def contact_def)
qed

end
