(* ===== verification/Socket_Programs.thy ===== *)
theory Socket_Programs
  imports Net_Prelude
begin

text \<open>
  The example pair of programs in \<^verbatim>\<open>Server&Client\<close>: \<^verbatim>\<open>client.c\<close> sends its standard input to a server, \<^verbatim>\<open>server.c\<close>
  writes what its clients send to standard output, one client after the other. The set-up of a listening socket
  is shared with \<^verbatim>\<open>proxy.c\<close>.

  The state is the set of open descriptors and what has been written to standard output, apart what
  \<^verbatim>\<open>write\<close> puts there and what \<^verbatim>\<open>printf\<close> puts into the buffer of \<^verbatim>\<open>stdout\<close>. What the system calls return is
  an argument: for each address found by \<^verbatim>\<open>getaddrinfo\<close> the descriptor of the socket or a failure, for the
  data calls the bytes that come and the number of bytes that are taken.
\<close>

section \<open>Listening sockets\<close>

record candidate =
  c_socket :: "int option"
  c_setsockopt :: bool
  c_bind :: bool

fun bind_loop :: "candidate list \<Rightarrow> int set \<Rightarrow> (int option \<times> int set) program" where
  "bind_loop [] fds = Goes_on (None, fds)"
| "bind_loop (p # ps) fds =
     (case c_socket p of
        None \<Rightarrow> bind_loop ps fds
      | Some server_socket \<Rightarrow>
          let fds = insert server_socket fds
          in if \<not> c_setsockopt p then Exits 1
             else if \<not> c_bind p then bind_loop ps (fds - {server_socket})
             else Goes_on (Some server_socket, fds))"

text \<open>The function \<^verbatim>\<open>server\<close> up to its loop; \<open>None\<close> stands for a failing \<^verbatim>\<open>getaddrinfo\<close>.\<close>

definition server_start :: "candidate list option \<Rightarrow> bool \<Rightarrow> int set \<Rightarrow> (int \<times> int set) program" where
  "server_start res listen_ok fds =
     (case res of
        None \<Rightarrow> Exits 2
      | Some ps \<Rightarrow>
          (case bind_loop ps fds of
             Exits rc \<Rightarrow> Exits rc
           | Goes_on (None, _) \<Rightarrow> Exits 1
           | Goes_on (Some server_socket, fds) \<Rightarrow>
               if listen_ok then Goes_on (server_socket, fds) else Exits 1))"

section \<open>Copying\<close>

datatype read_result = Data "byte list" | Read_failed

datatype send_result = Sent nat | Send_failed

datatype copy_end = End_of_data | Read_error | Send_error

text \<open>
  The loop of both programs: at most \<open>n\<close> bytes are read and passed on at a time; \<open>Data []\<close> is the end of the data,
  and the end of the list a read that waits. The second list says how many bytes the calls that send take;
  where it ends they take all. The result is what was sent and why the loop was left.
\<close>

function copy_loop :: "nat \<Rightarrow> read_result list \<Rightarrow> send_result list \<Rightarrow> (byte list \<times> copy_end) option" where
  "copy_loop n [] ws = None"
| "copy_loop n (Read_failed # es) ws = Some ([], Read_error)"
| "copy_loop n (Data s # es) ws =
     (if s = [] \<or> n = 0 then Some ([], End_of_data)
      else
        let piece = take n s; es = (if length s > n then Data (drop n s) # es else es)
        in case ws of
             [] \<Rightarrow> map_option (apfst ((@) piece)) (copy_loop n es [])
           | Send_failed # _ \<Rightarrow> Some ([], Send_error)
           | Sent k # ws \<Rightarrow> map_option (apfst ((@) (take k piece))) (copy_loop n es ws))"
  by pat_completeness auto
termination
  by (relation "measure (\<lambda>(n, es, ws). \<Sum>e \<leftarrow> es. case e of Data s \<Rightarrow> length s + 1 | Read_failed \<Rightarrow> 1)") auto

declare copy_loop.simps(3) [simp del]

section \<open>The client\<close>

definition SEND_BUFFER_SIZE :: nat where "SEND_BUFFER_SIZE = 2048"

text \<open>Connecting to the first address that answers: for each the socket and whether \<^verbatim>\<open>connect\<close> succeeds.\<close>

fun connect_loop :: "(int option \<times> bool) list \<Rightarrow> int set \<Rightarrow> int option \<times> int set" where
  "connect_loop [] fds = (None, fds)"
| "connect_loop ((None, _) # ps) fds = connect_loop ps fds"
| "connect_loop ((Some client_socket, connects) # ps) fds =
     (if connects then (Some client_socket, insert client_socket fds)
      else connect_loop ps (insert client_socket fds - {client_socket}))"

text \<open>
  The function \<^verbatim>\<open>client\<close>: its result, what it has sent, the open descriptors. When \<^verbatim>\<open>getaddrinfo\<close> fails, the code
  follows an uninitialised pointer.
\<close>

definition client ::
  "(int option \<times> bool) list option \<Rightarrow> read_result list \<Rightarrow> send_result list \<Rightarrow> int set \<Rightarrow>
   fault + (int \<times> byte list \<times> int set) option" where
  "client res stdin sends fds =
     (case res of
        None \<Rightarrow> Inl Null_deref
      | Some ps \<Rightarrow>
          (case connect_loop ps fds of
             (None, fds) \<Rightarrow> Inr (Some (1, [], fds))
           | (Some client_socket, fds) \<Rightarrow>
               (case copy_loop SEND_BUFFER_SIZE stdin sends of
                  None \<Rightarrow> Inr None
                | Some (sent, e) \<Rightarrow>
                    Inr (Some (if e = End_of_data then 0 else 1, sent, fds - {client_socket})))))"

definition client_main ::
  "nat \<Rightarrow> (int option \<times> bool) list option \<Rightarrow> read_result list \<Rightarrow> send_result list \<Rightarrow> int set \<Rightarrow>
   fault + (int \<times> byte list \<times> int set) option" where
  "client_main argc res stdin sends fds =
     (if argc \<noteq> 3 then Inr (Some (1, [], fds)) else client res stdin sends fds)"

section \<open>The server\<close>

definition RECV_BUFFER_SIZE :: nat where "RECV_BUFFER_SIZE = 2048"

datatype accepted = Accept_failed | Accepted int "read_result list" "nat list"

record server_state =
  open_fds :: "int set"
  written_out :: "byte list"
  printed_out :: "string list"

text \<open>
  One turn of the loop: a client is accepted and served. What \<^verbatim>\<open>write\<close> returns is ignored: a failure is like
  no byte written. \<open>None\<close> where the server waits for the client.
\<close>

definition serve_client :: "int \<Rightarrow> accepted \<Rightarrow> server_state \<Rightarrow> server_state program option" where
  "serve_client server_socket a s =
     (case a of
        Accept_failed \<Rightarrow> Some (Exits 1)
      | Accepted client_socket es writes \<Rightarrow>
          map_option (\<lambda>(out, e). Goes_on (s\<lparr>
              open_fds := insert client_socket (open_fds s) - {client_socket},
              written_out := written_out s @ out,
              printed_out := printed_out s @ [''success connected''] @
                (if e = End_of_data then [''Client disconnected.''] else []) @ [''server: waiting for connections...'']\<rparr>))
            (copy_loop RECV_BUFFER_SIZE es (map Sent writes)))"

fun serve :: "int \<Rightarrow> accepted list \<Rightarrow> server_state \<Rightarrow> server_state program option" where
  "serve server_socket [] s = Some (Goes_on s)"
| "serve server_socket (a # as) s =
     (case serve_client server_socket a s of
        Some (Goes_on s) \<Rightarrow> serve server_socket as s
      | r \<Rightarrow> r)"

text \<open>The function \<^verbatim>\<open>server\<close> and \<^verbatim>\<open>main\<close>; the list of clients ends where \<^verbatim>\<open>accept\<close> waits.\<close>

definition server :: "candidate list option \<Rightarrow> bool \<Rightarrow> accepted list \<Rightarrow> int set \<Rightarrow> server_state program option" where
  "server res listen_ok clients fds =
     (case server_start res listen_ok fds of
        Exits rc \<Rightarrow> Some (Exits rc)
      | Goes_on (server_socket, fds) \<Rightarrow>
          serve server_socket clients
            \<lparr>open_fds = fds, written_out = [], printed_out = [''server: waiting for connections...'']\<rparr>)"

definition server_program ::
  "nat \<Rightarrow> candidate list option \<Rightarrow> bool \<Rightarrow> accepted list \<Rightarrow> int set \<Rightarrow> server_state program option" where
  "server_program argc res listen_ok clients fds =
     (if argc \<noteq> 2 then Some (Exits 1) else server res listen_ok clients fds)"

section \<open>The whole of the data is copied\<close>

lemma copy_loop_Data:
  assumes "p \<noteq> []" and "0 < n"
  shows "copy_loop n (Data p # es) [] = map_option (apfst ((@) (take n p)))
    (copy_loop n (if length p > n then Data (drop n p) # es else es) [])"
  using assms by (subst copy_loop.simps(3)) (simp add: Let_def)

lemma copy_loop_all:
  assumes "0 < n"
  shows "list_all (\<lambda>p. p \<noteq> []) ps \<Longrightarrow> copy_loop n (map Data ps @ Data [] # es) [] = Some (concat ps, End_of_data)"
proof (induction "concat ps" arbitrary: ps rule: length_induct)
  case 1
  show ?case
  proof (cases ps)
    case (Cons p qs)
    let ?qs = "if length p > n then drop n p # qs else qs"
    have p: "p \<noteq> []" "list_all (\<lambda>p. p \<noteq> []) ?qs" "take n p @ concat ?qs = concat ps"
      using 1(2) Cons by simp_all
    have "length (concat ?qs) < length (concat ps)"
      using p(1) assms Cons by simp
    then have "copy_loop n (map Data ?qs @ Data [] # es) [] = Some (concat ?qs, End_of_data)"
      using 1(1) p(2) by blast
    moreover have "map Data ps @ Data [] # es = Data p # map Data qs @ Data [] # es"
      by (simp add: Cons)
    ultimately show ?thesis
      using copy_loop_Data [OF p(1) assms, of "map Data qs @ Data [] # es"] p(3) by (simp split: if_splits)
  qed (simp add: copy_loop.simps(3))
qed

section \<open>Descriptors\<close>

lemma bind_loop_first:
  assumes "list_all (\<lambda>p. case c_socket p of None \<Rightarrow> True | Some s \<Rightarrow> s \<notin> fds \<and> c_setsockopt p \<and> \<not> c_bind p) bad"
    and "c_socket good = Some server_socket" and "c_setsockopt good" and "c_bind good"
  shows "bind_loop (bad @ good # others) fds = Goes_on (Some server_socket, insert server_socket fds)"
  using assms by (induction bad) (auto simp: Let_def insert_Diff_if split: option.splits)

lemma connect_loop_fds:
  assumes "list_all (\<lambda>(s, _). case s of None \<Rightarrow> True | Some s \<Rightarrow> s \<notin> fds) ps"
  shows "snd (connect_loop ps fds) = (case fst (connect_loop ps fds) of None \<Rightarrow> fds | Some s \<Rightarrow> insert s fds) \<and>
    (case fst (connect_loop ps fds) of None \<Rightarrow> True | Some s \<Rightarrow> s \<notin> fds)"
  using assms
proof (induction ps)
  case (Cons p ps)
  obtain s connects where p: "p = (s, connects)" by (cases p)
  show ?case
  proof (cases s)
    case (Some t)
    then have "insert t fds - {t} = fds" "t \<notin> fds" using Cons.prems by (auto simp: p)
    then show ?thesis using Cons Some by (simp add: p)
  qed (use Cons p in simp)
qed simp

text \<open>Every way out of \<^verbatim>\<open>client\<close> closes what it has opened.\<close>

lemma client_closes:
  assumes "list_all (\<lambda>(s, _). case s of None \<Rightarrow> True | Some s \<Rightarrow> s \<notin> fds) ps"
    and "client (Some ps) stdin sends fds = Inr (Some (rc, sent, fds'))"
  shows "fds' = fds"
  using assms(2) connect_loop_fds [OF assms(1)]
  by (auto simp: client_def split: prod.splits option.splits)

definition fresh_client :: "int set \<Rightarrow> accepted \<Rightarrow> bool" where
  "fresh_client fds a = (case a of Accept_failed \<Rightarrow> True | Accepted fd _ _ \<Rightarrow> fd \<notin> fds)"

lemma serve_fds:
  "serve server_socket as s = Some (Goes_on s') \<Longrightarrow> list_all (fresh_client (open_fds s)) as \<Longrightarrow> open_fds s' = open_fds s"
  by (induction server_socket as s rule: serve.induct)
    (auto simp: serve_client_def fresh_client_def split: accepted.splits option.splits program.splits)

section \<open>Properties\<close>

definition sent_by :: "fault + (int \<times> byte list \<times> int set) option \<Rightarrow> byte list" where
  "sent_by r = (case r of Inr (Some (_, bs, _)) \<Rightarrow> bs | _ \<Rightarrow> [])"

lemma client_sends_all:
  assumes "fst (connect_loop ps fds) \<noteq> None" and "list_all (\<lambda>p. p \<noteq> []) lines"
  shows "sent_by (client (Some ps) (map Data lines @ [Data []]) [] fds) = concat lines"
  using assms(1) copy_loop_all [OF _ assms(2), of SEND_BUFFER_SIZE "[]"]
  by (auto simp: client_def sent_by_def SEND_BUFFER_SIZE_def split: prod.splits)

lemma serve_writes_all:
  "list_all (\<lambda>(fd, qs). list_all (\<lambda>q. q \<noteq> []) qs) cs \<Longrightarrow>
   \<exists>s'. serve server_socket (map (\<lambda>(fd, qs). Accepted fd (map Data qs @ [Data []]) []) cs) s = Some (Goes_on s') \<and>
     written_out s' = written_out s @ concat (map (\<lambda>(fd, qs). concat qs) cs)"
proof (induction cs arbitrary: s)
  case (Cons c cs)
  obtain fd qs where c: "c = (fd, qs)" by (cases c)
  have copy: "copy_loop RECV_BUFFER_SIZE (map Data qs @ [Data []]) [] = Some (concat qs, End_of_data)"
    using copy_loop_all [of RECV_BUFFER_SIZE qs "[]"] Cons.prems by (simp add: c RECV_BUFFER_SIZE_def)
  obtain s1 where "serve_client server_socket (Accepted fd (map Data qs @ [Data []]) []) s = Some (Goes_on s1)"
    "written_out s1 = written_out s @ concat qs"
    by (simp add: serve_client_def copy)
  then show ?case using Cons.IH [of s1] Cons.prems by (auto simp: c)
qed simp

text \<open>
  C21: messages reach the standard output of the server. The server listens on the first address it can
  bind. Of the clients that reach it, in whatever pieces their standard input is read and in whatever
  pieces the connection delivers what they have sent, the server writes the messages byte for byte,
  one after the other, and afterwards has its listening socket open and otherwise only the descriptors it was started
  with. Every call of \<^verbatim>\<open>send\<close> and \<^verbatim>\<open>write\<close> takes all it is given; one that takes less loses the rest.
\<close>

theorem messages_copied:
  assumes "list_all (\<lambda>p. case c_socket p of None \<Rightarrow> True | Some s \<Rightarrow> s \<notin> fds \<and> c_setsockopt p \<and> \<not> c_bind p) bad"
    and "c_socket good = Some server_socket" and "c_setsockopt good" and "c_bind good"
    and "list_all (\<lambda>(fd, addrs, ps, qs). fd \<notin> insert server_socket fds \<and> fst (connect_loop addrs {0, 1, 2}) \<noteq> None \<and>
      list_all (\<lambda>p. p \<noteq> []) ps \<and> list_all (\<lambda>q. q \<noteq> []) qs \<and>
      concat qs = sent_by (client (Some addrs) (map Data ps @ [Data []]) [] {0, 1, 2})) cs"
  shows "\<exists>s. server (Some (bad @ good # others)) True (map (\<lambda>(fd, addrs, ps, qs). Accepted fd (map Data qs @ [Data []]) []) cs) fds =
      Some (Goes_on s) \<and>
    written_out s = concat (map (\<lambda>(fd, addrs, ps, qs). concat ps) cs) \<and> open_fds s = insert server_socket fds"
proof -
  let ?cs = "map (\<lambda>(fd, addrs, ps, qs). (fd, qs)) cs"
  let ?as = "map (\<lambda>(fd, addrs, ps, qs). Accepted fd (map Data qs @ [Data []]) []) cs"
  let ?s = "\<lparr>open_fds = insert server_socket fds, written_out = [], printed_out = [''server: waiting for connections...'']\<rparr>"
  have as: "map (\<lambda>(fd, qs). Accepted fd (map Data qs @ [Data []]) []) ?cs = ?as" by (simp add: split_def)
  have pieces: "concat qs = concat ps" if "(fd, addrs, ps, qs) \<in> set cs" for fd addrs ps qs
    using assms(5) that client_sends_all [of addrs "{0, 1, 2}" ps] by (auto simp: list_all_iff)
  have "list_all (\<lambda>(fd, qs). list_all (\<lambda>q. q \<noteq> []) qs) ?cs"
    using assms(5) by (auto simp: list_all_iff)
  then obtain s where s: "serve server_socket ?as ?s = Some (Goes_on s)" "written_out s = concat (map (\<lambda>(fd, qs). concat qs) ?cs)"
    using serve_writes_all [of ?cs server_socket ?s] unfolding as by auto
  moreover have "map (\<lambda>(fd, qs). concat qs) ?cs = map (\<lambda>(fd, addrs, ps, qs). concat ps) cs"
    using pieces by auto
  then have "written_out s = concat (map (\<lambda>(fd, addrs, ps, qs). concat ps) cs)"
    using s(2) by metis
  moreover have "list_all (fresh_client (open_fds ?s)) ?as"
    using assms(5) by (auto simp: list_all_iff fresh_client_def)
  then have "open_fds s = insert server_socket fds"
    using serve_fds [OF s(1)] by simp
  ultimately show ?thesis
    by (intro exI [of _ s]) (simp only: server_def server_start_def bind_loop_first [OF assms(1-4)] option.case program.case
          prod.case if_True simp_thms)
qed

theorem messages_copied_witness:
  "\<exists>s. server (Some [\<lparr>c_socket = Some 3, c_setsockopt = True, c_bind = False\<rparr>, \<lparr>c_socket = Some 3, c_setsockopt = True, c_bind = True\<rparr>])
      True [Accepted 4 [Data [1], Data [2, 3], Data []] [], Accepted 4 [Data [9], Data []] []] {0, 1, 2} = Some (Goes_on s) \<and>
    written_out s = [1, 2, 3, 9] \<and> open_fds s = {3, 0, 1, 2}"
proof -
  let ?bad = "\<lparr>c_socket = Some 3, c_setsockopt = True, c_bind = False\<rparr>" and ?good = "\<lparr>c_socket = Some 3, c_setsockopt = True, c_bind = True\<rparr>"
  have "sent_by (client (Some [(Some 3, True)]) [Data [1, 2], Data [3], Data []] [] {0, 1, 2}) = [1, 2, 3]"
    "sent_by (client (Some [(Some 3, True)]) [Data [9], Data []] [] {0, 1, 2}) = [9]"
    by (simp_all add: client_def sent_by_def SEND_BUFFER_SIZE_def copy_loop.simps(3))
  then show ?thesis
    using messages_copied [of "{0, 1, 2}" "[?bad]" ?good 3
      "[(4, [(Some 3, True)], [[1, 2], [3]], [[1], [2, 3]]), (4, [(Some 3, True)], [[9]], [[9]])]" "[]"]
    by simp
qed

text \<open>A call of \<^verbatim>\<open>send\<close> that takes only part of the data: the rest is lost, and the client reports success.\<close>

lemma short_send_loses_data:
  assumes "k < length s" and "length s \<le> SEND_BUFFER_SIZE" and "c \<notin> fds"
  shows "client (Some [(Some c, True)]) [Data s, Data []] [Sent k] fds = Inr (Some (0, take k s, fds))"
  using assms by (auto simp: client_def copy_loop.simps(3) Let_def)

end
