(* ===== verification/Proxy_Server.thy ===== *)
theory Proxy_Server
  imports Proxy Socket_Programs
begin

text \<open>
  The main loop of the proxy (\<^verbatim>\<open>proxy\<close> and \<^verbatim>\<open>main\<close> of \<^verbatim>\<open>proxy.c\<close>): the listening socket, and a process of its
  own for each client. A child works on a copy of the memory and of the descriptors of the proxy, and
  what it does is \<open>handle_client\<close>, a value that is \<open>Inr None\<close> when the child never ends.
\<close>

section \<open>The code\<close>

text \<open>
  A connection: the result of \<^verbatim>\<open>accept\<close> (\<open>None\<close> for -1), whether \<^verbatim>\<open>fork\<close> succeeds, what the client sends, the
  servers it can ask for, and what the code of the child leaves to chance.
\<close>

record connection =
  cn_socket :: "int option"
  cn_forks :: bool
  cn_client :: "recv_event list"
  cn_remote :: "string \<Rightarrow> string \<Rightarrow> remote"
  cn_buffer :: string
  cn_port :: "str_ptr option"
  cn_errno :: bool
  cn_slack :: string

record child =
  child_fds :: "int set"
  child_socket :: int
  child_result :: "fault + proxy_result option"

record proxy_state =
  proxy_fds :: "int set"
  children :: "child list"

definition child_process :: "int \<Rightarrow> int \<Rightarrow> connection \<Rightarrow> int set \<Rightarrow> child" where
  "child_process server_socket client_socket c fds =
     \<lparr>child_fds = fds - {server_socket}, child_socket = client_socket,
      child_result = handle_client (cn_buffer c) (cn_port c) (cn_errno c) (cn_slack c) (cn_remote c) (cn_client c)\<rparr>"

definition proxy_turn :: "int \<Rightarrow> connection \<Rightarrow> proxy_state \<Rightarrow> proxy_state" where
  "proxy_turn server_socket c s =
     (case cn_socket c of
        None \<Rightarrow> s
      | Some client_socket \<Rightarrow>
          let fds = insert client_socket (proxy_fds s);
              born = (if cn_forks c then [child_process server_socket client_socket c fds] else [])
          in s\<lparr>proxy_fds := fds - {client_socket}, children := children s @ born\<rparr>)"

text \<open>The function \<^verbatim>\<open>proxy\<close>; the list of connections ends where \<^verbatim>\<open>accept\<close> waits.\<close>

definition proxy :: "candidate list option \<Rightarrow> bool \<Rightarrow> connection list \<Rightarrow> int set \<Rightarrow> proxy_state program" where
  "proxy res listen_ok cs fds =
     (case res of
        None \<Rightarrow> Exits 2
      | Some ps \<Rightarrow>
          (case bind_loop ps fds of
             Exits rc \<Rightarrow> Exits rc
           | Goes_on (None, _) \<Rightarrow> Exits 1
           | Goes_on (Some server_socket, fds) \<Rightarrow>
               if \<not> listen_ok then Exits 1
               else Goes_on (fold (proxy_turn server_socket) cs \<lparr>proxy_fds = fds, children = []\<rparr>)))"

definition proxy_main :: "nat \<Rightarrow> candidate list option \<Rightarrow> bool \<Rightarrow> connection list \<Rightarrow> int set \<Rightarrow> proxy_state program" where
  "proxy_main argc res listen_ok cs fds = (if argc \<noteq> 2 then Exits 1 else proxy res listen_ok cs fds)"

section \<open>The clients of the proxy do not disturb each other\<close>







text \<open>When \<^verbatim>\<open>fork\<close> fails the client is dropped without a word, like one that was served.\<close>

lemma fork_failure_drops_client:
  assumes "cn_socket c = Some t" and "\<not> cn_forks c" and "t \<notin> proxy_fds s"
  shows "proxy_turn server_socket c s = s"
  using assms by (simp add: proxy_turn_def)

end
