(* ===== verification/Stcp_Window.thy ===== *)
theory Stcp_Window
  imports Stcp_Lifecycle
begin

text \<open>
  The earlier transport layer (\<^verbatim>\<open>transport1.c\<close>), which the makefile does not build. Its handshake and the
  branches of its control loop are those of \<^verbatim>\<open>transport.c\<close>, whose definitions it shares; the names \<^verbatim>\<open>SYN_SENT\<close>,
  \<^verbatim>\<open>FIN_WAIT_1\<close> and so on of its states are \<open>CSTATE_SYN_SENT\<close>, \<open>CSTATE_FIN_WAIT_1\<close> and so on here. It differs in three
  ways: the states are numbered in another order, so that a zeroed context is in \<^verbatim>\<open>SYN_SENT\<close>; an iteration
  looks at the network before the application and does so in every state; and the number of bytes it
  takes from the application is computed, as the part of a window of 3072 bytes that is not awaiting an
  acknowledgement.
\<close>

section \<open>The code\<close>

definition calloc_context1 :: context_t where
  "calloc_context1 = \<lparr>is_done = False, connection_state = CSTATE_SYN_SENT, initial_sequence_num = 0, opp_sequence_num = 0,
     ack_num = 0, opp_window_size = 0, current_sequence_num = 0, fin_ack_sequence_num = 0\<rparr>"

definition handshake1 ::
  "uint32 \<Rightarrow> bool \<Rightarrow> int \<Rightarrow> mysock_context \<Rightarrow> fault + (context_t \<times> int \<times> mysock_context) option" where
  "handshake1 if_ip active rnd ctx =
     (let t = generate_initial_seq_num rnd calloc_context1
      in bindw (if active then active_open if_ip t ctx else passive_open if_ip t 0 ctx) (\<lambda>(t, err, ctx).
           Inr (Some (t\<lparr>connection_state := CSTATE_ESTABLISHED\<rparr>, err, ctx))))"

text \<open>The subtraction is one of unsigned 32-bit numbers; the variable is an \<^verbatim>\<open>int\<close>.\<close>

definition sender_window :: "context_t \<Rightarrow> int" where
  "sender_window t = sint (word_of_nat SENDER_WINDOW - (current_sequence_num t - ack_num t) :: uint32)"

definition control_step1 ::
  "nat \<Rightarrow> uint32 \<Rightarrow> context_t \<times> mysock_context \<Rightarrow> fault + (context_t \<times> mysock_context) option" where
  "control_step1 fuel if_ip s =
     (case stcp_wait_for_event ANY_EVENT False (snd s) of
        None \<Rightarrow> Inr None
      | Some (event, ctx) \<Rightarrow>
          let window = sender_window (fst s)
          in bindw (if event AND NETWORK_DATA \<noteq> 0 then on_network_data if_ip (fst s) ctx
                    else Inr (Some (fst s, ctx))) (\<lambda>(t, ctx).
               bindw (if event AND APP_DATA \<noteq> 0 \<and> window > 0 then on_app_data fuel if_ip (nat window) t ctx
                      else Inr (Some (t, ctx))) (\<lambda>(t, ctx).
                 if event AND APP_CLOSE_REQUESTED \<noteq> 0 then on_close if_ip t ctx else Inr (Some (t, ctx)))))"

fun iterate1 ::
  "nat \<Rightarrow> nat \<Rightarrow> uint32 \<Rightarrow> context_t \<times> mysock_context \<Rightarrow> fault + (context_t \<times> mysock_context) option" where
  "iterate1 n fuel if_ip s =
     (if is_done (fst s) then Inr (Some s)
      else case n of
             0 \<Rightarrow> Inl Diverges
           | Suc n \<Rightarrow> bindw (control_step1 fuel if_ip s) (iterate1 n fuel if_ip))"

declare iterate1.simps [simp del]

definition control_loop1 ::
  "nat \<Rightarrow> nat \<Rightarrow> uint32 \<Rightarrow> context_t \<times> mysock_context \<Rightarrow> fault + (context_t \<times> mysock_context) option" where
  "control_loop1 n fuel if_ip s = need (\<not> is_done (fst s)) Assert_failed (iterate1 n fuel if_ip s)"

definition transport_open1 ::
  "uint32 \<Rightarrow> int \<Rightarrow> bool \<Rightarrow> int \<Rightarrow> demux \<Rightarrow> fault + (context_t \<times> demux) option" where
  "transport_open1 if_ip sd active rnd w =
     andthen (get_context sd w) (\<lambda>(c, ctx).
       bindw (handshake1 if_ip active rnd ctx) (\<lambda>(t, err, ctx).
         andthen (stcp_unblock_application sd err (put_context c ctx w)) (\<lambda>w. Inr (Some (t, w)))))"

definition transport_init1 ::
  "nat \<Rightarrow> nat \<Rightarrow> uint32 \<Rightarrow> int \<Rightarrow> bool \<Rightarrow> int \<Rightarrow> demux \<Rightarrow> fault + demux option" where
  "transport_init1 n fuel if_ip sd active rnd w =
     bindw (transport_open1 if_ip sd active rnd w) (\<lambda>(t, w).
       andthen (get_context sd w) (\<lambda>(c, ctx).
         bindw (control_loop1 n fuel if_ip (t, ctx)) (\<lambda>(_, ctx).
           Inr (Some (put_context c ctx w)))))"

section \<open>The handshake\<close>

text \<open>
  The state a context is created with is overwritten before it is looked at, so both files open a
  connection in the same way.
\<close>

lemma calloc_context1_eq: "calloc_context1 = calloc_context\<lparr>connection_state := CSTATE_SYN_SENT\<rparr>"
  by (simp add: calloc_context1_def calloc_context_def)

lemma note_peer_state:
  "(if b then note_peer p (t\<lparr>connection_state := c\<rparr>) else t\<lparr>connection_state := c\<rparr>) =
     (if b then note_peer p t else t)\<lparr>connection_state := c\<rparr>"
  by (simp add: note_peer_def)

lemma next_seq_state: "next_seq (t\<lparr>connection_state := c\<rparr>) = (next_seq t)\<lparr>connection_state := c\<rparr>"
  by (simp add: next_seq_def)

lemma active_open_state: "active_open if_ip (t\<lparr>connection_state := c\<rparr>) ctx = active_open if_ip t ctx"
  unfolding active_open_def Let_def next_seq_state note_peer_state by (simp cong: if_cong)

lemma passive_open_state: "passive_open if_ip (t\<lparr>connection_state := c\<rparr>) err ctx = passive_open if_ip t err ctx"
  unfolding passive_open_def Let_def note_peer_state by (simp cong: if_cong)

lemma handshake1_eq: "handshake1 if_ip active rnd ctx = handshake if_ip active rnd ctx"
proof -
  have "generate_initial_seq_num rnd calloc_context1 =
      (generate_initial_seq_num rnd calloc_context)\<lparr>connection_state := CSTATE_SYN_SENT\<rparr>"
    by (simp add: calloc_context1_eq generate_initial_seq_num_def Let_def)
  then show ?thesis
    by (simp add: handshake1_def handshake_def active_open_state passive_open_state Let_def)
qed

lemma transport_open1_eq: "transport_open1 = transport_open"
  by (intro ext) (simp add: transport_open1_def transport_open_def handshake1_eq)

section \<open>One iteration\<close>

lemma control_step1_eq:
  "control_step1 fuel if_ip (t, ctx) =
     (if app_recv_queue ctx = [] \<and> network_recv_queue ctx = [] \<and> \<not> close_requested ctx then Inr None
      else bindw (if network_recv_queue ctx \<noteq> []
          then on_network_data if_ip t (ctx\<lparr>close_requested := close_requested ctx \<and> app_recv_queue ctx \<noteq> []\<rparr>)
          else Inr (Some (t, ctx\<lparr>close_requested := close_requested ctx \<and> app_recv_queue ctx \<noteq> []\<rparr>))) (\<lambda>(t', ctx').
        bindw (if app_recv_queue ctx \<noteq> [] \<and> sender_window t > 0
          then on_app_data fuel if_ip (nat (sender_window t)) t' ctx' else Inr (Some (t', ctx'))) (\<lambda>(t', ctx').
            if close_requested ctx \<and> app_recv_queue ctx = [] then on_close if_ip t' ctx' else Inr (Some (t', ctx')))))"
proof -
  have same: "\<not> close_requested ctx \<Longrightarrow> ctx\<lparr>close_requested := False\<rparr> = ctx"
    "close_requested ctx \<Longrightarrow> ctx\<lparr>close_requested := True\<rparr> = ctx" by (cases ctx, simp)+
  show ?thesis
    by (cases "app_recv_queue ctx = []"; cases "network_recv_queue ctx = []"; cases "close_requested ctx")
      (simp_all add: same control_step1_def stcp_wait_for_event_def Let_def ANY_EVENT_def APP_DATA_def NETWORK_DATA_def
        APP_CLOSE_REQUESTED_def)
qed

text \<open>The window, while no more than a few windows are under way.\<close>

definition in_flight :: "context_t \<Rightarrow> nat" where
  "in_flight t = unat (current_sequence_num t - ack_num t)"

lemma sender_window_eq:
  assumes "in_flight t \<le> 2 ^ 30"
  shows "sender_window t = int SENDER_WINDOW - int (in_flight t)"
proof -
  have "word_of_nat SENDER_WINDOW - (current_sequence_num t - ack_num t) =
      (word_of_int (int SENDER_WINDOW - int (in_flight t)) :: uint32)"
    by (simp add: in_flight_def)
  then have "sender_window t = signed_take_bit 31 (int SENDER_WINDOW - int (in_flight t))"
    by (simp only: sender_window_def sint_sbintrunc') simp
  also have "\<dots> = int SENDER_WINDOW - int (in_flight t)"
    using assms by (intro signed_take_bit_int_eq_self) (auto simp: SENDER_WINDOW_def)
  finally show ?thesis .
qed

end
