(* ===== verification/Stcp_Stream.thy ===== *)
theory Stcp_Stream
  imports Stcp_Window "HOL-Library.Sublist"
begin

text \<open>
  Two connected ends of an STCP connection, in any interleaving of what can happen: applications write, read
  and close, the transport threads take turns, packets arrive. The state of the pair is that of both ends
  and the bytes between them; the contract of a transport layer in this is a locale, which both
  transport layers satisfy.
\<close>

section \<open>Packets and what they say\<close>

datatype seg = Data_seg uint32 "byte list" | Ack_seg uint32 | Fin_seg uint32

definition seg :: "byte list \<Rightarrow> seg" where
  "seg p = (if th_flags p AND TH_ACK \<noteq> 0 then Ack_seg (ntohl (th_ack p))
     else if th_flags p AND TH_FIN \<noteq> 0 then Fin_seg (th_seq p) else Data_seg (th_seq p) (drop 20 p))"

text \<open>The packets of an established connection; only segments with data are longer than a header.\<close>

definition good_packet :: "uint32 \<Rightarrow> uint32 \<Rightarrow> byte list \<Rightarrow> bool" where
  "good_packet if_ip peer p \<longleftrightarrow> 20 \<le> length p \<and> length p \<le> 556 \<and> mysock_verify_checksum if_ip peer p = Inr True \<and>
     (th_flags p = 0 \<or> (th_flags p = TH_ACK \<or> th_flags p = TH_FIN) \<and> length p = 20)"

lemma good_packetD:
  assumes "good_packet if_ip peer p"
  shows "20 \<le> length p" "length p \<le> 556" "p \<noteq> []" "mysock_verify_checksum if_ip peer p = Inr True"
  using assms by (auto simp: good_packet_def)

fun seg_data :: "seg \<Rightarrow> byte list" where
  "seg_data (Data_seg q d) = d"
| "seg_data (Ack_seg n) = []"
| "seg_data (Fin_seg q) = []"

lemma seg_data_good: "good_packet if_ip peer p \<Longrightarrow> seg_data (seg p) = drop 20 p"
  by (auto simp: seg_def good_packet_def)

text \<open>What an end answers to a packet.\<close>

fun seg_reply :: "seg \<Rightarrow> seg list" where
  "seg_reply (Data_seg q d) = [Ack_seg (q + word_of_nat (length d))]"
| "seg_reply (Ack_seg n) = []"
| "seg_reply (Fin_seg q) = [Ack_seg (q + 1)]"

fun seg_state :: "seg \<Rightarrow> context_t \<Rightarrow> cstate" where
  "seg_state (Data_seg q d) t = connection_state t"
| "seg_state (Ack_seg n) t = (if n = fin_ack_sequence_num t \<and> connection_state t = CSTATE_FIN_WAIT_1
     then CSTATE_FIN_WAIT_2 else connection_state t)"
| "seg_state (Fin_seg q) t = (if connection_state t = CSTATE_ESTABLISHED then CSTATE_CLOSE_WAIT
     else if connection_state t = CSTATE_FIN_WAIT_2 then CSTATE_CLOSED else connection_state t)"

fun seg_done :: "seg \<Rightarrow> context_t \<Rightarrow> bool" where
  "seg_done (Fin_seg q) t = (is_done t \<or> connection_state t = CSTATE_FIN_WAIT_2)"
| "seg_done _ t = is_done t"

fun seg_ack :: "seg \<Rightarrow> context_t \<Rightarrow> uint32" where
  "seg_ack (Ack_seg n) t = n"
| "seg_ack _ t = ack_num t"

lemma segment_good:
  assumes "segment_of if_ip ctx port q a f d p"
  shows "f = 0 \<Longrightarrow> length d \<le> 536 \<Longrightarrow> good_packet (peer_ip ctx) if_ip p \<and> seg p = Data_seg q d"
    and "f = TH_ACK \<Longrightarrow> d = [] \<Longrightarrow> good_packet (peer_ip ctx) if_ip p \<and> seg p = Ack_seg a"
    and "f = TH_FIN \<Longrightarrow> d = [] \<Longrightarrow> good_packet (peer_ip ctx) if_ip p \<and> seg p = Fin_seg q"
  using assms by (simp_all add: segment_of_def good_packet_def seg_def flag_defs)

section \<open>What a turn does to its context\<close>

definition able :: "uint32 \<Rightarrow> mysock_context \<Rightarrow> bool" where
  "able if_ip ctx \<longleftrightarrow> (\<exists>s. stcp_ready if_ip ctx s)"

definition tx_bytes :: "mysock_context \<Rightarrow> byte list" where
  "tx_bytes ctx = (case impl_data (network_state ctx) of None \<Rightarrow> [] | Some io \<Rightarrow>
     (case socket io of None \<Rightarrow> [] | Some s \<Rightarrow> tx s))"

lemma tx_bytes_ready: "stcp_ready if_ip ctx s \<Longrightarrow> tx_bytes ctx = tx s"
  by (auto simp: stcp_ready_def open_conn_def tx_bytes_def)

text \<open>The packets \<open>ps\<close> have been put on the connection.\<close>

definition emits :: "uint32 \<Rightarrow> mysock_context \<Rightarrow> byte list list \<Rightarrow> mysock_context \<Rightarrow> bool" where
  "emits if_ip ctx ps ctx' \<longleftrightarrow> able if_ip ctx \<and> able if_ip ctx' \<and> peer_ip ctx' = peer_ip ctx \<and>
     tx_bytes ctx' = tx_bytes ctx @ concat (map dgram ps) \<and> list_all (good_packet (peer_ip ctx) if_ip) ps"

lemma emits_trans: "emits if_ip ctx ps ctx' \<Longrightarrow> emits if_ip ctx' qs ctx'' \<Longrightarrow> emits if_ip ctx (ps @ qs) ctx''"
  by (auto simp: emits_def)

lemma emitsI:
  assumes "stcp_ready if_ip ctx s" and "stcp_ready if_ip ctx' s'" and "peer_ip ctx' = peer_ip ctx"
    and "tx s' = tx s @ concat (map dgram ps)" and "list_all (good_packet (peer_ip ctx) if_ip) ps"
  shows "emits if_ip ctx ps ctx'"
  using assms tx_bytes_ready [OF assms(1)] tx_bytes_ready [OF assms(2)] by (auto simp: emits_def able_def)

lemma able_eof [simp]: "able if_ip (ctx\<lparr>eof := e\<rparr>) = able if_ip ctx" "peer_ip (ctx\<lparr>eof := e\<rparr>) = peer_ip ctx"
  "tx_bytes (ctx\<lparr>eof := e\<rparr>) = tx_bytes ctx"
  by (simp_all add: able_def stcp_ready_def peer_ip_def peer_port_def open_conn_def tx_bytes_def)

lemma able_queues [simp]:
  "able if_ip (ctx\<lparr>network_recv_queue := q\<rparr>) = able if_ip ctx" "able if_ip (ctx\<lparr>app_recv_queue := q\<rparr>) = able if_ip ctx"
  "able if_ip (ctx\<lparr>app_send_queue := q\<rparr>) = able if_ip ctx" "able if_ip (ctx\<lparr>close_requested := b\<rparr>) = able if_ip ctx"
  by (simp_all add: able_def stcp_ready_queues)

lemma tx_bytes_queues [simp]:
  "tx_bytes (ctx\<lparr>network_recv_queue := q\<rparr>) = tx_bytes ctx" "tx_bytes (ctx\<lparr>app_recv_queue := q\<rparr>) = tx_bytes ctx"
  "tx_bytes (ctx\<lparr>app_send_queue := q\<rparr>) = tx_bytes ctx" "tx_bytes (ctx\<lparr>close_requested := b\<rparr>) = tx_bytes ctx"
  by (simp_all add: tx_bytes_def)

text \<open>The effect of a packet that has arrived.\<close>

definition noticed :: "byte list \<Rightarrow> context_t \<Rightarrow> context_t \<Rightarrow> bool" where
  "noticed p t t' \<longleftrightarrow> current_sequence_num t' = current_sequence_num t \<and> fin_ack_sequence_num t' = fin_ack_sequence_num t \<and>
     ack_num t' = seg_ack (seg p) t \<and> connection_state t' = seg_state (seg p) t \<and> is_done t' = seg_done (seg p) t"

definition consumed :: "byte list \<Rightarrow> byte list list \<Rightarrow> mysock_context \<Rightarrow> mysock_context \<Rightarrow> bool" where
  "consumed p rest ctx ctx' \<longleftrightarrow> network_recv_queue ctx' = rest \<and> app_recv_queue ctx' = app_recv_queue ctx \<and>
     close_requested ctx' = close_requested ctx \<and>
     app_send_queue ctx' = app_send_queue ctx @
       (case seg p of Fin_seg q \<Rightarrow> [[]] | Data_seg q d \<Rightarrow> if d = [] then [] else [d] | Ack_seg n \<Rightarrow> [])"

lemma recv_good:
  assumes "stcp_ready if_ip ctx s" and "network_recv_queue ctx = p # rest" and "good_packet if_ip (peer_ip ctx) p"
  shows "stcp_network_recv if_ip ctx 0 (replicate (STCP_MSS + 20) 0) =
    Inr (Some (length p, p @ replicate (556 - length p) 0, 0, ctx\<lparr>network_recv_queue := rest\<rparr>))"
  using recv_ready [OF assms(1,2), of 556 0] good_packetD [OF assms(3)] by (simp add: STCP_MSS_def)

lemma padded_fields:
  assumes "good_packet if_ip peer p"
  shows "th_flags (p @ z) = th_flags p" "on_ack (p @ z) t = on_ack p t" "note_peer (p @ z) t = note_peer p t"
  using fields_append [OF good_packetD(1) [OF assms]] by (simp_all add: on_ack_def note_peer_def)

lemma ack_effect:
  assumes "stcp_ready if_ip ctx s" and "network_recv_queue ctx = p # rest" and "good_packet if_ip (peer_ip ctx) p"
    and "th_flags p AND TH_ACK \<noteq> 0"
  shows "on_network_data if_ip t ctx = Inr (Some (on_ack p t, ctx\<lparr>network_recv_queue := rest\<rparr>)) \<and>
    emits if_ip ctx [] (ctx\<lparr>network_recv_queue := rest\<rparr>) \<and> noticed p t (on_ack p t) \<and>
    consumed p rest ctx (ctx\<lparr>network_recv_queue := rest\<rparr>) \<and> seg_reply (seg p) = []"
proof -
  have "able if_ip ctx" using assms(1) by (auto simp: able_def)
  then show ?thesis
    using assms(4) recv_good [OF assms(1-3)] padded_fields [OF assms(3)]
    by (auto simp: on_network_data_def emits_def noticed_def consumed_def seg_def on_ack_def)
qed

lemma data_effect:
  assumes "stcp_ready if_ip ctx s" and "network_recv_queue ctx = p # rest" and "good_packet if_ip (peer_ip ctx) p"
    and "th_flags p = 0"
  shows "\<exists>a ctx'. on_network_data if_ip t ctx = Inr (Some (note_peer p t, ctx')) \<and> emits if_ip ctx [a] ctx' \<and>
    [seg a] = seg_reply (seg p) \<and> noticed p t (note_peer p t) \<and> consumed p rest ctx ctx'"
proof -
  let ?c = "ctx\<lparr>network_recv_queue := rest\<rparr>" and ?z = "replicate (556 - length p) 0"
  have "stcp_ready if_ip ?c s" using assms(1) by (simp add: stcp_ready_queues)
  from on_data_ready [OF this good_packetD(1) [OF assms(3)], of ?z t] obtain a s' where
    a: "on_data if_ip (p @ ?z) (length p) t ?c = Inr (Some (note_peer p t, sent (stcp_app_send ?c (drop 20 p)) s'))"
      "segment_of if_ip ?c (sock_port s) 0 (th_seq p + word_of_nat (length p - 20)) TH_ACK [] a" "tx s' = tx s @ dgram a"
      "stcp_ready if_ip (sent (stcp_app_send ?c (drop 20 p)) s') s'"
    by blast
  have "on_network_data if_ip t ctx = Inr (Some (note_peer p t, sent (stcp_app_send ?c (drop 20 p)) s'))"
    using a(1) recv_good [OF assms(1-3)] padded_fields [OF assms(3)] assms(4) by (simp add: on_network_data_def)
  moreover have "good_packet (peer_ip ctx) if_ip a" "seg a = Ack_seg (th_seq p + word_of_nat (length p - 20))"
    using segment_good(2) [OF a(2)] by simp_all
  moreover from this have "emits if_ip ctx [a] (sent (stcp_app_send ?c (drop 20 p)) s')"
    using a(3) by (intro emitsI [OF assms(1) a(4)]) simp_all
  moreover have "consumed p rest ctx (sent (stcp_app_send ?c (drop 20 p)) s')"
    using assms(4) by (auto simp: consumed_def seg_def)
  ultimately show ?thesis
    using assms(4) by (auto simp: noticed_def note_peer_def seg_def)
qed

lemma fin_effect:
  assumes "stcp_ready if_ip ctx s" and "network_recv_queue ctx = p # rest" and "good_packet if_ip (peer_ip ctx) p"
    and "th_flags p = TH_FIN"
  shows "\<exists>a t' ctx'. on_network_data if_ip t ctx = Inr (Some (t', ctx')) \<and> emits if_ip ctx [a] ctx' \<and>
    [seg a] = seg_reply (seg p) \<and> noticed p t t' \<and> consumed p rest ctx ctx'"
proof -
  let ?c = "stcp_fin_received (ctx\<lparr>network_recv_queue := rest\<rparr>)" and ?z = "replicate (556 - length p) 0"
  have len: "length p = 20" and seg: "seg p = Fin_seg (th_seq p)"
    using assms(3,4) by (auto simp: good_packet_def seg_def flag_defs)
  have rdy: "stcp_ready if_ip ?c s" using assms(1) by (simp add: stcp_fin_received_def stcp_ready_queues)
  obtain a s' where
    a: "stcp_network_send if_ip ?c (stcp_header 0 (th_seq p + 1) TH_ACK) [] = Inr (Some (20, 0, sent ?c s'))"
      "segment_of if_ip ?c (sock_port s) 0 (th_seq p + 1) TH_ACK [] a" "tx s' = tx s @ dgram a" "stcp_ready if_ip (sent ?c s') s'"
    using send_segment [OF rdy, of "[]" 0 "th_seq p + 1" TH_ACK] by auto
  have peer: "peer_ip ?c = peer_ip ctx" by (simp add: stcp_fin_received_def)
  have flags: "th_flags p AND TH_ACK = 0" "th_flags p AND TH_FIN \<noteq> 0" using assms(4) by (simp_all add: flag_defs)
  have "on_network_data if_ip t ctx = on_fin if_ip (p @ ?z) 20 t (ctx\<lparr>network_recv_queue := rest\<rparr>)"
    using recv_good [OF assms(1-3)] padded_fields [OF assms(3)] flags len by (simp add: on_network_data_def)
  also have "\<dots> = Inr (Some ((if connection_state t = CSTATE_ESTABLISHED then (note_peer p t)\<lparr>connection_state := CSTATE_CLOSE_WAIT\<rparr>
      else if connection_state t = CSTATE_FIN_WAIT_2 then (note_peer p t)\<lparr>connection_state := CSTATE_CLOSED, is_done := True\<rparr>
      else note_peer p t), sent ?c s'))"
    using a(1) padded_fields [OF assms(3)] by (simp add: on_fin_def Let_def note_peer_def)
  finally have step: "on_network_data if_ip t ctx = \<dots>" .
  have "good_packet (peer_ip ctx) if_ip a \<and> seg a = Ack_seg (th_seq p + 1)"
    using segment_good(2) [OF a(2)] peer by simp
  moreover from this have "emits if_ip ctx [a] (sent ?c s')"
    using a(3) peer by (intro emitsI [OF assms(1) a(4)]) simp_all
  moreover have "consumed p rest ctx (sent ?c s')"
    by (simp add: consumed_def seg stcp_fin_received_def enqueue_def)
  ultimately show ?thesis
    unfolding step by (auto simp: noticed_def note_peer_def seg)
qed

lemma on_network_data_effect:
  assumes "able if_ip ctx" and "network_recv_queue ctx = p # rest" and "good_packet if_ip (peer_ip ctx) p"
  shows "\<exists>ps t' ctx'. on_network_data if_ip t ctx = Inr (Some (t', ctx')) \<and> emits if_ip ctx ps ctx' \<and>
    map seg ps = seg_reply (seg p) \<and> noticed p t t' \<and> consumed p rest ctx ctx'"
proof -
  obtain s where s: "stcp_ready if_ip ctx s" using assms(1) by (auto simp: able_def)
  have "th_flags p AND TH_ACK \<noteq> 0 \<or> th_flags p = 0 \<or> th_flags p = TH_FIN"
    using assms(3) by (auto simp: good_packet_def flag_defs)
  then consider "th_flags p AND TH_ACK \<noteq> 0" | "th_flags p = 0" | "th_flags p = TH_FIN" by blast
  then show ?thesis
  proof cases
    case 1
    with ack_effect [OF s assms(2,3)] show ?thesis by (intro exI [of _ "[]"]) auto
  next
    case 2
    with data_effect [OF s assms(2,3)] show ?thesis by (metis list.map)
  next
    case 3
    with fin_effect [OF s assms(2,3)] show ?thesis by (metis list.map)
  qed
qed

text \<open>The effect of written data: as much as the window admits becomes segments.\<close>

lemma on_app_data_min:
  "app_recv_queue ctx = d # ds \<Longrightarrow> on_app_data fuel if_ip window t ctx = on_app_data fuel if_ip (min window (length d)) t ctx"
  by (auto simp: on_app_data_def stcp_app_recv_def dequeue_def min_def)

definition data_segs :: "uint32 \<Rightarrow> byte list \<Rightarrow> seg list" where
  "data_segs q d = map (\<lambda>(q, d). Data_seg q d) (segments q d)"

lemma segments_good:
  assumes "list_all2 (\<lambda>(q, d) p. segment_of if_ip ctx port q 0 0 d p) (segments q d) ps"
  shows "list_all (good_packet (peer_ip ctx) if_ip) ps \<and> map seg ps = data_segs q d"
proof -
  have "list_all (\<lambda>e. length (snd e) \<le> 536) (segments q d)"
    using segments_bound by (fastforce simp: list_all_iff STCP_MSS_def)
  with assms show ?thesis
    unfolding data_segs_def by (induction rule: list_all2_induct) (auto dest: segment_good(1))
qed

lemma on_app_data_effect:
  assumes "able if_ip ctx" and "app_recv_queue ctx = d # ds" and "min window (length d) \<le> SENDER_WINDOW" and "6 \<le> fuel"
  shows "\<exists>ps ctx'. on_app_data fuel if_ip window t ctx = Inr (Some
      (t\<lparr>current_sequence_num := current_sequence_num t + word_of_nat (min window (length d))\<rparr>, ctx')) \<and>
    emits if_ip ctx ps ctx' \<and> map seg ps = data_segs (current_sequence_num t) (take window d) \<and>
    app_recv_queue ctx' = (if window < length d then drop window d # ds else ds) \<and>
    app_send_queue ctx' = app_send_queue ctx \<and> network_recv_queue ctx' = network_recv_queue ctx \<and>
    close_requested ctx' = close_requested ctx"
proof -
  let ?n = "min window (length d)"
  obtain s where s: "stcp_ready if_ip ctx s" using assms(1) by (auto simp: able_def)
  let ?c = "ctx\<lparr>app_recv_queue := (if ?n < length d then drop ?n d # ds else ds)\<rparr>"
  obtain ps s' where ps: "on_app_data fuel if_ip ?n t ctx = Inr (Some
        (t\<lparr>current_sequence_num := current_sequence_num t + word_of_nat (min ?n (length d))\<rparr>, sent ?c s'))"
      "tx s' = tx s @ concat (map dgram ps)" "stcp_ready if_ip (sent ?c s') s'"
      "list_all2 (\<lambda>(q, d) p. segment_of if_ip ctx (sock_port s) q 0 0 d p) (segments (current_sequence_num t) (take ?n d)) ps"
    using on_app_data_ready [OF s assms(2,3,4), of t] by blast
  have segs: "list_all (good_packet (peer_ip ctx) if_ip) ps" "map seg ps = data_segs (current_sequence_num t) (take ?n d)"
    using segments_good [OF ps(4)] by simp_all
  have eq: "take ?n d = take window d" "min ?n (length d) = ?n"
    "(if ?n < length d then drop ?n d # ds else ds) = (if window < length d then drop window d # ds else ds)"
    by (auto simp: min_def)
  have "emits if_ip ctx ps (sent ?c s')"
    by (intro emitsI [OF s ps(3) _ ps(2) segs(1)]) simp
  with ps(1) segs(2) show ?thesis
    unfolding eq on_app_data_min [OF assms(2), of fuel if_ip window]
    by (intro exI [of _ ps] exI [of _ "sent ?c s'"]) (simp add: eq)
qed

lemma on_app_data_overflow:
  "app_recv_queue ctx = d # ds \<Longrightarrow> \<not> min window (length d) \<le> SENDER_WINDOW \<Longrightarrow>
   on_app_data fuel if_ip window t ctx = Inl Out_of_bounds"
  by (auto simp: on_app_data_def stcp_app_recv_def dequeue_def min_def split: if_splits)

text \<open>The effect of a close.\<close>

definition after_close :: "context_t \<Rightarrow> context_t" where
  "after_close t = t\<lparr>current_sequence_num := current_sequence_num t + 1, fin_ack_sequence_num := current_sequence_num t + 1,
     connection_state := (if connection_state t = CSTATE_ESTABLISHED then CSTATE_FIN_WAIT_1 else CSTATE_CLOSED),
     is_done := (is_done t \<or> connection_state t \<noteq> CSTATE_ESTABLISHED)\<rparr>"

lemma on_close_effect:
  assumes "able if_ip ctx"
  shows "\<exists>p ctx'. on_close if_ip t ctx = Inr (Some (after_close t, ctx')) \<and> emits if_ip ctx [p] ctx' \<and>
    seg p = Fin_seg (current_sequence_num t) \<and> app_recv_queue ctx' = app_recv_queue ctx \<and>
    app_send_queue ctx' = app_send_queue ctx \<and> network_recv_queue ctx' = network_recv_queue ctx \<and>
    close_requested ctx' = close_requested ctx"
proof -
  obtain s where s: "stcp_ready if_ip ctx s" using assms by (auto simp: able_def)
  obtain p s' where
    p: "stcp_network_send if_ip ctx (stcp_header (current_sequence_num t) 0 TH_FIN) [] = Inr (Some (20, 0, sent ctx s'))"
      "segment_of if_ip ctx (sock_port s) (current_sequence_num t) 0 TH_FIN [] p" "tx s' = tx s @ dgram p"
      "stcp_ready if_ip (sent ctx s') s'"
    using send_segment [OF s, of "[]" "current_sequence_num t" 0 TH_FIN] by auto
  have "good_packet (peer_ip ctx) if_ip p \<and> seg p = Fin_seg (current_sequence_num t)"
    using segment_good(3) [OF p(2)] by simp
  moreover from this have "emits if_ip ctx [p] (sent ctx s')"
    using p(3) by (intro emitsI [OF s p(4)]) simp_all
  moreover have "on_close if_ip t ctx = Inr (Some (after_close t, sent ctx s'))"
    using p(1) by (cases t) (simp add: on_close_def next_seq_def after_close_def Let_def)
  ultimately show ?thesis by (intro exI [of _ p] exI [of _ "sent ctx s'"]) simp
qed

section \<open>The flow of data through a turn\<close>

text \<open>
  From \<open>ctx\<close> to \<open>ctx'\<close> the packets \<open>ins\<close> have been taken from the network and \<open>ps\<close> put on it; the data of the former went
  to the application, the data of the latter was taken from it.
\<close>

definition flow ::
  "uint32 \<Rightarrow> mysock_context \<Rightarrow> byte list list \<Rightarrow> byte list list \<Rightarrow> mysock_context \<Rightarrow> bool" where
  "flow if_ip ctx ins ps ctx' \<longleftrightarrow> emits if_ip ctx ps ctx' \<and> network_recv_queue ctx = ins @ network_recv_queue ctx' \<and>
     concat (app_send_queue ctx') = concat (app_send_queue ctx) @ concat (map (seg_data \<circ> seg) ins) \<and>
     concat (app_recv_queue ctx) = concat (map (seg_data \<circ> seg) ps) @ concat (app_recv_queue ctx')"

lemma flow_trans:
  "flow if_ip ctx ins ps ctx' \<Longrightarrow> flow if_ip ctx' ins' ps' ctx'' \<Longrightarrow> flow if_ip ctx (ins @ ins') (ps @ ps') ctx''"
  by (auto simp: flow_def emits_trans)

lemma flow_refl: "able if_ip ctx \<Longrightarrow> flow if_ip ctx [] [] (ctx\<lparr>close_requested := b\<rparr>)"
  by (simp add: flow_def emits_def)

lemma flow_same: "able if_ip ctx \<Longrightarrow> flow if_ip ctx [] [] ctx"
  by (simp add: flow_def emits_def)

lemma flow_able: "flow if_ip ctx ins ps ctx' \<Longrightarrow> able if_ip ctx' \<and> peer_ip ctx' = peer_ip ctx"
  by (simp add: flow_def emits_def)

lemma reply_no_data: "map seg ps = seg_reply g \<Longrightarrow> concat (map (seg_data \<circ> seg) ps) = []"
  by (cases g) (auto simp: Cons_eq_map_conv simp flip: map_map)

lemma concat_data_segs: "concat (map seg_data (data_segs q d)) = d"
proof -
  have "map seg_data (data_segs q d) = map snd (segments q d)" by (auto simp: data_segs_def)
  then show ?thesis by (simp add: concat_segments)
qed

lemma network_flow:
  assumes "emits if_ip ctx ps ctx'" and "map seg ps = seg_reply (seg p)" and "consumed p rest ctx ctx'"
    and "network_recv_queue ctx = p # rest"
  shows "flow if_ip ctx [p] ps ctx'"
  using assms reply_no_data [OF assms(2)] by (cases "seg p") (auto simp: flow_def consumed_def)

lemma app_flow:
  assumes "emits if_ip ctx ps ctx'" and "map seg ps = data_segs q (take window d)" and "app_recv_queue ctx = d # ds"
    and "app_recv_queue ctx' = (if window < length d then drop window d # ds else ds)"
    and "app_send_queue ctx' = app_send_queue ctx" and "network_recv_queue ctx' = network_recv_queue ctx"
  shows "flow if_ip ctx [] ps ctx'"
proof -
  have "concat (map (seg_data \<circ> seg) ps) = take window d"
    using concat_data_segs [of q "take window d"] by (simp flip: assms(2))
  with assms show ?thesis by (simp add: flow_def)
qed

lemma close_flow:
  assumes "emits if_ip ctx [p] ctx'" and "seg p = Fin_seg q" and "app_recv_queue ctx' = app_recv_queue ctx"
    and "app_send_queue ctx' = app_send_queue ctx" and "network_recv_queue ctx' = network_recv_queue ctx"
  shows "flow if_ip ctx [] [p] ctx'"
  using assms by (simp add: flow_def)

lemma on_network_data_flow:
  assumes "able if_ip ctx" and "list_all (good_packet if_ip (peer_ip ctx)) (network_recv_queue ctx)" and "network_recv_queue ctx \<noteq> []"
  shows "\<exists>t' ctx' ins ps. on_network_data if_ip t ctx = Inr (Some (t', ctx')) \<and> flow if_ip ctx ins ps ctx'"
proof -
  obtain p rest where q: "network_recv_queue ctx = p # rest" using assms(3) by (cases "network_recv_queue ctx") auto
  with on_network_data_effect [OF assms(1) q, of t] assms(2) network_flow [OF _ _ _ q] show ?thesis by fastforce
qed

lemma on_app_data_flow:
  assumes "able if_ip ctx" and "app_recv_queue ctx = d # ds" and "min window (length d) \<le> SENDER_WINDOW" and "6 \<le> fuel"
  shows "\<exists>t' ctx' ps. on_app_data fuel if_ip window t ctx = Inr (Some (t', ctx')) \<and> flow if_ip ctx [] ps ctx'"
  using on_app_data_effect [OF assms, of t] app_flow [OF _ _ assms(2)] by blast

lemma on_close_flow:
  assumes "able if_ip ctx"
  shows "\<exists>t' ctx' ps. on_close if_ip t ctx = Inr (Some (t', ctx')) \<and> flow if_ip ctx [] ps ctx'"
  using on_close_effect [OF assms, of t] close_flow by blast

lemma control_step_flow:
  assumes "able if_ip ctx" and "list_all (good_packet if_ip (peer_ip ctx)) (network_recv_queue ctx)" and "6 \<le> fuel"
    and "window \<le> SENDER_WINDOW"
  shows "control_step fuel if_ip window (t, ctx) = Inr None \<or>
    (\<exists>t' ctx' ins ps. control_step fuel if_ip window (t, ctx) = Inr (Some (t', ctx')) \<and> flow if_ip ctx ins ps ctx')"
proof (cases "app_recv_queue ctx = [] \<and> network_recv_queue ctx = [] \<and> \<not> close_requested ctx")
  case False
  let ?app = "if app_recv_queue ctx \<noteq> [] \<and> connection_state t = CSTATE_ESTABLISHED then on_app_data fuel if_ip window t ctx
    else Inr (Some (t, ctx\<lparr>close_requested := close_requested ctx \<and> app_recv_queue ctx \<noteq> []\<rparr>))"
  obtain t1 c1 ps1 where 1: "?app = Inr (Some (t1, c1))" "flow if_ip ctx [] ps1 c1"
  proof (cases "app_recv_queue ctx \<noteq> [] \<and> connection_state t = CSTATE_ESTABLISHED")
    case True
    then obtain d ds where "app_recv_queue ctx = d # ds" by (cases "app_recv_queue ctx") auto
    with on_app_data_flow [OF assms(1) this min.coboundedI1 [OF assms(4)] assms(3), of t] True that show thesis by auto
  qed (use flow_refl [OF assms(1)] that in auto)
  have able1: "able if_ip c1" "list_all (good_packet if_ip (peer_ip c1)) (network_recv_queue c1)" "network_recv_queue c1 = network_recv_queue ctx"
    using 1(2) flow_able [OF 1(2)] assms(2) by (auto simp: flow_def)
  let ?net = "if network_recv_queue ctx \<noteq> [] \<and> connection_state t1 = CSTATE_ESTABLISHED then on_network_data if_ip t1 c1
    else Inr (Some (t1, c1))"
  obtain t2 c2 ins2 ps2 where 2: "?net = Inr (Some (t2, c2))" "flow if_ip c1 ins2 ps2 c2"
    using on_network_data_flow [OF able1(1,2), of t1] able1(3) flow_same [OF able1(1)]
    by (cases "network_recv_queue ctx \<noteq> [] \<and> connection_state t1 = CSTATE_ESTABLISHED") auto
  let ?cl = "if close_requested ctx \<and> app_recv_queue ctx = [] then on_close if_ip t2 c2 else Inr (Some (t2, c2))"
  obtain t3 c3 ps3 where 3: "?cl = Inr (Some (t3, c3))" "flow if_ip c2 [] ps3 c3"
    using on_close_flow [of if_ip c2 t2] flow_able [OF 2(2)] flow_same [of if_ip c2]
    by (cases "close_requested ctx \<and> app_recv_queue ctx = []") auto
  have "control_step fuel if_ip window (t, ctx) = Inr (Some (t3, c3))"
    by (simp only: control_step_eq False if_False 1(1) bindw_simps prod.case 2(1) 3(1))
  then show ?thesis using flow_trans [OF flow_trans [OF 1(2) 2(2)] 3(2)] by blast
qed (simp add: control_step_eq)

section \<open>Two ends\<close>

text \<open>
  One end: its address, transport layer and context, the bytes under way to it, what its application has written and
  read so far, and whether it has closed.
\<close>

record side =
  host :: uint32
  tp :: context_t
  mc :: mysock_context
  wire :: "byte list"
  written :: "byte list"
  got :: "byte list"
  closing :: bool

text \<open>
  What the end \<open>a\<close> with the peer \<open>b\<close> can do: a turn of its transport thread, which puts bytes on the way to \<open>b\<close>;
  the receipt of a packet by its receiving thread; and the \<^verbatim>\<open>mywrite\<close>, \<^verbatim>\<open>myread\<close> and \<^verbatim>\<open>myclose\<close> of its application, which
  writes nothing after it has closed. A read that returns 0 bytes, also one into a buffer of size 0, sets the flag for the end of the data, and
  later reads return 0. The argument of \<open>turn\<close> is the window of \<^verbatim>\<open>transport.c\<close>, at most the size of its buffer.
\<close>

inductive side_step ::
  "(nat \<Rightarrow> uint32 \<Rightarrow> context_t \<times> mysock_context \<Rightarrow> fault + (context_t \<times> mysock_context) option) \<Rightarrow>
   side \<Rightarrow> side \<Rightarrow> side \<Rightarrow> side \<Rightarrow> bool" for turn where
  turns: "\<not> is_done (tp a) \<Longrightarrow> window \<le> SENDER_WINDOW \<Longrightarrow> turn window (host a) (tp a, mc a) = Inr (Some (t, ctx)) \<Longrightarrow>
    side_step turn a b (a\<lparr>tp := t, mc := ctx\<rparr>) (b\<lparr>wire := wire b @ drop (length (tx_bytes (mc a))) (tx_bytes ctx)\<rparr>)"
| receives: "wire a = dgram p @ rest \<Longrightarrow> length p \<le> 1500 \<Longrightarrow>
    side_step turn a b (a\<lparr>wire := rest, mc := (mc a)\<lparr>network_recv_queue := enqueue (network_recv_queue (mc a)) p\<rparr>\<rparr>) b"
| writes: "\<not> closing a \<Longrightarrow> side_step turn a b
    (a\<lparr>written := written a @ d, mc := (mc a)\<lparr>app_recv_queue := enqueue (app_recv_queue (mc a)) d\<rparr>\<rparr>) b"
| reads: "\<not> eof (mc a) \<Longrightarrow> dequeue (app_send_queue (mc a)) n True = Some (bs, len, q) \<Longrightarrow>
    side_step turn a b (a\<lparr>got := got a @ bs, mc := (mc a)\<lparr>app_send_queue := q, eof := (len = 0)\<rparr>\<rparr>) b"
| closes: "\<not> closing a \<Longrightarrow> side_step turn a b (a\<lparr>closing := True, mc := (mc a)\<lparr>close_requested := True\<rparr>\<rparr>) b"

definition pair_step ::
  "(nat \<Rightarrow> uint32 \<Rightarrow> context_t \<times> mysock_context \<Rightarrow> fault + (context_t \<times> mysock_context) option) \<Rightarrow>
   side \<times> side \<Rightarrow> side \<times> side \<Rightarrow> bool" where
  "pair_step turn x y \<longleftrightarrow> side_step turn (fst x) (snd x) (fst y) (snd y) \<or> side_step turn (snd x) (fst x) (snd y) (fst y)"

text \<open>A connection on which nothing has been sent yet.\<close>

definition fresh_end :: "side \<Rightarrow> side \<Rightarrow> bool" where
  "fresh_end a b \<longleftrightarrow> able (host a) (mc a) \<and> peer_ip (mc a) = host b \<and> connection_state (tp a) = CSTATE_ESTABLISHED \<and>
     \<not> is_done (tp a) \<and> in_flight (tp a) \<le> 257 \<and> network_recv_queue (mc a) = [] \<and> app_recv_queue (mc a) = [] \<and>
     app_send_queue (mc a) = [] \<and> \<not> close_requested (mc a) \<and> wire a = [] \<and> written a = [] \<and> got a = [] \<and> \<not> closing a"

definition opened :: "side \<times> side \<Rightarrow> bool" where
  "opened x \<longleftrightarrow> fresh_end (fst x) (snd x) \<and> fresh_end (snd x) (fst x)"

text \<open>What an application can read now or has read.\<close>

definition received :: "side \<Rightarrow> byte list" where
  "received a = got a @ concat (app_send_queue (mc a))"

section \<open>Datagrams on the wire\<close>

lemma dgram_inj:
  assumes "dgram p @ r = dgram q @ s" and "length p < 65536" and "length q < 65536"
  shows "p = q \<and> r = s"
proof -
  have "unat (ntohs (le16 (take 2 (dgram p @ r)))) = length p" "unat (ntohs (le16 (take 2 (dgram q @ s)))) = length q"
    using length_header assms(2,3) by (simp_all add: dgram_def)
  then have "length p = length q" using assms(1) by metis
  then show ?thesis using assms(1) by (simp add: dgram_def)
qed

lemma wire_head:
  assumes "concat (map dgram ws) = dgram p @ rest" and "length p \<le> 1500" and "list_all (good_packet ip peer) ws"
  shows "\<exists>ws'. ws = p # ws' \<and> rest = concat (map dgram ws')"
proof (cases ws)
  case Nil
  with assms(1) show ?thesis by (simp add: dgram_def bytes16_def)
next
  case (Cons w ws')
  then show ?thesis
    using dgram_inj [of w "concat (map dgram ws')" p rest] assms by (auto dest: good_packetD(2))
qed

section \<open>What is under way\<close>

text \<open>
  The packets \<open>ps\<close> are under way from \<open>a\<close> to \<open>b\<close>, those the receiving thread has queued first; together with what
  \<open>b\<close> has received and what waits in the queue of \<open>a\<close> they hold all that was written.
\<close>

definition linked :: "side \<Rightarrow> side \<Rightarrow> byte list list \<Rightarrow> bool" where
  "linked a b ps \<longleftrightarrow> (\<exists>ws. wire b = concat (map dgram ws) \<and> ps = network_recv_queue (mc b) @ ws) \<and>
     list_all (good_packet (host b) (host a)) ps \<and>
     written a = received b @ concat (map (seg_data \<circ> seg) ps) @ concat (app_recv_queue (mc a))"

definition end_ok :: "side \<Rightarrow> side \<Rightarrow> bool" where
  "end_ok a b \<longleftrightarrow> able (host a) (mc a) \<and> peer_ip (mc a) = host b"

definition stream_inv :: "side \<times> side \<Rightarrow> bool" where
  "stream_inv x \<longleftrightarrow> end_ok (fst x) (snd x) \<and> end_ok (snd x) (fst x) \<and>
     (\<exists>ps. linked (fst x) (snd x) ps) \<and> (\<exists>ps. linked (snd x) (fst x) ps)"

lemma stream_inv_swap: "stream_inv (b, a) \<longleftrightarrow> stream_inv (a, b)"
  by (auto simp: stream_inv_def)

lemma linked_turn:
  assumes "end_ok a b" and "flow (host a) (mc a) ins ps ctx" and "linked a b pb" and "linked b a pa"
    and "a' = a\<lparr>tp := t, mc := ctx\<rparr>" and "b' = b\<lparr>wire := wire b @ drop (length (tx_bytes (mc a))) (tx_bytes ctx)\<rparr>"
  shows "end_ok a' b' \<and> linked a' b' (pb @ ps) \<and> (\<exists>pa'. pa = ins @ pa' \<and> linked b' a' pa')"
proof -
  have f: "emits (host a) (mc a) ps ctx" "network_recv_queue (mc a) = ins @ network_recv_queue ctx"
    "concat (app_send_queue ctx) = concat (app_send_queue (mc a)) @ concat (map (seg_data \<circ> seg) ins)"
    "concat (app_recv_queue (mc a)) = concat (map (seg_data \<circ> seg) ps) @ concat (app_recv_queue ctx)"
    using assms(2) by (simp_all add: flow_def)
  have e: "able (host a) ctx" "peer_ip ctx = host b" "list_all (good_packet (host b) (host a)) ps"
    "tx_bytes ctx = tx_bytes (mc a) @ concat (map dgram ps)"
    using f(1) assms(1) by (simp_all add: emits_def end_ok_def)
  have "end_ok a' b'" using e(1,2) by (simp add: end_ok_def assms(5,6))
  moreover obtain ws where "wire b = concat (map dgram ws)" "pb = network_recv_queue (mc b) @ ws"
    using assms(3) by (auto simp: linked_def)
  then have "linked a' b' (pb @ ps)"
    using assms(3) e(3,4) f(4) unfolding linked_def assms(5,6)
    by (intro conjI exI [of _ "ws @ ps"]) (simp_all add: received_def)
  moreover obtain ws' where "wire a = concat (map dgram ws')" "pa = ins @ network_recv_queue ctx @ ws'"
    using assms(4) f(2) by (auto simp: linked_def)
  moreover from this have "linked b' a' (network_recv_queue ctx @ ws')"
    using assms(4) f(3) unfolding linked_def assms(5,6)
    by (intro conjI exI [of _ ws']) (simp_all add: received_def)
  ultimately show ?thesis by blast
qed

lemma linked_receive:
  assumes "wire a = dgram p @ rest" and "length p \<le> 1500" and "linked a b pb" and "linked b a pa"
    and "a' = a\<lparr>wire := rest, mc := (mc a)\<lparr>network_recv_queue := enqueue (network_recv_queue (mc a)) p\<rparr>\<rparr>"
  shows "linked a' b pb \<and> linked b a' pa"
proof -
  obtain ws where ws: "wire a = concat (map dgram ws)" "pa = network_recv_queue (mc a) @ ws" "list_all (good_packet (host a) (host b)) ws"
    using assms(4) by (auto simp: linked_def)
  obtain ws' where ws': "ws = p # ws'" "rest = concat (map dgram ws')"
    using wire_head [OF _ assms(2) ws(3), of rest] ws(1) assms(1) by auto
  have "linked b a' pa"
    using assms(4) ws(2) ws' unfolding linked_def assms(5)
    by (intro conjI exI [of _ ws']) (simp_all add: enqueue_def received_def)
  moreover have "linked a' b pb" using assms(3) by (simp add: linked_def assms(5) received_def)
  ultimately show ?thesis by simp
qed

lemma dequeue_concat: "dequeue q n True = Some (bs, len, q') \<Longrightarrow> concat q = bs @ concat q'"
  by (auto simp: dequeue_def split: list.splits if_splits)

lemma linked_fresh: "fresh_end a b \<Longrightarrow> fresh_end b a \<Longrightarrow> linked a b []"
  by (simp add: fresh_end_def linked_def received_def)

text \<open>What the application does.\<close>

lemma linked_app:
  assumes "linked a b pb" and "linked b a pa"
  shows "linked (a\<lparr>written := written a @ d, mc := (mc a)\<lparr>app_recv_queue := enqueue (app_recv_queue (mc a)) d\<rparr>\<rparr>) b pb \<and>
      linked b (a\<lparr>written := written a @ d, mc := (mc a)\<lparr>app_recv_queue := enqueue (app_recv_queue (mc a)) d\<rparr>\<rparr>) pa"
    and "dequeue (app_send_queue (mc a)) n True = Some (bs, len, q) \<Longrightarrow>
      linked (a\<lparr>got := got a @ bs, mc := (mc a)\<lparr>app_send_queue := q, eof := e\<rparr>\<rparr>) b pb \<and>
      linked b (a\<lparr>got := got a @ bs, mc := (mc a)\<lparr>app_send_queue := q, eof := e\<rparr>\<rparr>) pa"
    and "linked (a\<lparr>closing := c, mc := (mc a)\<lparr>close_requested := r\<rparr>\<rparr>) b pb \<and>
      linked b (a\<lparr>closing := c, mc := (mc a)\<lparr>close_requested := r\<rparr>\<rparr>) pa"
  using assms by (auto simp: linked_def received_def enqueue_def dest: dequeue_concat)

section \<open>The contract of a transport layer\<close>

locale stream_transport =
  fixes turn :: "nat \<Rightarrow> uint32 \<Rightarrow> context_t \<times> mysock_context \<Rightarrow> fault + (context_t \<times> mysock_context) option"
  assumes turn_flow: "able if_ip ctx \<Longrightarrow> list_all (good_packet if_ip (peer_ip ctx)) (network_recv_queue ctx) \<Longrightarrow>
    window \<le> SENDER_WINDOW \<Longrightarrow> turn window if_ip (t, ctx) = Inr (Some (t', ctx')) \<Longrightarrow> \<exists>ins ps. flow if_ip ctx ins ps ctx'"
begin

lemma side_step_inv:
  assumes "side_step turn a b a' b'" and "stream_inv (a, b)"
  shows "stream_inv (a', b')"
proof -
  obtain pb pa where inv: "end_ok a b" "end_ok b a" "linked a b pb" "linked b a pa"
    using assms(2) by (auto simp: stream_inv_def)
  from assms(1) show ?thesis
  proof cases
    case (turns window t ctx)
    have "list_all (good_packet (host a) (peer_ip (mc a))) (network_recv_queue (mc a))"
      using inv(1,4) by (auto simp: linked_def end_ok_def)
    then obtain ins ps where "flow (host a) (mc a) ins ps ctx"
      using turn_flow [OF _ _ turns(4,5)] inv(1) by (auto simp: end_ok_def)
    from linked_turn [OF inv(1) this inv(3,4) turns(1,2)] inv(2) show ?thesis
      by (auto simp: stream_inv_def turns(1,2) end_ok_def)
  next
    case (receives p rest)
    then show ?thesis
      using linked_receive [OF receives(3,4) inv(3,4) receives(1)] inv by (auto simp: stream_inv_def end_ok_def)
  next
    case (writes d)
    then show ?thesis using linked_app(1) [OF inv(3,4), of d] inv by (auto simp: stream_inv_def end_ok_def)
  next
    case (reads n bs len q)
    then show ?thesis using linked_app(2) [OF inv(3,4) reads(4)] inv by (auto simp: stream_inv_def end_ok_def)
  next
    case closes
    then show ?thesis using linked_app(3) [OF inv(3,4), of True True] inv by (auto simp: stream_inv_def end_ok_def)
  qed
qed

lemma pair_step_inv: "stream_inv x \<Longrightarrow> pair_step turn x y \<Longrightarrow> stream_inv y"
  using side_step_inv stream_inv_swap by (cases x; cases y) (simp add: pair_step_def, blast)

lemma opened_inv: "opened x \<Longrightarrow> stream_inv x"
  using linked_fresh by (auto simp: opened_def stream_inv_def end_ok_def fresh_end_def)

end

sublocale stream_transport \<subseteq> pairs: step_system "pair_step turn" opened stream_inv
  by unfold_locales (auto intro: opened_inv pair_step_inv)

section \<open>Both transport layers keep it\<close>

lemma control_step1_flow:
  assumes "able if_ip ctx" and "list_all (good_packet if_ip (peer_ip ctx)) (network_recv_queue ctx)" and "6 \<le> fuel"
  shows "control_step1 fuel if_ip (t, ctx) = Inr None \<or> control_step1 fuel if_ip (t, ctx) = Inl Out_of_bounds \<or>
    (\<exists>t' ctx' ins ps. control_step1 fuel if_ip (t, ctx) = Inr (Some (t', ctx')) \<and> flow if_ip ctx ins ps ctx')"
proof (cases "app_recv_queue ctx = [] \<and> network_recv_queue ctx = [] \<and> \<not> close_requested ctx")
  case False
  let ?ctx = "ctx\<lparr>close_requested := close_requested ctx \<and> app_recv_queue ctx \<noteq> []\<rparr>"
  let ?net = "if network_recv_queue ctx \<noteq> [] then on_network_data if_ip t ?ctx else Inr (Some (t, ?ctx))"
  have f0: "flow if_ip ctx [] [] ?ctx" using flow_refl [OF assms(1)] .
  obtain t1 c1 ins1 ps1 where 1: "?net = Inr (Some (t1, c1))" "flow if_ip ctx ins1 ps1 c1" "app_recv_queue c1 = app_recv_queue ctx"
  proof (cases "network_recv_queue ctx")
    case Nil
    then show thesis using that [of t ?ctx "[]" "[]"] f0 by simp
  next
    case (Cons p rest)
    then have q: "network_recv_queue ?ctx = p # rest" "good_packet if_ip (peer_ip ?ctx) p" "able if_ip ?ctx"
      using assms(1,2) by simp_all
    obtain ps t' c' where "on_network_data if_ip t ?ctx = Inr (Some (t', c'))" "emits if_ip ?ctx ps c'"
      "map seg ps = seg_reply (seg p)" "consumed p rest ?ctx c'"
      using on_network_data_effect [OF q(3,1,2), of t] by blast
    then show thesis
      using that [of t' c' "[p]" ps] flow_trans [OF f0 network_flow [OF _ _ _ q(1)]] Cons by (auto simp: consumed_def)
  qed
  have able1: "able if_ip c1" using flow_able [OF 1(2)] by simp
  let ?w = "nat (sender_window t)"
  let ?app = "if app_recv_queue ctx \<noteq> [] \<and> sender_window t > 0 then on_app_data fuel if_ip ?w t1 c1 else Inr (Some (t1, c1))"
  have "?app = Inl Out_of_bounds \<or> (\<exists>t2 c2 ps2. ?app = Inr (Some (t2, c2)) \<and> flow if_ip c1 [] ps2 c2)"
  proof (cases "app_recv_queue ctx")
    case (Cons d ds)
    then show ?thesis
      using on_app_data_flow [OF able1, of d ds ?w fuel t1] on_app_data_overflow [of c1 d ds ?w fuel if_ip t1] flow_same [OF able1] assms(3) 1(3)
      by (cases "min ?w (length d) \<le> SENDER_WINDOW"; cases "sender_window t > 0") auto
  qed (use flow_same [OF able1] in auto)
  then show ?thesis
  proof
    assume "?app = Inl Out_of_bounds"
    then have "control_step1 fuel if_ip (t, ctx) = Inl Out_of_bounds"
      by (simp only: control_step1_eq False if_False 1(1) bindw_simps prod.case)
    then show ?thesis by simp
  next
    assume "\<exists>t2 c2 ps2. ?app = Inr (Some (t2, c2)) \<and> flow if_ip c1 [] ps2 c2"
    then obtain t2 c2 ps2 where 2: "?app = Inr (Some (t2, c2))" "flow if_ip c1 [] ps2 c2" by blast
    let ?cl = "if close_requested ctx \<and> app_recv_queue ctx = [] then on_close if_ip t2 c2 else Inr (Some (t2, c2))"
    obtain t3 c3 ps3 where 3: "?cl = Inr (Some (t3, c3))" "flow if_ip c2 [] ps3 c3"
      using on_close_flow [of if_ip c2 t2] flow_able [OF 2(2)] flow_same [of if_ip c2]
      by (cases "close_requested ctx \<and> app_recv_queue ctx = []") auto
    have "control_step1 fuel if_ip (t, ctx) = Inr (Some (t3, c3))"
      by (simp only: control_step1_eq False if_False 1(1) bindw_simps prod.case 2(1) 3(1))
    then show ?thesis using flow_trans [OF flow_trans [OF 1(2) 2(2)] 3(2)] by blast
  qed
qed (simp add: control_step1_eq)

definition turn0 :: "nat \<Rightarrow> nat \<Rightarrow> uint32 \<Rightarrow> context_t \<times> mysock_context \<Rightarrow> fault + (context_t \<times> mysock_context) option" where
  "turn0 n window if_ip s = control_step (n + 6) if_ip window s"

definition turn1 :: "nat \<Rightarrow> nat \<Rightarrow> uint32 \<Rightarrow> context_t \<times> mysock_context \<Rightarrow> fault + (context_t \<times> mysock_context) option" where
  "turn1 n window if_ip s = control_step1 (n + 6) if_ip s"

interpretation built: stream_transport "turn0 n" for n
proof (unfold_locales, goal_cases)
  case (1 if_ip ctx window t t' ctx')
  with control_step_flow [OF 1(1,2) _ 1(3), of "n + 6" t] show ?case by (auto simp: turn0_def)
qed

interpretation earlier: stream_transport "turn1 n" for n
proof (unfold_locales, goal_cases)
  case (1 if_ip ctx window t t' ctx')
  with control_step1_flow [OF 1(1,2), of "n + 6" t] show ?case by (auto simp: turn1_def)
qed

lemma stream_inv_prefix:
  "stream_inv (a, b) \<Longrightarrow> prefix (received b) (written a) \<and> prefix (received a) (written b)"
  by (auto simp: stream_inv_def linked_def prefix_def)

text \<open>Nothing is under way to \<open>b\<close>, and nothing waits at \<open>a\<close>.\<close>

definition quiet :: "side \<Rightarrow> side \<Rightarrow> bool" where
  "quiet a b \<longleftrightarrow> wire b = [] \<and> network_recv_queue (mc b) = [] \<and> app_recv_queue (mc a) = []"

lemma stream_inv_quiet:
  assumes "stream_inv (a, b)" and "quiet a b"
  shows "received b = written a"
proof -
  obtain ps where l: "linked a b ps" using assms(1) by (auto simp: stream_inv_def)
  then obtain ws where ws: "wire b = concat (map dgram ws)" "ps = network_recv_queue (mc b) @ ws" by (auto simp: linked_def)
  have "ws = []" using ws(1) assms(2) by (cases ws) (auto simp: quiet_def dgram_def bytes16_def)
  then show ?thesis using l ws(2) assms(2) by (simp add: linked_def quiet_def)
qed

lemma stream_inv_no_fault:
  assumes "stream_inv (a, b)" and "window \<le> SENDER_WINDOW"
  shows "turn0 n window (host a) (tp a, mc a) \<noteq> Inl e"
proof -
  have "able (host a) (mc a)" "list_all (good_packet (host a) (peer_ip (mc a))) (network_recv_queue (mc a))"
    using assms(1) by (auto simp: stream_inv_def end_ok_def linked_def)
  from control_step_flow [OF this _ assms(2), of "n + 6" "tp a"] show ?thesis by (auto simp: turn0_def)
qed

section \<open>Properties\<close>

definition demo_end :: "uint32 \<Rightarrow> uint32 \<Rightarrow> side" where
  "demo_end ip peer = \<lparr>host = ip, tp = demo_established,
     mc = (demo_stcp [] [])\<lparr>network_state := (demo_io [] [] [])\<lparr>peer_addr :=
       \<lparr>sa_family = AF_INET, sin_port = 0x5000, sin_addr = peer\<rparr>\<rparr>\<rparr>,
     wire = [], written = [], got = [], closing = False\<rparr>"

lemma demo_end_fresh:
  assumes "0 < ip" and "0 < peer"
  shows "fresh_end (demo_end ip peer) (demo_end peer ip)"
proof -
  have "stcp_ready ip (mc (demo_end ip peer)) (demo_sock [] [] [])"
    using assms by (simp add: stcp_ready_def demo_stcp_def writable_def demo_sock_def peer_ip_def peer_port_def open_conn_def
        demo_io_def demo_end_def)
  then show ?thesis
    by (auto simp: fresh_end_def able_def demo_end_def demo_stcp_def peer_ip_def demo_established_def calloc_context_def
        in_flight_def fresh_context_def)
qed

lemma demo_opened: "opened (demo_end 0x0100007F 0x0200007F, demo_end 0x0200007F 0x0100007F)"
  using demo_end_fresh by (simp add: opened_def)

text \<open>
  C4: The built transport layer loses, invents and reorders nothing. Let two ends of an established connection run in any
  interleaving of turns of their transport threads, packets received, writes, reads and closes, with any window of at most the
  size of the payload buffer in each turn. In every state reached, what either application has read or can read is a
  prefix of what the other has written, all of it when no packet is under way and no data is waiting; and no turn of
  either thread faults, whether by an assert, by an access out of bounds or by not ending.
\<close>

theorem streams_intact:
  assumes "opened x" and "reachable_from (pair_step (turn0 n)) x (a, b)"
  shows "prefix (received b) (written a) \<and> prefix (received a) (written b) \<and>
    (quiet a b \<longrightarrow> received b = written a) \<and> (quiet b a \<longrightarrow> received a = written b) \<and>
    (\<forall>window \<le> SENDER_WINDOW. \<forall>e. turn0 n window (host a) (tp a, mc a) \<noteq> Inl e \<and> turn0 n window (host b) (tp b, mc b) \<noteq> Inl e)"
proof -
  have inv: "stream_inv (a, b)" using built.pairs.reachable_inv [OF assms(2,1)] .
  then have "stream_inv (b, a)" by (simp add: stream_inv_swap)
  with inv show ?thesis
    using stream_inv_prefix stream_inv_quiet stream_inv_no_fault by blast
qed

theorem streams_intact_witness:
  "\<exists>a. reachable_from (pair_step (turn0 0)) (demo_end 0x0100007F 0x0200007F, demo_end 0x0200007F 0x0100007F)
      (a, demo_end 0x0200007F 0x0100007F) \<and> written a = [1, 2, 3] \<and>
    prefix (received (demo_end 0x0200007F 0x0100007F)) [1, 2, 3] \<and> turn0 0 3072 (host a) (tp a, mc a) \<noteq> Inl Out_of_bounds"
proof -
  let ?a = "demo_end 0x0100007F 0x0200007F" and ?b = "demo_end 0x0200007F 0x0100007F"
  let ?a1 = "?a\<lparr>written := written ?a @ [1, 2, 3], mc := (mc ?a)\<lparr>app_recv_queue := enqueue (app_recv_queue (mc ?a)) [1, 2, 3]\<rparr>\<rparr>"
  have "side_step (turn0 0) ?a ?b ?a1 ?b" by (rule side_step.writes) (simp add: demo_end_def)
  then have run: "reachable_from (pair_step (turn0 0)) (?a, ?b) (?a1, ?b)"
    by (intro reachable_from.next_state [OF reachable_from.start]) (simp add: pair_step_def)
  from streams_intact [OF demo_opened run] have "prefix (received ?b) (written ?a1)"
    "turn0 0 3072 (host ?a1) (tp ?a1, mc ?a1) \<noteq> Inl Out_of_bounds"
    by (simp_all add: SENDER_WINDOW_def)
  moreover have "written ?a1 = [1, 2, 3]" by (simp add: demo_end_def)
  ultimately show ?thesis using run by metis
qed

end
