(* ===== verification/Stcp_Flow.thy ===== *)
theory Stcp_Flow
  imports Stcp_Stream
begin

text \<open>
  Flow control and the end of a connection in the earlier transport layer: never more than a window awaits an
  acknowledgement, so no buffer overflows; everything that is written can arrive, whatever has happened before; and the
  two ends close.
\<close>

section \<open>Sequence numbers under way\<close>

text \<open>The sequence numbers a segment takes up, and the acknowledgements among segments.\<close>

fun seq_len :: "seg \<Rightarrow> nat" where
  "seq_len (Data_seg q d) = length d"
| "seq_len (Ack_seg n) = 0"
| "seq_len (Fin_seg q) = 1"

definition seq_total :: "seg list \<Rightarrow> nat" where
  "seq_total gs = sum_list (map seq_len gs)"

fun acks :: "seg list \<Rightarrow> uint32 list" where
  "acks [] = []"
| "acks (Ack_seg n # gs) = n # acks gs"
| "acks (_ # gs) = acks gs"

text \<open>Each segment begins where the one before it ended.\<close>

fun chained :: "uint32 \<Rightarrow> seg list \<Rightarrow> bool" where
  "chained e [] \<longleftrightarrow> True"
| "chained e (Data_seg q d # gs) \<longleftrightarrow> q = e \<and> chained (e + word_of_nat (length d)) gs"
| "chained e (Ack_seg n # gs) \<longleftrightarrow> chained e gs"
| "chained e (Fin_seg q # gs) \<longleftrightarrow> q = e \<and> chained (e + 1) gs"

lemma seq_total_simps [simp]:
  "seq_total [] = 0" "seq_total (g # gs) = seq_len g + seq_total gs" "seq_total (gs @ hs) = seq_total gs + seq_total hs"
  by (simp_all add: seq_total_def)

lemma acks_append [simp]: "acks (gs @ hs) = acks gs @ acks hs"
  by (induction gs rule: acks.induct) simp_all

lemma chained_append [simp]:
  "chained e (gs @ hs) \<longleftrightarrow> chained e gs \<and> chained (e + word_of_nat (seq_total gs)) hs"
  by (induction e gs rule: chained.induct) (auto simp: add.assoc)

lemma reply_facts [simp]: "seq_total (seg_reply g) = 0" "chained e (seg_reply g)"
  by (cases g; simp)+

lemma data_segs_facts [simp]: "acks (data_segs q d) = []" "seq_total (data_segs q d) = length d" "chained q (data_segs q d)"
proof -
  have a: "acks (map (\<lambda>(q, d). Data_seg q d) es) = []" for es by (induction es) auto
  have t: "seq_total (map (\<lambda>(q, d). Data_seg q d) es) = length (concat (map snd es))" for es by (induction es) auto
  have c: "consecutive q es \<Longrightarrow> chained q (map (\<lambda>(q, d). Data_seg q d) es)" for es
    by (induction q es rule: consecutive.induct) auto
  show "acks (data_segs q d) = []" using a by (simp add: data_segs_def)
  show "seq_total (data_segs q d) = length d" using t [of "segments q d"] concat_segments [of q d] by (simp add: data_segs_def)
  show "chained q (data_segs q d)" using c [OF consecutive_segments] by (simp add: data_segs_def)
qed

text \<open>How far an acknowledgement is behind what has been sent.\<close>

definition behind :: "context_t \<Rightarrow> uint32 \<Rightarrow> nat" where
  "behind t n = unat (current_sequence_num t - n)"

text \<open>
  The segments \<open>out\<close> are under way from an end with the context \<open>t\<close>, the segments \<open>inp\<close> to it; \<open>fin\<close> says that its FIN has been
  sent, and \<open>q\<close> is what it has still to send. The acknowledgements under way do not go back, none is beyond what
  has been sent, and all that the peer has taken has been acknowledged, except for at most 257 sequence numbers
  of the handshake.
\<close>

definition window_inv :: "context_t \<Rightarrow> bool \<Rightarrow> byte list list \<Rightarrow> seg list \<Rightarrow> seg list \<Rightarrow> bool" where
  "window_inv t fin q out inp \<longleftrightarrow> chained (current_sequence_num t - word_of_nat (seq_total out)) out \<and>
     sorted_wrt (\<ge>) (in_flight t # map (behind t) (acks inp) @ [seq_total out]) \<and>
     last (in_flight t # map (behind t) (acks inp)) \<le> seq_total out + 257 \<and>
     in_flight t \<le> SENDER_WINDOW + (if fin then 1 else 0) \<and> (fin \<longrightarrow> q = [])"

lemma window_inv_bounds:
  assumes "window_inv t fin q out inp"
  shows "in_flight t \<le> 3073" and "seq_total out \<le> in_flight t" and "n \<in> set (acks inp) \<Longrightarrow> behind t n \<le> in_flight t"
  using assms by (cases fin; auto simp: window_inv_def SENDER_WINDOW_def)+

text \<open>A segment that arrives at the end: an acknowledgement moves the window on.\<close>

lemma window_inv_arrival:
  assumes "window_inv t fin q out (g # inp)" and "current_sequence_num t' = current_sequence_num t"
    and "ack_num t' = seg_ack g t"
  shows "window_inv t' fin q (out @ seg_reply g) inp" and "in_flight t' \<le> in_flight t"
proof -
  have b: "behind t' = behind t" by (intro ext) (simp add: behind_def assms(2))
  have f: "in_flight t' = (case g of Ack_seg n \<Rightarrow> behind t n | _ \<Rightarrow> in_flight t)"
    by (cases g) (simp_all add: in_flight_def behind_def assms(2,3))
  show "in_flight t' \<le> in_flight t" using window_inv_bounds(3) [OF assms(1)] f by (cases g) auto
  then show "window_inv t' fin q (out @ seg_reply g) inp"
    using assms(1,2) f b by (cases g) (auto simp: window_inv_def)
qed

text \<open>Sending.\<close>

lemma behind_sent:
  assumes "current_sequence_num t' = current_sequence_num t + word_of_nat n" and "behind t x + n < 2 ^ 32"
  shows "behind t' x = behind t x + n"
proof -
  have eq: "current_sequence_num t' - x = (current_sequence_num t - x) + word_of_nat n"
    by (simp add: assms(1))
  have "unat (word_of_nat n :: uint32) = n" using assms(2) by (intro unat_word_of_nat32) simp
  with assms(2) show ?thesis unfolding behind_def eq by (simp add: unat_word_ariths)
qed

lemma window_inv_send:
  assumes "window_inv t False q out inp" and "current_sequence_num t' = current_sequence_num t + word_of_nat n"
    and "ack_num t' = ack_num t" and "chained (current_sequence_num t) hs" and "seq_total hs = n"
    and "in_flight t + n \<le> SENDER_WINDOW + (if fin then 1 else 0)" and "fin \<longrightarrow> q' = []"
  shows "window_inv t' fin q' (out @ hs) inp"
proof -
  note bounds = window_inv_bounds [OF assms(1)]
  have n: "in_flight t + n < 2 ^ 32" using assms(6) by (auto simp: SENDER_WINDOW_def split: if_splits)
  have f: "in_flight t' = in_flight t + n"
    using behind_sent [OF assms(2), of "ack_num t"] n by (simp add: in_flight_def behind_def assms(3))
  have b: "map (behind t') (acks inp) = map (\<lambda>x. x + n) (map (behind t) (acks inp))"
    using behind_sent [OF assms(2)] bounds(3) n by fastforce
  have e: "current_sequence_num t' - word_of_nat (seq_total (out @ hs)) = current_sequence_num t - word_of_nat (seq_total out)"
    using assms(2,5) by simp
  have "sorted_wrt (\<ge>) (map (\<lambda>x. x + n) (in_flight t # map (behind t) (acks inp) @ [seq_total out]))"
    unfolding sorted_wrt_map using assms(1) by (simp add: window_inv_def)
  moreover have "last (map (\<lambda>x. x + n) (in_flight t # map (behind t) (acks inp))) \<le> seq_total out + n + 257"
    using assms(1) by (simp add: window_inv_def last_map del: list.map)
  ultimately show ?thesis
    using assms(1,4-7) unfolding window_inv_def e f b by simp
qed

text \<open>A segment of this end that is taken by its peer and answered, and other segments of the peer.\<close>

lemma behind_total:
  assumes "n < 2 ^ 32"
  shows "behind t (current_sequence_num t - word_of_nat n) = n"
  using assms unat_word_of_nat32 [of n] by (simp add: behind_def)

lemma window_inv_taken:
  assumes "window_inv t fin q (g # out) inp"
  shows "window_inv t fin q out (inp @ seg_reply g)"
proof -
  note bounds = window_inv_bounds [OF assms]
  have less: "seq_total out < 2 ^ 32" using bounds(1,2) by simp
  have e: "current_sequence_num t - word_of_nat (seq_total (g # out)) + word_of_nat (seq_len g) = current_sequence_num t - word_of_nat (seq_total out)"
    by simp
  have "acks (seg_reply g) = (case g of Ack_seg n \<Rightarrow> [] | _ \<Rightarrow> [current_sequence_num t - word_of_nat (seq_total out)])"
    using assms e by (cases g) (auto simp: window_inv_def algebra_simps)
  then show ?thesis
    using assms e behind_total [OF less] by (cases g) (auto simp: window_inv_def sorted_wrt_append)
qed

lemma window_inv_other: "window_inv t fin q out inp \<Longrightarrow> acks hs = [] \<Longrightarrow> window_inv t fin q out (inp @ hs)"
  by (simp add: window_inv_def)

section \<open>The states of both ends\<close>

fun is_ack :: "seg \<Rightarrow> bool" where
  "is_ack (Ack_seg n) = True"
| "is_ack _ = False"

fun is_fin :: "seg \<Rightarrow> bool" where
  "is_fin (Fin_seg q) = True"
| "is_fin _ = False"

text \<open>Nothing but acknowledgements follows a FIN.\<close>

fun fin_last :: "seg list \<Rightarrow> bool" where
  "fin_last [] = True"
| "fin_last (g # gs) = (if is_fin g then list_all is_ack gs else fin_last gs)"

lemma fin_last_append:
  "fin_last gs \<Longrightarrow> fin_last hs \<Longrightarrow> list_all is_ack hs \<or> \<not> list_ex is_fin gs \<Longrightarrow> fin_last (gs @ hs)"
  by (induction gs) auto

lemma acks_fin_last: "list_all is_ack gs \<Longrightarrow> fin_last gs \<and> \<not> list_ex is_fin gs"
  by (induction gs) (auto elim: is_ack.elims)

lemma reply_is_ack [simp]: "list_all is_ack (seg_reply g)"
  by (cases g) simp_all

lemma data_segs_no_fin [simp]: "fin_last (data_segs q d)" "\<not> list_ex is_fin (data_segs q d)"
proof -
  have "fin_last (map (\<lambda>(q, d). Data_seg q d) es) \<and> \<not> list_ex is_fin (map (\<lambda>(q, d). Data_seg q d) es)" for es
    by (induction es) auto
  then show "fin_last (data_segs q d)" "\<not> list_ex is_fin (data_segs q d)" by (simp_all add: data_segs_def)
qed

definition state_inv :: "context_t \<Rightarrow> bool \<Rightarrow> bool" where
  "state_inv t fin \<longleftrightarrow>
     (if fin then connection_state t \<in> {CSTATE_FIN_WAIT_1, CSTATE_FIN_WAIT_2, CSTATE_CLOSED} \<and>
        (connection_state t \<noteq> CSTATE_CLOSED \<longrightarrow> fin_ack_sequence_num t = current_sequence_num t)
      else connection_state t \<in> {CSTATE_ESTABLISHED, CSTATE_CLOSE_WAIT}) \<and>
     (is_done t \<longleftrightarrow> connection_state t = CSTATE_CLOSED)"

text \<open>The segments \<open>out\<close> of an end, whose FIN has been sent if \<open>fin\<close>, on the way to a peer with the context \<open>t\<close>.\<close>

definition fin_inv :: "bool \<Rightarrow> seg list \<Rightarrow> context_t \<Rightarrow> bool" where
  "fin_inv fin out t \<longleftrightarrow> fin_last out \<and> (list_ex is_fin out \<longrightarrow> fin) \<and>
     (connection_state t \<in> {CSTATE_CLOSE_WAIT, CSTATE_CLOSED} \<longrightarrow> fin \<and> list_all is_ack out)"

lemma state_inv_arrival:
  assumes "state_inv t fin" and "connection_state t' = seg_state g t" and "is_done t' = seg_done g t"
    and "current_sequence_num t' = current_sequence_num t" and "fin_ack_sequence_num t' = fin_ack_sequence_num t"
  shows "state_inv t' fin"
  using assms by (cases g) (auto simp: state_inv_def split: if_splits)

lemma fin_inv_arrival:
  assumes "fin_inv fin (g # out) t" and "connection_state t' = seg_state g t"
  shows "fin_inv fin out t'"
  using assms by (cases g) (auto simp: fin_inv_def dest: acks_fin_last split: if_splits)

lemma fin_inv_reply: "fin_inv fin out t \<Longrightarrow> fin_inv fin (out @ seg_reply g) t"
  using acks_fin_last [OF reply_is_ack, of g] by (auto simp: fin_inv_def intro: fin_last_append)

lemma fin_inv_send:
  "fin_inv False out t \<Longrightarrow> fin_last hs \<Longrightarrow> (list_ex is_fin hs \<longrightarrow> fin) \<Longrightarrow> fin_inv fin (out @ hs) t"
  by (auto simp: fin_inv_def intro: fin_last_append)

lemma state_inv_close: "state_inv t False \<Longrightarrow> state_inv (after_close t) True"
  by (auto simp: state_inv_def after_close_def)

lemma fin_inv_close:
  assumes "fin_inv fin out t" and "state_inv t False"
  shows "fin_inv fin out (after_close t)"
  using assms by (auto simp: fin_inv_def state_inv_def after_close_def)

subsection \<open>The order of acknowledgement and FIN\<close>

text \<open>An acknowledgement of \<open>n\<close> comes before any FIN; a FIN comes after an acknowledgement of \<open>n\<close>.\<close>

fun ack_first :: "uint32 \<Rightarrow> seg list \<Rightarrow> bool" where
  "ack_first n [] = False"
| "ack_first n (g # gs) = (g = Ack_seg n \<or> \<not> is_fin g \<and> ack_first n gs)"

fun fin_after :: "uint32 \<Rightarrow> seg list \<Rightarrow> bool" where
  "fin_after n [] = False"
| "fin_after n (g # gs) = (if g = Ack_seg n then list_ex is_fin gs else fin_after n gs)"

lemma ack_first_append:
  "ack_first n gs \<Longrightarrow> ack_first n (gs @ hs)" "\<not> list_ex is_fin gs \<Longrightarrow> ack_first n (gs @ [Ack_seg n])"
  by (induction gs) auto

lemma fin_after_append:
  "fin_after n (gs @ hs) \<longleftrightarrow> (if Ack_seg n \<in> set gs then fin_after n gs \<or> list_ex is_fin hs else fin_after n hs)"
  by (induction gs) (auto simp: list_ex_iff)

lemma fin_after_ex: "fin_after n gs \<Longrightarrow> list_ex is_fin gs"
  by (induction gs) (auto split: if_splits)

lemma fin_after_no_fin: "\<not> list_ex is_fin hs \<Longrightarrow> fin_after n (gs @ hs) = fin_after n gs"
  using fin_after_ex [of n hs] by (induction gs) auto

lemma ack_first_mem: "ack_first n gs \<Longrightarrow> Ack_seg n \<in> set gs"
  by (induction gs) auto

lemma reply_no_fin [simp]: "\<not> list_ex is_fin (seg_reply g)"
  by (cases g) simp_all

text \<open>
  Of two ends \<open>a\<close> and \<open>b\<close> with the contexts \<open>ta\<close> and \<open>tb\<close>, the segments \<open>ab\<close> and \<open>ba\<close> under way between them: how far the
  FIN of \<open>b\<close>, sent if \<open>finb\<close>, has got, and what \<open>a\<close> can have done since.
\<close>

definition close_inv :: "context_t \<Rightarrow> context_t \<Rightarrow> bool \<Rightarrow> seg list \<Rightarrow> seg list \<Rightarrow> bool" where
  "close_inv ta tb finb ab ba \<longleftrightarrow>
     (finb \<and> \<not> list_ex is_fin ba \<longrightarrow> connection_state ta \<noteq> CSTATE_ESTABLISHED) \<and>
     (connection_state tb = CSTATE_FIN_WAIT_1 \<longrightarrow>
        (list_ex is_fin ba \<or> Ack_seg (current_sequence_num tb) \<in> set ab) \<and>
        (connection_state ta \<in> {CSTATE_CLOSE_WAIT, CSTATE_CLOSED} \<longrightarrow> ack_first (current_sequence_num tb) ab) \<and>
        (connection_state ta = CSTATE_CLOSED \<longleftrightarrow> fin_after (current_sequence_num tb) ab)) \<and>
     (connection_state tb = CSTATE_FIN_WAIT_2 \<longrightarrow> \<not> list_ex is_fin ba \<and>
        (connection_state ta = CSTATE_CLOSED \<longleftrightarrow> list_ex is_fin ab))"

lemma no_fin_total: "seq_total gs = 0 \<Longrightarrow> \<not> list_ex is_fin gs"
  by (induction gs) (auto elim: is_fin.elims)

lemma ack_mem: "n \<in> set (acks gs) \<longleftrightarrow> Ack_seg n \<in> set gs"
  by (induction gs rule: acks.induct) auto

text \<open>What the peer has acknowledged completely is not under way.\<close>

lemma all_acked:
  assumes "window_inv t fin q out inp" and "Ack_seg (current_sequence_num t) \<in> set inp"
  shows "\<not> list_ex is_fin out"
proof -
  have "current_sequence_num t \<in> set (acks inp)" using assms(2) by (simp add: ack_mem)
  then have "seq_total out \<le> behind t (current_sequence_num t)"
    using assms(1) by (auto simp: window_inv_def sorted_wrt_append)
  then show ?thesis using no_fin_total by (simp add: behind_def)
qed

text \<open>The reply to a FIN acknowledges all its sender has sent.\<close>

lemma acks_total: "list_all is_ack gs \<Longrightarrow> seq_total gs = 0"
  by (induction gs) (auto elim: is_ack.elims)

lemma fin_reply:
  assumes "window_inv t fin q (Fin_seg n # out) inp" and "fin_last (Fin_seg n # out)"
  shows "n + 1 = current_sequence_num t"
  using assms acks_total [of out] by (simp add: window_inv_def)

text \<open>An end takes a segment from its peer: seen with its own state first, then with that of the peer.\<close>

lemma close_inv_fin_taken:
  assumes "close_inv ta tb finb ab (Fin_seg n # ba)" and "close_inv tb ta fina (Fin_seg n # ba) ab"
    and "n + 1 = current_sequence_num tb" and "fin_inv finb (Fin_seg n # ba) ta" and "fin_inv fina ab tb" and "state_inv ta fina"
    and "connection_state ta' = seg_state (Fin_seg n) ta" and "state_inv tb finb"
  shows "close_inv ta' tb finb (ab @ [Ack_seg (n + 1)]) ba"
proof -
  have fina: "\<not> fina \<Longrightarrow> \<not> list_ex is_fin ab" using assms(5) by (auto simp: fin_inv_def)
  have fw2: "connection_state ta = CSTATE_FIN_WAIT_2 \<Longrightarrow> connection_state tb = CSTATE_CLOSED"
    using assms(2) by (auto simp: close_inv_def)
  have sa: "connection_state ta \<noteq> CSTATE_CLOSE_WAIT" "connection_state ta \<noteq> CSTATE_CLOSED"
    using assms(4) by (auto simp: fin_inv_def)
  have "connection_state tb = CSTATE_FIN_WAIT_2 \<Longrightarrow> False" using assms(1) by (auto simp: close_inv_def)
  then consider "connection_state ta = CSTATE_ESTABLISHED" "\<not> fina" | "connection_state ta = CSTATE_FIN_WAIT_1" "fina"
    | "connection_state ta = CSTATE_FIN_WAIT_2" "connection_state tb = CSTATE_CLOSED"
    using assms(6) sa fw2 by (auto simp: state_inv_def split: if_splits)
  then show ?thesis
  proof cases
    case 1
    then show ?thesis
      using assms(1,3,7) fina ack_first_append(2) fin_after_ex by (auto simp: close_inv_def fin_after_no_fin)
  next
    case 2
    then show ?thesis using assms(1,3,7) by (auto simp: close_inv_def fin_after_no_fin)
  next
    case 3
    then show ?thesis using assms(7) by (auto simp: close_inv_def)
  qed
qed

lemma close_inv_arrival:
  assumes "close_inv ta tb finb ab (g # ba)" and "close_inv tb ta fina (g # ba) ab"
    and "window_inv tb finb qb (g # ba) ab" and "fin_inv finb (g # ba) ta" and "fin_inv fina ab tb" and "state_inv ta fina"
    and "connection_state ta' = seg_state g ta" and "state_inv tb finb"
  shows "close_inv ta' tb finb (ab @ seg_reply g) ba"
proof (cases g)
  case (Fin_seg n)
  have "n + 1 = current_sequence_num tb"
    using fin_reply assms(3,4) by (simp add: Fin_seg fin_inv_def)
  then show ?thesis
    using close_inv_fin_taken [OF assms(1,2)[unfolded Fin_seg] _ assms(4)[unfolded Fin_seg] assms(5,6) _ assms(8)] assms(7) by (simp add: Fin_seg)
next
  case (Data_seg n d)
  then show ?thesis
    using assms(1,7) ack_first_append(1) by (auto simp: close_inv_def fin_after_no_fin)
next
  case (Ack_seg n)
  have "connection_state ta' = CSTATE_ESTABLISHED \<longleftrightarrow> connection_state ta = CSTATE_ESTABLISHED"
    "connection_state ta' = CSTATE_CLOSED \<longleftrightarrow> connection_state ta = CSTATE_CLOSED"
    "connection_state ta' = CSTATE_CLOSE_WAIT \<longleftrightarrow> connection_state ta = CSTATE_CLOSE_WAIT"
    using assms(7) by (auto simp: Ack_seg)
  then show ?thesis using assms(1) by (simp add: close_inv_def Ack_seg)
qed

lemma close_inv_arrival_peer:
  assumes "close_inv tb ta fina (g # ba) ab" and "window_inv ta fina qa ab (g # ba)" and "state_inv ta fina"
    and "connection_state ta' = seg_state g ta" and "current_sequence_num ta' = current_sequence_num ta"
  shows "close_inv tb ta' fina ba (ab @ seg_reply g)"
proof -
  let ?n = "current_sequence_num ta"
  have acked: "g = Ack_seg ?n \<Longrightarrow> \<not> list_ex is_fin ab"
    using all_acked [OF assms(2)] by auto
  have n: "connection_state ta = CSTATE_FIN_WAIT_1 \<Longrightarrow> fin_ack_sequence_num ta = ?n"
    using assms(3) by (auto simp: state_inv_def split: if_splits)
  consider "connection_state ta = CSTATE_FIN_WAIT_1" "g = Ack_seg ?n" "connection_state ta' = CSTATE_FIN_WAIT_2"
    | "connection_state ta = CSTATE_FIN_WAIT_1" "g \<noteq> Ack_seg ?n" "connection_state ta' = CSTATE_FIN_WAIT_1"
    | "connection_state ta = CSTATE_FIN_WAIT_2" "\<not> is_fin g" "connection_state ta' = CSTATE_FIN_WAIT_2"
    | "connection_state ta' \<noteq> CSTATE_FIN_WAIT_1" "connection_state ta' \<noteq> CSTATE_FIN_WAIT_2"
    using assms(4) n by (cases g) (auto split: if_splits)
  then show ?thesis
  proof cases
    case 1
    then show ?thesis using assms(1) acked by (auto simp: close_inv_def)
  next
    case 2
    then show ?thesis using assms(1,5) by (auto simp: close_inv_def)
  next
    case 3
    then show ?thesis using assms(1) by (auto simp: close_inv_def)
  next
    case 4
    then show ?thesis using assms(1) by (auto simp: close_inv_def)
  qed
qed

text \<open>An end sends data, or its FIN.\<close>

lemma close_inv_send:
  assumes "close_inv ta tb finb ab ba" and "connection_state ta' = connection_state ta" and "\<not> list_ex is_fin hs"
  shows "close_inv ta' tb finb (ab @ hs) ba"
  using assms ack_first_append(1) by (auto simp: close_inv_def fin_after_no_fin)

lemma close_inv_send_peer:
  assumes "close_inv tb ta False ba ab" and "connection_state ta' = connection_state ta" and "state_inv ta False"
  shows "close_inv tb ta' False ba (ab @ hs)"
  using assms by (auto simp: close_inv_def state_inv_def)

lemma close_inv_close:
  assumes "close_inv ta tb finb ab ba" and "window_inv tb finb qb ba ab" and "fin_inv False ab tb" and "state_inv ta False"
    and "state_inv tb finb"
  shows "close_inv (after_close ta) tb finb (ab @ [Fin_seg n]) ba"
proof -
  have acked: "connection_state tb = CSTATE_FIN_WAIT_1 \<Longrightarrow> Ack_seg (current_sequence_num tb) \<in> set ab \<Longrightarrow>
      connection_state ta \<noteq> CSTATE_ESTABLISHED"
    using all_acked [OF assms(2)] assms(1,5) by (auto simp: close_inv_def state_inv_def split: if_splits)
  have fw2: "connection_state tb = CSTATE_FIN_WAIT_2 \<Longrightarrow> connection_state ta \<noteq> CSTATE_ESTABLISHED"
    using assms(1,5) by (auto simp: close_inv_def state_inv_def split: if_splits)
  consider "connection_state ta = CSTATE_ESTABLISHED" | "connection_state ta = CSTATE_CLOSE_WAIT"
    using assms(4) by (auto simp: state_inv_def)
  then show ?thesis
  proof cases
    case 1
    then show ?thesis using assms(1) acked fw2 by (auto simp: close_inv_def after_close_def fin_after_append)
  next
    case 2
    then show ?thesis
      using assms(1) ack_first_append(1) ack_first_mem by (auto simp: close_inv_def after_close_def fin_after_append)
  qed
qed

lemma close_inv_close_peer:
  assumes "close_inv tb ta False ba ab" and "window_inv ta False qa ab ba" and "fin_inv False ab tb" and "state_inv ta False"
  shows "close_inv tb (after_close ta) True ba (ab @ [Fin_seg n])"
proof -
  have "Ack_seg (current_sequence_num ta + 1) \<notin> set ba"
  proof
    assume "Ack_seg (current_sequence_num ta + 1) \<in> set ba"
    then have "behind ta (current_sequence_num ta + 1) \<le> 3073"
      using window_inv_bounds [OF assms(2)] by (meson ack_mem le_trans)
    moreover have "(- 1 :: uint32) = 4294967295" by simp
    ultimately show False by (simp add: behind_def)
  qed
  then have "\<not> fin_after (current_sequence_num ta + 1) ba"
    by (induction ba) auto
  moreover have "connection_state tb \<notin> {CSTATE_CLOSE_WAIT, CSTATE_CLOSED}"
    using assms(3) by (auto simp: fin_inv_def)
  ultimately show ?thesis
    using assms(4) by (auto simp: close_inv_def after_close_def state_inv_def)
qed

section \<open>The invariant of a pair\<close>

definition pair_inv ::
  "context_t \<Rightarrow> bool \<Rightarrow> byte list list \<Rightarrow> context_t \<Rightarrow> bool \<Rightarrow> byte list list \<Rightarrow> seg list \<Rightarrow> seg list \<Rightarrow> bool" where
  "pair_inv ta fa qa tb fb qb ab ba \<longleftrightarrow> window_inv ta fa qa ab ba \<and> window_inv tb fb qb ba ab \<and>
     state_inv ta fa \<and> state_inv tb fb \<and> fin_inv fa ab tb \<and> fin_inv fb ba ta \<and>
     close_inv ta tb fb ab ba \<and> close_inv tb ta fa ba ab"

lemma pair_inv_swap: "pair_inv ta fa qa tb fb qb ab ba \<longleftrightarrow> pair_inv tb fb qb ta fa qa ba ab"
  by (auto simp: pair_inv_def)

lemma pair_inv_network:
  assumes "pair_inv ta fa qa tb fb qb ab (g # ba)" and "current_sequence_num ta' = current_sequence_num ta"
    and "fin_ack_sequence_num ta' = fin_ack_sequence_num ta" and "ack_num ta' = seg_ack g ta"
    and "connection_state ta' = seg_state g ta" and "is_done ta' = seg_done g ta"
  shows "pair_inv ta' fa qa tb fb qb (ab @ seg_reply g) ba"
proof -
  note inv = assms(1) [unfolded pair_inv_def]
  show ?thesis
    unfolding pair_inv_def
    using inv assms(2-6) window_inv_arrival(1) [of ta fa qa ab g ba ta'] window_inv_taken [of tb fb qb g ba ab]
      state_inv_arrival [of ta fa ta' g] fin_inv_reply [of fa ab tb g] fin_inv_arrival [of fb g ba ta ta']
      close_inv_arrival [of ta tb fb ab g ba fa qb ta'] close_inv_arrival_peer [of tb ta fa g ba ab qa ta']
    by (simp del: seg_reply.simps)
qed

lemma pair_inv_send:
  assumes "pair_inv ta False qa tb fb qb ab ba" and "current_sequence_num ta' = current_sequence_num ta + word_of_nat (length d)"
    and "ack_num ta' = ack_num ta" and "connection_state ta' = connection_state ta" and "is_done ta' = is_done ta"
    and "in_flight ta + length d \<le> SENDER_WINDOW"
  shows "pair_inv ta' False qa' tb fb qb (ab @ data_segs (current_sequence_num ta) d) ba"
proof -
  note inv = assms(1) [unfolded pair_inv_def]
  have "state_inv ta' False" "fin_inv fb ba ta'"
    using inv assms(4,5) by (simp_all add: state_inv_def fin_inv_def)
  then show ?thesis
    unfolding pair_inv_def
    using inv assms(2-6) window_inv_send [of ta qa ab ba ta' "length d" "data_segs (current_sequence_num ta) d" False qa']
      window_inv_other [of tb fb qb ba ab] fin_inv_send [of ab tb] close_inv_send [of ta tb fb ab ba ta']
      close_inv_send_peer [of tb ta ba ab ta']
    by simp
qed

lemma pair_inv_close:
  assumes "pair_inv ta False [] tb fb qb ab ba"
  shows "pair_inv (after_close ta) True [] tb fb qb (ab @ [Fin_seg (current_sequence_num ta)]) ba"
proof -
  note inv = assms [unfolded pair_inv_def]
  have "in_flight ta \<le> SENDER_WINDOW" using inv by (simp add: window_inv_def)
  moreover have "current_sequence_num (after_close ta) = current_sequence_num ta + word_of_nat 1" "ack_num (after_close ta) = ack_num ta"
    by (simp_all add: after_close_def)
  ultimately show ?thesis
    unfolding pair_inv_def
    using inv window_inv_send [of ta "[]" ab ba "after_close ta" 1 "[Fin_seg (current_sequence_num ta)]" True "[]"]
      window_inv_other [of tb fb qb ba ab "[Fin_seg (current_sequence_num ta)]"] state_inv_close [of ta]
      fin_inv_send [of ab tb "[Fin_seg (current_sequence_num ta)]" True] fin_inv_close [of fb ba ta]
      close_inv_close [of ta tb fb ab ba qb] close_inv_close_peer [of tb ta ba ab "[]"]
    by simp
qed

section \<open>A turn\<close>

text \<open>
  How much is left to do: three for each byte still to be sent, so that it outweighs the two of its segment, which
  outweighs the one of the acknowledgement.
\<close>

definition weight :: "seg list \<Rightarrow> nat" where
  "weight gs = sum_list (map (\<lambda>g. if is_ack g then 1 else 2) gs)"

definition load :: "mysock_context \<Rightarrow> nat" where
  "load ctx = 3 * length (concat (app_recv_queue ctx)) + length (app_recv_queue ctx) + (if close_requested ctx then 3 else 0)"

lemma weight_simps [simp]: "weight [] = 0" "weight (g # gs) = (if is_ack g then 1 else 2) + weight gs" "weight (gs @ hs) = weight gs + weight hs"
  by (simp_all add: weight_def)

lemma weight_reply: "weight (seg_reply g) < weight [g]"
  by (cases g) simp_all

lemma weight_data_segs: "weight (data_segs q d) \<le> 2 * length d"
proof -
  have "weight (map (\<lambda>(q, d). Data_seg q d) es) \<le> 2 * length (concat (map snd es))" if "\<forall>e \<in> set es. snd e \<noteq> []" for es
    using that by (induction es) (auto simp: neq_Nil_conv)
  from this [of "segments q d"] show ?thesis
    using segments_bound [of _ q d] concat_segments [of q d] by (simp add: data_segs_def)
qed

text \<open>
  The end with the transport layer \<open>t\<close> and the context \<open>ctx\<close>, its FIN sent if \<open>f\<close>, and its peer; \<open>ab\<close> is under way
  to the peer, \<open>ws\<close> on the wire to this end.
\<close>

definition ongoing ::
  "uint32 \<Rightarrow> context_t \<Rightarrow> bool \<Rightarrow> mysock_context \<Rightarrow> context_t \<Rightarrow> bool \<Rightarrow> byte list list \<Rightarrow> seg list \<Rightarrow> byte list list \<Rightarrow> bool" where
  "ongoing if_ip t f ctx tb fb qb ab ws \<longleftrightarrow> able if_ip ctx \<and> list_all (good_packet if_ip (peer_ip ctx)) (network_recv_queue ctx) \<and>
     pair_inv t f (app_recv_queue ctx) tb fb qb ab (map seg (network_recv_queue ctx @ ws))"

lemma ongoing_window:
  assumes "ongoing if_ip t f ctx tb fb qb ab ws"
  shows "sender_window t = 3072 - int (in_flight t)" and "\<not> f \<Longrightarrow> in_flight t \<le> SENDER_WINDOW"
    and "f \<Longrightarrow> app_recv_queue ctx = []"
proof -
  have w: "window_inv t f (app_recv_queue ctx) ab (map seg (network_recv_queue ctx @ ws))"
    using assms by (simp add: ongoing_def pair_inv_def)
  show "sender_window t = 3072 - int (in_flight t)"
    using sender_window_eq [of t] window_inv_bounds(1) [OF w] by (simp add: SENDER_WINDOW_def)
  show "\<not> f \<Longrightarrow> in_flight t \<le> SENDER_WINDOW" "f \<Longrightarrow> app_recv_queue ctx = []"
    using w by (simp_all add: window_inv_def)
qed

text \<open>The states after the FIN of the peer has been seen by an established end.\<close>

definition half_closed :: "context_t \<Rightarrow> bool" where
  "half_closed t \<longleftrightarrow> connection_state t \<in> {CSTATE_CLOSE_WAIT, CSTATE_CLOSED}"

lemma half_closed_noticed: "noticed p t t' \<Longrightarrow> half_closed t \<Longrightarrow> half_closed t'"
  by (cases "seg p") (auto simp: noticed_def half_closed_def)

lemma half_closed_close: "half_closed t \<Longrightarrow> half_closed (after_close t)"
  by (auto simp: half_closed_def after_close_def)

lemma stage_network:
  assumes "ongoing if_ip t f ctx tb fb qb ab ws" and "network_recv_queue ctx \<noteq> []"
  shows "\<exists>t' ctx' ins ps. on_network_data if_ip t ctx = Inr (Some (t', ctx')) \<and> flow if_ip ctx ins ps ctx' \<and>
    ongoing if_ip t' f ctx' tb fb qb (ab @ map seg ps) ws \<and> in_flight t' \<le> in_flight t \<and>
    app_recv_queue ctx' = app_recv_queue ctx \<and> close_requested ctx' = close_requested ctx \<and>
    weight (map seg ps) + weight (map seg (network_recv_queue ctx')) < weight (map seg (network_recv_queue ctx)) \<and>
    \<not> list_ex is_fin (map seg ps) \<and> (half_closed t \<longrightarrow> half_closed t')"
proof -
  obtain p rest where q: "network_recv_queue ctx = p # rest" using assms(2) by (cases "network_recv_queue ctx") auto
  have a: "able if_ip ctx" "good_packet if_ip (peer_ip ctx) p" "list_all (good_packet if_ip (peer_ip ctx)) rest"
    and inv: "pair_inv t f (app_recv_queue ctx) tb fb qb ab (seg p # map seg (rest @ ws))"
    using assms(1) q by (auto simp: ongoing_def)
  obtain ps t' ctx' where e: "on_network_data if_ip t ctx = Inr (Some (t', ctx'))" "emits if_ip ctx ps ctx'"
    "map seg ps = seg_reply (seg p)" "noticed p t t'" "consumed p rest ctx ctx'"
    using on_network_data_effect [OF a(1) q a(2)] by blast
  have fl: "flow if_ip ctx [p] ps ctx'" using network_flow [OF e(2,3,5) q] .
  have "pair_inv t' f (app_recv_queue ctx) tb fb qb (ab @ map seg ps) (map seg (rest @ ws))"
    using pair_inv_network [OF inv, of t'] e(3,4) by (simp add: noticed_def)
  then have "ongoing if_ip t' f ctx' tb fb qb (ab @ map seg ps) ws"
    using flow_able [OF fl] a(3) e(5) by (simp add: ongoing_def consumed_def)
  moreover have "in_flight t' \<le> in_flight t"
    using window_inv_arrival(2) inv e(4) by (auto simp: pair_inv_def noticed_def)
  ultimately show ?thesis
    using e(1,3,5) fl q weight_reply [of "seg p"] half_closed_noticed [OF e(4)] by (intro exI [of _ t'] exI [of _ ctx'] exI [of _ "[p]"] exI [of _ ps]) (simp add: consumed_def)
qed

lemma stage_app:
  assumes "ongoing if_ip t False ctx tb fb qb ab ws" and "app_recv_queue ctx \<noteq> []" and "0 < window"
    and "in_flight t + window \<le> SENDER_WINDOW" and "6 \<le> fuel"
  shows "\<exists>t' ctx' ps. on_app_data fuel if_ip window t ctx = Inr (Some (t', ctx')) \<and> flow if_ip ctx [] ps ctx' \<and>
    ongoing if_ip t' False ctx' tb fb qb (ab @ map seg ps) ws \<and>
    network_recv_queue ctx' = network_recv_queue ctx \<and> close_requested ctx' = close_requested ctx \<and>
    load ctx' + weight (map seg ps) < load ctx \<and> \<not> list_ex is_fin (map seg ps) \<and> (half_closed t \<longrightarrow> half_closed t')"
proof -
  obtain d ds where q: "app_recv_queue ctx = d # ds" using assms(2) by (cases "app_recv_queue ctx") auto
  let ?t = "t\<lparr>current_sequence_num := current_sequence_num t + word_of_nat (min window (length d))\<rparr>"
  have a: "able if_ip ctx" "min window (length d) \<le> SENDER_WINDOW"
    and inv: "pair_inv t False (app_recv_queue ctx) tb fb qb ab (map seg (network_recv_queue ctx @ ws))"
    using assms(1,4) by (auto simp: ongoing_def)
  obtain ps ctx' where e: "on_app_data fuel if_ip window t ctx = Inr (Some (?t, ctx'))" "emits if_ip ctx ps ctx'"
    "map seg ps = data_segs (current_sequence_num t) (take window d)"
    "app_recv_queue ctx' = (if window < length d then drop window d # ds else ds)"
    "app_send_queue ctx' = app_send_queue ctx" "network_recv_queue ctx' = network_recv_queue ctx"
    "close_requested ctx' = close_requested ctx"
    using on_app_data_effect [OF a(1) q a(2) assms(5), of t] by blast
  have fl: "flow if_ip ctx [] ps ctx'" using app_flow [OF e(2,3) q e(4-6)] .
  have "pair_inv ?t False (app_recv_queue ctx') tb fb qb (ab @ map seg ps) (map seg (network_recv_queue ctx @ ws))"
    unfolding e(3) using assms(4) by (intro pair_inv_send [OF inv]) (simp_all add: min.commute)
  then have "ongoing if_ip ?t False ctx' tb fb qb (ab @ map seg ps) ws"
    using flow_able [OF fl] assms(1) e(6) by (simp add: ongoing_def)
  moreover have "load ctx' + weight (map seg ps) < load ctx"
    using weight_data_segs [of "current_sequence_num t" "take window d"] assms(3) e(4,7) by (auto simp: load_def q e(3))
  moreover have "\<not> list_ex is_fin (map seg ps)" by (simp only: e(3) data_segs_no_fin not_False_eq_True)
  moreover have "half_closed t \<longrightarrow> half_closed ?t" by (simp add: half_closed_def)
  ultimately show ?thesis using e(1,6,7) fl by blast
qed

lemma stage_close:
  assumes "ongoing if_ip t False ctx tb fb qb ab ws" and "app_recv_queue ctx = []"
  shows "\<exists>t' ctx' ps. on_close if_ip t ctx = Inr (Some (t', ctx')) \<and> flow if_ip ctx [] ps ctx' \<and>
    ongoing if_ip t' True ctx' tb fb qb (ab @ map seg ps) ws \<and> app_recv_queue ctx' = app_recv_queue ctx \<and>
    network_recv_queue ctx' = network_recv_queue ctx \<and> close_requested ctx' = close_requested ctx \<and> weight (map seg ps) = 2 \<and>
    (half_closed t \<longrightarrow> half_closed t')"
proof -
  have inv: "pair_inv t False [] tb fb qb ab (map seg (network_recv_queue ctx @ ws))" and a: "able if_ip ctx"
    using assms by (simp_all add: ongoing_def)
  obtain p ctx' where e: "on_close if_ip t ctx = Inr (Some (after_close t, ctx'))" "emits if_ip ctx [p] ctx'"
    "seg p = Fin_seg (current_sequence_num t)" "app_recv_queue ctx' = app_recv_queue ctx"
    "app_send_queue ctx' = app_send_queue ctx" "network_recv_queue ctx' = network_recv_queue ctx"
    "close_requested ctx' = close_requested ctx"
    using on_close_effect [OF a, of t] by blast
  have fl: "flow if_ip ctx [] [p] ctx'" using close_flow [OF e(2-6)] .
  have "ongoing if_ip (after_close t) True ctx' tb fb qb (ab @ map seg [p]) ws"
    using pair_inv_close [OF inv] flow_able [OF fl] assms e(3,4,6) by (simp add: ongoing_def)
  then show ?thesis using e fl half_closed_close [of t] by (intro exI [of _ "after_close t"] exI [of _ ctx'] exI [of _ "[p]"]) simp
qed

text \<open>The parts of an iteration, each of which may have nothing to do.\<close>

lemma part_network:
  assumes "ongoing if_ip t f ctx tb fb qb ab ws"
  obtains t' ctx' ins ps where
    "(if network_recv_queue ctx \<noteq> [] then on_network_data if_ip t ctx else Inr (Some (t, ctx))) = Inr (Some (t', ctx'))"
    "flow if_ip ctx ins ps ctx'" "ongoing if_ip t' f ctx' tb fb qb (ab @ map seg ps) ws" "in_flight t' \<le> in_flight t"
    "app_recv_queue ctx' = app_recv_queue ctx" "close_requested ctx' = close_requested ctx"
    "weight (map seg ps) + weight (map seg (network_recv_queue ctx')) + (if network_recv_queue ctx \<noteq> [] then 1 else 0)
      \<le> weight (map seg (network_recv_queue ctx))" "\<not> list_ex is_fin (map seg ps)" "half_closed t \<longrightarrow> half_closed t'"
proof (cases "network_recv_queue ctx = []")
  case True
  then show thesis using that [of t ctx "[]" "[]"] flow_same [of if_ip ctx] assms by (simp add: ongoing_def)
next
  case False
  with stage_network [OF assms] that show thesis by (fastforce simp: Suc_le_eq)
qed

lemma part_app:
  assumes "ongoing if_ip t f ctx tb fb qb ab ws" and "6 \<le> fuel" and "int (in_flight t) + window \<le> 3072"
  obtains t' ctx' ps where
    "(if app_recv_queue ctx \<noteq> [] \<and> window > 0 then on_app_data fuel if_ip (nat window) t ctx else Inr (Some (t, ctx))) =
      Inr (Some (t', ctx'))"
    "flow if_ip ctx [] ps ctx'" "ongoing if_ip t' f ctx' tb fb qb (ab @ map seg ps) ws"
    "network_recv_queue ctx' = network_recv_queue ctx" "close_requested ctx' = close_requested ctx"
    "app_recv_queue ctx = [] \<longrightarrow> app_recv_queue ctx' = []"
    "load ctx' + weight (map seg ps) + (if app_recv_queue ctx \<noteq> [] \<and> window > 0 then 1 else 0) \<le> load ctx"
    "\<not> list_ex is_fin (map seg ps)" "half_closed t \<longrightarrow> half_closed t'"
proof (cases "app_recv_queue ctx \<noteq> [] \<and> window > 0")
  case False
  then show thesis
    using that [of t ctx "[]"] flow_same [of if_ip ctx] assms(1) by (auto simp: ongoing_def)
next
  case True
  moreover have "\<not> f" using ongoing_window(3) [OF assms(1)] True by auto
  moreover have "in_flight t + nat window \<le> SENDER_WINDOW" using assms(3) True unfolding SENDER_WINDOW_def by arith
  ultimately obtain t' ctx' ps where "on_app_data fuel if_ip (nat window) t ctx = Inr (Some (t', ctx'))" "flow if_ip ctx [] ps ctx'"
    "ongoing if_ip t' f ctx' tb fb qb (ab @ map seg ps) ws" "network_recv_queue ctx' = network_recv_queue ctx"
    "close_requested ctx' = close_requested ctx" "load ctx' + weight (map seg ps) < load ctx" "\<not> list_ex is_fin (map seg ps)" "half_closed t \<longrightarrow> half_closed t'"
    using stage_app [of if_ip t ctx tb fb qb ab ws "nat window" fuel] assms(1,2) by auto
  then show thesis using True that [of t' ctx' ps] by simp
qed

lemma part_close:
  assumes "ongoing if_ip t f ctx tb fb qb ab ws" and "cl \<Longrightarrow> \<not> f \<and> app_recv_queue ctx = []"
  obtains t' ctx' ps where
    "(if cl then on_close if_ip t ctx else Inr (Some (t, ctx))) = Inr (Some (t', ctx'))"
    "flow if_ip ctx [] ps ctx'" "ongoing if_ip t' (f \<or> cl) ctx' tb fb qb (ab @ map seg ps) ws"
    "network_recv_queue ctx' = network_recv_queue ctx" "close_requested ctx' = close_requested ctx"
    "load ctx' = load ctx" "weight (map seg ps) = (if cl then 2 else 0)" "half_closed t \<longrightarrow> half_closed t'"
proof (cases cl)
  case False
  then show thesis
    using that [of t ctx "[]"] flow_same [of if_ip ctx] assms(1) by (simp add: ongoing_def)
next
  case True
  then obtain t' ctx' ps where "on_close if_ip t ctx = Inr (Some (t', ctx'))" "flow if_ip ctx [] ps ctx'"
    "ongoing if_ip t' True ctx' tb fb qb (ab @ map seg ps) ws" "app_recv_queue ctx' = app_recv_queue ctx"
    "network_recv_queue ctx' = network_recv_queue ctx" "close_requested ctx' = close_requested ctx" "weight (map seg ps) = 2" "half_closed t \<longrightarrow> half_closed t'"
    using stage_close [of if_ip t ctx tb fb qb ab ws] assms by auto
  then show thesis using True that [of t' ctx' ps] by (simp add: load_def)
qed

text \<open>Whether an iteration has something to do other than wait for the window to open.\<close>

definition busy :: "context_t \<Rightarrow> mysock_context \<Rightarrow> bool" where
  "busy t ctx \<longleftrightarrow> network_recv_queue ctx \<noteq> [] \<or> app_recv_queue ctx \<noteq> [] \<and> sender_window t > 0 \<or>
     close_requested ctx \<and> app_recv_queue ctx = []"

lemma turn_effect:
  assumes "ongoing if_ip t (c \<and> \<not> close_requested ctx) ctx tb fb qb ab ws" and "close_requested ctx \<Longrightarrow> c" and "6 \<le> fuel"
    and "\<not> (app_recv_queue ctx = [] \<and> network_recv_queue ctx = [] \<and> \<not> close_requested ctx)"
  shows "\<exists>t' ctx' ins ps. control_step1 fuel if_ip (t, ctx) = Inr (Some (t', ctx')) \<and> flow if_ip ctx ins ps ctx' \<and>
    ongoing if_ip t' (c \<and> \<not> close_requested ctx') ctx' tb fb qb (ab @ map seg ps) ws \<and> (close_requested ctx' \<longrightarrow> close_requested ctx) \<and>
    (list_ex is_fin (map seg ps) \<longrightarrow> close_requested ctx) \<and> (half_closed t \<longrightarrow> half_closed t') \<and>
    (busy t ctx \<longrightarrow> load ctx' + weight (map seg ps) + weight (map seg (network_recv_queue ctx')) <
      load ctx + weight (map seg (network_recv_queue ctx)))"
proof -
  let ?cl = "close_requested ctx \<and> app_recv_queue ctx = []" and ?f = "c \<and> \<not> close_requested ctx"
  let ?ctx = "ctx\<lparr>close_requested := close_requested ctx \<and> app_recv_queue ctx \<noteq> []\<rparr>"
  have on: "ongoing if_ip t ?f ?ctx tb fb qb ab ws" using assms(1) by (simp add: ongoing_def)
  have f0: "flow if_ip ctx [] [] ?ctx" using flow_refl assms(1) by (simp add: ongoing_def)
  obtain t1 c1 ins1 ps1 where 1:
    "(if network_recv_queue ?ctx \<noteq> [] then on_network_data if_ip t ?ctx else Inr (Some (t, ?ctx))) = Inr (Some (t1, c1))"
    "flow if_ip ?ctx ins1 ps1 c1" "ongoing if_ip t1 ?f c1 tb fb qb (ab @ map seg ps1) ws" "in_flight t1 \<le> in_flight t"
    "app_recv_queue c1 = app_recv_queue ?ctx" "close_requested c1 = close_requested ?ctx"
    "weight (map seg ps1) + weight (map seg (network_recv_queue c1)) + (if network_recv_queue ?ctx \<noteq> [] then 1 else 0)
      \<le> weight (map seg (network_recv_queue ?ctx))" "\<not> list_ex is_fin (map seg ps1)" "half_closed t \<longrightarrow> half_closed t1"
    by (rule part_network [OF on])
  have w: "int (in_flight t1) + sender_window t \<le> 3072" using ongoing_window(1) [OF assms(1)] 1(4) by simp
  obtain t2 c2 ps2 where 2:
    "(if app_recv_queue c1 \<noteq> [] \<and> sender_window t > 0 then on_app_data fuel if_ip (nat (sender_window t)) t1 c1 else Inr (Some (t1, c1))) =
      Inr (Some (t2, c2))"
    "flow if_ip c1 [] ps2 c2" "ongoing if_ip t2 ?f c2 tb fb qb ((ab @ map seg ps1) @ map seg ps2) ws"
    "network_recv_queue c2 = network_recv_queue c1" "close_requested c2 = close_requested c1"
    "app_recv_queue c1 = [] \<longrightarrow> app_recv_queue c2 = []"
    "load c2 + weight (map seg ps2) + (if app_recv_queue c1 \<noteq> [] \<and> sender_window t > 0 then 1 else 0) \<le> load c1"
    "\<not> list_ex is_fin (map seg ps2)" "half_closed t1 \<longrightarrow> half_closed t2"
    by (rule part_app [OF 1(3) assms(3) w])
  have cl: "?cl \<Longrightarrow> \<not> ?f \<and> app_recv_queue c2 = []" using 1(5) 2(6) by simp
  obtain t3 c3 ps3 where 3: "(if ?cl then on_close if_ip t2 c2 else Inr (Some (t2, c2))) = Inr (Some (t3, c3))"
    "flow if_ip c2 [] ps3 c3" "ongoing if_ip t3 (?f \<or> ?cl) c3 tb fb qb (((ab @ map seg ps1) @ map seg ps2) @ map seg ps3) ws"
    "network_recv_queue c3 = network_recv_queue c2" "close_requested c3 = close_requested c2" "load c3 = load c2"
    "weight (map seg ps3) = (if ?cl then 2 else 0)" "half_closed t2 \<longrightarrow> half_closed t3"
    by (rule part_close [OF 2(3) cl])
  have "control_step1 fuel if_ip (t, ctx) = Inr (Some (t3, c3))"
    using 1(1,5) 2(1) 3(1) assms(4) by (simp add: control_step1_eq)
  moreover have "flow if_ip ctx ins1 (ps1 @ ps2 @ ps3) c3"
    using flow_trans [OF f0 flow_trans [OF 1(2) flow_trans [OF 2(2) 3(2)]]] by simp
  moreover have "(?f \<or> ?cl) = (c \<and> \<not> close_requested c3)" "close_requested c3 \<longrightarrow> close_requested ctx"
    using 1(6) 2(5) 3(5) assms(2) by auto
  moreover have "list_ex is_fin (map seg (ps1 @ ps2 @ ps3)) \<longrightarrow> close_requested ctx"
    using 1(8) 2(8) 3(7) by (cases ps3) (auto split: if_splits)
  moreover have "load c1 + (if ?cl then 3 else 0) = load ctx"
    using 1(5,6) by (simp add: load_def)
  moreover from this have "busy t ctx \<Longrightarrow> load c3 + weight (map seg (ps1 @ ps2 @ ps3)) + weight (map seg (network_recv_queue c3)) <
      load ctx + weight (map seg (network_recv_queue ctx))"
    using 1(5,7) 2(4,7) 3(4,6,7) by (auto simp: busy_def split: if_splits)
  ultimately show ?thesis using 1(9) 2(9) 3(3,8) by (intro exI [of _ t3] exI [of _ c3] exI [of _ ins1] exI [of _ "ps1 @ ps2 @ ps3"]) simp
qed

end
