(* ===== verification/Stcp_Flow_Correct.thy ===== *)
theory Stcp_Flow_Correct
  imports Stcp_Flow
begin

text \<open>
  The earlier transport layer at both ends of a connection, in every interleaving: its window is never exceeded,
  everything written can always still arrive, and how a connection ends.
\<close>

section \<open>The invariant\<close>

definition own_fin :: "side \<Rightarrow> bool" where
  "own_fin a \<longleftrightarrow> closing a \<and> \<not> close_requested (mc a)"

definition both_inv :: "side \<Rightarrow> side \<Rightarrow> byte list list \<Rightarrow> byte list list \<Rightarrow> bool" where
  "both_inv a b pb pa \<longleftrightarrow> pair_inv (tp a) (own_fin a) (app_recv_queue (mc a)) (tp b) (own_fin b) (app_recv_queue (mc b))
     (map seg pb) (map seg pa)"

definition flow_inv :: "side \<times> side \<Rightarrow> bool" where
  "flow_inv x \<longleftrightarrow> (case x of (a, b) \<Rightarrow> end_ok a b \<and> end_ok b a \<and> (close_requested (mc a) \<longrightarrow> closing a) \<and>
     (close_requested (mc b) \<longrightarrow> closing b) \<and> (\<exists>pb pa. linked a b pb \<and> linked b a pa \<and> both_inv a b pb pa))"

lemma both_inv_swap: "both_inv a b pb pa \<longleftrightarrow> both_inv b a pa pb"
  unfolding both_inv_def by (rule pair_inv_swap)

lemma flow_inv_swap: "flow_inv (b, a) \<longleftrightarrow> flow_inv (a, b)"
  unfolding flow_inv_def prod.case using both_inv_swap by metis

lemma flow_invE:
  assumes "flow_inv (a, b)"
  obtains pb pa where "end_ok a b" "end_ok b a" "close_requested (mc a) \<Longrightarrow> closing a" "close_requested (mc b) \<Longrightarrow> closing b"
    "linked a b pb" "linked b a pa" "both_inv a b pb pa"
  using assms by (auto simp: flow_inv_def)

lemma flow_inv_opened: "opened x \<Longrightarrow> flow_inv x"
proof -
  assume o: "opened x"
  obtain a b where x: "x = (a, b)" by (cases x)
  from o have f: "fresh_end a b" "fresh_end b a" by (simp_all add: opened_def x)
  have "both_inv a b [] []"
    using f by (simp add: both_inv_def own_fin_def fresh_end_def pair_inv_def window_inv_def state_inv_def fin_inv_def
        close_inv_def SENDER_WINDOW_def)
  then show ?thesis
    using f linked_fresh [OF f] linked_fresh [OF f(2,1)]
    by (auto simp: flow_inv_def x fresh_end_def end_ok_def)
qed

text \<open>An end whose application has not closed may write.\<close>

lemma pair_inv_queue: "pair_inv ta False qa tb fb qb ab ba \<Longrightarrow> pair_inv ta False qa' tb fb qb ab ba"
  by (simp add: pair_inv_def window_inv_def)

text \<open>A turn of the end \<open>a\<close>, as it acts on the pair.\<close>

definition taken_turn :: "side \<Rightarrow> side \<Rightarrow> context_t \<Rightarrow> mysock_context \<Rightarrow> side \<times> side" where
  "taken_turn a b t ctx = (a\<lparr>tp := t, mc := ctx\<rparr>, b\<lparr>wire := wire b @ drop (length (tx_bytes (mc a))) (tx_bytes ctx)\<rparr>)"

definition idle :: "side \<Rightarrow> bool" where
  "idle a \<longleftrightarrow> app_recv_queue (mc a) = [] \<and> network_recv_queue (mc a) = [] \<and> \<not> close_requested (mc a)"

lemma turn_pair:
  assumes "flow_inv (a, b)" and "linked a b pb" and "linked b a pa" and "both_inv a b pb pa" and "\<not> idle a"
  shows "\<exists>t ctx ins ps pa'. turn1 n k (host a) (tp a, mc a) = Inr (Some (t, ctx)) \<and> pa = ins @ pa' \<and>
    network_recv_queue (mc a) = ins @ network_recv_queue ctx \<and>
    (case taken_turn a b t ctx of (a', b') \<Rightarrow> flow_inv (a', b') \<and> linked a' b' (pb @ ps) \<and> linked b' a' pa' \<and>
       both_inv a' b' (pb @ ps) pa') \<and> (list_ex is_fin (map seg ps) \<longrightarrow> close_requested (mc a)) \<and>
    (close_requested ctx \<longrightarrow> close_requested (mc a)) \<and> (half_closed (tp a) \<longrightarrow> half_closed t) \<and>
    (busy (tp a) (mc a) \<longrightarrow> load ctx + weight (map seg ps) + weight (map seg pa') < load (mc a) + weight (map seg pa))"
proof -
  have ok: "end_ok a b" "end_ok b a" and cl: "close_requested (mc a) \<Longrightarrow> closing a" "close_requested (mc b) \<Longrightarrow> closing b"
    using assms(1) by (auto simp: flow_inv_def)
  obtain ws where ws: "pa = network_recv_queue (mc a) @ ws" "list_all (good_packet (host a) (host b)) (network_recv_queue (mc a))"
    using assms(3) by (auto simp: linked_def)
  have "ongoing (host a) (tp a) (closing a \<and> \<not> close_requested (mc a)) (mc a) (tp b) (own_fin b) (app_recv_queue (mc b)) (map seg pb) ws"
    using assms(4) ok(1) ws by (simp add: ongoing_def both_inv_def own_fin_def end_ok_def)
  from turn_effect [OF this cl(1), of "n + 6"] assms(5) obtain t ctx ins ps where
    step: "control_step1 (n + 6) (host a) (tp a, mc a) = Inr (Some (t, ctx))" "flow (host a) (mc a) ins ps ctx"
      "ongoing (host a) t (closing a \<and> \<not> close_requested ctx) ctx (tp b) (own_fin b) (app_recv_queue (mc b)) (map seg pb @ map seg ps) ws"
      "close_requested ctx \<longrightarrow> close_requested (mc a)" "list_ex is_fin (map seg ps) \<longrightarrow> close_requested (mc a)"
      "half_closed (tp a) \<longrightarrow> half_closed t"
      "busy (tp a) (mc a) \<longrightarrow> load ctx + weight (map seg ps) + weight (map seg (network_recv_queue ctx)) <
        load (mc a) + weight (map seg (network_recv_queue (mc a)))"
    unfolding idle_def by auto
  have q: "network_recv_queue (mc a) = ins @ network_recv_queue ctx" using step(2) by (simp add: flow_def)
  obtain a' b' where ab: "taken_turn a b t ctx = (a', b')" by (cases "taken_turn a b t ctx")
  then have eqs: "a' = a\<lparr>tp := t, mc := ctx\<rparr>" "b' = b\<lparr>wire := wire b @ drop (length (tx_bytes (mc a))) (tx_bytes ctx)\<rparr>"
    by (simp_all add: taken_turn_def)
  have l: "end_ok a' b'" "linked a' b' (pb @ ps)" "linked b' a' (network_recv_queue ctx @ ws)"
    using linked_turn [OF ok(1) step(2) assms(2,3) eqs] ws(1) q by auto
  have inv: "both_inv a' b' (pb @ ps) (network_recv_queue ctx @ ws)"
    using step(3) by (simp add: both_inv_def own_fin_def eqs ongoing_def)
  moreover have "flow_inv (a', b')"
    using l inv ok(2) cl step(4) unfolding flow_inv_def by (auto simp: eqs end_ok_def)
  ultimately show ?thesis
    using step(1,4-7) q l ws(1) by (intro exI [of _ t] exI [of _ ctx] exI [of _ ins] exI [of _ ps] exI [of _ "network_recv_queue ctx @ ws"])
      (simp add: turn1_def ab)
qed

lemma idle_blocks: "idle a \<Longrightarrow> turn1 n k (host a) (tp a, mc a) = Inr None"
  by (simp add: idle_def turn1_def control_step1_eq)

lemma side_step_flow:
  assumes "side_step (turn1 n) a b a' b'" and "flow_inv (a, b)"
  shows "flow_inv (a', b')"
proof -
  obtain pb pa where inv: "end_ok a b" "end_ok b a" "close_requested (mc a) \<Longrightarrow> closing a" "close_requested (mc b) \<Longrightarrow> closing b"
    "linked a b pb" "linked b a pa" "both_inv a b pb pa"
    using flow_invE [OF assms(2)] by blast
  from assms(1) show ?thesis
  proof cases
    case (turns window t ctx)
    then have "\<not> idle a" using idle_blocks by fastforce
    from turn_pair [OF assms(2) inv(5-7) this, of n window] turns show ?thesis by (auto simp: taken_turn_def)
  next
    case (receives p rest)
    have "linked a' b pb \<and> linked b a' pa" using linked_receive [OF receives(3,4) inv(5,6) receives(1)] .
    moreover have "both_inv a' b pb pa" using inv(7) by (simp add: both_inv_def own_fin_def receives(1))
    ultimately show ?thesis using inv(1-4) receives(2) unfolding flow_inv_def by (auto simp: receives(1) end_ok_def)
  next
    case (writes d)
    have "both_inv a' b pb pa"
      using inv(7) writes(3) pair_inv_queue by (auto simp: both_inv_def own_fin_def writes(1))
    then show ?thesis
      using linked_app(1) [OF inv(5,6), of d] inv(1-4) writes(2) unfolding flow_inv_def by (auto simp: writes(1) end_ok_def)
  next
    case (reads m bs len q)
    have "both_inv a' b pb pa" using inv(7) by (simp add: both_inv_def own_fin_def reads(1))
    then show ?thesis
      using linked_app(2) [OF inv(5,6) reads(4)] inv(1-4) reads(2) unfolding flow_inv_def by (auto simp: reads(1) end_ok_def)
  next
    case closes
    have "both_inv a' b pb pa" using inv(7) closes(3) by (simp add: both_inv_def own_fin_def closes(1))
    then show ?thesis
      using linked_app(3) [OF inv(5,6), of True True] inv(1-4) closes(2) unfolding flow_inv_def by (auto simp: closes(1) end_ok_def)
  qed
qed

interpretation windowed: step_system "pair_step (turn1 n)" opened flow_inv for n
proof (unfold_locales, goal_cases)
  case (2 x y)
  then show ?case
    using side_step_flow flow_inv_swap by (cases x; cases y) (simp add: pair_step_def, blast)
qed (rule flow_inv_opened)

section \<open>Everything can arrive\<close>

lemma reachable_trans: "reachable_from step x y \<Longrightarrow> reachable_from step y z \<Longrightarrow> reachable_from step x z"
  by (rotate_tac, induction rule: reachable_from.induct) (auto intro: reachable_from.intros)

lemma reachable_one: "step x y \<Longrightarrow> reachable_from step x y"
  by (auto intro: reachable_from.intros)

lemma reachable_swap:
  "reachable_from (pair_step turn) x y \<Longrightarrow> reachable_from (pair_step turn) (snd x, fst x) (snd y, fst y)"
  by (induction rule: reachable_from.induct) (auto simp: pair_step_def intro: reachable_from.intros)

lemma reach_left: "reachable_from (pair_step turn) x (a, b) \<Longrightarrow> side_step turn a b a' b' \<Longrightarrow> reachable_from (pair_step turn) x (a', b')"
  by (erule reachable_from.next_state) (simp add: pair_step_def)

lemma reach_right: "reachable_from (pair_step turn) x (a, b) \<Longrightarrow> side_step turn b a b' a' \<Longrightarrow> reachable_from (pair_step turn) x (a', b')"
  by (erule reachable_from.next_state) (simp add: pair_step_def)

text \<open>The applications have done nothing between two states of an end.\<close>

definition same_app :: "side \<Rightarrow> side \<Rightarrow> bool" where
  "same_app a a' \<longleftrightarrow> written a' = written a \<and> got a' = got a \<and> closing a' = closing a"

text \<open>Nothing is left to do for the transport threads, or on the wires.\<close>

definition settled :: "side \<Rightarrow> bool" where
  "settled a \<longleftrightarrow> wire a = [] \<and> app_recv_queue (mc a) = [] \<and> \<not> close_requested (mc a) \<and>
     (network_recv_queue (mc a) = [] \<or> is_done (tp a))"

text \<open>The receiving thread takes all that is on the wire.\<close>

lemma wire_drained:
  assumes "linked a b pb" and "linked b a pa"
  shows "\<exists>a'. reachable_from (pair_step turn) (a, b) (a', b) \<and> wire a' = [] \<and> network_recv_queue (mc a') = pa \<and>
    a' = a\<lparr>wire := [], mc := (mc a)\<lparr>network_recv_queue := pa\<rparr>\<rparr> \<and> linked a' b pb \<and> linked b a' pa"
proof -
  obtain ws where ws: "wire a = concat (map dgram ws)" "pa = network_recv_queue (mc a) @ ws"
    using assms(2) by (auto simp: linked_def)
  from ws assms show ?thesis
  proof (induction ws arbitrary: a)
    case Nil
    then have "a\<lparr>wire := [], mc := (mc a)\<lparr>network_recv_queue := pa\<rparr>\<rparr> = a" by (cases a) simp
    with Nil show ?case by (intro exI [of _ a]) (simp add: reachable_from.start)
  next
    case (Cons w ws)
    let ?a = "a\<lparr>wire := concat (map dgram ws), mc := (mc a)\<lparr>network_recv_queue := enqueue (network_recv_queue (mc a)) w\<rparr>\<rparr>"
    have w: "wire a = dgram w @ concat (map dgram ws)" "length w \<le> 1500"
      using Cons.prems(1,2,4) by (auto simp: linked_def good_packet_def)
    have step: "pair_step turn (a, b) (?a, b)"
      using side_step.receives [OF w, of turn b] by (simp add: pair_step_def)
    have l: "linked ?a b pb" "linked b ?a pa" using linked_receive [OF w Cons.prems(3,4) refl] by simp_all
    have "\<exists>a'. reachable_from (pair_step turn) (?a, b) (a', b) \<and> wire a' = [] \<and> network_recv_queue (mc a') = pa \<and>
        a' = ?a\<lparr>wire := [], mc := (mc ?a)\<lparr>network_recv_queue := pa\<rparr>\<rparr> \<and> linked a' b pb \<and> linked b a' pa"
      using Cons.IH [of ?a] l Cons.prems(2) by (simp add: enqueue_def)
    then show ?case
      using reachable_trans [OF reachable_one [of "pair_step turn", OF step]] by (auto simp: enqueue_def)
  qed
qed

text \<open>Unless all is settled, one of the ends has something to do.\<close>

lemma some_end_busy:
  assumes "both_inv a b pb pa" and "network_recv_queue (mc a) = pa" and "network_recv_queue (mc b) = pb"
    and "app_recv_queue (mc a) \<noteq> [] \<or> close_requested (mc a) \<or> network_recv_queue (mc a) \<noteq> [] \<and> \<not> is_done (tp a)"
  shows "\<not> is_done (tp a) \<and> busy (tp a) (mc a) \<or> \<not> is_done (tp b) \<and> busy (tp b) (mc b)"
proof (cases "network_recv_queue (mc a) \<noteq> [] \<and> \<not> is_done (tp a)")
  case True
  then show ?thesis by (simp add: busy_def)
next
  case False
  have inv: "window_inv (tp a) (own_fin a) (app_recv_queue (mc a)) (map seg pb) (map seg pa)"
    "state_inv (tp a) (own_fin a)" "state_inv (tp b) (own_fin b)" "fin_inv (own_fin a) (map seg pb) (tp b)"
    using assms(1) by (simp_all add: both_inv_def pair_inv_def)
  have todo: "app_recv_queue (mc a) \<noteq> [] \<or> close_requested (mc a)" using assms(4) False by blast
  moreover have "own_fin a \<longrightarrow> app_recv_queue (mc a) = []" using inv(1) unfolding window_inv_def by blast
  ultimately have nf: "\<not> own_fin a" unfolding own_fin_def by blast
  then have na: "\<not> is_done (tp a)" using inv(2) by (auto simp: state_inv_def)
  then have pa: "pa = []" using False assms(2) by simp
  show ?thesis
  proof (cases "network_recv_queue (mc b) = []")
    case True
    then have "in_flight (tp a) \<le> 257" using inv(1) assms(3) pa by (auto simp: window_inv_def)
    then have "sender_window (tp a) > 0" using sender_window_eq [of "tp a"] by (simp add: SENDER_WINDOW_def)
    then show ?thesis using na todo by (auto simp: busy_def)
  next
    case nonempty: False
    have "\<not> is_done (tp b)" using inv(3,4) nf by (auto simp: state_inv_def fin_inv_def)
    then show ?thesis using nonempty by (simp add: busy_def)
  qed
qed

definition potential :: "side \<Rightarrow> side \<Rightarrow> byte list list \<Rightarrow> byte list list \<Rightarrow> nat" where
  "potential a b pb pa = load (mc a) + load (mc b) + (if is_done (tp b) then 0 else weight (map seg pb)) +
     (if is_done (tp a) then 0 else weight (map seg pa))"

lemma turn_progress:
  assumes "flow_inv (a, b)" and "linked a b pb" and "linked b a pa" and "both_inv a b pb pa"
    and "\<not> is_done (tp a)" and "busy (tp a) (mc a)"
  shows "\<exists>a' b' pb' pa'. pair_step (turn1 n) (a, b) (a', b') \<and> flow_inv (a', b') \<and> linked a' b' pb' \<and> linked b' a' pa' \<and>
    both_inv a' b' pb' pa' \<and> potential a' b' pb' pa' < potential a b pb pa \<and> same_app a a' \<and> same_app b b'"
proof -
  have "\<not> idle a" using assms(6) by (auto simp: busy_def idle_def)
  obtain t ctx ps pa' a' b' where
    t: "turn1 n 0 (host a) (tp a, mc a) = Inr (Some (t, ctx))" "taken_turn a b t ctx = (a', b')" "flow_inv (a', b')"
      "linked a' b' (pb @ ps)" "linked b' a' pa'" "both_inv a' b' (pb @ ps) pa'"
      "load ctx + weight (map seg ps) + weight (map seg pa') < load (mc a) + weight (map seg pa)"
  proof -
    obtain t ctx ins ps pa' where t: "turn1 n 0 (host a) (tp a, mc a) = Inr (Some (t, ctx))"
      "case taken_turn a b t ctx of (a', b') \<Rightarrow> flow_inv (a', b') \<and> linked a' b' (pb @ ps) \<and> linked b' a' pa' \<and> both_inv a' b' (pb @ ps) pa'"
      "busy (tp a) (mc a) \<longrightarrow> load ctx + weight (map seg ps) + weight (map seg pa') < load (mc a) + weight (map seg pa)"
      using turn_pair [OF assms(1-4) \<open>\<not> idle a\<close>, of n 0] by (elim exE conjE)
    obtain a' b' where "taken_turn a b t ctx = (a', b')" by (cases "taken_turn a b t ctx")
    with t assms(6) that [of t ctx a' b' ps pa'] show thesis by simp
  qed
  have eqs: "a' = a\<lparr>tp := t, mc := ctx\<rparr>" "b' = b\<lparr>wire := wire b @ drop (length (tx_bytes (mc a))) (tx_bytes ctx)\<rparr>"
    using t(2) by (simp_all add: taken_turn_def)
  have "pair_step (turn1 n) (a, b) (a', b')"
    using side_step.turns [where turn = "turn1 n" and window = 0, OF assms(5) _ t(1)] by (simp add: pair_step_def eqs)
  moreover have "potential a' b' (pb @ ps) pa' < potential a b pb pa"
    using t(7) assms(5) by (simp add: potential_def eqs)
  ultimately show ?thesis using t(3-6) by (intro exI [of _ a'] exI [of _ b'] exI [of _ "pb @ ps"] exI [of _ pa']) (simp add: same_app_def eqs)
qed

lemma completes:
  assumes "flow_inv (a, b)" and "linked a b pb" and "linked b a pa" and "both_inv a b pb pa"
  shows "\<exists>a' b'. reachable_from (pair_step (turn1 n)) (a, b) (a', b') \<and> flow_inv (a', b') \<and> settled a' \<and> settled b' \<and>
    same_app a a' \<and> same_app b b'"
  using assms
proof (induction "potential a b pb pa" arbitrary: a b pb pa rule: less_induct)
  case less
  let ?run = "reachable_from (pair_step (turn1 n))"
  obtain a1 where a1: "?run (a, b) (a1, b)" "a1 = a\<lparr>wire := [], mc := (mc a)\<lparr>network_recv_queue := pa\<rparr>\<rparr>" "linked a1 b pb" "linked b a1 pa"
    using wire_drained [OF less.prems(2,3)] by blast
  obtain b1 where b1: "?run (b, a1) (b1, a1)" "b1 = b\<lparr>wire := [], mc := (mc b)\<lparr>network_recv_queue := pb\<rparr>\<rparr>" "linked b1 a1 pa" "linked a1 b1 pb"
    using wire_drained [OF a1(4,3)] by blast
  have run: "?run (a, b) (a1, b1)" using reachable_trans [OF a1(1)] reachable_swap [OF b1(1)] by simp
  have inv: "flow_inv (a1, b1)" using windowed.inv_preserved [OF run less.prems(1)] .
  have both: "both_inv a1 b1 pb pa" using less.prems(4) by (simp add: both_inv_def own_fin_def a1(2) b1(2))
  have pot: "potential a1 b1 pb pa = potential a b pb pa" by (simp add: potential_def load_def a1(2) b1(2))
  have same: "same_app a a1" "same_app b b1" by (simp_all add: same_app_def a1(2) b1(2))
  have q: "network_recv_queue (mc a1) = pa" "network_recv_queue (mc b1) = pb" "wire a1 = []" "wire b1 = []" by (simp_all add: a1(2) b1(2))
  have swap: "both_inv b1 a1 pa pb" using both both_inv_swap by blast
  show ?case
  proof (cases "settled a1 \<and> settled b1")
    case True
    with run inv same show ?thesis by blast
  next
    case False
    then have "\<not> is_done (tp a1) \<and> busy (tp a1) (mc a1) \<or> \<not> is_done (tp b1) \<and> busy (tp b1) (mc b1)"
      using some_end_busy [OF both q(1,2)] some_end_busy [OF swap q(2,1)] q(3,4) unfolding settled_def by blast
    then obtain a2 b2 pb2 pa2 where 2: "pair_step (turn1 n) (a1, b1) (a2, b2)" "flow_inv (a2, b2)" "linked a2 b2 pb2" "linked b2 a2 pa2"
      "both_inv a2 b2 pb2 pa2" "potential a2 b2 pb2 pa2 < potential a1 b1 pb pa" "same_app a1 a2" "same_app b1 b2"
    proof
      assume "\<not> is_done (tp a1) \<and> busy (tp a1) (mc a1)"
      with turn_progress [OF inv b1(4,3) both, of n] that show thesis by blast
    next
      assume "\<not> is_done (tp b1) \<and> busy (tp b1) (mc b1)"
      with turn_progress [OF _ b1(3,4) swap, of n] inv flow_inv_swap obtain b2 a2 pa2 pb2 where
        "pair_step (turn1 n) (b1, a1) (b2, a2)" "flow_inv (b2, a2)" "linked b2 a2 pa2" "linked a2 b2 pb2" "both_inv b2 a2 pa2 pb2"
        "potential b2 a2 pa2 pb2 < potential b1 a1 pa pb" "same_app b1 b2" "same_app a1 a2"
        by blast
      moreover have "potential b2 a2 pa2 pb2 = potential a2 b2 pb2 pa2" "potential b1 a1 pa pb = potential a1 b1 pb pa"
        by (simp_all add: potential_def)
      ultimately show thesis
        using that flow_inv_swap both_inv_swap by (auto simp: pair_step_def)
    qed
    from 2(6) pot have "potential a2 b2 pb2 pa2 < potential a b pb pa" by simp
    from less.hyps [OF this 2(2-5)] obtain a3 b3 where 3: "?run (a2, b2) (a3, b3)" "flow_inv (a3, b3)" "settled a3" "settled b3"
      "same_app a2 a3" "same_app b2 b3" by blast
    have "?run (a, b) (a3, b3)" using reachable_trans [OF reachable_trans [OF run reachable_one [of "pair_step (turn1 n)", OF 2(1)]] 3(1)] .
    moreover have "same_app a a3" "same_app b b3" using same 2(7,8) 3(5,6) by (simp_all add: same_app_def)
    ultimately show ?thesis using 3(2-4) by blast
  qed
qed

section \<open>When all is settled\<close>

lemma settled_delivered:
  assumes "flow_inv (a, b)" and "settled a" and "settled b"
  shows "received b = written a"
proof -
  obtain pb pa where inv: "linked a b pb" "both_inv a b pb pa" using flow_invE [OF assms(1)] by blast
  obtain ws where ws: "wire b = concat (map dgram ws)" "pb = network_recv_queue (mc b) @ ws" using inv(1) by (auto simp: linked_def)
  have "ws = []" using ws(1) assms(3) by (cases ws) (auto simp: settled_def dgram_def bytes16_def)
  then have "network_recv_queue (mc b) = [] \<or> is_done (tp b)" "pb = network_recv_queue (mc b)"
    using ws(2) assms(3) by (simp_all add: settled_def)
  moreover have "is_done (tp b) \<Longrightarrow> list_all is_ack (map seg pb)"
    using inv(2) by (auto simp: both_inv_def pair_inv_def state_inv_def fin_inv_def)
  moreover have "list_all is_ack (map seg ps) \<Longrightarrow> concat (map (seg_data \<circ> seg) ps) = []" for ps
    by (induction ps) (auto elim: is_ack.elims)
  ultimately have "concat (map (seg_data \<circ> seg) pb) = []" by auto
  then show ?thesis using inv(1) assms(2) by (simp add: linked_def settled_def)
qed

text \<open>An end that has closed, whose peer has closed too, has ended or has lost the FIN of its peer.\<close>

lemma settled_states:
  assumes "flow_inv (a, b)" and "settled a" and "settled b" and "closing a" and "closing b" and "\<not> is_done (tp a)"
  shows "connection_state (tp a) = CSTATE_FIN_WAIT_2 \<and> \<not> is_done (tp b)"
proof -
  obtain pb pa where inv: "linked a b pb" "linked b a pa" "both_inv a b pb pa" using flow_invE [OF assms(1)] by blast
  have fin: "own_fin a" "own_fin b" using assms(2-5) by (simp_all add: own_fin_def settled_def)
  obtain ws where ws: "wire a = concat (map dgram ws)" "pa = network_recv_queue (mc a) @ ws" using inv(2) by (auto simp: linked_def)
  have "ws = []" using ws(1) assms(2) by (cases ws) (auto simp: settled_def dgram_def bytes16_def)
  then have pa: "pa = []" using ws(2) assms(2,6) by (simp add: settled_def)
  obtain ws' where ws': "wire b = concat (map dgram ws')" "pb = network_recv_queue (mc b) @ ws'" using inv(1) by (auto simp: linked_def)
  have "ws' = []" using ws'(1) assms(3) by (cases ws') (auto simp: settled_def dgram_def bytes16_def)
  then have pb: "pb = [] \<or> is_done (tp b)" using ws'(2) assms(3) by (auto simp: settled_def)
  have p: "state_inv (tp a) True" "state_inv (tp b) True" "fin_inv True (map seg pb) (tp b)" "close_inv (tp b) (tp a) True [] (map seg pb)"
    using inv(3) fin pa by (simp_all add: both_inv_def pair_inv_def)
  have "\<not> list_ex is_fin (map seg pb)"
    using pb p(2,3) acks_fin_last by (auto simp: state_inv_def fin_inv_def)
  then show ?thesis
    using p(1,2,4) assms(6) by (auto simp: state_inv_def close_inv_def)
qed

text \<open>An end that has seen the FIN of its peer before it closed does not wait.\<close>

lemma side_step_half_closed:
  assumes "side_step (turn1 n) a b a' b'" and "flow_inv (a, b)"
  shows "half_closed (tp a) \<Longrightarrow> half_closed (tp a')" and "half_closed (tp b) \<Longrightarrow> half_closed (tp b')"
proof -
  obtain pb pa where inv: "linked a b pb" "linked b a pa" "both_inv a b pb pa" using flow_invE [OF assms(2)] by blast
  from assms(1) have "(half_closed (tp a) \<longrightarrow> half_closed (tp a')) \<and> tp b' = tp b"
  proof cases
    case (turns window t ctx)
    then have "\<not> idle a" using idle_blocks by fastforce
    from turn_pair [OF assms(2) inv this, of n window] turns show ?thesis by auto
  qed simp_all
  then show "half_closed (tp a) \<Longrightarrow> half_closed (tp a')" and "half_closed (tp b) \<Longrightarrow> half_closed (tp b')" by simp_all
qed

lemma half_closed_stays:
  assumes "reachable_from (pair_step (turn1 n)) x y" and "flow_inv x"
  shows "(half_closed (tp (fst x)) \<longrightarrow> half_closed (tp (fst y))) \<and> (half_closed (tp (snd x)) \<longrightarrow> half_closed (tp (snd y)))"
  using assms
proof (induction rule: reachable_from.induct)
  case (next_state y z)
  have "flow_inv (fst y, snd y)" "flow_inv (snd y, fst y)"
    using windowed.inv_preserved [OF next_state.hyps(1) next_state.prems] flow_inv_swap [of "fst y" "snd y"] by simp_all
  with next_state show ?case
    unfolding pair_step_def using side_step_half_closed by blast
qed simp

section \<open>Both ends in \<^verbatim>\<open>FIN_WAIT\<close>\<close>

definition waiting :: "context_t \<Rightarrow> bool" where
  "waiting t \<longleftrightarrow> connection_state t \<in> {CSTATE_FIN_WAIT_1, CSTATE_FIN_WAIT_2}"

lemma closed_by_fin:
  assumes "close_inv ta tb finb ab ba" and "waiting tb"
  shows "connection_state ta = CSTATE_CLOSED \<longleftrightarrow>
    (if connection_state tb = CSTATE_FIN_WAIT_1 then fin_after (current_sequence_num tb) ab else list_ex is_fin ab)"
proof (cases "connection_state tb = CSTATE_FIN_WAIT_1")
  case True
  with assms(1) show ?thesis by (simp add: close_inv_def)
next
  case False
  with assms have "connection_state tb = CSTATE_FIN_WAIT_2" by (simp add: waiting_def)
  with assms(1) show ?thesis by (simp add: close_inv_def)
qed

lemma side_step_waiting:
  assumes "side_step (turn1 n) a b a' b'" and "flow_inv (a, b)" and "waiting (tp a)" and "waiting (tp b)"
  shows "waiting (tp a')" and "waiting (tp b')"
proof -
  obtain pb pa where inv: "linked a b pb" "linked b a pa" "both_inv a b pb pa" using flow_invE [OF assms(2)] by blast
  have sa: "state_inv (tp a) (own_fin a)" and ca: "close_inv (tp a) (tp b) (own_fin b) (map seg pb) (map seg pa)"
    using inv(3) by (simp_all add: both_inv_def pair_inv_def)
  have "own_fin a" using sa assms(3) by (auto simp: state_inv_def waiting_def split: if_splits)
  then have fin: "closing a" "\<not> close_requested (mc a)" by (simp_all add: own_fin_def)
  from assms(1) have "waiting (tp a') \<and> tp b' = tp b"
  proof cases
    case (turns window t ctx)
    then have "\<not> idle a" using idle_blocks by fastforce
    from turn_pair [OF assms(2) inv this, of n window] turns fin(2) obtain ps pa' where
      ps: "both_inv a' b' (pb @ ps) pa'" "\<not> list_ex is_fin (map seg ps)" "\<not> close_requested ctx"
      by (auto simp: taken_turn_def)
    have "tp a' = t" "tp b' = tp b" by (simp_all add: turns(1,2))
    then have st: "state_inv t (own_fin a')" "close_inv t (tp b) (own_fin b') (map seg pb @ map seg ps) (map seg pa')"
      using ps(1) unfolding both_inv_def pair_inv_def by simp_all
    have "own_fin a'" using fin(1) ps(3) by (simp add: own_fin_def turns(1))
    then have "connection_state t \<noteq> CSTATE_CLOSED \<Longrightarrow> waiting t" using st(1) by (auto simp: state_inv_def waiting_def)
    moreover have "connection_state (tp a) \<noteq> CSTATE_CLOSED" using assms(3) by (auto simp: waiting_def)
    then have "connection_state t \<noteq> CSTATE_CLOSED"
      using closed_by_fin [OF st(2) assms(4)] closed_by_fin [OF ca assms(4)] fin_after_no_fin [OF ps(2)] ps(2)
      by (simp only: list_ex_append split: if_splits) blast+
    ultimately show ?thesis by (simp add: turns(1,2))
  qed (use assms(3) fin in auto)
  then show "waiting (tp a')" and "waiting (tp b')" using assms(4) by simp_all
qed

lemma waiting_stays:
  assumes "reachable_from (pair_step (turn1 n)) x y" and "flow_inv x" and "waiting (tp (fst x))" and "waiting (tp (snd x))"
  shows "waiting (tp (fst y)) \<and> waiting (tp (snd y))"
  using assms
proof (induction rule: reachable_from.induct)
  case (next_state y z)
  have "flow_inv (fst y, snd y)" "flow_inv (snd y, fst y)"
    using windowed.inv_preserved [OF next_state.hyps(1) next_state.prems(1)] flow_inv_swap [of "fst y" "snd y"] by simp_all
  with next_state show ?case
    unfolding pair_step_def using side_step_waiting by blast
qed simp

lemma flow_inv_done: "flow_inv (a, b) \<Longrightarrow> waiting (tp a) \<Longrightarrow> \<not> is_done (tp a)"
  by (auto simp: both_inv_def pair_inv_def state_inv_def waiting_def elim!: flow_invE)

lemma flow_inv_window: "flow_inv (a, b) \<Longrightarrow> in_flight (tp a) \<le> SENDER_WINDOW + (if own_fin a then 1 else 0)"
  unfolding flow_inv_def both_inv_def pair_inv_def window_inv_def by auto

lemma flow_inv_no_fault:
  assumes "flow_inv (a, b)"
  shows "turn1 n k (host a) (tp a, mc a) \<noteq> Inl e"
proof (cases "idle a")
  case True
  then show ?thesis by (simp add: idle_blocks)
next
  case False
  obtain pb pa where "linked a b pb" "linked b a pa" "both_inv a b pb pa" using assms by (rule flow_invE)
  from turn_pair [OF assms this False, of n k] show ?thesis by auto
qed

section \<open>From the handshake\<close>

text \<open>What a handshake leaves behind: at most 257 sequence numbers the peer has not acknowledged in a packet that is looked at.\<close>

lemma handshake_context:
  assumes "handshake if_ip active rnd ctx = Inr (Some (t, err, ctx'))"
  shows "connection_state t = CSTATE_ESTABLISHED \<and> \<not> is_done t \<and> in_flight t \<le> 257"
proof -
  obtain n where n: "n < 256" "generate_initial_seq_num rnd calloc_context =
      calloc_context\<lparr>initial_sequence_num := word_of_nat n, current_sequence_num := word_of_nat n\<rparr>"
    using initial_seq_bound by blast
  have "\<not> is_done t \<and> ack_num t = 0 \<and> (\<exists>k \<le> 2. current_sequence_num t = word_of_nat (n + k)) \<and> connection_state t = CSTATE_ESTABLISHED"
  proof (cases active)
    case True
    with assms n(2) show ?thesis
      by (auto simp: handshake_def active_open_def Let_def next_seq_def note_peer_def calloc_context_def add.commute
          intro!: exI [of _ 2] dest!: bindw_SomeD split: if_splits)
  next
    case False
    with assms n(2) show ?thesis
      by (auto simp: handshake_def passive_open_def Let_def next_seq_def note_peer_def calloc_context_def add.commute
          intro!: exI [of _ 1] dest!: bindw_SomeD split: if_splits)
  qed
  moreover have "unat (word_of_nat (n + k) :: uint32) \<le> 257" if "k \<le> 2" for k
    using n(1) that unat_word_of_nat32 [of "n + k"] by simp
  ultimately show ?thesis by (auto simp: in_flight_def)
qed

text \<open>
  Two ends that have exchanged their handshakes, with either transport layer, are an open connection in the sense used
  here: all that is shown of open connections holds from then on.
\<close>

definition side_of :: "uint32 \<Rightarrow> context_t \<Rightarrow> mysock_context \<Rightarrow> side" where
  "side_of ip t ctx = \<lparr>host = ip, tp = t, mc = ctx, wire = [], written = [], got = [], closing = False\<rparr>"

lemma handshake_opens:
  assumes "stcp_ready ipA ctxA sA" and "stcp_ready ipB ctxB sB" and "peer_ip ctxA = ipB" and "peer_ip ctxB = ipA"
    and "app_recv_queue ctxA = []" and "app_send_queue ctxA = []" and "\<not> close_requested ctxA"
    and "app_recv_queue ctxB = []" and "app_send_queue ctxB = []" and "\<not> close_requested ctxB"
  shows "\<exists>syn synack ack tA tB ctxA' ctxB'.
    handshake1 ipA True rA (ctxA\<lparr>network_recv_queue := [synack]\<rparr>) = Inr (Some (tA, 0, ctxA')) \<and>
    handshake1 ipB False rB (ctxB\<lparr>network_recv_queue := [syn, ack]\<rparr>) = Inr (Some (tB, 0, ctxB')) \<and>
    tx_bytes ctxA' = tx_bytes ctxA @ dgram syn @ dgram ack \<and> tx_bytes ctxB' = tx_bytes ctxB @ dgram synack \<and>
    opened (side_of ipA tA ctxA', side_of ipB tB ctxB')"
proof -
  obtain syn synack ack tA tB sA' sB' where
    A: "handshake ipA True rA (ctxA\<lparr>network_recv_queue := [synack]\<rparr>) = Inr (Some (tA, 0, sent (ctxA\<lparr>network_recv_queue := []\<rparr>) sA'))"
      "tx sA' = tx sA @ dgram syn @ dgram ack" "stcp_ready ipA (sent (ctxA\<lparr>network_recv_queue := []\<rparr>) sA') sA'"
    and B: "handshake ipB False rB (ctxB\<lparr>network_recv_queue := [syn, ack]\<rparr>) = Inr (Some (tB, 0, sent (ctxB\<lparr>network_recv_queue := []\<rparr>) sB'))"
      "tx sB' = tx sB @ dgram synack" "stcp_ready ipB (sent (ctxB\<lparr>network_recv_queue := []\<rparr>) sB') sB'"
    using three_way_handshake [OF assms(1-4), of rA rB] by blast
  have "opened (side_of ipA tA (sent (ctxA\<lparr>network_recv_queue := []\<rparr>) sA'), side_of ipB tB (sent (ctxB\<lparr>network_recv_queue := []\<rparr>) sB'))"
    using handshake_context [OF A(1)] handshake_context [OF B(1)] A(3) B(3) assms(3-10)
    by (auto simp: opened_def fresh_end_def side_of_def able_def)
  moreover have "tx_bytes (sent (ctxA\<lparr>network_recv_queue := []\<rparr>) sA') = tx_bytes ctxA @ dgram syn @ dgram ack"
    "tx_bytes (sent (ctxB\<lparr>network_recv_queue := []\<rparr>) sB') = tx_bytes ctxB @ dgram synack"
    using tx_bytes_ready [OF A(3)] tx_bytes_ready [OF B(3)] tx_bytes_ready [OF assms(1)] tx_bytes_ready [OF assms(2)] A(2) B(2)
    by simp_all
  ultimately show ?thesis using A(1) B(1) unfolding handshake1_eq by blast
qed

section \<open>Properties\<close>

text \<open>
  C25: The earlier transport layer never has more than its window of 3072 bytes, and one more sequence number for the FIN,
  unacknowledged, whatever the interleaving of threads, packets and applications at the two ends. Hence the size computed
  for the next segment data never exceeds the payload buffer, and no turn of either thread faults.
\<close>

theorem window_respected:
  assumes "opened x" and "reachable_from (pair_step (turn1 n)) x (a, b)"
  shows "in_flight (tp a) \<le> SENDER_WINDOW + (if own_fin a then 1 else 0) \<and> sender_window (tp a) \<le> int SENDER_WINDOW \<and>
    turn1 n k (host a) (tp a, mc a) \<noteq> Inl e \<and> turn1 n k (host b) (tp b, mc b) \<noteq> Inl e \<and>
    in_flight (tp b) \<le> SENDER_WINDOW + (if own_fin b then 1 else 0) \<and> sender_window (tp b) \<le> int SENDER_WINDOW"
proof -
  have inv: "flow_inv (a, b)" "flow_inv (b, a)"
    using windowed.reachable_inv [OF assms(2,1)] flow_inv_swap by blast+
  have "in_flight (tp a) \<le> 2 ^ 30" "in_flight (tp b) \<le> 2 ^ 30"
    using inv [THEN flow_inv_window] by (auto simp: SENDER_WINDOW_def split: if_splits)
  then have "sender_window (tp a) \<le> int SENDER_WINDOW" "sender_window (tp b) \<le> int SENDER_WINDOW"
    using sender_window_eq [of "tp a"] sender_window_eq [of "tp b"] by simp_all
  with inv [THEN flow_inv_window] inv [THEN flow_inv_no_fault, of n k e] show ?thesis by blast
qed

theorem window_respected_witness:
  "in_flight (tp (demo_end 0x0100007F 0x0200007F)) \<le> 3072 \<and>
   turn1 0 0 0x0100007F (tp (demo_end 0x0100007F 0x0200007F), mc (demo_end 0x0100007F 0x0200007F)) \<noteq> Inl Out_of_bounds"
  using window_respected [OF demo_opened reachable_from.start, of 0 0 Out_of_bounds]
  by (simp add: own_fin_def demo_end_def SENDER_WINDOW_def)

text \<open>
  C9: With the earlier transport layer everything written can always still arrive: from every state that two ends can get
  into, further turns of the transport threads and receipts of packets, without any action of the applications,
  deliver all that has been written to the other end. If both applications have closed, both transport threads then have
  ended, or else both closed before either saw the FIN of the other, and both wait in \<^verbatim>\<open>FIN_WAIT_2\<close>.
\<close>

theorem everything_arrives:
  assumes "opened x" and "reachable_from (pair_step (turn1 n)) x (a, b)"
  shows "\<exists>a' b'. reachable_from (pair_step (turn1 n)) (a, b) (a', b') \<and> same_app a a' \<and> same_app b b' \<and>
    received b' = written a \<and> received a' = written b \<and>
    (closing a \<and> closing b \<longrightarrow> is_done (tp a') \<and> is_done (tp b') \<or>
      connection_state (tp a') = CSTATE_FIN_WAIT_2 \<and> connection_state (tp b') = CSTATE_FIN_WAIT_2 \<and>
      \<not> half_closed (tp a) \<and> \<not> half_closed (tp b))"
proof -
  have inv: "flow_inv (a, b)" using windowed.reachable_inv [OF assms(2,1)] .
  then obtain pb pa where "linked a b pb" "linked b a pa" "both_inv a b pb pa" by (rule flow_invE)
  from completes [OF inv this, of n] obtain a' b' where
    r: "reachable_from (pair_step (turn1 n)) (a, b) (a', b')" "flow_inv (a', b')" "settled a'" "settled b'" "same_app a a'" "same_app b b'"
    by blast
  have inv': "flow_inv (b', a')" using r(2) flow_inv_swap by blast
  have "received b' = written a" "received a' = written b"
    using settled_delivered [OF r(2-4)] settled_delivered [OF inv' r(4,3)] r(5,6) by (simp_all add: same_app_def)
  moreover have "is_done (tp a') \<and> is_done (tp b') \<or> connection_state (tp a') = CSTATE_FIN_WAIT_2 \<and>
      connection_state (tp b') = CSTATE_FIN_WAIT_2 \<and> \<not> half_closed (tp a) \<and> \<not> half_closed (tp b)" if "closing a" "closing b"
  proof -
    have cl: "closing a'" "closing b'" using that r(5,6) by (simp_all add: same_app_def)
    show ?thesis
      using settled_states [OF r(2-4) cl] settled_states [OF inv' r(4,3) cl(2,1)] half_closed_stays [OF r(1) inv]
      by (auto simp: half_closed_def)
  qed
  ultimately show ?thesis using r(1,5,6) by blast
qed

theorem everything_arrives_witness:
  "\<exists>a' b'. reachable_from (pair_step (turn1 0)) (demo_end 0x0100007F 0x0200007F, demo_end 0x0200007F 0x0100007F) (a', b') \<and>
     received b' = [1, 2, 3]"
proof -
  let ?a = "demo_end 0x0100007F 0x0200007F" and ?b = "demo_end 0x0200007F 0x0100007F"
  let ?a1 = "?a\<lparr>written := written ?a @ [1, 2, 3], mc := (mc ?a)\<lparr>app_recv_queue := enqueue (app_recv_queue (mc ?a)) [1, 2, 3]\<rparr>\<rparr>"
  have "side_step (turn1 0) ?a ?b ?a1 ?b" by (rule side_step.writes) (simp add: demo_end_def)
  then have run: "reachable_from (pair_step (turn1 0)) (?a, ?b) (?a1, ?b)"
    by (intro reachable_from.next_state [OF reachable_from.start]) (simp add: pair_step_def)
  from everything_arrives [OF demo_opened run] obtain a' b' where
    "reachable_from (pair_step (turn1 0)) (?a1, ?b) (a', b')" "received b' = written ?a1" by blast
  moreover have "written ?a1 = [1, 2, 3]" by (simp add: demo_end_def)
  ultimately show ?thesis using reachable_trans [OF run] by metis
qed

text \<open>
  A simultaneous close never ends. Once both ends of the earlier transport layer have sent their FIN before seeing that of
  the other, so that both are in \<^verbatim>\<open>FIN_WAIT_1\<close> or \<^verbatim>\<open>FIN_WAIT_2\<close>, neither thread ends whatever happens afterwards: each takes the
  FIN of its peer in a state in which it has no effect.
\<close>

theorem simultaneous_close_hangs:
  assumes "opened x" and "reachable_from (pair_step (turn1 n)) x (a, b)" and "waiting (tp a)" and "waiting (tp b)"
    and "reachable_from (pair_step (turn1 n)) (a, b) (a', b')"
  shows "\<not> is_done (tp a') \<and> \<not> is_done (tp b')"
proof -
  have inv: "flow_inv (a, b)" using windowed.reachable_inv [OF assms(2,1)] .
  have inv': "flow_inv (a', b')" "flow_inv (b', a')"
    using windowed.inv_preserved [OF assms(5) inv] flow_inv_swap by blast+
  show ?thesis
    using waiting_stays [OF assms(5) inv] assms(3,4) flow_inv_done [OF inv'(1)] flow_inv_done [OF inv'(2)] by simp
qed

text \<open>Both applications close, and both transport threads take a turn before any packet arrives.\<close>

lemma close_turn:
  assumes "flow_inv (a, b)" and "closing a" and "close_requested (mc a)" and "app_recv_queue (mc a) = []" and "network_recv_queue (mc a) = []"
    and "connection_state (tp a) = CSTATE_ESTABLISHED" and "\<not> is_done (tp a)"
  shows "\<exists>a' b'. side_step (turn1 n) a b a' b' \<and> waiting (tp a') \<and> tp b' = tp b \<and>
    mc b' = mc b \<and> closing b' = closing b"
proof -
  have a: "able (host a) ((mc a)\<lparr>close_requested := False\<rparr>)" using assms(1) by (simp add: flow_inv_def end_ok_def)
  obtain ctx where "on_close (host a) (tp a) ((mc a)\<lparr>close_requested := False\<rparr>) = Inr (Some (after_close (tp a), ctx))"
    using on_close_effect [OF a, of "tp a"] by blast
  then have "turn1 n 0 (host a) (tp a, mc a) = Inr (Some (after_close (tp a), ctx))"
    using assms(3-5) by (simp add: turn1_def control_step1_eq)
  from side_step.turns [where turn = "turn1 n" and window = 0 and b = b, OF assms(7) _ this] show ?thesis
    using assms(6) by (intro exI) (auto simp: waiting_def after_close_def)
qed

theorem simultaneous_close_hangs_witness:
  "\<exists>a b. reachable_from (pair_step (turn1 0)) (demo_end 0x0100007F 0x0200007F, demo_end 0x0200007F 0x0100007F) (a, b) \<and>
     waiting (tp a) \<and> waiting (tp b) \<and>
     (\<forall>a' b'. reachable_from (pair_step (turn1 0)) (a, b) (a', b') \<longrightarrow> \<not> is_done (tp a'))"
proof -
  let ?a = "demo_end 0x0100007F 0x0200007F" and ?b = "demo_end 0x0200007F 0x0100007F"
  let ?run = "reachable_from (pair_step (turn1 0))"
  let ?c = "\<lambda>s. s\<lparr>closing := True, mc := (mc s)\<lparr>close_requested := True\<rparr>\<rparr>"
  have cl: "side_step (turn1 0) ?a ?b (?c ?a) ?b" "side_step (turn1 0) ?b (?c ?a) (?c ?b) (?c ?a)"
    by (rule side_step.closes, simp add: demo_end_def)+
  have r1: "?run (?a, ?b) (?c ?a, ?c ?b)" using reach_right [OF reach_left [OF reachable_from.start cl(1)] cl(2)] .
  have c: "closing (?c (demo_end ip peer))" "close_requested (mc (?c (demo_end ip peer)))" "app_recv_queue (mc (?c (demo_end ip peer))) = []"
      "network_recv_queue (mc (?c (demo_end ip peer))) = []" "connection_state (tp (?c (demo_end ip peer))) = CSTATE_ESTABLISHED"
      "\<not> is_done (tp (?c (demo_end ip peer)))" for ip peer
    by (simp_all add: demo_end_def demo_stcp_def demo_established_def calloc_context_def fresh_context_def)
  have i1: "flow_inv (?c ?a, ?c ?b)" using windowed.reachable_inv [OF r1 demo_opened] .
  obtain a1 b1 where 1: "side_step (turn1 0) (?c ?a) (?c ?b) a1 b1" "waiting (tp a1)" "tp b1 = tp (?c ?b)" "mc b1 = mc (?c ?b)"
    "closing b1 = closing (?c ?b)"
    using close_turn [OF i1 c, of 0] by blast
  have r2: "?run (?a, ?b) (a1, b1)" using reach_left [OF r1 1(1)] .
  have i2: "flow_inv (b1, a1)" using windowed.reachable_inv [OF r2 demo_opened] flow_inv_swap by blast
  obtain b2 a2 where 2: "side_step (turn1 0) b1 a1 b2 a2" "waiting (tp b2)" "tp a2 = tp a1"
    using close_turn [OF i2, of 0, unfolded 1(3-5), OF c] by blast
  have r3: "?run (?a, ?b) (a2, b2)" using reach_right [OF r2 2(1)] .
  show ?thesis
    using r3 1(2) 2(2,3) simultaneous_close_hangs [OF demo_opened r3] by metis
qed

text \<open>
  The window relies on acknowledgements of what was sent. A peer that acknowledges \<open>n\<close> sequence numbers more opens the
  window beyond the payload buffer, and a write larger than the buffer is then copied past its end.
\<close>

theorem forged_ack_overflows:
  assumes "ack_num t = current_sequence_num t + word_of_nat n" and "0 < n" and "n \<le> 2 ^ 30"
    and "app_recv_queue ctx = d # ds" and "SENDER_WINDOW < length d" and "network_recv_queue ctx = []"
  shows "control_step1 fuel if_ip (t, ctx) = Inl Out_of_bounds"
proof -
  have "word_of_nat SENDER_WINDOW - (current_sequence_num t - ack_num t) = (word_of_int (int SENDER_WINDOW + int n) :: uint32)"
    using assms(1) by simp
  then have "sender_window t = signed_take_bit 31 (int SENDER_WINDOW + int n)"
    by (simp only: sender_window_def sint_sbintrunc') simp
  also have "\<dots> = int SENDER_WINDOW + int n"
    using assms(3) by (intro signed_take_bit_int_eq_self) (auto simp: SENDER_WINDOW_def)
  finally have w: "sender_window t = int SENDER_WINDOW + int n" .
  have "\<not> min (nat (sender_window t)) (length d) \<le> SENDER_WINDOW" using assms(2,5) w by auto
  then have "on_app_data fuel if_ip (nat (sender_window t)) t (ctx\<lparr>close_requested := close_requested ctx\<rparr>) = Inl Out_of_bounds"
    using on_app_data_overflow assms(4) by simp
  then show ?thesis using assms(4,6) w by (simp add: control_step1_eq SENDER_WINDOW_def)
qed

theorem forged_ack_overflows_witness:
  "control_step1 6 0x0100007F (calloc_context1\<lparr>ack_num := 1\<rparr>, demo_stcp [] [replicate 3073 7]) = Inl Out_of_bounds"
  by (rule forged_ack_overflows [of _ 1 _ "replicate 3073 7" "[]"])
    (simp_all add: calloc_context1_def demo_stcp_def SENDER_WINDOW_def)

text \<open>While the window is full and data is waiting, the loop does not wait but spins: an iteration returns at once and changes nothing.\<close>

theorem full_window_spins:
  assumes "in_flight t = SENDER_WINDOW" and "app_recv_queue ctx \<noteq> []" and "network_recv_queue ctx = []"
  shows "control_step1 fuel if_ip (t, ctx) = Inr (Some (t, ctx))"
proof -
  have "sender_window t = 0" using sender_window_eq [of t] assms(1) by (simp add: SENDER_WINDOW_def)
  then show ?thesis using assms(2,3) by (simp add: control_step1_eq)
qed

theorem full_window_spins_witness:
  "control_step1 6 0x0100007F (calloc_context1\<lparr>current_sequence_num := 3072\<rparr>, demo_stcp [] [[1]]) =
     Inr (Some (calloc_context1\<lparr>current_sequence_num := 3072\<rparr>, demo_stcp [] [[1]]))"
  by (rule full_window_spins) (simp_all add: in_flight_def calloc_context1_def demo_stcp_def SENDER_WINDOW_def)

end
