(* ===== verification/Spec2Isabelle.thy ===== *)
theory Spec2Isabelle
  imports Vns_Sent Sr_Threads Network_Descriptors Listen_Threads Stcp_Open Proxy_Server Stcp_Flow_Correct
begin

text \<open>
  Verification of the Computer-Network repository: its C programs, an IP router, the
  STCP transport stack with its file transfer, an HTTP proxy and a pair of example programs, modelled by a
  shallow embedding and proved correct as far as they are.

  \<^bold>\<open>The router\<close> (\<^verbatim>\<open>src/Router/src/router\<close>). A process connects to a VNS server, which
  authenticates it, describes its interfaces and then delivers Ethernet frames; it answers ARP
  requests and pings, forwards IP packets by the longest matching prefix, reports errors by ICMP,
  and a timer thread retransmits and expires ARP requests.
  \<^item> \<open>Inet_Cksum\<close>: \<^verbatim>\<open>cksum\<close> of \<^verbatim>\<open>sr_utils.c\<close>, equal to the one's-complement sum of RFC 1071.
  \<^item> \<open>Sr_If_Rt\<close>: the interface list (\<^verbatim>\<open>sr_if.c\<close>) and the routing table (\<^verbatim>\<open>sr_rt.c\<close>).
  \<^item> \<open>Sr_Arpcache\<close>: the ARP cache and its request queue (\<^verbatim>\<open>sr_arpcache.c\<close>), a refinement of maps.
  \<^item> \<open>Sr_Instance\<close>: the state \<^verbatim>\<open>struct sr_instance\<close>, the packet layouts (\<^verbatim>\<open>sr_protocol.h\<close>) and the
    transmit path (\<^verbatim>\<open>sr_send_packet\<close> of \<^verbatim>\<open>sr_vns_comm.c\<close>).
  \<^item> \<open>Sr_Router\<close>: the handlers of \<^verbatim>\<open>sr_router.c\<close> and the timer of \<^verbatim>\<open>sr_arpcache.c\<close>, one definition per
    function. \<open>Sr_Router_Correct\<close>: what each handler sends, the invariant of the running router (the step
    relation \<open>router_step\<close> has the received packets and the timer ticks, which do not overlap), safety of the receive
    path and of the timer, and the packets the code mistreats. \<open>Sr_Threads\<close>: the receiving thread, which handles ARP requests without
    the lock, beside the timeout thread (step relation \<open>arp_step\<close>): what still holds, and the use of freed requests.
  \<^item> \<open>Sha1\<close>: \<^verbatim>\<open>sha1.c\<close>, equal to FIPS 180. \<open>Sr_Vns_Server\<close>: the VNS session (\<^verbatim>\<open>sr_vns_comm.c\<close>,
    \<^verbatim>\<open>sr_verify_routing_table\<close> of \<^verbatim>\<open>sr_main.c\<close>). \<open>Vns_Messages\<close>: the structures of
    \<^verbatim>\<open>vnscommand.h\<close> as a datatype with their layouts, which read back; the session on bytes refines one on messages.
  \<^item> \<open>Sr_Dumper\<close>: the packet dump file (\<^verbatim>\<open>sr_dumper.c\<close>) and a reader for it. \<open>Sr_Outputs\<close>: what the router
    writes, proved once for all handlers in the locale \<open>output_contract\<close>: packet messages are well formed, and the dump
    file reads back unless two threads log at once. \<open>Vns_Sent\<close>: all messages sent from the start of the program on
    (step relation \<open>sending_step\<close>). \<open>Sr_Utils\<close>: the printers of headers, routes and interfaces;
    they stay in bounds, and a printed routing table loads again.
  \<^item> \<open>Sr_Main\<close>: \<^verbatim>\<open>sr_main.c\<close>: the command line, the start of the session, and the main loop beside the timer thread
    (step relation \<open>main_step\<close>, in which frames and ticks do not overlap); the state stays well typed in every reachable state.

  \<^bold>\<open>STCP\<close> (\<^verbatim>\<open>src/TCP/src\<close>). A transport protocol in user space: the application calls \<^verbatim>\<open>mysock_api.c\<close>; a
  thread per connection runs the transport layer \<^verbatim>\<open>transport.c\<close> on the interface \<^verbatim>\<open>stcp_api.c\<close>; another
  receives packets, which travel over a TCP connection (\<^verbatim>\<open>network_io_tcp.c\<close>); listening
  mysockets demultiplex requests in \<^verbatim>\<open>connection_demux.c\<close>.
  \<^item> \<open>Mysock_Queue\<close>: the packet queues of \<^verbatim>\<open>mysock.c\<close> as linked lists in a heap, which implement lists
    (locale \<open>packet_fifo\<close>). \<open>Mysock_Hash\<close>: the hash table of \<^verbatim>\<open>mysock_hash.h\<close>, a map (locale \<open>key_table\<close>).
  \<^item> \<open>Tcp_Sum\<close>: \<^verbatim>\<open>tcp_sum.c\<close>: a checksum that is set verifies, and every changed byte is detected.
  \<^item> \<open>Network_Io\<close>: datagrams over a TCP connection arrive complete and in order, however reads and
    writes are split. \<open>Network_Descriptors\<close>: the numbers of its sockets and pipes; each has one owner, who closes
    it once (step relation \<open>fd_step\<close>). \<open>Mysock\<close>: contexts and the descriptor table (\<open>table_ok\<close>).
  \<^item> \<open>Connection_Demux\<close>: the queue of a listening mysocket (\<open>lq_ok\<close>, an invariant of \<open>listen_step\<close>): a
    SYN opens a connection, acceptance is in order of completion. \<open>Listen_Threads\<close>: the loads and stores of its threads, which
    share it under a read lock (step relation \<open>queue_step\<close>): the backlog bounds the pending connections as long as
    no update of the counter is lost.
  \<^item> \<open>Stcp_Api\<close>, \<open>Stcp_Transport\<close>: the calls of the transport layer and the transport layer itself.
    \<open>Stcp_Correct\<close>: written data is segmented, sent and delivered. \<open>Stcp_Lifecycle\<close>: the handshake, the
    states of a connection (step relation \<open>stcp_step\<close>), closing, and the failures of each.
  \<^item> \<open>Mysock_Api\<close>: the application's calls, the receiving thread and closing. Reading gives the stream of
    bytes up to its end (locale \<open>byte_stream\<close>), accepting returns the completed connection, closing
    releases exactly what belongs to the descriptor.
  \<^item> \<open>File_Transfer\<close>: one request of the programs \<^verbatim>\<open>server.c\<close> and \<^verbatim>\<open>client.c\<close>: the client receives exactly the
    file it asked for, proved in the locale \<open>byte_stream\<close> for any stream of bytes. \<open>File_Programs\<close>: the server from
    its command line to the end of a connection, whose requests are all answered in order, and the
    command line of the client. \<open>File_Dialogue\<close>: the client's loop over the names a user types.
  \<^item> \<open>Stcp_End_To_End\<close>: the stack as a whole: what one application writes passes through its transport layer, the
    TCP connection, the receiving thread and the transport layer of the other end, and is read there.
    \<open>Stcp_Download\<close>: a request and its answer through all layers, so that the client has the file of the server.
    \<open>Stcp_Open\<close>: how \<^verbatim>\<open>myconnect\<close> and \<^verbatim>\<open>myaccept\<close> come to such a connection.
  \<^item> \<open>Stcp_Window\<close>: the earlier transport layer \<^verbatim>\<open>transport1.c\<close>, which computes its window. \<open>Stcp_Stream\<close>: two ends of a
    connection in any interleaving (step relation \<open>pair_step\<close>); what a transport layer has to do for its stream of bytes
    is the locale \<open>stream_transport\<close>, interpreted on both transport layers: nothing is lost, invented or reordered.
    \<open>Stcp_Flow\<close>: sequence numbers, acknowledgements and FINs under way between two ends of the earlier transport layer, and what a
    turn does to them. \<open>Stcp_Flow_Correct\<close>: its window is respected, everything written can always still arrive, and
    both ends close unless they do so simultaneously; a handshake leads to such a pair (\<open>handshake_opens\<close>).

  \<^bold>\<open>The HTTP proxy\<close> (\<^verbatim>\<open>src/HTTP/starter_code\<close>).
  \<^item> \<open>Proxy_Parse\<close>: the request parser \<^verbatim>\<open>proxy_parse.c\<close>. \<open>Proxy_Parse_Correct\<close>: the headers are a map in order
    of insertion (locale \<open>header_table\<close>), printing stays in the buffer and has the announced
    length, and printing what was parsed gives the text back.
  \<^item> \<open>Proxy\<close>: \<^verbatim>\<open>handle_client\<close> of \<^verbatim>\<open>proxy.c\<close>, end to end. \<open>Proxy_Server\<close>: the loop of \<^verbatim>\<open>proxy\<close>, in which every client
    is served by a process of its own. The contents of the uninitialised buffer are a parameter.

  \<^bold>\<open>The example pair\<close> (\<^verbatim>\<open>src/Server&Client\<close>).
  \<^item> \<open>Socket_Programs\<close>: \<^verbatim>\<open>client.c\<close> and \<^verbatim>\<open>server.c\<close>: messages are copied byte for byte, descriptors are closed.

  \<open>Net_Prelude\<close> has what all share: faults, byte buffers, machine integers in memory, C strings, and
  the locale \<open>step_system\<close> for invariants of state machines. \<open>C_Text\<close> has the functions of the C library on
  text: decimal numbers, \<^verbatim>\<open>atoi\<close>, \<^verbatim>\<open>sscanf\<close>, Internet addresses, \<^verbatim>\<open>getopt\<close>.

  \<^bold>\<open>Conventions.\<close>
  \<^item> A computation has type \<open>fault + 'a\<close>: a null dereference, an access outside a buffer, a use of freed
    memory, a failed assert (asserts are enabled in the builds, \<^verbatim>\<open>DEBUG\<close> and \<^verbatim>\<open>FIXED_INITNUM\<close> are
    not) and unbounded recursion are values. A call that waits, or a loop on input that has not
    arrived, has the value \<open>None\<close> until it can go on (\<open>bindw\<close>).
  \<^item> Hosts are little-endian with a 64-bit \<^verbatim>\<open>long\<close>. Machine integers are words; buffers with their length
    are lists; packed structures are offsets. Allocation succeeds; the contents of fresh or
    uninitialised memory are parameters (\<open>uninit\<close> arguments, the window of the transport layer).
  \<^item> Threads are the steps of a relation, or flags of a state with one definition per iteration of the thread's loop. What a
    mutex protects is one step. Where the code shares state without such a lock, the steps are the single accesses
    (\<open>Sr_Threads\<close>, \<open>Listen_Threads\<close>, the writes to the dump file in \<open>Sr_Outputs\<close>); the relations
    \<open>router_step\<close>, \<open>main_step\<close> and \<open>listen_step\<close> have whole operations as steps and are about runs in which these do not
    overlap. One clock reading is taken per handled event.
  \<^item> Linked lists are lists, except for the packet queues, whose heap is explicit; contexts, listen queues
    and ARP requests are identified by address. Overlapping \<^verbatim>\<open>memcpy\<close> copies forward.
  \<^item> The operating system is the list of the results of coming calls (\<^verbatim>\<open>recv\<close>, \<^verbatim>\<open>read\<close>, \<^verbatim>\<open>write\<close>, \<^verbatim>\<open>accept\<close>) and the
    bytes written; \<^verbatim>\<open>rand\<close>, the address of the host, and the results of \<^verbatim>\<open>bind\<close>, \<^verbatim>\<open>listen\<close> and \<^verbatim>\<open>realloc\<close> are
    parameters.
  \<^item> Bounds: \<open>handle_arpreq\<close> and \<open>sr_send_icmp_packet\<close> call each other, with a depth beyond which they
    have the value \<open>Diverges\<close>; one level is enough with neighbouring gateways (\<open>timer_tick_safe\<close>).
    The send loop has fuel; 6 iterations are enough for the sender's window of 3072 bytes
    when writes succeed, and no number is when they fail (\<open>dead_connection_spins\<close>). \<open>myclose\<close> has a depth,
    and 2 is enough: one for a listening mysocket and one for its connections. \<open>do_connection\<close> has a number of
    iterations; one more than there are requests is enough (\<open>session_served\<close>). That finite
    numbers of iterations of the transport and receiving threads move a request and its answer is part of
    \<open>file_downloaded\<close>. All other recursion
    is structural or has a termination proof.

  \<^bold>\<open>Not modelled.\<close> \<^verbatim>\<open>our_dprintf\<close> of \<^verbatim>\<open>transport1.c\<close>, \<^verbatim>\<open>sigchld_handler\<close> and
  \<^verbatim>\<open>get_in_addr\<close> of the example server, which are never called; messages on the terminal other than the
  listings of \<open>Sr_Utils\<close> and the output of the example server; \<^verbatim>\<open>mylocalip\<close>, whose result is a parameter; the
  Python modules that emulate the network, on third-party packages, and the measurement notebook. Alignment
  asserts on packets and the deadlock of locks held across joins are outside the model.
\<close>

end
